(* ===== verification/Harp_Prelude.thy ===== *)
theory Harp_Prelude
  imports Main "HOL-Library.Word"
begin

text \<open>
  Shared vocabulary of the development: the machine integer types of the C sources, byte strings
  as lists of 8-bit words, big- and little-endian packing (the shift-and-mask idiom that
  \<^verbatim>\<open>core/src/cbor.c\<close>, \<^verbatim>\<open>core/src/frame.c\<close> and \<^verbatim>\<open>core/src/audio.c\<close> all use), the counted
  \<^verbatim>\<open>for (uint64_t i = 0; i < n; i++)\<close> loop as a combinator, and the bit-level lemmas that the codec
  proofs share.
\<close>

unbundle bit_operations_syntax

section \<open>Types\<close>

type_synonym u8 = "8 word"
type_synonym u16 = "16 word"
type_synonym u32 = "32 word"
type_synonym u64 = "64 word"
type_synonym bytes = "u8 list"

named_theorems codec_simps \<open>equations that turn the C byte shuffling into packing functions\<close>
named_theorems enc_simps \<open>every encoder as one append to its output buffer\<close>
named_theorems enc_intros \<open>the same, for an encoder call that follows others\<close>

section \<open>Words and bytes\<close>

text \<open>Most significant byte first; \<open>n\<close> bytes of \<open>v\<close>.\<close>

primrec be_bytes :: "nat \<Rightarrow> 'a::len word \<Rightarrow> bytes" where
  "be_bytes 0 v = []"
| "be_bytes (Suc n) v = be_bytes n (drop_bit 8 v) @ [ucast v]"

text \<open>Least significant byte first.\<close>

primrec le_bytes :: "nat \<Rightarrow> 'a::len word \<Rightarrow> bytes" where
  "le_bytes 0 v = []"
| "le_bytes (Suc n) v = ucast v # le_bytes n (drop_bit 8 v)"

text \<open>The accumulating read \<^verbatim>\<open>v = (v << 8) | *p++\<close>.\<close>

definition be_val :: "bytes \<Rightarrow> 'a::len word" where
  "be_val bs = foldl (\<lambda>v b. push_bit 8 v OR ucast b) 0 bs"

primrec le_val :: "bytes \<Rightarrow> 'a::len word" where
  "le_val [] = 0"
| "le_val (b # bs) = ucast b OR push_bit 8 (le_val bs)"

lemma length_be_bytes [simp]: "length (be_bytes n v) = n"
  by (induction n arbitrary: v) auto

lemma length_le_bytes [simp]: "length (le_bytes n v) = n"
  by (induction n arbitrary: v) auto

lemma be_val_Nil [simp]: "be_val [] = 0"
  by (simp add: be_val_def)

lemma be_val_snoc: "be_val (bs @ [b]) = push_bit 8 (be_val bs) OR ucast b"
  by (simp add: be_val_def)

lemma join_low_byte:
  fixes v :: "'a::len word"
  shows "push_bit 8 (take_bit m (drop_bit 8 v)) OR ucast (ucast v :: u8) = take_bit (8 + m) v"
  by (rule bit_word_eqI) (auto simp: bit_simps)

text \<open>The same packing read back into a wider (or narrower) word.\<close>

lemma join_low_byte_cast:
  fixes v :: "'a::len word"
  shows "push_bit 8 (ucast (take_bit m (drop_bit 8 v))) OR ucast (ucast v :: u8)
    = (ucast (take_bit (8 + m) v) :: 'b::len word)"
  by (rule bit_word_eqI) (auto simp: bit_simps)

lemma be_val_be_bytes_cast:
  fixes v :: "'a::len word"
  shows "be_val (be_bytes n v) = (ucast (take_bit (8 * n) v) :: 'b::len word)"
proof (induction n arbitrary: v)
  case 0
  then show ?case by simp
next
  case (Suc n)
  show ?case by (simp add: be_val_snoc Suc.IH join_low_byte_cast)
qed

lemma be_val_be_bytes: "be_val (be_bytes n v) = take_bit (8 * n) v"
proof (induction n arbitrary: v)
  case 0
  then show ?case by simp
next
  case (Suc n)
  show ?case by (simp add: be_val_snoc Suc.IH join_low_byte)
qed

lemma le_val_le_bytes: "le_val (le_bytes n v) = take_bit (8 * n) v"
proof (induction n arbitrary: v)
  case 0
  then show ?case by simp
next
  case (Suc n)
  show ?case using join_low_byte [of "8 * n" v] by (simp add: Suc.IH or.commute)
qed

lemma take_bit_word_less: "v < 2 ^ m \<Longrightarrow> take_bit m v = v"
  for v :: "'a::len word"
  by (simp add: take_bit_eq_mask less_mask_eq)

lemma take_bit_word_ge: "LENGTH('a) \<le> m \<Longrightarrow> take_bit m v = v"
  for v :: "'a::len word"
  by (rule bit_word_eqI) (auto simp: bit_simps)

section \<open>C strings\<close>

text \<open>
  A C string is represented by the bytes before its terminating NUL.  \<open>cstr\<close> is what the string
  functions see of a buffer that was filled by \<^verbatim>\<open>memcpy\<close> and then NUL-terminated; \<open>str\<close> is a string
  literal.
\<close>

definition cstr :: "bytes \<Rightarrow> bytes" where
  "cstr bs = takeWhile (\<lambda>b. b \<noteq> 0) bs"

definition str :: "string \<Rightarrow> bytes" where
  "str s = map of_char s"

lemma cstr_no_nul: "0 \<notin> set bs \<Longrightarrow> cstr bs = bs"
  by (auto simp: cstr_def takeWhile_eq_all_conv)

lemma length_cstr_le: "length (cstr bs) \<le> length bs"
  by (simp add: cstr_def length_takeWhile_le)

lemma nul_notin_cstr [simp]: "0 \<notin> set (cstr bs)"
  by (auto simp: cstr_def dest: set_takeWhileD)

lemma cstr_idem [simp]: "cstr (cstr bs) = cstr bs"
  by (simp add: cstr_no_nul)

lemma length_str [simp]: "length (str s) = length s"
  by (simp add: str_def)

end
