(* ===== verification/Harp_Cbor.thy ===== *)
theory Harp_Cbor
  imports Harp_Prelude "HOL-Library.Sublist"
begin

text \<open>
  \<^verbatim>\<open>core/src/cbor.c\<close>: the growable output buffer \<open>harp_cbuf\<close>, the deterministic CBOR encoder and the
  bounds-checked decoder \<open>harp_cdec\<close>.  The floating point items are in \<^verbatim>\<open>Harp_Float\<close>.

  The buffer's contents are the list \<open>cb_buf\<close> (its length is the C field \<^verbatim>\<open>len\<close>); \<open>cb_avail\<close> is the
  allocator as this buffer sees it: \<^verbatim>\<open>realloc\<close> succeeds up to that many bytes, so that every
  out-of-memory path of the encoder is a branch of the model.  The decoder's two pointers are the list
  \<open>cd_rest\<close> of the bytes from \<^verbatim>\<open>p\<close> up to \<^verbatim>\<open>end\<close>; a pointer handed back to the caller is the list of bytes
  it points at.  An operation that in C returns a flag and writes an out-parameter returns an option.
\<close>

unbundle bit_operations_syntax

section \<open>The output buffer\<close>

record harp_cbuf =
  cb_buf :: bytes
  cb_cap :: nat
  cb_oom :: bool
  cb_avail :: nat

text \<open>The doubling loop of \<^verbatim>\<open>ensure\<close>.  The guard \<open>0 < c\<close> is what makes the C loop end.\<close>

function grow :: "nat \<Rightarrow> nat \<Rightarrow> nat" where
  "grow c n = (if 0 < c \<and> c < n then grow (2 * c) n else c)"
  by pat_completeness auto
termination
  by (relation "measure (\<lambda>(c, n). n - c)") auto

declare grow.simps [simp del]

definition ensure :: "harp_cbuf \<Rightarrow> nat \<Rightarrow> bool \<times> harp_cbuf" where
  "ensure b extra =
     (if cb_oom b then (False, b)
      else if length (cb_buf b) + extra \<le> cb_cap b then (True, b)
      else let ncap = grow (if cb_cap b \<noteq> 0 then cb_cap b else 256) (length (cb_buf b) + extra)
           in if cb_avail b < ncap then (False, b\<lparr>cb_oom := True\<rparr>)
              else (True, b\<lparr>cb_cap := ncap\<rparr>))"

definition harp_cbuf_init :: "harp_cbuf \<Rightarrow> harp_cbuf" where
  "harp_cbuf_init b = b\<lparr>cb_buf := [], cb_cap := 0, cb_oom := False\<rparr>"

definition harp_cbuf_free :: "harp_cbuf \<Rightarrow> harp_cbuf" where
  "harp_cbuf_free b = b\<lparr>cb_buf := [], cb_cap := 0, cb_oom := False\<rparr>"

definition harp_cbuf_reset :: "harp_cbuf \<Rightarrow> harp_cbuf" where
  "harp_cbuf_reset b = b\<lparr>cb_buf := [], cb_oom := False\<rparr>"

definition harp_cbuf_put :: "harp_cbuf \<Rightarrow> bytes \<Rightarrow> harp_cbuf" where
  "harp_cbuf_put b p =
     (case ensure b (length p) of
        (False, b') \<Rightarrow> b'
      | (True, b') \<Rightarrow> b'\<lparr>cb_buf := cb_buf b' @ p\<rparr>)"

section \<open>The encoder\<close>

text \<open>The bytes \<^verbatim>\<open>h[0..n)\<close> that \<^verbatim>\<open>put_head\<close> assembles.\<close>

definition head_bytes :: "u8 \<Rightarrow> u64 \<Rightarrow> bytes" where
  "head_bytes major v =
     (if v < 24 then [push_bit 5 major OR ucast v]
      else if v \<le> 0xff then [push_bit 5 major OR 24, ucast v]
      else if v \<le> 0xffff then [push_bit 5 major OR 25, ucast (drop_bit 8 v), ucast v]
      else if v \<le> 0xffffffff then
        [push_bit 5 major OR 26, ucast (drop_bit 24 v), ucast (drop_bit 16 v),
         ucast (drop_bit 8 v), ucast v]
      else (push_bit 5 major OR 27) # map (\<lambda>i. ucast (drop_bit (56 - 8 * i) v)) [0..<8])"

definition put_head :: "harp_cbuf \<Rightarrow> u8 \<Rightarrow> u64 \<Rightarrow> harp_cbuf" where
  "put_head b major v = harp_cbuf_put b (head_bytes major v)"

definition harp_cbor_uint :: "harp_cbuf \<Rightarrow> u64 \<Rightarrow> harp_cbuf" where
  "harp_cbor_uint b v = put_head b 0 v"

text \<open>The argument is the \<^verbatim>\<open>int64_t\<close> in two's complement.\<close>

definition harp_cbor_int :: "harp_cbuf \<Rightarrow> u64 \<Rightarrow> harp_cbuf" where
  "harp_cbor_int b v = (if sint v < 0 then put_head b 1 (- 1 - v) else put_head b 0 v)"

definition harp_cbor_bytes :: "harp_cbuf \<Rightarrow> bytes \<Rightarrow> harp_cbuf" where
  "harp_cbor_bytes b p = harp_cbuf_put (put_head b 2 (of_nat (length p))) p"

definition harp_cbor_textn :: "harp_cbuf \<Rightarrow> bytes \<Rightarrow> harp_cbuf" where
  "harp_cbor_textn b s = harp_cbuf_put (put_head b 3 (of_nat (length s))) s"

definition harp_cbor_text :: "harp_cbuf \<Rightarrow> bytes \<Rightarrow> harp_cbuf" where
  "harp_cbor_text b s = harp_cbor_textn b s"

definition harp_cbor_array :: "harp_cbuf \<Rightarrow> u64 \<Rightarrow> harp_cbuf" where
  "harp_cbor_array b n = put_head b 4 n"

definition harp_cbor_map :: "harp_cbuf \<Rightarrow> u64 \<Rightarrow> harp_cbuf" where
  "harp_cbor_map b n = put_head b 5 n"

definition harp_cbor_bool :: "harp_cbuf \<Rightarrow> bool \<Rightarrow> harp_cbuf" where
  "harp_cbor_bool b v = harp_cbuf_put b [if v then 0xf5 else 0xf4]"

definition harp_cbor_null :: "harp_cbuf \<Rightarrow> harp_cbuf" where
  "harp_cbor_null b = harp_cbuf_put b [0xf6]"

section \<open>The decoder\<close>

record harp_cdec =
  cd_rest :: bytes
  cd_err :: bool

definition harp_cdec_init :: "bytes \<Rightarrow> harp_cdec" where
  "harp_cdec_init buf = \<lparr>cd_rest = buf, cd_err = False\<rparr>"

definition cd_fail :: "harp_cdec \<Rightarrow> harp_cdec" where
  "cd_fail d = d\<lparr>cd_err := True\<rparr>"

definition cd_skip_bytes :: "harp_cdec \<Rightarrow> nat \<Rightarrow> harp_cdec" where
  "cd_skip_bytes d n = d\<lparr>cd_rest := drop n (cd_rest d)\<rparr>"

definition need :: "harp_cdec \<Rightarrow> nat \<Rightarrow> bool \<times> harp_cdec" where
  "need d n = (if cd_err d \<or> length (cd_rest d) < n then (False, cd_fail d) else (True, d))"

definition harp_cdec_peek :: "harp_cdec \<Rightarrow> int" where
  "harp_cdec_peek d =
     (if cd_err d \<or> cd_rest d = [] then - 1 else uint (drop_bit 5 (hd (cd_rest d))))"

definition harp_cdec_peek_null :: "harp_cdec \<Rightarrow> bool" where
  "harp_cdec_peek_null d \<longleftrightarrow> \<not> cd_err d \<and> cd_rest d \<noteq> [] \<and> hd (cd_rest d) = 0xf6"

text \<open>The number of argument bytes after the initial byte; \<open>None\<close> for the reserved values 28-30 and the
  indefinite length 31.\<close>

definition arg_len :: "u8 \<Rightarrow> nat option" where
  "arg_len ai = (if ai = 24 then Some 1 else if ai = 25 then Some 2 else if ai = 26 then Some 4
                 else if ai = 27 then Some 8 else None)"

definition read_head :: "harp_cdec \<Rightarrow> (u8 \<times> u8 \<times> u64) option \<times> harp_cdec" where
  "read_head d =
     (case need d 1 of
        (False, d) \<Rightarrow> (None, d)
      | (True, d) \<Rightarrow>
          let ib = hd (cd_rest d); d = cd_skip_bytes d 1;
              major = drop_bit 5 ib; ai = ib AND 0x1f
          in if ai < 24 then (Some (major, ai, ucast ai), d)
             else case arg_len ai of
                    None \<Rightarrow> (None, cd_fail d)
                  | Some n \<Rightarrow>
                      (case need d n of
                         (False, d) \<Rightarrow> (None, d)
                       | (True, d) \<Rightarrow>
                           (Some (major, ai, be_val (take n (cd_rest d))), cd_skip_bytes d n)))"

text \<open>
  \<^verbatim>\<open>harp_cdec_uint(d, &v)\<close> hands its out-parameter to \<^verbatim>\<open>read_head\<close>, so a well-formed head of another
  major type fails \<^emph>\<open>after\<close> it has overwritten \<^verbatim>\<open>v\<close>.  Callers that go on using \<^verbatim>\<open>v\<close> see that; the
  second argument is the value of \<^verbatim>\<open>v\<close> before the call.
\<close>

definition harp_cdec_uint_into :: "harp_cdec \<Rightarrow> u64 \<Rightarrow> bool \<times> u64 \<times> harp_cdec" where
  "harp_cdec_uint_into d v0 =
     (case read_head d of
        (None, d) \<Rightarrow> (False, v0, d)
      | (Some (major, ai, v), d) \<Rightarrow>
          if major \<noteq> 0 then (False, v, cd_fail d) else (True, v, d))"

definition harp_cdec_uint :: "harp_cdec \<Rightarrow> u64 option \<times> harp_cdec" where
  "harp_cdec_uint d =
     (case harp_cdec_uint_into d 0 of (ok, v, d') \<Rightarrow> (if ok then Some v else None, d'))"

definition harp_cdec_int :: "harp_cdec \<Rightarrow> u64 option \<times> harp_cdec" where
  "harp_cdec_int d =
     (case read_head d of
        (None, d) \<Rightarrow> (None, d)
      | (Some (major, ai, u), d) \<Rightarrow>
          if major = 0 then
            if u > 0x7fffffffffffffff then (None, cd_fail d) else (Some u, d)
          else if major = 1 then
            if u > 0x7fffffffffffffff then (None, cd_fail d) else (Some (- 1 - u), d)
          else (None, cd_fail d))"

definition read_string :: "harp_cdec \<Rightarrow> u8 \<Rightarrow> bytes option \<times> harp_cdec" where
  "read_string d want_major =
     (case read_head d of
        (None, d) \<Rightarrow> (None, d)
      | (Some (major, ai, len), d) \<Rightarrow>
          if major \<noteq> want_major \<or> unat len > length (cd_rest d) then (None, cd_fail d)
          else (Some (take (unat len) (cd_rest d)), cd_skip_bytes d (unat len)))"

definition harp_cdec_bytes :: "harp_cdec \<Rightarrow> bytes option \<times> harp_cdec" where
  "harp_cdec_bytes d = read_string d 2"

definition harp_cdec_text :: "harp_cdec \<Rightarrow> bytes option \<times> harp_cdec" where
  "harp_cdec_text d = read_string d 3"

text \<open>The cost of a map is computed in 64 bits: \<^verbatim>\<open>(*n) * 2\<close> wraps.\<close>

definition read_count :: "harp_cdec \<Rightarrow> u8 \<Rightarrow> u64 option \<times> harp_cdec" where
  "read_count d want_major =
     (case read_head d of
        (None, d) \<Rightarrow> (None, d)
      | (Some (major, ai, n), d) \<Rightarrow>
          if major \<noteq> want_major then (None, cd_fail d)
          else let cost = (if want_major = 5 then n * 2 else n)
               in if unat cost > length (cd_rest d) then (None, cd_fail d) else (Some n, d))"

definition harp_cdec_array :: "harp_cdec \<Rightarrow> u64 option \<times> harp_cdec" where
  "harp_cdec_array d = read_count d 4"

definition harp_cdec_map :: "harp_cdec \<Rightarrow> u64 option \<times> harp_cdec" where
  "harp_cdec_map d = read_count d 5"

definition harp_cdec_bool :: "harp_cdec \<Rightarrow> bool option \<times> harp_cdec" where
  "harp_cdec_bool d =
     (case need d 1 of
        (False, d) \<Rightarrow> (None, d)
      | (True, d) \<Rightarrow>
          if hd (cd_rest d) = 0xf4 then (Some False, cd_skip_bytes d 1)
          else if hd (cd_rest d) = 0xf5 then (Some True, cd_skip_bytes d 1)
          else (None, cd_fail d))"

definition harp_cdec_null :: "harp_cdec \<Rightarrow> unit option \<times> harp_cdec" where
  "harp_cdec_null d =
     (case need d 1 of
        (False, d) \<Rightarrow> (None, d)
      | (True, d) \<Rightarrow>
          if hd (cd_rest d) \<noteq> 0xf6 then (None, cd_fail d) else (Some (), cd_skip_bytes d 1))"

text \<open>
  \<^verbatim>\<open>for (uint64_t i = 0; i < n; i++) if (!f(d)) return false;\<close> as a loop over the number of
  iterations left.
\<close>

fun repeat_dec :: "(harp_cdec \<Rightarrow> unit option \<times> harp_cdec) \<Rightarrow> nat \<Rightarrow> harp_cdec
                   \<Rightarrow> unit option \<times> harp_cdec" where
  "repeat_dec f n d =
     (if n = 0 then (Some (), d)
      else case f d of
             (None, d') \<Rightarrow> (None, d')
           | (Some u, d') \<Rightarrow> repeat_dec f (n - 1) d')"

declare repeat_dec.simps [simp del]

text \<open>
  The same loop with local variables \<open>s\<close>: in \<open>loop_dec\<close> the body may \<^verbatim>\<open>return false\<close> (\<open>None\<close>); in
  \<open>loop_break\<close> it may \<^verbatim>\<open>break\<close> (first component \<open>False\<close>), which keeps the variables as they are.
\<close>

fun loop_dec :: "('s \<Rightarrow> harp_cdec \<Rightarrow> 's option \<times> harp_cdec) \<Rightarrow> nat \<Rightarrow> 's \<Rightarrow> harp_cdec
                 \<Rightarrow> 's option \<times> harp_cdec" where
  "loop_dec f n s d =
     (if n = 0 then (Some s, d)
      else case f s d of
             (None, d') \<Rightarrow> (None, d')
           | (Some s', d') \<Rightarrow> loop_dec f (n - 1) s' d')"

fun loop_break :: "('s \<Rightarrow> harp_cdec \<Rightarrow> bool \<times> 's \<times> harp_cdec) \<Rightarrow> nat \<Rightarrow> 's \<Rightarrow> harp_cdec
                   \<Rightarrow> 's \<times> harp_cdec" where
  "loop_break f n s d =
     (if n = 0 then (s, d)
      else case f s d of
             (False, s', d') \<Rightarrow> (s', d')
           | (True, s', d') \<Rightarrow> loop_break f (n - 1) s' d')"

declare loop_dec.simps [simp del] loop_break.simps [simp del]

text \<open>
  \<^verbatim>\<open>skip_item(d, depth)\<close>.  The first argument counts the nesting levels that are left,
  \<^verbatim>\<open>HARP_CBOR_MAX_DEPTH + 1 - depth\<close>; the recursion is structural in it.
\<close>

definition HARP_CBOR_MAX_DEPTH :: nat where
  "HARP_CBOR_MAX_DEPTH = 32"

primrec skip_item :: "nat \<Rightarrow> harp_cdec \<Rightarrow> unit option \<times> harp_cdec" where
  "skip_item 0 d = (None, cd_fail d)"
| "skip_item (Suc k) d =
     (case read_head d of
        (None, d) \<Rightarrow> (None, d)
      | (Some (major, ai, val), d) \<Rightarrow>
          if major = 0 \<or> major = 1 then (Some (), d)
          else if major = 2 \<or> major = 3 then
            if unat val > length (cd_rest d) then (None, cd_fail d)
            else (Some (), cd_skip_bytes d (unat val))
          else if major = 4 then repeat_dec (skip_item k) (unat val) d
          else if major = 5 then repeat_dec (skip_item k) (unat (val * 2)) d
          else if major = 6 then skip_item k d
          else if major = 7 then (Some (), d)
          else (None, cd_fail d))"

definition harp_cdec_skip :: "harp_cdec \<Rightarrow> unit option \<times> harp_cdec" where
  "harp_cdec_skip d = skip_item (HARP_CBOR_MAX_DEPTH + 1) d"

definition harp_cdec_span :: "harp_cdec \<Rightarrow> bytes option \<times> harp_cdec" where
  "harp_cdec_span d =
     (case harp_cdec_skip d of
        (None, d') \<Rightarrow> (None, d')
      | (Some u, d') \<Rightarrow> (Some (take (length (cd_rest d) - length (cd_rest d')) (cd_rest d)), d'))"

section \<open>The buffer appends or runs out of memory\<close>

lemma grow_ge: "c \<le> grow c n"
proof (induction c n rule: grow.induct)
  case (1 c n)
  then show ?case by (cases "0 < c \<and> c < n") (auto simp: grow.simps [of c n])
qed

lemma grow_enough: "0 < c \<Longrightarrow> n \<le> grow c n"
proof (induction c n rule: grow.induct)
  case (1 c n)
  then show ?case by (cases "c < n") (auto simp: grow.simps [of c n])
qed

lemma grow_pos: "0 < c \<Longrightarrow> 0 < grow c n"
  using grow_ge [of c n] by simp

lemma grow_grow: "0 < c \<Longrightarrow> n \<le> m \<Longrightarrow> grow (grow c n) m = grow c m"
proof (induction c n rule: grow.induct)
  case (1 c n)
  then show ?case
    by (cases "c < n") (auto simp: grow.simps [of c n] grow.simps [of c m])
qed

lemma grow_done: "n \<le> c \<Longrightarrow> grow c n = c"
  by (simp add: grow.simps)

definition cbuf_wf :: "harp_cbuf \<Rightarrow> bool" where
  "cbuf_wf b \<longleftrightarrow> length (cb_buf b) \<le> cb_cap b"

text \<open>Two buffers are interchangeable when they are equal or both have run out of memory.\<close>

definition cb_eq :: "harp_cbuf \<Rightarrow> harp_cbuf \<Rightarrow> bool" where
  "cb_eq b c \<longleftrightarrow> b = c \<or> (cb_oom b \<and> cb_oom c)"

text \<open>What a caller may read of a buffer: nothing after \<^verbatim>\<open>oom\<close>, else the bytes.\<close>

definition cb_view :: "harp_cbuf \<Rightarrow> bytes option" where
  "cb_view b = (if cb_oom b then None else Some (cb_buf b))"

lemma cb_eq_refl [simp]: "cb_eq b b"
  by (simp add: cb_eq_def)

lemma cb_eq_sym: "cb_eq b c \<Longrightarrow> cb_eq c b"
  by (auto simp: cb_eq_def)

lemma cb_eq_trans [trans]: "cb_eq b c \<Longrightarrow> cb_eq c e \<Longrightarrow> cb_eq b e"
  by (auto simp: cb_eq_def)

lemma cb_eq_view: "cb_eq b c \<Longrightarrow> cb_view b = cb_view c"
  by (auto simp: cb_eq_def cb_view_def)

lemma ensure_oom: "cb_oom b \<Longrightarrow> ensure b n = (False, b)"
  by (simp add: ensure_def)

lemma harp_cbuf_put_oom [simp]: "cb_oom b \<Longrightarrow> harp_cbuf_put b xs = b"
  by (simp add: harp_cbuf_put_def ensure_oom)

lemma cb_eq_put: "cb_eq b c \<Longrightarrow> cb_eq (harp_cbuf_put b xs) (harp_cbuf_put c xs)"
  by (auto simp: cb_eq_def)

lemma harp_cbuf_put_put:
  "cb_eq (harp_cbuf_put (harp_cbuf_put b xs) ys) (harp_cbuf_put b (xs @ ys))"
proof -
  let ?c = "if cb_cap b \<noteq> 0 then cb_cap b else 256"
  let ?n = "length (cb_buf b) + length xs"
  let ?m = "?n + length ys"
  have pos: "0 < ?c" by simp
  have mono: "grow ?c ?n \<le> grow ?c ?m"
    using grow_grow [OF pos, of ?n ?m] grow_ge [of "grow ?c ?n" ?m] by simp
  have again: "grow (grow ?c ?n) ?m = grow ?c ?m" "0 < grow ?c ?n" "grow ?c ?n \<ge> ?n"
    using grow_grow [OF pos, of ?n ?m] grow_pos [OF pos] grow_enough [OF pos] by simp_all
  have done': "?m \<le> grow ?c ?n \<Longrightarrow> grow ?c ?m = grow ?c ?n"
    using again(1) grow_done by simp
  show ?thesis
    using mono again done' [symmetric]
    by (cases "cb_oom b"; cases "?n \<le> cb_cap b"; cases "cb_avail b < grow ?c ?n")
      (auto simp: cb_eq_def harp_cbuf_put_def ensure_def Let_def add.assoc)
qed

lemma cb_view_put_put [simp]:
  "cb_view (harp_cbuf_put (harp_cbuf_put b xs) ys) = cb_view (harp_cbuf_put b (xs @ ys))"
  by (rule cb_eq_view) (rule harp_cbuf_put_put)

lemma cb_view_put_Some:
  "cb_view (harp_cbuf_put b xs) = Some bs \<Longrightarrow> \<not> cb_oom b \<and> bs = cb_buf b @ xs"
  by (auto simp: cb_view_def harp_cbuf_put_def ensure_def Let_def split: if_splits)

lemma harp_cbuf_put_wf: "cbuf_wf b \<Longrightarrow> cbuf_wf (harp_cbuf_put b xs)"
  using grow_enough [of "if cb_cap b \<noteq> 0 then cb_cap b else 256" "length (cb_buf b) + length xs"]
  by (auto simp: cbuf_wf_def harp_cbuf_put_def ensure_def Let_def)

lemma harp_cbuf_put_avail [simp]: "cb_avail (harp_cbuf_put b xs) = cb_avail b"
  by (auto simp: harp_cbuf_put_def ensure_def Let_def)

text \<open>
  A buffer writer that emits the fixed bytes \<open>bs\<close>: it behaves as one append of \<open>bs\<close>, whatever
  the allocator does in between.
\<close>

definition emits :: "(harp_cbuf \<Rightarrow> harp_cbuf) \<Rightarrow> bytes \<Rightarrow> bool" where
  "emits f bs \<longleftrightarrow> (\<forall>b. cbuf_wf b \<longrightarrow> cbuf_wf (f b) \<and> cb_eq (f b) (harp_cbuf_put b bs))"

lemma emits_put [intro!]: "emits (\<lambda>b. harp_cbuf_put b bs) bs"
  by (simp add: emits_def harp_cbuf_put_wf)

lemma emits_id: "emits (\<lambda>b. b) []"
  by (simp add: emits_def cbuf_wf_def cb_eq_def harp_cbuf_put_def ensure_def)

lemma emits_comp: "emits f xs \<Longrightarrow> emits g ys \<Longrightarrow> emits (\<lambda>b. g (f b)) (xs @ ys)"
  unfolding emits_def by (meson cb_eq_put cb_eq_trans harp_cbuf_put_put)

lemma emits_then_put: "emits f xs \<Longrightarrow> emits (\<lambda>b. harp_cbuf_put (f b) ys) (xs @ ys)"
  by (rule emits_comp [OF _ emits_put])

lemma emits_view: "emits f xs \<Longrightarrow> cbuf_wf b \<Longrightarrow> cb_view (f b) = cb_view (harp_cbuf_put b xs)"
  by (auto simp: emits_def intro: cb_eq_view)

lemma emits_Some:
  "emits f xs \<Longrightarrow> cbuf_wf b \<Longrightarrow> cb_view (f b) = Some bs \<Longrightarrow> bs = cb_buf b @ xs"
  by (simp add: emits_view) (blast dest: cb_view_put_Some)

lemma emits_foldl:
  assumes "\<And>x. x \<in> set xs \<Longrightarrow> emits (\<lambda>b. f b x) (g x)"
  shows "emits (\<lambda>b. foldl f b xs) (concat (map g xs))"
  using assms
proof (induction xs rule: rev_induct)
  case Nil
  then show ?case by (simp add: emits_id)
next
  case (snoc x xs)
  then have "emits (\<lambda>b. foldl f b xs) (concat (map g xs))" and "emits (\<lambda>b. f b x) (g x)"
    by simp_all
  then show ?case
    using emits_comp [of "\<lambda>b. foldl f b xs" _ "\<lambda>b. f b x"] by simp
qed

text \<open>Each primitive encoder is one append.\<close>

abbreviation enc_uint :: "u64 \<Rightarrow> bytes" where
  "enc_uint \<equiv> head_bytes 0"

abbreviation enc_bytes :: "bytes \<Rightarrow> bytes" where
  "enc_bytes p \<equiv> head_bytes 2 (of_nat (length p)) @ p"

abbreviation enc_text :: "bytes \<Rightarrow> bytes" where
  "enc_text p \<equiv> head_bytes 3 (of_nat (length p)) @ p"

lemma emits_uint [enc_simps]: "emits (\<lambda>b. harp_cbor_uint b v) (enc_uint v)"
  by (auto simp: harp_cbor_uint_def put_head_def)

lemma emits_bytes [enc_simps]: "emits (\<lambda>b. harp_cbor_bytes b p) (enc_bytes p)"
  unfolding harp_cbor_bytes_def put_head_def by (intro emits_then_put emits_put)

lemma emits_textn [enc_simps]: "emits (\<lambda>b. harp_cbor_textn b p) (enc_text p)"
  unfolding harp_cbor_textn_def put_head_def by (intro emits_then_put emits_put)

lemma emits_text [enc_simps]: "emits (\<lambda>b. harp_cbor_text b p) (enc_text p)"
  unfolding harp_cbor_text_def by (rule emits_textn)

lemma emits_array [enc_simps]: "emits (\<lambda>b. harp_cbor_array b n) (head_bytes 4 n)"
  by (auto simp: harp_cbor_array_def put_head_def)

lemma emits_map [enc_simps]: "emits (\<lambda>b. harp_cbor_map b n) (head_bytes 5 n)"
  by (auto simp: harp_cbor_map_def put_head_def)

lemma emits_bool [enc_simps]: "emits (\<lambda>b. harp_cbor_bool b v) [if v then 0xf5 else 0xf4]"
  by (auto simp: harp_cbor_bool_def)

lemma emits_null [enc_simps]: "emits harp_cbor_null [0xf6]"
  unfolding harp_cbor_null_def by (rule emits_put)

text \<open>The same in sequence: the proof of a composite encoder is one pass of these rules from its last call
  back to its first.\<close>

lemmas emits_uint_seq [enc_intros] = emits_comp [OF _ emits_uint]
lemmas emits_bytes_seq [enc_intros] = emits_comp [OF _ emits_bytes]
lemmas emits_textn_seq [enc_intros] = emits_comp [OF _ emits_textn]
lemmas emits_text_seq [enc_intros] = emits_comp [OF _ emits_text]
lemmas emits_array_seq [enc_intros] = emits_comp [OF _ emits_array]
lemmas emits_map_seq [enc_intros] = emits_comp [OF _ emits_map]
lemmas emits_bool_seq [enc_intros] = emits_comp [OF _ emits_bool]
lemmas emits_null_seq [enc_intros] = emits_comp [OF _ emits_null]

lemma emits_eq: "emits f xs \<Longrightarrow> xs = ys \<Longrightarrow> emits f ys"
  by simp

section \<open>Reading back what the encoder wrote\<close>

abbreviation dec :: "bytes \<Rightarrow> harp_cdec" where
  "dec r \<equiv> \<lparr>cd_rest = r, cd_err = False\<rparr>"

lemma major_of_initial: "m < 8 \<Longrightarrow> a < 32 \<Longrightarrow> drop_bit 5 (push_bit 5 m OR a) = m"
  for m a :: u8
proof -
  assume "m < 8" and "a < 32"
  then have m: "take_bit 3 m = m" and a: "take_bit 5 a = a"
    by (simp_all add: take_bit_word_less)
  have "drop_bit 5 (push_bit 5 (take_bit 3 m) OR take_bit 5 a) = take_bit 3 m"
    by (rule bit_word_eqI) (auto simp: bit_simps)
  with m a show ?thesis by simp
qed

lemma ai_of_initial: "a < 32 \<Longrightarrow> (push_bit 5 m OR a) AND 31 = a"
  for m a :: u8
proof -
  assume "a < 32"
  then have a: "take_bit 5 a = a" by (simp add: take_bit_word_less)
  have "take_bit 5 (push_bit 5 m OR take_bit 5 a) = take_bit 5 a"
    by (rule bit_word_eqI) (auto simp: bit_simps)
  with a show ?thesis by (simp add: take_bit_eq_mask mask_numeral)
qed

definition head_ai :: "u64 \<Rightarrow> u8" where
  "head_ai v = (if v < 24 then ucast v else if v \<le> 0xff then 24 else if v \<le> 0xffff then 25
                else if v \<le> 0xffffffff then 26 else 27)"

definition head_arg :: "u64 \<Rightarrow> bytes" where
  "head_arg v = (if v < 24 then [] else if v \<le> 0xff then be_bytes 1 v
                 else if v \<le> 0xffff then be_bytes 2 v
                 else if v \<le> 0xffffffff then be_bytes 4 v else be_bytes 8 v)"

lemma drop_bit_drop_bit_add: "drop_bit m (drop_bit n v) = drop_bit (n + m) v"
  for v :: "'a::len word"
  by (rule bit_word_eqI) (auto simp: bit_simps ac_simps)

lemma head_bytes_split: "head_bytes m v = (push_bit 5 m OR head_ai v) # head_arg v"
  by (simp add: head_bytes_def head_ai_def head_arg_def upt_rec numeral_eq_Suc
      drop_bit_drop_bit_add)

lemma head_ai_small: "v < 24 \<Longrightarrow> unat (ucast v :: u8) = unat v"
  for v :: u64
  by (simp add: word_less_nat_alt unsigned_ucast_eq take_bit_nat_eq_self)

lemma head_ai_less: "head_ai v < 32"
  using head_ai_small [of v] by (auto simp: head_ai_def word_less_nat_alt)

lemma head_ai_direct: "head_ai v < 24 \<longleftrightarrow> v < 24"
  using head_ai_small [of v] by (auto simp: head_ai_def word_less_nat_alt)

lemma ucast_low_byte: "ucast (ucast v :: u8) = take_bit 8 v"
  for v :: u64
  by (rule bit_word_eqI) (auto simp: bit_simps)

lemma ucast_head_ai: "v < 24 \<Longrightarrow> ucast (head_ai v) = v"
  using take_bit_word_less [of v 8] ucast_low_byte [of v]
  by (simp add: head_ai_def word_less_nat_alt)

lemma word_le_pred_iff: "v \<le> 255 \<longleftrightarrow> v < 2 ^ 8" "v \<le> 65535 \<longleftrightarrow> v < 2 ^ 16"
  "v \<le> 4294967295 \<longleftrightarrow> v < 2 ^ 32"
  for v :: u64
  by (auto simp: word_le_nat_alt word_less_nat_alt)

lemma be_val_width:
  fixes v :: "'a::len word"
  shows "v < 2 ^ (8 * n) \<or> LENGTH('a) \<le> 8 * n \<Longrightarrow> be_val (be_bytes n v) = v"
  by (auto simp: be_val_be_bytes take_bit_word_less take_bit_word_ge)

lemma head_arg_len:
  assumes "\<not> v < 24"
  shows "arg_len (head_ai v) = Some (length (head_arg v))" and "be_val (head_arg v) = v"
proof -
  show "arg_len (head_ai v) = Some (length (head_arg v))"
    using assms by (auto simp: head_ai_def head_arg_def arg_len_def simp del: be_bytes.simps)
  show "be_val (head_arg v) = v"
    unfolding head_arg_def using assms be_val_width [of v 1] be_val_width [of v 2]
      be_val_width [of v 4] be_val_width [of v 8]
    by (auto simp: word_le_pred_iff simp del: be_bytes.simps One_nat_def)
qed

lemma head_arg_direct: "v < 24 \<Longrightarrow> head_arg v = []"
  by (simp add: head_arg_def)

theorem read_head_head_bytes [simp]:
  "m < 8 \<Longrightarrow> read_head (dec (head_bytes m v @ r)) = (Some (m, head_ai v, v), dec r)"
  using head_arg_len [of v] ucast_head_ai [of v] major_of_initial [of m "head_ai v"]
  by (cases "v < 24")
    (simp_all add: read_head_def need_def head_bytes_split cd_skip_bytes_def Let_def
      ai_of_initial head_ai_less head_ai_direct head_arg_direct)


text \<open>The readers invert the writers, item by item; \<open>r\<close> is whatever follows in the buffer.\<close>

lemma harp_cdec_uint_enc [simp]: "harp_cdec_uint (dec (enc_uint v @ r)) = (Some v, dec r)"
  by (simp add: harp_cdec_uint_def harp_cdec_uint_into_def)

lemma harp_cdec_uint_into_enc [simp]:
  "harp_cdec_uint_into (dec (enc_uint v @ r)) v0 = (True, v, dec r)"
  by (simp add: harp_cdec_uint_into_def)

lemma unat_of_nat_len64 [simp]: "n < 2 ^ 64 \<Longrightarrow> unat (of_nat n :: u64) = n"
  by (simp add: unat_of_nat take_bit_nat_eq_self)

lemma read_string_enc:
  assumes "m < 8" and "length p < 2 ^ 64"
  shows "read_string (dec (head_bytes m (of_nat (length p)) @ p @ r)) m = (Some p, dec r)"
  using assms by (simp add: read_string_def cd_skip_bytes_def)

lemma harp_cdec_bytes_enc [simp]:
  "length p < 2 ^ 64 \<Longrightarrow> harp_cdec_bytes (dec (head_bytes 2 (of_nat (length p)) @ p @ r)) = (Some p, dec r)"
  by (simp add: harp_cdec_bytes_def read_string_enc)

lemma harp_cdec_text_enc [simp]:
  "length p < 2 ^ 64 \<Longrightarrow> harp_cdec_text (dec (head_bytes 3 (of_nat (length p)) @ p @ r)) = (Some p, dec r)"
  by (simp add: harp_cdec_text_def read_string_enc)

lemma harp_cdec_array_enc [simp]:
  "unat n \<le> length r \<Longrightarrow> harp_cdec_array (dec (head_bytes 4 n @ r)) = (Some n, dec r)"
  by (simp add: harp_cdec_array_def read_count_def)

lemma harp_cdec_map_enc [simp]:
  "unat (n * 2) \<le> length r \<Longrightarrow> harp_cdec_map (dec (head_bytes 5 n @ r)) = (Some n, dec r)"
  by (simp add: harp_cdec_map_def read_count_def)

lemma harp_cdec_bool_enc [simp]:
  "harp_cdec_bool (dec ((if v then 0xf5 else 0xf4) # r)) = (Some v, dec r)"
  by (simp add: harp_cdec_bool_def need_def cd_skip_bytes_def)

lemma harp_cdec_null_enc [simp]: "harp_cdec_null (dec (0xf6 # r)) = (Some (), dec r)"
  by (simp add: harp_cdec_null_def need_def cd_skip_bytes_def)

lemmas harp_cdec_enc_end [simp] =
  harp_cdec_uint_enc [where r = "[]", simplified]
  harp_cdec_uint_into_enc [where r = "[]", simplified]
  harp_cdec_bytes_enc [where r = "[]", simplified]
  harp_cdec_text_enc [where r = "[]", simplified]

lemma word_le_int64_max: "v \<le> 0x7fffffffffffffff \<longleftrightarrow> \<not> bit v 63"
  for v :: u64
proof
  assume "v \<le> 0x7fffffffffffffff"
  then have "v < 2 ^ 63" by (simp add: word_le_nat_alt word_less_nat_alt)
  then have "take_bit 63 v = v" by (rule take_bit_word_less)
  then have "bit v 63 = bit (take_bit 63 v) 63" by simp
  then show "\<not> bit v 63" by (simp add: bit_take_bit_iff)
next
  assume b: "\<not> bit v 63"
  have "take_bit 63 v = v"
  proof (rule bit_word_eqI)
    fix n assume "n < LENGTH(64)"
    then have "n < 63 \<or> n = 63" by auto
    with b show "bit (take_bit 63 v) n = bit v n" by (auto simp: bit_take_bit_iff)
  qed
  then have "unat v < 2 ^ 63"
    by (metis take_bit_nat_less_exp unsigned_take_bit_eq)
  then show "v \<le> 0x7fffffffffffffff" by (simp add: word_le_nat_alt)
qed

lemma sint_negative_iff: "sint v < 0 \<longleftrightarrow> bit v 63"
  for v :: u64
  by (simp add: sint_uint signed_take_bit_negative_iff bit_uint_iff)

lemma harp_cdec_int_enc:
  "harp_cdec_int (dec ((if sint v < 0 then head_bytes 1 (- 1 - v) else head_bytes 0 v) @ r))
     = (Some v, dec r)"
proof -
  have "- 1 - v = NOT v" by (simp add: not_eq_complement)
  then have "bit v 63 \<Longrightarrow> \<not> bit (- 1 - v) 63" by (simp add: bit_not_iff)
  then show ?thesis
    using word_le_int64_max [of v] word_le_int64_max [of "- 1 - v"]
    by (simp add: harp_cdec_int_def sint_negative_iff not_less [symmetric])
qed

lemma emits_int [enc_simps]:
  "emits (\<lambda>b. harp_cbor_int b v) (if sint v < 0 then head_bytes 1 (- 1 - v) else head_bytes 0 v)"
  by (auto simp: harp_cbor_int_def put_head_def)

section \<open>The contract of a reader\<close>

text \<open>
  Every decoder operation keeps this contract: it only ever moves forward inside the buffer, does
  nothing once the sticky error flag is set, leaves the flag clear when it succeeds, and consumes at
  least one byte per item.
\<close>

locale cdec_reader =
  fixes rd :: "harp_cdec \<Rightarrow> 'a option \<times> harp_cdec"
  assumes rd_suffix: "suffix (cd_rest (snd (rd d))) (cd_rest d)"
    and rd_sticky: "cd_err d \<Longrightarrow> rd d = (None, d)"
    and rd_ok: "fst (rd d) \<noteq> None \<Longrightarrow> \<not> cd_err (snd (rd d))"
    and rd_progress: "fst (rd d) \<noteq> None \<Longrightarrow> length (cd_rest (snd (rd d))) < length (cd_rest d)"
begin

lemma rd_length: "length (cd_rest (snd (rd d))) \<le> length (cd_rest d)"
  by (rule suffix_length_le) (rule rd_suffix)

lemma rd_no_err: "rd d = (Some x, d') \<Longrightarrow> \<not> cd_err d \<and> \<not> cd_err d'"
  using rd_sticky [of d] rd_ok [of d] by auto

end

lemma repeat_dec_0 [simp]: "repeat_dec f 0 d = (Some (), d)"
  by (simp add: repeat_dec.simps)

lemma repeat_dec_Suc [simp]:
  "repeat_dec f (Suc n) d =
     (case f d of (None, d') \<Rightarrow> (None, d') | (Some u, d') \<Rightarrow> repeat_dec f n d')"
  by (subst repeat_dec.simps) (simp split: prod.split option.split)

lemma loop_dec_0 [simp]: "loop_dec f 0 s d = (Some s, d)"
  by (simp add: loop_dec.simps)

lemma loop_dec_Suc [simp]:
  "loop_dec f (Suc n) s d =
     (case f s d of (None, d') \<Rightarrow> (None, d') | (Some s', d') \<Rightarrow> loop_dec f n s' d')"
  by (subst loop_dec.simps) (simp split: prod.split option.split)

lemma loop_dec_numeral [simp]:
  "loop_dec f (numeral k) s d =
     (case f s d of (None, d') \<Rightarrow> (None, d') | (Some s', d') \<Rightarrow> loop_dec f (pred_numeral k) s' d')"
  by (simp add: numeral_eq_Suc)

lemma loop_break_0 [simp]: "loop_break f 0 s d = (s, d)"
  by (simp add: loop_break.simps)

lemma loop_break_Suc [simp]:
  "loop_break f (Suc n) s d =
     (case f s d of (False, s', d') \<Rightarrow> (s', d') | (True, s', d') \<Rightarrow> loop_break f n s' d')"
  by (subst loop_break.simps) (simp split: prod.split bool.split)

lemma loop_break_numeral [simp]:
  "loop_break f (numeral k) s d =
     (case f s d of (False, s', d') \<Rightarrow> (s', d')
      | (True, s', d') \<Rightarrow> loop_break f (pred_numeral k) s' d')"
  by (simp add: numeral_eq_Suc)

context cdec_reader
begin

lemma rd_cases:
  obtains (fail) d' where "rd d = (None, d')" and "suffix (cd_rest d') (cd_rest d)"
  | (ok) x d' where "rd d = (Some x, d')" and "\<not> cd_err d" and "\<not> cd_err d'"
      and "suffix (cd_rest d') (cd_rest d)" and "length (cd_rest d') < length (cd_rest d)"
  using rd_suffix [of d] rd_no_err [of d] rd_progress [of d]
  by (cases "rd d"; cases "fst (rd d)") auto

end

lemma repeat_dec_suffix:
  assumes "cdec_reader f"
  shows "suffix (cd_rest (snd (repeat_dec f n d))) (cd_rest d)"
proof (induction n arbitrary: d)
  case (Suc n)
  show ?case
    by (cases rule: cdec_reader.rd_cases [OF assms, of d]) (auto intro: suffix_order.trans Suc.IH)
qed simp

text \<open>
  A loop whose count comes from the wire: if it ran to the end, each iteration consumed a byte, so the
  count is bounded by the bytes there were.
\<close>

lemma repeat_dec_consumes:
  assumes "cdec_reader f" and "\<not> cd_err d" and "repeat_dec f n d = (Some u, d')"
  shows "\<not> cd_err d'" and "n + length (cd_rest d') \<le> length (cd_rest d)"
  using assms(2,3)
proof (induction n arbitrary: d)
  case (Suc n)
  {
    case 1
    then show ?case
      by (cases rule: cdec_reader.rd_cases [OF assms(1), of d]) (use Suc.IH in auto)
  next
    case 2
    then show ?case
      by (cases rule: cdec_reader.rd_cases [OF assms(1), of d]) (use Suc.IH in fastforce)+
  }
qed simp_all

section \<open>Every decoder operation keeps the contract\<close>

lemma cd_fail_rest [simp]: "cd_rest (cd_fail d) = cd_rest d" "cd_err (cd_fail d)"
  by (simp_all add: cd_fail_def)

lemma cd_fail_err [simp]: "cd_err d \<Longrightarrow> cd_fail d = d"
  by (simp add: cd_fail_def)

lemma cd_skip_bytes_rest [simp]:
  "cd_rest (cd_skip_bytes d n) = drop n (cd_rest d)" "cd_err (cd_skip_bytes d n) = cd_err d"
  by (simp_all add: cd_skip_bytes_def)

interpretation read_head: cdec_reader read_head
proof unfold_locales
  fix d
  show "suffix (cd_rest (snd (read_head d))) (cd_rest d)"
    by (auto simp: read_head_def need_def Let_def suffix_drop split: option.splits
        intro: suffix_order.trans)
  show "cd_err d \<Longrightarrow> read_head d = (None, d)"
    by (simp add: read_head_def need_def)
  show "fst (read_head d) \<noteq> None \<Longrightarrow> \<not> cd_err (snd (read_head d))"
    by (auto simp: read_head_def need_def Let_def split: option.splits if_splits)
  show "fst (read_head d) \<noteq> None \<Longrightarrow> length (cd_rest (snd (read_head d))) < length (cd_rest d)"
    by (auto simp: read_head_def need_def Let_def split: option.splits if_splits)
qed

text \<open>
  A reader that looks at the head and then either fails, keeps the rest as it is, or drops some
  more of it, keeps the contract as well.
\<close>

lemma head_reader:
  assumes step: "\<And>d x d'. read_head d = (Some x, d') \<Longrightarrow>
      rd d = k x d' \<and> suffix (cd_rest (snd (k x d'))) (cd_rest d') \<and>
      (fst (k x d') \<noteq> None \<longrightarrow> \<not> cd_err (snd (k x d')))"
    and none: "\<And>d d'. read_head d = (None, d') \<Longrightarrow> rd d = (None, d')"
  shows "cdec_reader rd"
proof
  fix d
  consider (a) d' where "read_head d = (None, d')" "suffix (cd_rest d') (cd_rest d)"
    | (b) x d' where "read_head d = (Some x, d')" "\<not> cd_err d" "suffix (cd_rest d') (cd_rest d)"
        "length (cd_rest d') < length (cd_rest d)"
    by (cases d rule: read_head.rd_cases) auto
  note c = this
  show "suffix (cd_rest (snd (rd d))) (cd_rest d)"
    using c
  proof cases
    case a
    then show ?thesis by (simp add: none)
  next
    case b
    with step [OF b(1)] show ?thesis by (auto intro: suffix_order.trans)
  qed
  show "cd_err d \<Longrightarrow> rd d = (None, d)"
    using none read_head.rd_sticky by blast
  show "fst (rd d) \<noteq> None \<Longrightarrow> \<not> cd_err (snd (rd d))"
    using c
  proof cases
    case a
    then show "fst (rd d) \<noteq> None \<Longrightarrow> \<not> cd_err (snd (rd d))" by (simp add: none)
  next
    case b
    with step [OF b(1)] show "fst (rd d) \<noteq> None \<Longrightarrow> \<not> cd_err (snd (rd d))" by simp
  qed
  show "fst (rd d) \<noteq> None \<Longrightarrow> length (cd_rest (snd (rd d))) < length (cd_rest d)"
    using c
  proof cases
    case a
    then show "fst (rd d) \<noteq> None \<Longrightarrow> length (cd_rest (snd (rd d))) < length (cd_rest d)"
      by (simp add: none)
  next
    case b
    with step [OF b(1)]
    show "fst (rd d) \<noteq> None \<Longrightarrow> length (cd_rest (snd (rd d))) < length (cd_rest d)"
      by (auto dest!: suffix_length_le)
  qed
qed

interpretation uint_reader: cdec_reader harp_cdec_uint
  by (rule head_reader [where k = "\<lambda>(m, ai, v) d. if m \<noteq> 0 then (None, cd_fail d) else (Some v, d)"])
    (auto simp: harp_cdec_uint_def harp_cdec_uint_into_def dest: read_head.rd_no_err split: if_splits)

interpretation int_reader: cdec_reader harp_cdec_int
  by (rule head_reader [where k = "\<lambda>(m, ai, u) d.
        if m = 0 then if u > 0x7fffffffffffffff then (None, cd_fail d) else (Some u, d)
        else if m = 1 then if u > 0x7fffffffffffffff then (None, cd_fail d) else (Some (- 1 - u), d)
        else (None, cd_fail d)"])
    (auto simp: harp_cdec_int_def dest: read_head.rd_no_err split: if_splits)

lemma read_string_reader: "cdec_reader (\<lambda>d. read_string d m)"
  by (rule head_reader [where k = "\<lambda>(major, ai, len) d.
        if major \<noteq> m \<or> unat len > length (cd_rest d) then (None, cd_fail d)
        else (Some (take (unat len) (cd_rest d)), cd_skip_bytes d (unat len))"])
    (auto simp: read_string_def suffix_drop dest: read_head.rd_no_err split: if_splits)

interpretation bytes_reader: cdec_reader harp_cdec_bytes
  unfolding harp_cdec_bytes_def by (rule read_string_reader)

interpretation text_reader: cdec_reader harp_cdec_text
  unfolding harp_cdec_text_def by (rule read_string_reader)

lemma read_count_reader: "cdec_reader (\<lambda>d. read_count d m)"
  by (rule head_reader [where k = "\<lambda>(major, ai, n) d.
        if major \<noteq> m then (None, cd_fail d)
        else if unat (if m = 5 then n * 2 else n) > length (cd_rest d) then (None, cd_fail d)
        else (Some n, d)"])
    (auto simp: read_count_def dest: read_head.rd_no_err split: if_splits)

interpretation array_reader: cdec_reader harp_cdec_array
  unfolding harp_cdec_array_def by (rule read_count_reader)

interpretation map_reader: cdec_reader harp_cdec_map
  unfolding harp_cdec_map_def by (rule read_count_reader)

interpretation bool_reader: cdec_reader harp_cdec_bool
  by unfold_locales (auto simp: harp_cdec_bool_def need_def suffix_drop split: if_splits)

interpretation null_reader: cdec_reader harp_cdec_null
  by unfold_locales (auto simp: harp_cdec_null_def need_def suffix_drop split: if_splits)

lemma repeat_dec_ok:
  assumes "cdec_reader f" and "\<not> cd_err d" and "fst (repeat_dec f n d) = Some u"
  shows "\<not> cd_err (snd (repeat_dec f n d))"
  using repeat_dec_consumes(1) [OF assms(1,2), of n u "snd (repeat_dec f n d)"] assms(3)
  by (cases "repeat_dec f n d") auto

lemma skip_item_reader: "cdec_reader (skip_item k)"
proof (induction k)
  case 0
  show ?case by unfold_locales auto
next
  case (Suc k)
  note IH = repeat_dec_suffix [OF Suc.IH] cdec_reader.rd_suffix [OF Suc.IH]
    repeat_dec_ok [OF Suc.IH] cdec_reader.rd_ok [OF Suc.IH]
  show ?case
    by (rule head_reader [where k = "\<lambda>(major, ai, val) d.
          if major = 0 \<or> major = 1 then (Some (), d)
          else if major = 2 \<or> major = 3 then
            if unat val > length (cd_rest d) then (None, cd_fail d)
            else (Some (), cd_skip_bytes d (unat val))
          else if major = 4 then repeat_dec (skip_item k) (unat val) d
          else if major = 5 then repeat_dec (skip_item k) (unat (val * 2)) d
          else if major = 6 then skip_item k d
          else if major = 7 then (Some (), d)
          else (None, cd_fail d)"])
      (auto simp: suffix_drop IH split: if_splits dest: read_head.rd_no_err IH(3,4))
qed

interpretation skip_reader: cdec_reader harp_cdec_skip
  unfolding harp_cdec_skip_def by (rule skip_item_reader)

interpretation span_reader: cdec_reader harp_cdec_span
proof
  fix d
  consider (a) d' where "harp_cdec_skip d = (None, d')" "suffix (cd_rest d') (cd_rest d)"
    | (b) x d' where "harp_cdec_skip d = (Some x, d')" "\<not> cd_err d" "\<not> cd_err d'"
        "suffix (cd_rest d') (cd_rest d)" "length (cd_rest d') < length (cd_rest d)"
    by (cases d rule: skip_reader.rd_cases) auto
  note c = this
  show "suffix (cd_rest (snd (harp_cdec_span d))) (cd_rest d)"
    using c by cases (simp_all add: harp_cdec_span_def)
  show "cd_err d \<Longrightarrow> harp_cdec_span d = (None, d)"
    by (simp add: harp_cdec_span_def skip_reader.rd_sticky)
  show "fst (harp_cdec_span d) \<noteq> None \<Longrightarrow> \<not> cd_err (snd (harp_cdec_span d))"
    by (rule c) (simp_all add: harp_cdec_span_def)
  show "fst (harp_cdec_span d) \<noteq> None \<Longrightarrow>
      length (cd_rest (snd (harp_cdec_span d))) < length (cd_rest d)"
    by (rule c) (simp_all add: harp_cdec_span_def)
qed

text \<open>The span is exactly the consumed bytes.\<close>

lemma harp_cdec_span_exact:
  assumes "harp_cdec_span d = (Some sp, d')"
  shows "cd_rest d = sp @ cd_rest d'"
proof -
  from assms obtain u where s: "harp_cdec_skip d = (Some u, d')"
    and sp: "sp = take (length (cd_rest d) - length (cd_rest d')) (cd_rest d)"
    by (auto simp: harp_cdec_span_def split: prod.splits option.splits)
  from skip_reader.rd_suffix [of d] s obtain z where "cd_rest d = z @ cd_rest d'"
    by (auto simp: suffix_def)
  with sp show ?thesis by simp
qed

section \<open>Whole items\<close>

text \<open>
  The data items of HARP messages, as RFC 8949 defines them, and their deterministic encoding.  This
  is the specification against which skipping and spanning are stated.
\<close>

datatype cbor =
    CUint u64
  | CNeg u64
  | CBytes bytes
  | CText bytes
  | CArray "cbor list"
  | CMap "(cbor \<times> cbor) list"
  | CTag u64 cbor
  | CSimple u8
  | CFloat16 u16
  | CFloat32 u32
  | CFloat64 u64

primrec enc_item :: "cbor \<Rightarrow> bytes" where
  "enc_item (CUint v) = head_bytes 0 v"
| "enc_item (CNeg v) = head_bytes 1 v"
| "enc_item (CBytes p) = head_bytes 2 (of_nat (length p)) @ p"
| "enc_item (CText p) = head_bytes 3 (of_nat (length p)) @ p"
| "enc_item (CArray xs) = head_bytes 4 (of_nat (length xs)) @ concat (map enc_item xs)"
| "enc_item (CMap kvs) = head_bytes 5 (of_nat (length kvs)) @
     concat (map (\<lambda>p. fst p @ snd p) (map (map_prod enc_item enc_item) kvs))"
| "enc_item (CTag t x) = head_bytes 6 t @ enc_item x"
| "enc_item (CSimple n) = [0xe0 OR (n AND 0x1f)]"
| "enc_item (CFloat16 h) = 0xf9 # be_bytes 2 h"
| "enc_item (CFloat32 h) = 0xfa # be_bytes 4 h"
| "enc_item (CFloat64 h) = 0xfb # be_bytes 8 h"

text \<open>Well-formed and nested at most \<open>k\<close> levels deep.\<close>

primrec item_ok :: "cbor \<Rightarrow> nat \<Rightarrow> bool" where
  "item_ok (CUint v) = (\<lambda>k. 0 < k)"
| "item_ok (CNeg v) = (\<lambda>k. 0 < k)"
| "item_ok (CBytes p) = (\<lambda>k. 0 < k \<and> length p < 2 ^ 64)"
| "item_ok (CText p) = (\<lambda>k. 0 < k \<and> length p < 2 ^ 64)"
| "item_ok (CArray xs) = (\<lambda>k. 0 < k \<and> length xs < 2 ^ 64 \<and>
     list_all (\<lambda>f. f (k - 1)) (map item_ok xs))"
| "item_ok (CMap kvs) = (\<lambda>k. 0 < k \<and> length kvs < 2 ^ 63 \<and>
     list_all (\<lambda>p. fst p (k - 1) \<and> snd p (k - 1)) (map (map_prod item_ok item_ok) kvs))"
| "item_ok (CTag t x) = (\<lambda>k. 0 < k \<and> item_ok x (k - 1))"
| "item_ok (CSimple n) = (\<lambda>k. 0 < k \<and> n < 24)"
| "item_ok (CFloat16 h) = (\<lambda>k. 0 < k)"
| "item_ok (CFloat32 h) = (\<lambda>k. 0 < k)"
| "item_ok (CFloat64 h) = (\<lambda>k. 0 < k)"

lemma repeat_dec_concat:
  assumes "\<And>x r. x \<in> set xs \<Longrightarrow> f (dec (g x @ r)) = (Some (), dec r)"
  shows "repeat_dec f (length xs) (dec (concat (map g xs) @ r)) = (Some (), dec r)"
  using assms by (induction xs) auto

lemma repeat_dec_concat2:
  assumes "\<And>x r. x \<in> set xs \<Longrightarrow> f (dec (g (fst x) @ r)) = (Some (), dec r) \<and>
      f (dec (g (snd x) @ r)) = (Some (), dec r)"
  shows "repeat_dec f (length xs * 2)
      (dec (concat (map (\<lambda>p. g (fst p) @ g (snd p)) xs) @ r)) = (Some (), dec r)"
  using assms by (induction xs) auto

lemma read_head_float:
  "read_head (dec (0xf9 # be_bytes 2 h16 @ r)) = (Some (7, 25, ucast (h16 :: u16)), dec r)"
  "read_head (dec (0xfa # be_bytes 4 h32 @ r)) = (Some (7, 26, ucast (h32 :: u32)), dec r)"
  "read_head (dec (0xfb # be_bytes 8 h64 @ r)) = (Some (7, 27, (h64 :: u64)), dec r)"
  by (simp_all add: read_head_def need_def Let_def arg_len_def cd_skip_bytes_def
      be_val_be_bytes_cast be_val_be_bytes take_bit_word_ge del: be_bytes.simps)

lemma read_head_simple:
  assumes "n < 24"
  shows "read_head (dec ((0xe0 OR (n AND 0x1f)) # r)) = (Some (7, n, ucast n), dec r)"
proof -
  from assms have n: "n < 32" by (simp add: word_less_nat_alt)
  then have m: "n AND 0x1f = n" using ai_of_initial [of n 0] by simp
  from n have "drop_bit 5 (push_bit 5 7 OR n) = 7" "(push_bit 5 7 OR n) AND 31 = n"
    by (simp_all add: major_of_initial ai_of_initial del: push_bit_numeral drop_bit_or)
  then show ?thesis
    using assms by (simp add: m read_head_def need_def Let_def cd_skip_bytes_def del: drop_bit_or)
qed

theorem skip_item_enc:
  "item_ok t k \<Longrightarrow> skip_item k (dec (enc_item t @ r)) = (Some (), dec r)"
proof (induction t arbitrary: k r)
  case (CArray xs)
  then obtain k' where k: "k = Suc k'" and l: "length xs < 2 ^ 64"
    and ok: "\<And>x. x \<in> set xs \<Longrightarrow> item_ok x k'"
    by (cases k) (auto simp: list_all_iff)
  have "repeat_dec (skip_item k') (length xs) (dec (concat (map enc_item xs) @ r)) = (Some (), dec r)"
    by (rule repeat_dec_concat) (use CArray.IH ok in auto)
  with k l show ?case by simp
next
  case (CMap kvs)
  then obtain k' where k: "k = Suc k'" and l: "length kvs < 2 ^ 63"
    and ok: "\<And>x. x \<in> set kvs \<Longrightarrow> item_ok (fst x) k' \<and> item_ok (snd x) k'"
    by (cases k) (auto simp: list_all_iff)
  have "repeat_dec (skip_item k') (length kvs * 2)
      (dec (concat (map (\<lambda>p. enc_item (fst p) @ enc_item (snd p)) kvs) @ r)) = (Some (), dec r)"
    by (rule repeat_dec_concat2) (use CMap.IH ok in \<open>fastforce\<close>)
  moreover have "unat ((of_nat (length kvs) :: u64) * 2) = length kvs * 2"
    using l by (simp add: unat_mult_lem [THEN iffD1])
  ultimately show ?case using k l by (simp add: comp_def)
next
  case (CSimple n)
  then show ?case using read_head_simple [of n r] by (cases k) auto
qed (auto simp: gr0_conv_Suc read_head_float cd_skip_bytes_def simp del: be_bytes.simps)

section \<open>Correctness of the codec\<close>

lemma dec_init [simp]: "harp_cdec_init r = dec r"
  by (simp add: harp_cdec_init_def)

text \<open>
  C36: Primitive items survive the trip through the wire.  Whatever bytes an encoder call appends to an
  empty, well-formed buffer (if the allocator did not fail), the matching decoder call returns the
  value that was encoded, without an error, and leaves the decoder exactly at the bytes that follow.
  This covers unsigned and signed integers, byte strings, text strings, booleans and null.
\<close>

theorem cbor_primitives_roundtrip:
  assumes "cbuf_wf b" and "cb_buf b = []" and "length p < 2 ^ 64"
  shows "(cb_view (harp_cbor_uint b v) = Some bs \<longrightarrow>
            harp_cdec_uint (harp_cdec_init (bs @ r)) = (Some v, harp_cdec_init r)) \<and>
         (cb_view (harp_cbor_int b v) = Some bs \<longrightarrow>
            harp_cdec_int (harp_cdec_init (bs @ r)) = (Some v, harp_cdec_init r)) \<and>
         (cb_view (harp_cbor_bytes b p) = Some bs \<longrightarrow>
            harp_cdec_bytes (harp_cdec_init (bs @ r)) = (Some p, harp_cdec_init r)) \<and>
         (cb_view (harp_cbor_text b p) = Some bs \<longrightarrow>
            harp_cdec_text (harp_cdec_init (bs @ r)) = (Some p, harp_cdec_init r)) \<and>
         (cb_view (harp_cbor_bool b q) = Some bs \<longrightarrow>
            harp_cdec_bool (harp_cdec_init (bs @ r)) = (Some q, harp_cdec_init r)) \<and>
         (cb_view (harp_cbor_null b) = Some bs \<longrightarrow>
            harp_cdec_null (harp_cdec_init (bs @ r)) = (Some (), harp_cdec_init r))"
  using assms emits_Some [OF emits_uint] emits_Some [OF emits_int] emits_Some [OF emits_bytes]
    emits_Some [OF emits_text] emits_Some [OF emits_bool] emits_Some [OF emits_null]
  by (intro conjI impI) (fastforce simp: harp_cdec_int_enc)+

text \<open>The hypotheses hold for a fresh buffer.\<close>

lemma cbor_primitives_roundtrip_witness:
  "harp_cdec_uint (harp_cdec_init ([0x19, 0x03, 0xe8] @ [0xff])) = (Some 1000, harp_cdec_init [0xff])"
proof -
  let ?b = "\<lparr>cb_buf = [], cb_cap = 256, cb_oom = False, cb_avail = 4096\<rparr>"
  have "cb_view (harp_cbor_uint ?b 1000) = Some [0x19, 0x03, 0xe8]"
    by (simp add: cb_view_def harp_cbor_uint_def put_head_def harp_cbuf_put_def ensure_def
        head_bytes_def)
  with cbor_primitives_roundtrip [of ?b "[]" 1000 "[0x19, 0x03, 0xe8]" "[0xff]" True]
  show ?thesis by (simp add: cbuf_wf_def)
qed

lemma harp_cdec_span_enc_item:
  assumes "item_ok t (HARP_CBOR_MAX_DEPTH + 1)"
  shows "harp_cdec_skip (dec (enc_item t @ r)) = (Some (), dec r)"
    and "harp_cdec_span (dec (enc_item t @ r)) = (Some (enc_item t), dec r)"
  using skip_item_enc [OF assms, of r] by (simp_all add: harp_cdec_span_def harp_cdec_skip_def)

text \<open>
  Skipping and spanning are exact on whole items.  For every data item that nests at most 32 levels
  below its root (the limit of \<open>skip_item\<close>), \<open>harp_cdec_skip\<close> consumes the item's deterministic encoding
  and nothing else, and \<open>harp_cdec_span\<close> returns precisely those bytes.
\<close>

theorem skip_span_exact:
  assumes "item_ok t (HARP_CBOR_MAX_DEPTH + 1)"
  shows "harp_cdec_skip (harp_cdec_init (enc_item t @ r)) = (Some (), harp_cdec_init r) \<and>
         harp_cdec_span (harp_cdec_init (enc_item t @ r)) = (Some (enc_item t), harp_cdec_init r)"
  using harp_cdec_span_enc_item [OF assms] by simp

lemma skip_span_exact_witness:
  "harp_cdec_span (harp_cdec_init (enc_item (CArray [CUint 1, CText [0x61]]) @ [7]))
     = (Some [0x82, 0x01, 0x61, 0x61], harp_cdec_init [7])"
  using skip_span_exact [of "CArray [CUint 1, CText [0x61]]" "[7]"]
  by (simp add: HARP_CBOR_MAX_DEPTH_def head_bytes_def)

lemma be_val_bits: "bit (be_val bs :: 'a::len word) i \<Longrightarrow> i < 8 * length bs"
proof (induction bs arbitrary: i rule: rev_induct)
  case (snoc b bs)
  then show ?case
    by (cases "i < 8") (fastforce simp: be_val_snoc bit_simps dest: bit_imp_le_length)+
qed simp

lemma be_val_bound: "unat (be_val bs :: 'a::len word) < 2 ^ (8 * length bs)"
proof -
  have "take_bit (8 * length bs) (be_val bs) = (be_val bs :: 'a word)"
    by (rule bit_word_eqI) (auto simp: bit_take_bit_iff dest: be_val_bits)
  then show ?thesis by (metis take_bit_nat_less_exp unsigned_take_bit_eq)
qed

lemma head_bytes_pos [simp]: "0 < length (head_bytes m v)" "head_bytes m v \<noteq> []"
  by (simp_all add: head_bytes_split)

lemma head_bytes_ge1: "1 \<le> length (head_bytes m v)"
  by (simp add: Suc_le_eq)

lemma enc_item_pos [simp]: "0 < length (enc_item t)"
  by (cases t) (simp_all add: head_bytes_split)

lemma length_head_bytes:
  "length (head_bytes m v) \<le> 9" "v < 24 \<Longrightarrow> length (head_bytes m v) = 1"
  "unat v < 2 ^ 8 \<Longrightarrow> length (head_bytes m v) \<le> 2"
  "unat v < 2 ^ 16 \<Longrightarrow> length (head_bytes m v) \<le> 3"
  "unat v < 2 ^ 32 \<Longrightarrow> length (head_bytes m v) \<le> 5"
  by (auto simp: head_bytes_def word_le_nat_alt word_less_nat_alt)

text \<open>
  Encoder output is the shortest form (RFC 8949 core deterministic encoding): no byte string that
  the decoder reads as a head with the same argument is shorter than the head that \<open>put_head\<close> writes.
\<close>

theorem head_bytes_shortest:
  assumes "read_head (harp_cdec_init bs) = (Some (m, ai, v), d)"
  shows "length (head_bytes m v) + length (cd_rest d) \<le> length bs"
proof -
  from assms obtain ib r where bs: "bs = ib # r" and ai: "ai = ib AND 0x1f"
    by (cases bs) (auto simp: read_head_def need_def Let_def split: if_splits option.splits)
  show ?thesis
  proof (cases "ai < 24")
    case True
    with assms bs ai have "v = ucast ai" "cd_rest d = r"
      by (auto simp: read_head_def need_def Let_def cd_skip_bytes_def)
    moreover from True have "unat (ucast ai :: u64) < 24"
      by (simp add: word_less_nat_alt unsigned_ucast_eq take_bit_nat_eq_self)
    ultimately show ?thesis using bs length_head_bytes(2) [of v m]
      by (simp add: word_less_nat_alt)
  next
    case False
    with assms bs ai obtain n where n: "arg_len ai = Some n" "n \<le> length r"
      and v: "v = be_val (take n r)" and d: "cd_rest d = drop n r"
      by (auto simp: read_head_def need_def Let_def cd_skip_bytes_def split: option.splits if_splits)
    from v n have "unat v < 2 ^ (8 * n)"
      using be_val_bound [of "take n r"] by simp
    then have "length (head_bytes m v) \<le> 1 + n"
      using n(1) length_head_bytes(1) [of m v] length_head_bytes(3-5) [of v m]
      by (auto simp: arg_len_def split: if_splits)
    with bs d n show ?thesis by simp
  qed
qed

lemma head_bytes_shortest_witness:
  "length (head_bytes 0 5) + length (cd_rest (dec [])) \<le> length ([0x19, 0x00, 0x05] :: bytes)"
  by (rule head_bytes_shortest [where ai = 25])
    (simp add: read_head_def need_def Let_def arg_len_def be_val_def cd_skip_bytes_def)

text \<open>
  The decoder never leaves its buffer and never makes an item out of nothing.  Skipping one item,
  the operation with attacker-controlled nesting and counts, ends at a suffix of the remaining input,
  is a no-op after an error, and when it succeeds it has consumed at least one byte and raised no error.
\<close>

theorem harp_cdec_skip_safe:
  "suffix (cd_rest (snd (harp_cdec_skip d))) (cd_rest d) \<and>
   (cd_err d \<longrightarrow> harp_cdec_skip d = (None, d)) \<and>
   (fst (harp_cdec_skip d) = Some () \<longrightarrow>
      \<not> cd_err (snd (harp_cdec_skip d)) \<and>
      length (cd_rest (snd (harp_cdec_skip d))) < length (cd_rest d))"
  using skip_reader.rd_suffix skip_reader.rd_sticky skip_reader.rd_ok skip_reader.rd_progress
  by auto

lemma harp_cdec_skip_safe_witness:
  "suffix (cd_rest (snd (harp_cdec_skip (dec [0x82, 0x01, 0x02, 0x03])))) [0x82, 0x01, 0x02, 0x03]"
  using harp_cdec_skip_safe [of "dec [0x82, 0x01, 0x02, 0x03]"] by simp

text \<open>
  Container counts are bounded by the input for arrays, but not for maps.  An accepted array
  header announces at most as many items as there are bytes left.  The map check doubles the count in
  64 bits, so a header announcing \<open>2 ^ 63\<close> pairs passes with no byte left at all.
\<close>

theorem read_count_bounds:
  "(\<forall>d n d'. harp_cdec_array d = (Some n, d') \<longrightarrow> unat n \<le> length (cd_rest d')) \<and>
   (\<forall>d n d'. harp_cdec_map d = (Some n, d') \<longrightarrow> unat (2 * n) \<le> length (cd_rest d')) \<and>
   harp_cdec_map (harp_cdec_init [0xbb, 0x80, 0, 0, 0, 0, 0, 0, 0])
     = (Some (2 ^ 63), harp_cdec_init [])"
proof -
  have "harp_cdec_map (harp_cdec_init [0xbb, 0x80, 0, 0, 0, 0, 0, 0, 0])
      = (Some (2 ^ 63), harp_cdec_init [])"
    by code_simp
  then show ?thesis
    by (auto simp: harp_cdec_array_def harp_cdec_map_def read_count_def
        mult.commute split: prod.splits option.splits if_splits)
qed

lemma read_count_bounds_witness:
  "unat (2 :: u64) \<le> length (cd_rest (dec [1, 2]))"
proof -
  have "harp_cdec_array (dec [0x82, 1, 2]) = (Some 2, dec [1, 2])"
    using harp_cdec_array_enc [of 2 "[1, 2]"] by (simp add: head_bytes_def)
  with read_count_bounds show ?thesis by blast
qed

end
