(* ===== verification/Harp_Sha256.thy ===== *)
theory Harp_Sha256
  imports Harp_Prelude
begin

text \<open>
  \<^verbatim>\<open>core/src/sha256.c\<close>: the streaming SHA-256 that names every object.  \<open>sh_block\<close> is the filled part
  \<^verbatim>\<open>block[0..blocklen)\<close> of the block buffer.  The reference is FIPS 180-4: padding, the message schedule as a
  recursive equation, the compression function with rotations, chained over 64-byte blocks.
\<close>

unbundle bit_operations_syntax

section \<open>The code\<close>

definition K :: "u32 list" where
  "K = [
    0x428a2f98, 0x71374491, 0xb5c0fbcf, 0xe9b5dba5, 0x3956c25b, 0x59f111f1,
    0x923f82a4, 0xab1c5ed5, 0xd807aa98, 0x12835b01, 0x243185be, 0x550c7dc3,
    0x72be5d74, 0x80deb1fe, 0x9bdc06a7, 0xc19bf174, 0xe49b69c1, 0xefbe4786,
    0x0fc19dc6, 0x240ca1cc, 0x2de92c6f, 0x4a7484aa, 0x5cb0a9dc, 0x76f988da,
    0x983e5152, 0xa831c66d, 0xb00327c8, 0xbf597fc7, 0xc6e00bf3, 0xd5a79147,
    0x06ca6351, 0x14292967, 0x27b70a85, 0x2e1b2138, 0x4d2c6dfc, 0x53380d13,
    0x650a7354, 0x766a0abb, 0x81c2c92e, 0x92722c85, 0xa2bfe8a1, 0xa81a664b,
    0xc24b8b70, 0xc76c51a3, 0xd192e819, 0xd6990624, 0xf40e3585, 0x106aa070,
    0x19a4c116, 0x1e376c08, 0x2748774c, 0x34b0bcb5, 0x391c0cb3, 0x4ed8aa4a,
    0x5b9cca4f, 0x682e6ff3, 0x748f82ee, 0x78a5636f, 0x84c87814, 0x8cc70208,
    0x90befffa, 0xa4506ceb, 0xbef9a3f7, 0xc67178f2]"

record harp_sha256 =
  sh_state :: "u32 list"
  sh_bitlen :: u64
  sh_block :: bytes

definition ROTR :: "u32 \<Rightarrow> nat \<Rightarrow> u32" where
  "ROTR x n = drop_bit n x OR push_bit (32 - n) x"

text \<open>The two loops that fill \<^verbatim>\<open>w[0..64)\<close>.\<close>

definition load_w :: "bytes \<Rightarrow> nat \<Rightarrow> u32" where
  "load_w p i = push_bit 24 (ucast (p ! (4 * i))) OR push_bit 16 (ucast (p ! (4 * i + 1))) OR
                push_bit 8 (ucast (p ! (4 * i + 2))) OR ucast (p ! (4 * i + 3))"

definition extend_w :: "u32 list \<Rightarrow> nat \<Rightarrow> u32 list" where
  "extend_w w i =
     (let s0 = ROTR (w ! (i - 15)) 7 XOR ROTR (w ! (i - 15)) 18 XOR drop_bit 3 (w ! (i - 15));
          s1 = ROTR (w ! (i - 2)) 17 XOR ROTR (w ! (i - 2)) 19 XOR drop_bit 10 (w ! (i - 2))
      in w @ [w ! (i - 16) + s0 + w ! (i - 7) + s1])"

definition sha_w :: "bytes \<Rightarrow> u32 list" where
  "sha_w p = foldl extend_w (map (load_w p) [0..<16]) [16..<64]"

text \<open>One turn of the compression loop on \<^verbatim>\<open>a..h\<close>.\<close>

type_synonym sha_vars = "u32 \<times> u32 \<times> u32 \<times> u32 \<times> u32 \<times> u32 \<times> u32 \<times> u32"

fun sha_round :: "u32 list \<Rightarrow> sha_vars \<Rightarrow> nat \<Rightarrow> sha_vars" where
  "sha_round w (a, b, cc, d, e, f, g, h) i =
     (let S1 = ROTR e 6 XOR ROTR e 11 XOR ROTR e 25;
          ch = (e AND f) XOR (NOT e AND g);
          t1 = h + S1 + ch + K ! i + w ! i;
          S0 = ROTR a 2 XOR ROTR a 13 XOR ROTR a 22;
          maj = (a AND b) XOR (a AND cc) XOR (b AND cc);
          t2 = S0 + maj
      in (t1 + t2, a, b, cc, d + t1, e, f, g))"

definition transform :: "u32 list \<Rightarrow> bytes \<Rightarrow> u32 list" where
  "transform st p =
     (case foldl (sha_round (sha_w p))
             (st ! 0, st ! 1, st ! 2, st ! 3, st ! 4, st ! 5, st ! 6, st ! 7) [0..<64] of
        (a, b, cc, d, e, f, g, h) \<Rightarrow>
          [st ! 0 + a, st ! 1 + b, st ! 2 + cc, st ! 3 + d,
           st ! 4 + e, st ! 5 + f, st ! 6 + g, st ! 7 + h])"

definition harp_sha256_init :: harp_sha256 where
  "harp_sha256_init =
     \<lparr>sh_state = [0x6a09e667, 0xbb67ae85, 0x3c6ef372, 0xa54ff53a,
                  0x510e527f, 0x9b05688c, 0x1f83d9ab, 0x5be0cd19],
      sh_bitlen = 0, sh_block = []\<rparr>"

text \<open>
  The update loop.  A block buffer that is already full never occurs (\<open>sha_ok\<close> below is an invariant); the
  C code would run out of its array there, the model stops.
\<close>

function harp_sha256_update :: "harp_sha256 \<Rightarrow> bytes \<Rightarrow> harp_sha256" where
  "harp_sha256_update c p =
     (if p = [] \<or> 64 \<le> length (sh_block c) then c
      else let take' = min (64 - length (sh_block c)) (length p);
               blk = sh_block c @ take take' p;
               c = c\<lparr>sh_bitlen := sh_bitlen c + of_nat take' * 8\<rparr>;
               c = (if length blk = 64
                    then c\<lparr>sh_state := transform (sh_state c) blk, sh_block := []\<rparr>
                    else c\<lparr>sh_block := blk\<rparr>)
           in harp_sha256_update c (drop take' p))"
  by pat_completeness auto
termination
  by (relation "measure (\<lambda>(c, p). length p)") auto

declare harp_sha256_update.simps [simp del]

lemma harp_sha256_update_byte:
  "length (sh_block c) < 64 \<Longrightarrow> sh_block (harp_sha256_update c [b]) =
     (if length (sh_block c) = 63 then [] else sh_block c @ [b])"
  by (simp add: harp_sha256_update.simps [of c] harp_sha256_update.simps [of _ "[]"] Let_def)

text \<open>\<^verbatim>\<open>while (c->blocklen != 56) harp_sha256_update(c, &z, 1);\<close>\<close>

function sha_pad_zeros :: "harp_sha256 \<Rightarrow> harp_sha256" where
  "sha_pad_zeros c =
     (if length (sh_block c) = 56 \<or> 64 \<le> length (sh_block c) then c
      else sha_pad_zeros (harp_sha256_update c [0]))"
  by pat_completeness auto
termination
  by (relation "measure (\<lambda>c. if length (sh_block c) \<le> 56 then 56 - length (sh_block c)
                             else 120 - length (sh_block c))")
    (auto simp: harp_sha256_update_byte)

declare sha_pad_zeros.simps [simp del]

definition harp_sha256_final :: "harp_sha256 \<Rightarrow> bytes" where
  "harp_sha256_final c =
     (let bits = sh_bitlen c;
          c = sha_pad_zeros (harp_sha256_update c [0x80]);
          lenb = map (\<lambda>i. ucast (drop_bit (56 - 8 * i) bits)) [0..<8];
          st = transform (sh_state c) (sh_block c @ lenb)
      in concat (map (\<lambda>i. [ucast (drop_bit 24 (st ! i)), ucast (drop_bit 16 (st ! i)),
                           ucast (drop_bit 8 (st ! i)), ucast (st ! i)]) [0..<8]))"

definition harp_sha256_digest :: "bytes \<Rightarrow> bytes" where
  "harp_sha256_digest data = harp_sha256_final (harp_sha256_update harp_sha256_init data)"

section \<open>FIPS 180-4\<close>

definition sigma0 :: "u32 \<Rightarrow> u32" where
  "sigma0 x = word_rotr 7 x XOR word_rotr 18 x XOR drop_bit 3 x"

definition sigma1 :: "u32 \<Rightarrow> u32" where
  "sigma1 x = word_rotr 17 x XOR word_rotr 19 x XOR drop_bit 10 x"

fun sched :: "bytes \<Rightarrow> nat \<Rightarrow> u32" where
  "sched p t =
     (if t < 16 then be_val (take 4 (drop (4 * t) p))
      else sigma1 (sched p (t - 2)) + sched p (t - 7) + sigma0 (sched p (t - 15)) + sched p (t - 16))"

declare sched.simps [simp del]

fun fips_round :: "bytes \<Rightarrow> sha_vars \<Rightarrow> nat \<Rightarrow> sha_vars" where
  "fips_round p (a, b, c, d, e, f, g, h) t =
     (let T1 = h + (word_rotr 6 e XOR word_rotr 11 e XOR word_rotr 25 e) +
               ((e AND f) XOR (NOT e AND g)) + K ! t + sched p t;
          T2 = (word_rotr 2 a XOR word_rotr 13 a XOR word_rotr 22 a) +
               ((a AND b) XOR (a AND c) XOR (b AND c))
      in (T1 + T2, a, b, c, d + T1, e, f, g))"

definition compress :: "u32 list \<Rightarrow> bytes \<Rightarrow> u32 list" where
  "compress H p =
     (case foldl (fips_round p) (H ! 0, H ! 1, H ! 2, H ! 3, H ! 4, H ! 5, H ! 6, H ! 7) [0..<64] of
        (a, b, c, d, e, f, g, h) \<Rightarrow> map2 (+) H [a, b, c, d, e, f, g, h])"

fun blocks :: "bytes \<Rightarrow> bytes list" where
  "blocks m = (if length m < 64 then [] else take 64 m # blocks (drop 64 m))"

declare blocks.simps [simp del]

definition sha256_pad :: "bytes \<Rightarrow> bytes" where
  "sha256_pad m = m @ [0x80] @ replicate ((119 - length m mod 64) mod 64) 0 @
     be_bytes 8 (of_nat (8 * length m) :: u64)"

definition sha256 :: "bytes \<Rightarrow> bytes" where
  "sha256 m = concat (map (be_bytes 4)
     (foldl compress (sh_state harp_sha256_init) (blocks (sha256_pad m))))"

section \<open>The compression function\<close>

lemma ROTR_rotr:
  assumes "0 < n" and "n < 32"
  shows "ROTR x n = word_rotr n x"
proof (rule bit_word_eqI)
  fix i assume "i < LENGTH(32)"
  then have i: "i < 32" by simp
  show "bit (ROTR x n) i \<longleftrightarrow> bit (word_rotr n x) i"
  proof (cases "i + n < 32")
    case True
    with i assms show ?thesis by (auto simp: ROTR_def bit_simps add.commute)
  next
    case False
    then have "(i + n) mod 32 = i + n - 32" using i assms by (simp add: mod_if)
    moreover have "\<not> bit x (n + i)" using False by (auto dest: bit_imp_le_length)
    ultimately show ?thesis using i assms False by (auto simp: ROTR_def bit_simps)
  qed
qed

lemma take4: "k + 3 < length p \<Longrightarrow> take 4 (drop k p) = [p ! k, p ! (k + 1), p ! (k + 2), p ! (k + 3)]"
  by (rule nth_equalityI) (auto simp: less_Suc_eq numeral_eq_Suc)

lemma load_w_be: "4 * i + 3 < length p \<Longrightarrow> load_w p i = be_val (take 4 (drop (4 * i) p))"
  by (simp add: take4 load_w_def be_val_def push_bit_or or.assoc)

lemma sha_w_prefix:
  assumes "length p = 64" and "16 \<le> n"
  shows "foldl extend_w (map (load_w p) [0..<16]) [16..<n] = map (sched p) [0..<n]"
  using assms(2)
proof (induction n rule: dec_induct)
  case base
  show ?case using assms(1) by (auto simp: sched.simps intro!: load_w_be)
next
  case (step n)
  have "sched p n = sigma1 (sched p (n - 2)) + sched p (n - 7) + sigma0 (sched p (n - 15)) + sched p (n - 16)"
    using step by (subst sched.simps) simp
  with step show ?case
    by (simp add: extend_w_def Let_def ROTR_rotr sigma0_def sigma1_def ac_simps)
qed

lemma transform_compress:
  assumes "length p = 64" and "length st = 8"
  shows "transform st p = compress st p"
proof -
  have w: "sha_w p = map (sched p) [0..<64]"
    using sha_w_prefix [OF assms(1), of 64] by (simp add: sha_w_def)
  have "sha_round (sha_w p) v i = fips_round p v i" if "i < 64" for v i
    using that by (cases "(p, v, i)" rule: fips_round.cases) (simp add: w ROTR_rotr Let_def)
  then have f: "foldl (sha_round (sha_w p)) v [0..<64] = foldl (fips_round p) v [0..<64]" for v
    by (intro foldl_cong) auto
  obtain s0 s1 s2 s3 s4 s5 s6 s7 where "st = [s0, s1, s2, s3, s4, s5, s6, s7]"
    using assms(2) by (auto simp: numeral_eq_Suc length_Suc_conv)
  then show ?thesis by (simp add: transform_def compress_def f split: prod.split)
qed

lemma length_transform [simp]: "length (transform st p) = 8"
  by (simp add: transform_def split: prod.split)

section \<open>Streaming\<close>

text \<open>The bytes that do not fill a block.\<close>

definition tail64 :: "bytes \<Rightarrow> bytes" where
  "tail64 m = drop (64 * (length m div 64)) m"

lemma tail64_short [simp]: "length m < 64 \<Longrightarrow> tail64 m = m"
  by (simp add: tail64_def)

lemma length_tail64 [simp]: "length (tail64 m) = length m mod 64"
  by (simp add: tail64_def minus_mult_div_eq_mod)

lemma tail64_drop: "64 \<le> length m \<Longrightarrow> tail64 (drop 64 m) = tail64 m"
  by (simp add: tail64_def le_div_geq add.commute)

lemma blocks_append: "blocks (m @ p) = blocks m @ blocks (tail64 m @ p)"
proof (induction m rule: blocks.induct)
  case (1 m)
  then show ?case
    by (cases "length m < 64") (simp_all add: blocks.simps [of m] blocks.simps [of "m @ p"] tail64_drop)
qed

lemma tail64_append: "tail64 (m @ p) = tail64 (tail64 m @ p)"
proof (induction m rule: blocks.induct)
  case (1 m)
  then show ?case
    by (cases "length m < 64") (simp_all add: tail64_drop flip: tail64_drop [of "m @ p"])
qed

lemma blocks_64: "b \<in> set (blocks m) \<Longrightarrow> length b = 64"
proof (induction m rule: blocks.induct)
  case (1 m)
  then show ?case by (cases "length m < 64") (auto simp: blocks.simps [of m])
qed

text \<open>What an update does: it absorbs whole blocks and keeps the rest.\<close>

definition sha_ok :: "harp_sha256 \<Rightarrow> bool" where
  "sha_ok c \<longleftrightarrow> length (sh_state c) = 8 \<and> length (sh_block c) < 64"

lemma harp_sha256_update_spec:
  assumes "length (sh_block c) < 64"
  shows "harp_sha256_update c p = c\<lparr>sh_state := foldl transform (sh_state c) (blocks (sh_block c @ p)),
     sh_bitlen := sh_bitlen c + of_nat (8 * length p), sh_block := tail64 (sh_block c @ p)\<rparr>"
  using assms
proof (induction c p rule: harp_sha256_update.induct)
  case (1 c p)
  show ?case
  proof (cases "p = []")
    case True
    with 1(2) show ?thesis by (simp add: harp_sha256_update.simps [of c] blocks.simps)
  next
    case False
    let ?t = "min (64 - length (sh_block c)) (length p)"
    let ?blk = "sh_block c @ take ?t p"
    let ?c = "c\<lparr>sh_bitlen := sh_bitlen c + of_nat ?t * 8\<rparr>"
    let ?c' = "if length ?blk = 64 then ?c\<lparr>sh_state := transform (sh_state c) ?blk, sh_block := []\<rparr>
               else ?c\<lparr>sh_block := ?blk\<rparr>"
    have step: "harp_sha256_update c p = harp_sha256_update ?c' (drop ?t p)"
      using False 1(2) by (subst harp_sha256_update.simps) (simp add: Let_def)
    have IH: "harp_sha256_update ?c' (drop ?t p) = ?c'\<lparr>
       sh_state := foldl transform (sh_state ?c') (blocks (sh_block ?c' @ drop ?t p)),
       sh_bitlen := sh_bitlen ?c' + of_nat (8 * length (drop ?t p)),
       sh_block := tail64 (sh_block ?c' @ drop ?t p)\<rparr>"
      by (rule 1(1)) (use False 1(2) in \<open>auto simp: not_le\<close>)
    have bits: "sh_bitlen ?c' + of_nat (8 * length (drop ?t p)) = sh_bitlen c + of_nat (8 * length p)"
    proof -
      have "(of_nat ?t :: u64) * 8 + of_nat (8 * length (drop ?t p)) = of_nat (8 * (?t + length (drop ?t p)))"
        by (simp only: of_nat_mult of_nat_add of_nat_numeral distrib_left mult.commute)
      moreover have "?t + length (drop ?t p) = length p" by simp
      moreover have "sh_bitlen ?c' = sh_bitlen c + of_nat ?t * 8" by simp
      ultimately show ?thesis unfolding add.assoc [symmetric] by (simp only: add.assoc)
    qed
    show ?thesis
    proof (cases "length ?blk = 64")
      case full: True
      then have "blocks (?blk @ drop ?t p) = ?blk # blocks (drop ?t p)"
        "tail64 (?blk @ drop ?t p) = tail64 (drop ?t p)"
        by (subst blocks.simps, simp) (use full tail64_drop [of "?blk @ drop ?t p"] in simp)
      then show ?thesis using step IH bits full by simp
    next
      case False
      then show ?thesis using step IH bits by simp
    qed
  qed
qed

lemma harp_sha256_update_append:
  "sha_ok c \<Longrightarrow> harp_sha256_update (harp_sha256_update c a) b = harp_sha256_update c (a @ b)"
  by (simp add: sha_ok_def harp_sha256_update_spec tail64_append [of "sh_block c @ a" b, simplified]
      blocks_append [of "sh_block c @ a" b, simplified] algebra_simps)

lemma sha_ok_update: "sha_ok c \<Longrightarrow> sha_ok (harp_sha256_update c p)"
proof -
  have "length (foldl transform st bs) = 8" if "length st = 8" for st bs
    using that by (induction bs arbitrary: st) auto
  then show "sha_ok c \<Longrightarrow> sha_ok (harp_sha256_update c p)"
    by (simp add: sha_ok_def harp_sha256_update_spec)
qed

lemma sha_ok_init [simp]: "sha_ok harp_sha256_init"
  by (simp add: sha_ok_def harp_sha256_init_def)

lemma sha_pad_zeros_update:
  assumes "sha_ok c"
  shows "sha_pad_zeros c = harp_sha256_update c (replicate ((120 - length (sh_block c)) mod 64) 0)"
  using assms
proof (induction c rule: sha_pad_zeros.induct)
  case (1 c)
  let ?b = "length (sh_block c)"
  from 1(2) have b: "?b < 64" by (simp add: sha_ok_def)
  show ?case
  proof (cases "?b = 56")
    case True
    then show ?thesis by (simp add: sha_pad_zeros.simps [of c] harp_sha256_update.simps [of c])
  next
    case False
    let ?c = "harp_sha256_update c [0]" and ?k = "\<lambda>c. (120 - length (sh_block c)) mod 64"
    have "?k c = Suc (?k ?c)"
      using False b by (auto simp: harp_sha256_update_byte mod_if)
    then have "replicate (?k c) 0 = [0] @ replicate (?k ?c) (0 :: u8)" by simp
    moreover have "sha_pad_zeros c = harp_sha256_update ?c (replicate (?k ?c) 0)"
      using 1 False b sha_ok_update by (simp add: sha_pad_zeros.simps [of c])
    ultimately show ?thesis using 1(2) by (metis harp_sha256_update_append)
  qed
qed

lemma be_bytes_8: "map (\<lambda>i. ucast (drop_bit (56 - 8 * i) v)) [0..<8] = be_bytes 8 (v :: u64)"
  by (simp add: upt_rec numeral_eq_Suc)

lemma be_bytes_4:
  "be_bytes 4 (v :: u32) = [ucast (drop_bit 24 v), ucast (drop_bit 16 v), ucast (drop_bit 8 v), ucast v]"
  by (simp add: numeral_eq_Suc)

lemma foldl_transform_compress:
  assumes "length st = 8" and "\<And>b. b \<in> set bs \<Longrightarrow> length b = 64"
  shows "foldl transform st bs = foldl compress st bs"
  using assms by (induction bs arbitrary: st) (auto simp: transform_compress [symmetric])

lemma length_foldl_transform: "length st = 8 \<Longrightarrow> length (foldl transform st bs) = 8"
  by (induction bs arbitrary: st) auto

lemma sha_pad_len: "(n + Suc ((119 - n mod 64) mod 64)) mod 64 = 56" for n :: nat
proof -
  define q r where "q = n div 64" and "r = n mod 64"
  then have n: "n = 64 * q + r" and r: "r < 64" by auto
  have "(119 - r) mod 64 = (if r \<le> 55 then 55 - r else 119 - r)"
  proof (cases "r \<le> 55")
    case True
    then have "119 - r = 64 + (55 - r)" by simp
    then have "(119 - r) mod 64 = 55 - r" by (simp only: mod_add_self1) simp
    then show ?thesis using True by simp
  qed (use r in simp)
  then have "n + Suc ((119 - r) mod 64) = 64 * (if r \<le> 55 then q else q + 1) + 56"
    using n r by simp
  then have "n + Suc ((119 - n mod 64) mod 64) = 64 * (if r \<le> 55 then q else q + 1) + 56"
    by (simp only: r_def)
  then show ?thesis by (simp only: mod_mult_self4) simp
qed

lemma blocks_one: "length x = 64 \<Longrightarrow> blocks x = [x]"
  by (simp add: blocks.simps [of x] blocks.simps [of "[]"])

lemma concat_be4:
  assumes "length st = 8"
  shows "concat (map (\<lambda>i. [ucast (drop_bit 24 (st ! i)), ucast (drop_bit 16 (st ! i)),
      ucast (drop_bit 8 (st ! i)), ucast (st ! i)]) [0..<8]) = concat (map (be_bytes 4) (st :: u32 list))"
proof -
  have "map (be_bytes 4) st = map (\<lambda>i. be_bytes 4 (st ! i)) [0..<8]"
    using assms by (intro nth_equalityI) auto
  then show ?thesis by (simp add: be_bytes_4)
qed

section \<open>Correctness\<close>

lemma digest_eq_sha256: "harp_sha256_digest m = sha256 m"
proof -
  let ?i = harp_sha256_init and ?z = "replicate ((119 - length m mod 64) mod 64) (0 :: u8)"
  let ?m = "m @ [0x80] @ ?z" and ?l = "be_bytes 8 (of_nat (8 * length m) :: u64)"
  let ?c = "harp_sha256_update ?i (m @ [0x80])"
  have "length (sh_block ?c) = Suc (length m) mod 64"
    by (simp add: harp_sha256_update_spec harp_sha256_init_def)
  then have k: "(120 - length (sh_block ?c)) mod 64 = (119 - length m mod 64) mod 64"
    by (auto simp: mod_Suc)
  have len: "length ?m mod 64 = 56"
    using sha_pad_len [of "length m"] by simp
  have c: "sha_pad_zeros (harp_sha256_update (harp_sha256_update ?i m) [0x80]) = harp_sha256_update ?i ?m"
    using sha_pad_zeros_update [OF sha_ok_update [OF sha_ok_init], of "m @ [0x80]"]
    by (simp add: harp_sha256_update_append k)
  have bits: "sh_bitlen (harp_sha256_update ?i m) = of_nat (8 * length m)"
    by (simp add: harp_sha256_update_spec harp_sha256_init_def)
  have "blocks (tail64 ?m @ ?l) = [tail64 ?m @ ?l]"
  proof (rule blocks_one)
    have "length (tail64 ?m @ ?l) = length ?m mod 64 + 8"
      by (simp only: length_append length_tail64 length_be_bytes)
    with len show "length (tail64 ?m @ ?l) = 64" by linarith
  qed
  then have "blocks (sha256_pad m) = blocks ?m @ [tail64 ?m @ ?l]"
    using blocks_append [of ?m ?l] by (simp add: sha256_pad_def)
  moreover have "sh_state (harp_sha256_update ?i ?m) = foldl transform (sh_state ?i) (blocks ?m)"
    "sh_block (harp_sha256_update ?i ?m) = tail64 ?m"
    by (simp_all add: harp_sha256_update_spec harp_sha256_init_def)
  ultimately have "transform (sh_state (harp_sha256_update ?i ?m)) (sh_block (harp_sha256_update ?i ?m) @ ?l)
      = foldl transform (sh_state ?i) (blocks (sha256_pad m))"
    by simp
  moreover have i8: "length (sh_state ?i) = 8" by (simp add: harp_sha256_init_def)
  ultimately have "harp_sha256_final (harp_sha256_update ?i m)
      = concat (map (be_bytes 4) (foldl transform (sh_state ?i) (blocks (sha256_pad m))))"
    unfolding harp_sha256_final_def Let_def c bits be_bytes_8
    by (simp add: concat_be4 length_foldl_transform)
  also have "foldl transform (sh_state ?i) (blocks (sha256_pad m))
      = foldl compress (sh_state ?i) (blocks (sha256_pad m))"
    by (rule foldl_transform_compress [OF i8 blocks_64])
  finally show ?thesis by (simp add: harp_sha256_digest_def sha256_def)
qed


end
