(* ===== verification/Harp_Object.thy ===== *)
theory Harp_Object
  imports Harp_Cbor Harp_Sha256 "HOL-Library.Multiset"
begin

text \<open>
  \<^verbatim>\<open>core/src/object.c\<close>: content-addressed objects.  A hash is the list of its 33 bytes.  A parser callback
  with its user data is a function on the user data that returns the callback's verdict and the new
  data, so that what a callback recorded before a parse error stays visible, as it does in C.
\<close>

unbundle bit_operations_syntax

section \<open>Hashes\<close>

type_synonym harp_hash = bytes

definition HARP_HASH_LEN :: nat where [simp]: "HARP_HASH_LEN = 33"
definition HARP_HASH_ALG_SHA256 :: u8 where [simp]: "HARP_HASH_ALG_SHA256 = 0x01"

definition harp_hash_eq :: "harp_hash \<Rightarrow> harp_hash \<Rightarrow> bool" where
  "harp_hash_eq a b \<longleftrightarrow> take HARP_HASH_LEN a = take HARP_HASH_LEN b"

definition hexd :: "u8 \<Rightarrow> u8" where
  "hexd v = str ''0123456789abcdef'' ! unat v"

definition harp_hash_hex :: "harp_hash \<Rightarrow> bytes" where
  "harp_hash_hex h =
     concat (map (\<lambda>i. [hexd (drop_bit 4 (h ! i)), hexd (h ! i AND 0xf)]) [0..<HARP_HASH_LEN])"

text \<open>\<^verbatim>\<open>-1\<close> is \<open>None\<close>.\<close>

definition hexval :: "u8 \<Rightarrow> u8 option" where
  "hexval c =
     (if 48 \<le> c \<and> c \<le> 57 then Some (c - 48)
      else if 97 \<le> c \<and> c \<le> 102 then Some (c - 97 + 10)
      else if 65 \<le> c \<and> c \<le> 70 then Some (c - 65 + 10)
      else None)"

fun hex_bytes :: "bytes \<Rightarrow> bytes option" where
  "hex_bytes (a # b # r) =
     (case (hexval a, hexval b) of
        (Some hi, Some lo) \<Rightarrow>
          (case hex_bytes r of None \<Rightarrow> None | Some bs \<Rightarrow> Some ((push_bit 4 hi OR lo) # bs))
      | _ \<Rightarrow> None)"
| "hex_bytes _ = Some []"

definition harp_hash_from_hex :: "bytes \<Rightarrow> harp_hash option" where
  "harp_hash_from_hex hex = (if length hex \<noteq> 2 * HARP_HASH_LEN then None else hex_bytes hex)"

definition harp_hash_compute :: "bytes \<Rightarrow> harp_hash" where
  "harp_hash_compute data = HARP_HASH_ALG_SHA256 # harp_sha256_digest data"

text \<open>A string of the wrong length or algorithm is refused without setting the decoder's error flag.\<close>

definition harp_hash_read :: "harp_cdec \<Rightarrow> harp_hash option \<times> harp_cdec" where
  "harp_hash_read d =
     (case harp_cdec_bytes d of
        (None, d) \<Rightarrow> (None, d)
      | (Some p, d) \<Rightarrow>
          if length p \<noteq> HARP_HASH_LEN then (None, d)
          else if p ! 0 \<noteq> HARP_HASH_ALG_SHA256 then (None, d)
          else (Some p, d))"

section \<open>Encoders\<close>

definition HARP_OBJ_BLOB :: u64 where [simp]: "HARP_OBJ_BLOB = 0"
definition HARP_OBJ_LIST :: u64 where [simp]: "HARP_OBJ_LIST = 1"
definition HARP_OBJ_TREE :: u64 where [simp]: "HARP_OBJ_TREE = 2"
definition HARP_OBJ_SNAPSHOT :: u64 where [simp]: "HARP_OBJ_SNAPSHOT = 3"

definition harp_obj_encode_blob :: "harp_cbuf \<Rightarrow> bytes \<Rightarrow> bytes \<Rightarrow> harp_cbuf" where
  "harp_obj_encode_blob out media_type payload =
     (let out = harp_cbor_map out 3;
          out = harp_cbor_uint out 0;
          out = harp_cbor_uint out HARP_OBJ_BLOB;
          out = harp_cbor_uint out 1;
          out = harp_cbor_text out media_type;
          out = harp_cbor_uint out 2
      in harp_cbor_bytes out payload)"

definition harp_obj_encode_list :: "harp_cbuf \<Rightarrow> bytes \<Rightarrow> harp_hash list \<Rightarrow> harp_cbuf" where
  "harp_obj_encode_list out media_type chunks =
     (let out = harp_cbor_map out 3;
          out = harp_cbor_uint out 0;
          out = harp_cbor_uint out HARP_OBJ_LIST;
          out = harp_cbor_uint out 1;
          out = harp_cbor_text out media_type;
          out = harp_cbor_uint out 2;
          out = harp_cbor_array out (of_nat (length chunks))
      in foldl harp_cbor_bytes out chunks)"

record harp_tree_entry =
  te_name :: bytes
  te_hash :: harp_hash
  te_kind :: u32

fun memcmp :: "bytes \<Rightarrow> bytes \<Rightarrow> int" where
  "memcmp (x # xs) (y # ys) = (if x = y then memcmp xs ys else uint x - uint y)"
| "memcmp _ _ = 0"

definition entry_cmp :: "harp_tree_entry \<Rightarrow> harp_tree_entry \<Rightarrow> int" where
  "entry_cmp ea eb =
     (let la = length (te_name ea); lb = length (te_name eb)
      in if la \<noteq> lb then (if la < lb then - 1 else 1) else memcmp (te_name ea) (te_name eb))"

text \<open>
  The C library's \<^verbatim>\<open>qsort\<close>: a sorted permutation.  Which of two equal elements comes first is not
  specified in C; here it is the earlier one.
\<close>

fun insert_by :: "('a \<Rightarrow> 'a \<Rightarrow> int) \<Rightarrow> 'a \<Rightarrow> 'a list \<Rightarrow> 'a list" where
  "insert_by cmp x [] = [x]"
| "insert_by cmp x (y # ys) = (if cmp x y \<le> 0 then x # y # ys else y # insert_by cmp x ys)"

definition qsort :: "('a \<Rightarrow> 'a \<Rightarrow> int) \<Rightarrow> 'a list \<Rightarrow> 'a list" where
  "qsort cmp xs = foldr (insert_by cmp) xs []"

definition put_entry :: "harp_cbuf \<Rightarrow> harp_tree_entry \<Rightarrow> harp_cbuf" where
  "put_entry out e =
     (let out = harp_cbor_text out (te_name e);
          out = harp_cbor_array out 2;
          out = harp_cbor_bytes out (te_hash e)
      in harp_cbor_uint out (ucast (te_kind e)))"

definition harp_obj_encode_tree :: "harp_cbuf \<Rightarrow> harp_tree_entry list \<Rightarrow> harp_cbuf" where
  "harp_obj_encode_tree out entries =
     (if length entries > 256 then out\<lparr>cb_oom := True\<rparr>
      else
        let sorted = qsort entry_cmp entries;
            out = harp_cbor_map out 2;
            out = harp_cbor_uint out 0;
            out = harp_cbor_uint out HARP_OBJ_TREE;
            out = harp_cbor_uint out 1;
            out = harp_cbor_map out (of_nat (length entries))
        in foldl put_entry out sorted)"

definition harp_obj_encode_snapshot ::
  "harp_cbuf \<Rightarrow> harp_hash \<Rightarrow> harp_hash list \<Rightarrow> u64 \<Rightarrow> bytes \<Rightarrow> bytes \<Rightarrow> bytes option \<Rightarrow> harp_cbuf" where
  "harp_obj_encode_snapshot out root_tree parents unix_time author engine_semver message =
     (let out = harp_cbor_map out (if message \<noteq> None then 7 else 6);
          out = harp_cbor_uint out 0;
          out = harp_cbor_uint out HARP_OBJ_SNAPSHOT;
          out = harp_cbor_uint out 1;
          out = harp_cbor_bytes out root_tree;
          out = harp_cbor_uint out 2;
          out = harp_cbor_array out (of_nat (length parents));
          out = foldl harp_cbor_bytes out parents;
          out = harp_cbor_uint out 3;
          out = harp_cbor_uint out unix_time;
          out = harp_cbor_uint out 4;
          out = harp_cbor_text out author;
          out = harp_cbor_uint out 5;
          out = harp_cbor_text out engine_semver
      in case message of
           None \<Rightarrow> out
         | Some m \<Rightarrow> harp_cbor_text (harp_cbor_uint out 6) m)"

section \<open>Parsers\<close>

text \<open>
  A counted loop whose body may \<^verbatim>\<open>return false\<close> (first component) and whose effects on the user data
  stay when it does.
\<close>

fun loop_ret :: "('s \<Rightarrow> harp_cdec \<Rightarrow> bool \<times> 's \<times> harp_cdec) \<Rightarrow> nat \<Rightarrow> 's \<Rightarrow> harp_cdec
                 \<Rightarrow> bool \<times> 's \<times> harp_cdec" where
  "loop_ret f n s d =
     (if n = 0 then (True, s, d)
      else case f s d of
             (False, s', d') \<Rightarrow> (False, s', d')
           | (True, s', d') \<Rightarrow> loop_ret f (n - 1) s' d')"

declare loop_ret.simps [simp del]

definition obj_fields ::
  "bytes \<Rightarrow> (u64 \<Rightarrow> 's \<Rightarrow> harp_cdec \<Rightarrow> bool \<times> 's \<times> harp_cdec) \<Rightarrow> 's \<Rightarrow> bool \<times> 's" where
  "obj_fields enc visit ud =
     (case harp_cdec_map (harp_cdec_init enc) of
        (None, d) \<Rightarrow> (False, ud)
      | (Some n, d) \<Rightarrow>
          (case loop_ret (\<lambda>s d. case harp_cdec_uint d of
                                (None, d) \<Rightarrow> (False, s, d)
                              | (Some key, d) \<Rightarrow> visit key s d) (unat n) ud d of
             (False, ud, d) \<Rightarrow> (False, ud)
           | (True, ud, d) \<Rightarrow> (\<not> cd_err d, ud)))"

definition skip_ret :: "'s \<Rightarrow> harp_cdec \<Rightarrow> bool \<times> 's \<times> harp_cdec" where
  "skip_ret s d = (case harp_cdec_skip d of (None, d) \<Rightarrow> (False, s, d) | (Some u, d) \<Rightarrow> (True, s, d))"

text \<open>\<^verbatim>\<open>(int)k\<close> of a 64-bit value.\<close>

definition int_of_u64 :: "u64 \<Rightarrow> int" where
  "int_of_u64 k = sint (ucast k :: u32)"

definition kind_cb :: "u64 \<Rightarrow> int \<Rightarrow> harp_cdec \<Rightarrow> bool \<times> int \<times> harp_cdec" where
  "kind_cb key kind d =
     (if key = 0 then
        (case harp_cdec_uint d of
           (None, d) \<Rightarrow> (False, kind, d)
         | (Some k, d) \<Rightarrow> if k > 3 then (False, kind, d) else (True, int_of_u64 k, d))
      else skip_ret kind d)"

definition harp_obj_kind :: "bytes \<Rightarrow> int" where
  "harp_obj_kind enc = (case obj_fields enc kind_cb (- 1) of (ok, kind) \<Rightarrow> if \<not> ok then - 1 else kind)"

record blob_out =
  bo_media :: "bytes option"
  bo_payload :: "bytes option"
  bo_kind :: int

definition blob_cb :: "u64 \<Rightarrow> blob_out \<Rightarrow> harp_cdec \<Rightarrow> bool \<times> blob_out \<times> harp_cdec" where
  "blob_cb key o' d =
     (if key = 0 then
        (case harp_cdec_uint d of
           (None, d) \<Rightarrow> (False, o', d)
         | (Some k, d) \<Rightarrow> (True, o'\<lparr>bo_kind := int_of_u64 k\<rparr>, d))
      else if key = 1 then
        (case harp_cdec_text d of
           (None, d) \<Rightarrow> (False, o', d)
         | (Some t, d) \<Rightarrow> (True, o'\<lparr>bo_media := Some t\<rparr>, d))
      else if key = 2 then
        (case harp_cdec_bytes d of
           (None, d) \<Rightarrow> (False, o', d)
         | (Some p, d) \<Rightarrow> (True, o'\<lparr>bo_payload := Some p\<rparr>, d))
      else skip_ret o' d)"

text \<open>The media type may be absent (a NULL pointer); the payload may not.\<close>

definition harp_obj_parse_blob :: "bytes \<Rightarrow> (bytes option \<times> bytes) option" where
  "harp_obj_parse_blob enc =
     (case obj_fields enc blob_cb \<lparr>bo_media = None, bo_payload = None, bo_kind = - 1\<rparr> of
        (ok, o') \<Rightarrow>
          if \<not> ok then None
          else if bo_kind o' \<noteq> 0 then None
          else case bo_payload o' of None \<Rightarrow> None | Some p \<Rightarrow> Some (bo_media o', p))"

record snap_out =
  so_root :: harp_hash
  so_have_root :: bool
  so_kind :: int
  so_engine :: bytes
  so_have_engine :: bool

definition snap_cb :: "u64 \<Rightarrow> snap_out \<Rightarrow> harp_cdec \<Rightarrow> bool \<times> snap_out \<times> harp_cdec" where
  "snap_cb key o' d =
     (if key = 0 then
        (case harp_cdec_uint d of
           (None, d) \<Rightarrow> (False, o', d)
         | (Some k, d) \<Rightarrow> (True, o'\<lparr>so_kind := int_of_u64 k\<rparr>, d))
      else if key = 1 then
        (case harp_hash_read d of
           (None, d) \<Rightarrow> (False, o', d)
         | (Some h, d) \<Rightarrow> (True, o'\<lparr>so_root := h, so_have_root := True\<rparr>, d))
      else if key = 5 then
        (case harp_cdec_text d of
           (None, d) \<Rightarrow> (False, o', d)
         | (Some t, d) \<Rightarrow> (True, o'\<lparr>so_engine := cstr (take 23 t), so_have_engine := True\<rparr>, d))
      else skip_ret o' d)"

definition snap_zero :: snap_out where
  "snap_zero = \<lparr>so_root = replicate HARP_HASH_LEN 0, so_have_root = False, so_kind = - 1,
                so_engine = [], so_have_engine = False\<rparr>"

definition harp_obj_parse_snapshot_root :: "bytes \<Rightarrow> harp_hash option" where
  "harp_obj_parse_snapshot_root enc =
     (case obj_fields enc snap_cb snap_zero of
        (ok, o') \<Rightarrow>
          if \<not> ok then None
          else if so_kind o' \<noteq> 3 \<or> \<not> so_have_root o' then None
          else Some (so_root o'))"

definition harp_obj_parse_snapshot_engine :: "bytes \<Rightarrow> nat \<Rightarrow> bytes option" where
  "harp_obj_parse_snapshot_engine enc outsz =
     (case obj_fields enc snap_cb snap_zero of
        (ok, o') \<Rightarrow>
          if \<not> ok then None
          else if so_kind o' \<noteq> 3 \<or> \<not> so_have_engine o' then None
          else if length (so_engine o') + 1 > outsz then None
          else Some (so_engine o'))"

type_synonym 'u harp_tree_cb = "bytes \<Rightarrow> harp_hash \<Rightarrow> u32 \<Rightarrow> 'u \<Rightarrow> bool \<times> 'u"

definition tree_entry :: "'u harp_tree_cb \<Rightarrow> bool \<times> 'u \<Rightarrow> harp_cdec
    \<Rightarrow> bool \<times> (bool \<times> 'u) \<times> harp_cdec" where
  "tree_entry cb it d =
     (case harp_cdec_text d of
        (None, d) \<Rightarrow> (False, it, d)
      | (Some name, d) \<Rightarrow>
          (case harp_cdec_array d of
             (None, d) \<Rightarrow> (False, it, d)
           | (Some alen, d) \<Rightarrow>
               if alen \<noteq> 2 then (False, it, d)
               else
                 (case harp_hash_read d of
                    (None, d) \<Rightarrow> (False, it, d)
                  | (Some h, d) \<Rightarrow>
                      (case harp_cdec_uint d of
                         (None, d) \<Rightarrow> (False, it, d)
                       | (Some kind, d) \<Rightarrow>
                           (case it of
                              (stopped, ud) \<Rightarrow>
                                if stopped then (True, it, d)
                                else (case cb name h (ucast kind) ud of
                                        (go, ud) \<Rightarrow> (True, (\<not> go, ud), d)))))))"

definition tree_cb :: "'u harp_tree_cb \<Rightarrow> u64 \<Rightarrow> bool \<times> 'u \<Rightarrow> harp_cdec
    \<Rightarrow> bool \<times> (bool \<times> 'u) \<times> harp_cdec" where
  "tree_cb cb key it d =
     (if key \<noteq> 1 then skip_ret it d
      else case harp_cdec_map d of
             (None, d) \<Rightarrow> (False, it, d)
           | (Some n, d) \<Rightarrow> loop_ret (tree_entry cb) (unat n) it d)"

definition harp_obj_tree_foreach :: "bytes \<Rightarrow> 'u harp_tree_cb \<Rightarrow> 'u \<Rightarrow> bool \<times> 'u" where
  "harp_obj_tree_foreach enc cb ud =
     (if harp_obj_kind enc \<noteq> 2 then (False, ud)
      else case obj_fields enc (tree_cb cb) (False, ud) of (ok, stopped, ud) \<Rightarrow> (ok, ud))"

section \<open>Child enumeration\<close>

type_synonym 'u harp_hash_cb = "harp_hash \<Rightarrow> 'u \<Rightarrow> bool \<times> 'u"

definition child_tree_entry :: "'u harp_hash_cb \<Rightarrow> 'u harp_tree_cb" where
  "child_tree_entry cb name h kind ud = cb h ud"

text \<open>The flag \<open>ok\<close> that a refusing callback clears is never read.\<close>

definition child_hash :: "'u harp_hash_cb \<Rightarrow> bool \<times> 'u \<Rightarrow> harp_cdec
    \<Rightarrow> bool \<times> (bool \<times> 'u) \<times> harp_cdec" where
  "child_hash cb it d =
     (case harp_hash_read d of
        (None, d) \<Rightarrow> (False, it, d)
      | (Some h, d) \<Rightarrow>
          (case cb h (snd it) of (go, ud) \<Rightarrow> (True, (if go then fst it else False, ud), d)))"

definition child_hashes :: "'u harp_hash_cb \<Rightarrow> bool \<times> 'u \<Rightarrow> harp_cdec
    \<Rightarrow> bool \<times> (bool \<times> 'u) \<times> harp_cdec" where
  "child_hashes cb it d =
     (case harp_cdec_array d of
        (None, d) \<Rightarrow> (False, it, d)
      | (Some n, d) \<Rightarrow> loop_ret (child_hash cb) (unat n) it d)"

definition child_cb :: "'u harp_hash_cb \<Rightarrow> bool \<Rightarrow> int \<Rightarrow> u64 \<Rightarrow> bool \<times> 'u \<Rightarrow> harp_cdec
    \<Rightarrow> bool \<times> (bool \<times> 'u) \<times> harp_cdec" where
  "child_cb cb include_parents kind key it d =
     (if kind = 1 \<and> key = 2 then child_hashes cb it d
      else if kind = 3 \<and> key = 1 then child_hash cb it d
      else if kind = 3 \<and> key = 2 \<and> include_parents then child_hashes cb it d
      else skip_ret it d)"

definition harp_obj_foreach_child :: "bytes \<Rightarrow> bool \<Rightarrow> 'u harp_hash_cb \<Rightarrow> 'u \<Rightarrow> bool \<times> 'u" where
  "harp_obj_foreach_child enc include_parents cb ud =
     (let kind = harp_obj_kind enc
      in if kind < 0 then (False, ud)
         else if kind = 0 then (True, ud)
         else if kind = 2 then harp_obj_tree_foreach enc (child_tree_entry cb) ud
         else case obj_fields enc (child_cb cb include_parents kind) (True, ud) of
                (r, ok, ud) \<Rightarrow> (r, ud))"

section \<open>Sorting\<close>

lemma memcmp_refl [simp]: "memcmp xs xs = 0"
  by (induction xs) auto

lemma memcmp_sym: "memcmp ys xs = - memcmp xs ys"
  by (induction xs ys rule: memcmp.induct) auto

lemma memcmp_0: "length xs = length ys \<Longrightarrow> memcmp xs ys = 0 \<Longrightarrow> xs = ys"
  by (induction xs ys rule: memcmp.induct) (auto split: if_splits simp: word_uint_eq_iff)

lemma memcmp_trans:
  "length xs = length ys \<Longrightarrow> length ys = length zs \<Longrightarrow> memcmp xs ys \<le> 0 \<Longrightarrow> memcmp ys zs \<le> 0 \<Longrightarrow>
   memcmp xs zs \<le> 0"
proof (induction xs ys arbitrary: zs rule: memcmp.induct)
  case (1 x xs y ys)
  then show ?case
    by (cases zs) (auto split: if_splits simp flip: word_le_def)
qed auto

definition entry_le :: "harp_tree_entry \<Rightarrow> harp_tree_entry \<Rightarrow> bool" where
  "entry_le a b \<longleftrightarrow> entry_cmp a b \<le> 0"

lemma entry_le_total: "entry_le a b \<or> entry_le b a"
  using memcmp_sym [of "te_name a" "te_name b"] by (auto simp: entry_le_def entry_cmp_def Let_def)

lemma entry_le_trans: "entry_le a b \<Longrightarrow> entry_le b c \<Longrightarrow> entry_le a c"
  using memcmp_trans [of "te_name a" "te_name b" "te_name c"]
  by (auto simp: entry_le_def entry_cmp_def Let_def split: if_splits)

lemma entry_le_antisym: "entry_le a b \<Longrightarrow> entry_le b a \<Longrightarrow> te_name a = te_name b"
  using memcmp_sym [of "te_name a" "te_name b"] memcmp_0 [of "te_name a" "te_name b"]
  by (auto simp: entry_le_def entry_cmp_def Let_def split: if_splits)

lemma mset_insert_by [simp]: "mset (insert_by cmp x xs) = add_mset x (mset xs)"
  by (induction xs) auto

lemma mset_qsort [simp]: "mset (qsort cmp xs) = mset xs"
  by (induction xs) (auto simp: qsort_def)

lemma set_qsort [simp]: "set (qsort cmp xs) = set xs"
  by (metis mset_qsort set_mset_mset)

lemma length_qsort [simp]: "length (qsort cmp xs) = length xs"
  by (metis mset_qsort size_mset)

lemma sorted_insert_by:
  "sorted_wrt entry_le xs \<Longrightarrow> sorted_wrt entry_le (insert_by entry_cmp x xs)"
proof (induction xs)
  case (Cons y ys)
  show ?case
  proof (cases "entry_cmp x y \<le> 0")
    case True
    then have "entry_le x y" by (simp add: entry_le_def)
    with Cons.prems True show ?thesis using entry_le_trans by fastforce
  next
    case False
    then have "entry_le y x" using entry_le_total [of x y] by (auto simp: entry_le_def)
    moreover have "set (insert_by entry_cmp x ys) = insert x (set ys)"
      by (metis mset_insert_by set_mset_add_mset_insert set_mset_mset)
    ultimately show ?thesis using Cons False by simp
  qed
qed simp

lemma sorted_qsort: "sorted_wrt entry_le (qsort entry_cmp xs)"
  by (induction xs) (auto simp: qsort_def sorted_insert_by)

text \<open>With distinct names the sorted order does not depend on the order of the input.\<close>

lemma sorted_entries_unique:
  assumes "sorted_wrt entry_le xs" and "sorted_wrt entry_le ys" and "mset xs = mset ys"
    and "inj_on te_name (set xs)"
  shows "xs = ys"
  using assms
proof (induction xs arbitrary: ys)
  case (Cons x xs)
  then obtain y ys' where ys: "ys = y # ys'" by (cases ys) auto
  have "set (x # xs) = set ys" using Cons.prems(3) by (metis set_mset_mset)
  then have "x \<in> set (y # ys')" "y \<in> set (x # xs)" using ys by auto
  with Cons.prems(1,2) ys have "entry_le x y" "entry_le y x" "y \<in> set (x # xs)"
    using entry_le_total [of x x] by auto
  with Cons.prems(4) have "x = y" using entry_le_antisym by (metis inj_onD list.set_intros(1))
  with Cons ys show ?case by auto
qed simp

lemma qsort_perm:
  "mset xs = mset ys \<Longrightarrow> inj_on te_name (set xs) \<Longrightarrow> qsort entry_cmp xs = qsort entry_cmp ys"
  by (rule sorted_entries_unique) (auto simp: sorted_qsort)

section \<open>Objects as data items\<close>

definition blob_item :: "bytes \<Rightarrow> bytes \<Rightarrow> (u64 \<times> cbor) list" where
  "blob_item media payload = [(0, CUint 0), (1, CText media), (2, CBytes payload)]"

definition list_item :: "bytes \<Rightarrow> harp_hash list \<Rightarrow> (u64 \<times> cbor) list" where
  "list_item media chunks = [(0, CUint 1), (1, CText media), (2, CArray (map CBytes chunks))]"

definition entry_item :: "harp_tree_entry \<Rightarrow> cbor \<times> cbor" where
  "entry_item e = (CText (te_name e), CArray [CBytes (te_hash e), CUint (ucast (te_kind e))])"

definition tree_item :: "harp_tree_entry list \<Rightarrow> (u64 \<times> cbor) list" where
  "tree_item es = [(0, CUint 2), (1, CMap (map entry_item es))]"

definition snapshot_item ::
  "harp_hash \<Rightarrow> harp_hash list \<Rightarrow> u64 \<Rightarrow> bytes \<Rightarrow> bytes \<Rightarrow> bytes option \<Rightarrow> (u64 \<times> cbor) list" where
  "snapshot_item root parents t author engine message =
     [(0, CUint 3), (1, CBytes root), (2, CArray (map CBytes parents)), (3, CUint t),
      (4, CText author), (5, CText engine)] @
     (case message of None \<Rightarrow> [] | Some m \<Rightarrow> [(6, CText m)])"

definition obj_item :: "(u64 \<times> cbor) list \<Rightarrow> cbor" where
  "obj_item fs = CMap (map (\<lambda>(k, v). (CUint k, v)) fs)"

definition obj_enc :: "(u64 \<times> cbor) list \<Rightarrow> bytes" where
  "obj_enc fs = enc_item (obj_item fs)"

lemma obj_enc_eq:
  "obj_enc fs = head_bytes 5 (of_nat (length fs)) @ concat (map (\<lambda>(k, v). enc_uint k @ enc_item v) fs)"
  by (simp add: obj_enc_def obj_item_def comp_def split_def)

lemma emits_encode_blob: "emits (\<lambda>b. harp_obj_encode_blob b m p) (obj_enc (blob_item m p))"
  unfolding harp_obj_encode_blob_def Let_def
  by (rule emits_eq, (rule enc_intros emits_id)+) (simp add: obj_enc_eq blob_item_def)

lemma emits_hashes: "emits (\<lambda>b. foldl harp_cbor_bytes b hs) (concat (map enc_bytes hs))"
  by (rule emits_foldl) (rule emits_bytes)

lemmas emits_hashes_seq [enc_intros] = emits_comp [OF _ emits_hashes]

lemma emits_encode_list: "emits (\<lambda>b. harp_obj_encode_list b m hs) (obj_enc (list_item m hs))"
  unfolding harp_obj_encode_list_def Let_def
  by (rule emits_eq, (rule enc_intros emits_id)+) (simp add: obj_enc_eq list_item_def comp_def)

lemma emits_put_entry: "emits (\<lambda>b. put_entry b e)
    (enc_item (fst (entry_item e)) @ enc_item (snd (entry_item e)))"
  unfolding put_entry_def Let_def
  by (rule emits_eq, (rule enc_intros emits_id)+) (simp add: entry_item_def)

lemma emits_encode_tree:
  assumes "length es \<le> 256"
  shows "emits (\<lambda>b. harp_obj_encode_tree b es) (obj_enc (tree_item (qsort entry_cmp es)))"
proof -
  have "emits (\<lambda>b. foldl put_entry b (qsort entry_cmp es))
    (concat (map (\<lambda>e. enc_item (fst (entry_item e)) @ enc_item (snd (entry_item e))) (qsort entry_cmp es)))"
    by (rule emits_foldl) (rule emits_put_entry)
  note f = emits_comp [OF _ this]
  show ?thesis
    using assms unfolding harp_obj_encode_tree_def Let_def
    by (simp only: not_less [symmetric] if_False)
      (rule emits_eq, rule f, (rule enc_intros emits_id)+,
       simp add: obj_enc_eq tree_item_def comp_def)
qed

lemma emits_encode_snapshot:
  "emits (\<lambda>b. harp_obj_encode_snapshot b r ps t a e m) (obj_enc (snapshot_item r ps t a e m))"
proof -
  have "emits (\<lambda>b. harp_cbor_text (harp_cbor_uint (harp_cbor_text (harp_cbor_uint (harp_cbor_uint
     (harp_cbor_uint (foldl harp_cbor_bytes (harp_cbor_array (harp_cbor_uint (harp_cbor_bytes
     (harp_cbor_uint (harp_cbor_uint (harp_cbor_uint (harp_cbor_map b n) 0) 3) 1) r) 2)
     (of_nat (length ps))) ps) 3) t) 4) a) 5) e)
     (head_bytes 5 n @ concat (map (\<lambda>(k, v). enc_uint k @ enc_item v) (snapshot_item r ps t a e None)))" for n
    by (rule emits_eq, (rule enc_intros emits_id)+)
      (simp add: snapshot_item_def comp_def)
  note f = this
  show ?thesis
  proof (cases m)
    case None
    then show ?thesis
      using f [of 6] by (simp add: harp_obj_encode_snapshot_def Let_def obj_enc_eq snapshot_item_def)
  next
    case (Some x)
    from emits_comp [OF emits_comp [OF f [of 7] emits_uint [of 6]] emits_text [of x]] Some show ?thesis
      by (simp add: harp_obj_encode_snapshot_def Let_def obj_enc_eq snapshot_item_def)
  qed
qed

section \<open>Parsing what was encoded\<close>

lemma loop_ret_0 [simp]: "loop_ret f 0 s d = (True, s, d)"
  by (simp add: loop_ret.simps)

lemma loop_ret_Suc [simp]:
  "loop_ret f (Suc n) s d =
     (case f s d of (False, s', d') \<Rightarrow> (False, s', d') | (True, s', d') \<Rightarrow> loop_ret f n s' d')"
  by (subst loop_ret.simps) (simp split: prod.split bool.split)

text \<open>A loop whose body consumes one encoded element at a time and always goes on.\<close>

lemma loop_ret_concat:
  assumes "\<And>x s r. x \<in> set xs \<Longrightarrow> f s (dec (g x @ r)) = (True, upd x s, dec r)"
  shows "loop_ret f (length xs) s (dec (concat (map g xs) @ r)) = (True, fold upd xs s, dec r)"
  using assms by (induction xs arbitrary: s) auto

lemma concat_length_ge:
  assumes "\<And>x. x \<in> set xs \<Longrightarrow> c \<le> length (g x)"
  shows "length xs * c \<le> length (concat (map g xs))"
  using assms by (induction xs) force+

lemma map_count_enc:
  assumes "length xs < 2 ^ 63" and "\<And>x. x \<in> set xs \<Longrightarrow> 2 \<le> length (g x)"
  shows "harp_cdec_map (dec (head_bytes 5 (of_nat (length xs)) @ concat (map g xs) @ r)) =
     (Some (of_nat (length xs)), dec (concat (map g xs) @ r))"
proof -
  have "unat ((of_nat (length xs) :: u64) * 2) = length xs * 2"
    using assms(1) by (simp add: unat_mult_lem [THEN iffD1])
  also have "\<dots> \<le> length (concat (map g xs) @ r)"
    using concat_length_ge [of xs 2 g] assms(2) by simp
  finally show ?thesis by simp
qed

lemma array_count_enc:
  assumes "length xs < 2 ^ 64" and "\<And>x. x \<in> set xs \<Longrightarrow> 1 \<le> length (g x)"
  shows "harp_cdec_array (dec (head_bytes 4 (of_nat (length xs)) @ concat (map g xs) @ r)) =
     (Some (of_nat (length xs)), dec (concat (map g xs) @ r))"
proof -
  have "unat (of_nat (length xs) :: u64) \<le> length (concat (map g xs) @ r)"
    using concat_length_ge [of xs 1 g] assms by simp
  then show ?thesis by simp
qed

lemma obj_fields_enc:
  assumes "length fs < 2 ^ 63"
    and "\<And>k v s r. (k, v) \<in> set fs \<Longrightarrow> visit k s (dec (enc_item v @ r)) = (True, upd (k, v) s, dec r)"
  shows "obj_fields (obj_enc fs) visit s = (True, fold upd fs s)"
proof -
  let ?g = "\<lambda>(k, v). enc_uint k @ enc_item v"
  have "2 \<le> length (?g x)" for x
    using add_mono [OF head_bytes_ge1 [of 0 "fst x"] enc_item_pos [of "snd x", folded Suc_le_eq]]
    by (cases x) simp
  then have m: "harp_cdec_map (dec (obj_enc fs)) = (Some (of_nat (length fs)), dec (concat (map ?g fs)))"
    using map_count_enc [OF assms(1), of ?g "[]"] by (simp add: obj_enc_eq)
  have "loop_ret (\<lambda>s d. case harp_cdec_uint d of (None, d) \<Rightarrow> (False, s, d) | (Some key, d) \<Rightarrow> visit key s d)
      (length fs) s (dec (concat (map ?g fs) @ [])) = (True, fold upd fs s, dec [])"
    by (rule loop_ret_concat) (auto simp: assms(2))
  with m assms(1) show ?thesis by (simp add: obj_fields_def)
qed

text \<open>Every field value of an object is a shallow item, so skipping it is exact.\<close>

definition field_ok :: "cbor \<Rightarrow> bool" where
  "field_ok v \<longleftrightarrow> item_ok v (HARP_CBOR_MAX_DEPTH + 1)"

lemma skip_ret_enc [simp]: "field_ok v \<Longrightarrow> skip_ret s (dec (enc_item v @ r)) = (True, s, dec r)"
  using harp_cdec_span_enc_item(1) [of v r] by (simp add: skip_ret_def field_ok_def)

lemma field_ok_simps [simp]:
  "field_ok (CUint n)" "field_ok (CText t) \<longleftrightarrow> length t < 2 ^ 64" "field_ok (CBytes t) \<longleftrightarrow> length t < 2 ^ 64"
  "field_ok (CArray (map CBytes hs)) \<longleftrightarrow> length hs < 2 ^ 64 \<and> (\<forall>h \<in> set hs. length h < 2 ^ 64)"
  by (auto simp: field_ok_def HARP_CBOR_MAX_DEPTH_def list_all_iff)

definition hash_ok :: "harp_hash \<Rightarrow> bool" where
  "hash_ok h \<longleftrightarrow> length h = HARP_HASH_LEN \<and> h ! 0 = HARP_HASH_ALG_SHA256"

lemma harp_hash_read_enc [simp]:
  assumes "hash_ok h"
  shows "harp_hash_read (dec (head_bytes 2 (of_nat (length h)) @ h @ r)) = (Some h, dec r)"
proof -
  have "length h < 2 ^ 64" using assms by (simp add: hash_ok_def)
  from harp_cdec_bytes_enc [OF this] assms show ?thesis
    by (simp only: harp_hash_read_def) (simp add: hash_ok_def)
qed

lemma hash_ok_len [simp]: "hash_ok h \<Longrightarrow> length h = 33"
  by (simp add: hash_ok_def)

lemma field_ok_tree [simp]:
  "length es < 2 ^ 63 \<Longrightarrow> (\<And>e. e \<in> set es \<Longrightarrow> length (te_name e) < 2 ^ 64 \<and> hash_ok (te_hash e)) \<Longrightarrow>
   field_ok (CMap (map entry_item es))"
  by (auto simp: field_ok_def HARP_CBOR_MAX_DEPTH_def list_all_iff entry_item_def)

lemma int_of_u64_small [simp]: "int_of_u64 0 = 0" "int_of_u64 1 = 1" "int_of_u64 2 = 2" "int_of_u64 3 = 3"
  by (simp_all add: int_of_u64_def)

lemma harp_obj_kind_enc:
  assumes "unat k \<le> 3" and "length fs < 2 ^ 62"
    and "\<And>k v. (k, v) \<in> set fs \<Longrightarrow> k \<noteq> 0 \<and> field_ok v"
  shows "harp_obj_kind (obj_enc ((0, CUint k) # fs)) = int_of_u64 k"
proof -
  let ?u = "\<lambda>(k, v) s. if k = 0 then (case v of CUint n \<Rightarrow> int_of_u64 n | _ \<Rightarrow> s) else s"
  have "obj_fields (obj_enc ((0, CUint k) # fs)) kind_cb (- 1) = (True, fold ?u ((0, CUint k) # fs) (- 1))"
    by (rule obj_fields_enc) (use assms in \<open>auto simp: kind_cb_def word_less_nat_alt\<close>)
  moreover have "fold ?u fs s = s" for s
    using assms(3) by (induction fs) force+
  ultimately show ?thesis by (simp add: harp_obj_kind_def)
qed

lemma kind_of_objects:
  "length m < 2 ^ 64 \<Longrightarrow> length p < 2 ^ 64 \<Longrightarrow> harp_obj_kind (obj_enc (blob_item m p)) = 0"
  "length m < 2 ^ 64 \<Longrightarrow> length hs < 2 ^ 64 \<Longrightarrow> (\<And>h. h \<in> set hs \<Longrightarrow> hash_ok h) \<Longrightarrow>
     harp_obj_kind (obj_enc (list_item m hs)) = 1"
  "length es < 2 ^ 63 \<Longrightarrow> (\<And>e. e \<in> set es \<Longrightarrow> length (te_name e) < 2 ^ 64 \<and> hash_ok (te_hash e)) \<Longrightarrow>
     harp_obj_kind (obj_enc (tree_item es)) = 2"
  "hash_ok root \<Longrightarrow> length ps < 2 ^ 64 \<Longrightarrow> (\<And>h. h \<in> set ps \<Longrightarrow> hash_ok h) \<Longrightarrow> length a < 2 ^ 64 \<Longrightarrow>
     length e < 2 ^ 64 \<Longrightarrow> (\<And>x. msg = Some x \<Longrightarrow> length x < 2 ^ 64) \<Longrightarrow>
     harp_obj_kind (obj_enc (snapshot_item root ps t a e msg)) = 3"
  unfolding blob_item_def list_item_def tree_item_def snapshot_item_def append_Cons
  by (rule trans [OF harp_obj_kind_enc]; auto split: option.splits)+

lemma parse_blob_enc:
  assumes "length m < 2 ^ 64" and "length p < 2 ^ 64"
  shows "harp_obj_parse_blob (obj_enc (blob_item m p)) = Some (Some m, p)"
proof -
  let ?u = "\<lambda>(k, v) o'. case v of CUint n \<Rightarrow> o'\<lparr>bo_kind := int_of_u64 n\<rparr>
     | CText t \<Rightarrow> o'\<lparr>bo_media := Some t\<rparr> | CBytes b \<Rightarrow> o'\<lparr>bo_payload := Some b\<rparr> | _ \<Rightarrow> o'"
  have "obj_fields (obj_enc (blob_item m p)) blob_cb s = (True, fold ?u (blob_item m p) s)" for s
    by (rule obj_fields_enc) (use assms in \<open>auto simp: blob_item_def blob_cb_def\<close>)
  then show ?thesis by (simp add: harp_obj_parse_blob_def blob_item_def)
qed

lemma harp_hash_read_enc33 [simp]:
  "hash_ok h \<Longrightarrow> harp_hash_read (dec (head_bytes 2 33 @ h @ r)) = (Some h, dec r)"
  using harp_hash_read_enc [of h r] by simp

lemma snap_cb_enc:
  "snap_cb 0 s (dec (enc_item (CUint n) @ r)) = (True, s\<lparr>so_kind := int_of_u64 n\<rparr>, dec r)"
  "hash_ok h \<Longrightarrow> snap_cb 1 s (dec (enc_item (CBytes h) @ r)) =
     (True, s\<lparr>so_root := h, so_have_root := True\<rparr>, dec r)"
  "length t < 2 ^ 64 \<Longrightarrow> snap_cb 5 s (dec (enc_item (CText t) @ r)) =
     (True, s\<lparr>so_engine := cstr (take 23 t), so_have_engine := True\<rparr>, dec r)"
  "field_ok v \<Longrightarrow> k \<noteq> 0 \<Longrightarrow> k \<noteq> 1 \<Longrightarrow> k \<noteq> 5 \<Longrightarrow> snap_cb k s (dec (enc_item v @ r)) = (True, s, dec r)"
  by (simp_all add: snap_cb_def)

text \<open>The strings and hash lists of a snapshot are of representable size.\<close>

definition snapshot_ok ::
  "harp_hash \<Rightarrow> harp_hash list \<Rightarrow> bytes \<Rightarrow> bytes \<Rightarrow> bytes option \<Rightarrow> bool" where
  "snapshot_ok root ps a e msg \<longleftrightarrow> hash_ok root \<and> length ps < 2 ^ 64 \<and> (\<forall>h \<in> set ps. hash_ok h) \<and>
     length a < 2 ^ 64 \<and> length e < 2 ^ 64 \<and>
     (case msg of None \<Rightarrow> True | Some x \<Rightarrow> length x < 2 ^ 64)"

lemma parse_snapshot_enc:
  assumes "snapshot_ok root ps a e msg"
  shows "obj_fields (obj_enc (snapshot_item root ps t a e msg)) snap_cb snap_zero =
     (True, \<lparr>so_root = root, so_have_root = True, so_kind = 3, so_engine = cstr (take 23 e),
             so_have_engine = True\<rparr>)"
proof -
  let ?u = "\<lambda>(k, v) o'. if k = 0 then (case v of CUint n \<Rightarrow> o'\<lparr>so_kind := int_of_u64 n\<rparr> | _ \<Rightarrow> o')
     else if k = 1 then (case v of CBytes b \<Rightarrow> o'\<lparr>so_root := b, so_have_root := True\<rparr> | _ \<Rightarrow> o')
     else if k = 5 then (case v of CText t \<Rightarrow> o'\<lparr>so_engine := cstr (take 23 t), so_have_engine := True\<rparr> | _ \<Rightarrow> o')
     else o'"
  have "obj_fields (obj_enc (snapshot_item root ps t a e msg)) snap_cb s
      = (True, fold ?u (snapshot_item root ps t a e msg) s)" for s
  proof (rule obj_fields_enc)
    fix k v s r
    assume "(k, v) \<in> set (snapshot_item root ps t a e msg)"
    with assms show "snap_cb k s (dec (enc_item v @ r)) = (True, ?u (k, v) s, dec r)"
      by (auto simp: snapshot_item_def snap_cb_enc snapshot_ok_def
          simp del: enc_item.simps split: option.splits)
  qed (simp add: snapshot_item_def split: option.split)
  then show ?thesis by (simp add: snapshot_item_def snap_zero_def split: option.split)
qed

text \<open>What a callback has seen of a tree's entries when it may stop the walk.\<close>

fun visit_entries :: "'u harp_tree_cb \<Rightarrow> harp_tree_entry list \<Rightarrow> 'u \<Rightarrow> 'u" where
  "visit_entries cb [] ud = ud"
| "visit_entries cb (e # es) ud =
     (case cb (te_name e) (te_hash e) (te_kind e) ud of
        (go, ud) \<Rightarrow> if go then visit_entries cb es ud else ud)"

definition tree_ok :: "harp_tree_entry list \<Rightarrow> bool" where
  "tree_ok es \<longleftrightarrow> length es < 2 ^ 63 \<and> (\<forall>e \<in> set es. length (te_name e) < 2 ^ 64 \<and> hash_ok (te_hash e))"

definition tree_step :: "'u harp_tree_cb \<Rightarrow> harp_tree_entry \<Rightarrow> bool \<times> 'u \<Rightarrow> bool \<times> 'u" where
  "tree_step cb e it =
     (if fst it then it
      else case cb (te_name e) (te_hash e) (te_kind e) (snd it) of (go, ud) \<Rightarrow> (\<not> go, ud))"

lemma ucast_ucast_u32 [simp]: "ucast (ucast k :: u64) = (k :: u32)"
  by (rule bit_word_eqI) (auto simp: bit_simps)

lemma tree_entry_enc:
  assumes "length (te_name e) < 2 ^ 64" and "hash_ok (te_hash e)"
  shows "tree_entry cb it (dec (enc_item (fst (entry_item e)) @ enc_item (snd (entry_item e)) @ r)) =
     (True, tree_step cb e it, dec r)"
proof -
  have a: "harp_cdec_array (dec (head_bytes 4 2 @ head_bytes 2 33 @ te_hash e @ enc_uint (ucast (te_kind e)) @ r)) =
     (Some 2, dec (head_bytes 2 33 @ te_hash e @ enc_uint (ucast (te_kind e)) @ r))"
    using assms(2) by (intro harp_cdec_array_enc) simp
  show ?thesis
    using assms a
    by (cases it) (simp add: tree_entry_def entry_item_def tree_step_def split: prod.split)
qed

lemma fold_tree_step_stopped: "fold (tree_step cb) es (True, ud) = (True, ud)"
  by (induction es) (auto simp: tree_step_def)

lemma fold_tree_step: "snd (fold (tree_step cb) es (False, ud)) = visit_entries cb es ud"
  by (induction es arbitrary: ud)
    (auto simp: tree_step_def fold_tree_step_stopped split: prod.splits)

lemma tree_cb_enc:
  assumes "tree_ok es"
  shows "tree_cb cb 1 it (dec (enc_item (CMap (map entry_item es)) @ r)) = (True, fold (tree_step cb) es it, dec r)"
proof -
  let ?g = "\<lambda>e. enc_item (fst (entry_item e)) @ enc_item (snd (entry_item e))"
  have len: "length es < 2 ^ 63" using assms by (simp add: tree_ok_def)
  have "2 \<le> length (?g e)" for e
    using add_mono [OF enc_item_pos [of "fst (entry_item e)", folded Suc_le_eq]
        enc_item_pos [of "snd (entry_item e)", folded Suc_le_eq]] by simp
  note m = map_count_enc [OF len, of ?g r, OF this]
  have "loop_ret (tree_entry cb) (length es) it (dec (concat (map ?g es) @ r)) =
     (True, fold (tree_step cb) es it, dec r)"
    by (rule loop_ret_concat) (use assms in \<open>simp add: tree_entry_enc tree_ok_def\<close>)
  with m len show ?thesis by (simp add: tree_cb_def comp_def)
qed

lemma tree_foreach_enc:
  assumes "tree_ok es"
  shows "harp_obj_tree_foreach (obj_enc (tree_item es)) cb ud = (True, visit_entries cb es ud)"
proof -
  let ?u = "\<lambda>(k, v) it. if k = (1 :: u64) then fold (tree_step cb) es it else it"
  have "obj_fields (obj_enc (tree_item es)) (tree_cb cb) (False, ud) = (True, fold ?u (tree_item es) (False, ud))"
  proof (rule obj_fields_enc)
    fix k v it r
    assume "(k, v) \<in> set (tree_item es)"
    then consider "k = 0" "v = CUint 2" | "k = 1" "v = CMap (map entry_item es)"
      by (auto simp: tree_item_def)
    then show "tree_cb cb k it (dec (enc_item v @ r)) = (True, ?u (k, v) it, dec r)"
    proof cases
      case 1
      then show ?thesis by (simp add: tree_cb_def del: enc_item.simps)
    qed (simp add: tree_cb_enc [OF assms] del: enc_item.simps)
  qed (simp add: tree_item_def)
  moreover have "harp_obj_kind (obj_enc (tree_item es)) = 2"
    using assms by (intro kind_of_objects) (auto simp: tree_ok_def)
  ultimately show ?thesis
    using fold_tree_step [of cb es ud]
    by (simp add: harp_obj_tree_foreach_def tree_item_def case_prod_beta)
qed

text \<open>The children of lists and snapshots.\<close>

abbreviation child_step :: "'u harp_hash_cb \<Rightarrow> harp_hash \<Rightarrow> bool \<times> 'u \<Rightarrow> bool \<times> 'u" where
  "child_step cb h it \<equiv> (if fst (cb h (snd it)) then fst it else False, snd (cb h (snd it)))"

lemma child_hash_enc:
  "hash_ok h \<Longrightarrow> child_hash cb it (dec (enc_item (CBytes h) @ r)) = (True, child_step cb h it, dec r)"
  by (simp add: child_hash_def split: prod.split)

lemma child_hashes_enc:
  assumes "length hs < 2 ^ 64" and "\<And>h. h \<in> set hs \<Longrightarrow> hash_ok h"
  shows "child_hashes cb it (dec (enc_item (CArray (map CBytes hs)) @ r)) =
     (True, fold (child_step cb) hs it, dec r)"
proof -
  let ?g = "\<lambda>h. enc_item (CBytes h)"
  note a = array_count_enc [OF assms(1), of ?g r]
  have "loop_ret (child_hash cb) (length hs) it (dec (concat (map ?g hs) @ r)) =
     (True, fold (child_step cb) hs it, dec r)"
    by (rule loop_ret_concat) (use assms in \<open>auto simp: child_hash_enc simp del: enc_item.simps\<close>)
  with a assms(1) show ?thesis
    by (simp add: child_hashes_def comp_def Suc_le_eq)
qed

lemma snd_fold_child_step: "snd (fold (child_step cb) hs it) = fold (\<lambda>h u. snd (cb h u)) hs (snd it)"
  by (induction hs arbitrary: it) auto

lemma foreach_child_list_enc:
  assumes "length m < 2 ^ 64" and "length hs < 2 ^ 64" and "\<And>h. h \<in> set hs \<Longrightarrow> hash_ok h"
  shows "harp_obj_foreach_child (obj_enc (list_item m hs)) ip cb ud = (True, fold (\<lambda>h u. snd (cb h u)) hs ud)"
proof -
  let ?u = "\<lambda>(k, v) it. if k = (2 :: u64) then fold (child_step cb) hs it else it"
  have "obj_fields (obj_enc (list_item m hs)) (child_cb cb ip 1) (True, ud) =
      (True, fold ?u (list_item m hs) (True, ud))"
  proof (rule obj_fields_enc)
    fix k v it r
    assume "(k, v) \<in> set (list_item m hs)"
    then show "child_cb cb ip 1 k it (dec (enc_item v @ r)) = (True, ?u (k, v) it, dec r)"
      using assms by (auto simp: list_item_def child_cb_def child_hashes_enc simp del: enc_item.simps)
  qed (simp add: list_item_def)
  then show ?thesis
    using kind_of_objects(2) [OF assms] snd_fold_child_step [of cb hs "(True, ud)"]
    by (simp add: harp_obj_foreach_child_def list_item_def case_prod_beta)
qed

lemma foreach_child_snapshot_enc:
  assumes "snapshot_ok root ps a e msg"
  shows "harp_obj_foreach_child (obj_enc (snapshot_item root ps t a e msg)) ip cb ud =
     (True, fold (\<lambda>h u. snd (cb h u)) (root # (if ip then ps else [])) ud)"
proof -
  let ?o = "snapshot_item root ps t a e msg"
  let ?u = "\<lambda>(k, v) it. if k = (1 :: u64) then child_step cb root it
     else if k = 2 \<and> ip then fold (child_step cb) ps it else it"
  have "obj_fields (obj_enc ?o) (child_cb cb ip 3) (True, ud) = (True, fold ?u ?o (True, ud))"
  proof (rule obj_fields_enc)
    fix k v it r
    assume "(k, v) \<in> set ?o"
    then show "child_cb cb ip 3 k it (dec (enc_item v @ r)) = (True, ?u (k, v) it, dec r)"
      using assms
      by (auto simp: snapshot_item_def snapshot_ok_def child_cb_def child_hashes_enc child_hash_enc
          simp del: enc_item.simps split: option.splits)
  qed (simp add: snapshot_item_def split: option.split)
  moreover have "harp_obj_kind (obj_enc ?o) = 3"
    using assms by (intro kind_of_objects) (auto simp: snapshot_ok_def)
  moreover have "fold ?u ?o (True, ud) = fold (child_step cb) (root # (if ip then ps else [])) (True, ud)"
    by (auto simp: snapshot_item_def split: option.split)
  ultimately show ?thesis
    using snd_fold_child_step [of cb "root # (if ip then ps else [])" "(True, ud)"]
    by (simp add: harp_obj_foreach_child_def case_prod_beta del: fold_simps)
qed

section \<open>Hexadecimal names\<close>

lemma hexval_hexd: "v < 16 \<Longrightarrow> hexval (hexd v) = Some v"
proof -
  assume "v < 16"
  then have "unat v \<in> {0..<16}" by (simp add: word_less_nat_alt)
  moreover have "v = of_nat (unat v)" by simp
  ultimately have "v \<in> set (map of_nat [0..<16])" by (metis image_eqI list.set_map set_upt)
  moreover have "\<forall>v \<in> set (map of_nat [0..<16]). hexval (hexd v) = Some (v :: u8)" by code_simp
  ultimately show ?thesis by blast
qed

lemma hexd_pair: "hexval (hexd (drop_bit 4 b)) = Some (drop_bit 4 b)" "hexval (hexd (b AND 0xf)) = Some (b AND 0xf)"
  "push_bit 4 (drop_bit 4 b) OR (b AND 0xf) = b"
  for b :: u8
proof -
  have "unat (drop_bit 4 b) < 16" using unsigned_less [of b, where ?'a = nat] by (simp add: unat_drop_bit_eq drop_bit_nat_def)
  then show "hexval (hexd (drop_bit 4 b)) = Some (drop_bit 4 b)"
    by (intro hexval_hexd) (simp add: word_less_nat_alt)
  have m: "b AND 0xf = take_bit 4 b" by (simp add: take_bit_eq_mask mask_numeral)
  have "unat (take_bit 4 b) < 16" by (simp add: unsigned_take_bit_eq take_bit_nat_def)
  then show "hexval (hexd (b AND 0xf)) = Some (b AND 0xf)"
    by (intro hexval_hexd) (simp add: word_less_nat_alt m)
  show "push_bit 4 (drop_bit 4 b) OR (b AND 0xf) = b"
    unfolding m by (rule bit_word_eqI) (auto simp: bit_simps)
qed

lemma hex_bytes_hex:
  "hex_bytes (concat (map (\<lambda>b. [hexd (drop_bit 4 b), hexd (b AND 0xf)]) bs)) = Some bs"
  by (induction bs) (simp_all add: hexd_pair)

lemma harp_hash_hex_eq:
  assumes "length h = HARP_HASH_LEN"
  shows "harp_hash_hex h = concat (map (\<lambda>b. [hexd (drop_bit 4 b), hexd (b AND 0xf)]) h)"
proof -
  have "map (\<lambda>b. [hexd (drop_bit 4 b), hexd (b AND 0xf)]) h =
      map (\<lambda>i. [hexd (drop_bit 4 (h ! i)), hexd (h ! i AND 0xf)]) [0..<HARP_HASH_LEN]"
    using assms by (intro nth_equalityI) auto
  then show ?thesis by (simp add: harp_hash_hex_def)
qed

section \<open>Correctness\<close>

text \<open>
  Hashes survive the trip through their file names.  The hexadecimal form of a 33-byte hash has 66 digits
  and \<open>harp_hash_from_hex\<close> reads back the same hash; strings of any other length are refused.
\<close>

theorem hash_hex_roundtrip:
  assumes "length h = HARP_HASH_LEN"
  shows "harp_hash_from_hex (harp_hash_hex h) = Some h \<and> length (harp_hash_hex h) = 2 * HARP_HASH_LEN \<and>
    (length s \<noteq> 2 * HARP_HASH_LEN \<longrightarrow> harp_hash_from_hex s = None)"
proof -
  have "length (concat (map (\<lambda>b. [hexd (drop_bit 4 b), hexd (b AND 0xf)]) bs)) = 2 * length bs" for bs :: bytes
    by (induction bs) auto
  then show ?thesis
    using harp_hash_hex_eq [OF assms] hex_bytes_hex [of h] assms by (simp add: harp_hash_from_hex_def)
qed

lemma hash_hex_roundtrip_witness:
  "harp_hash_from_hex (harp_hash_hex (replicate 33 0xa7)) = Some (replicate 33 0xa7)"
  using hash_hex_roundtrip [of "replicate 33 0xa7"] by simp

text \<open>
  A tree has one encoding.  Whatever order its entries (with distinct names) are given in, the encoder
  writes the same bytes, so the object gets the same hash; the entries are written shorter names first and
  bytewise among names of equal length; and a tree of more than 256 entries is refused.
\<close>

theorem tree_encoding_canonical:
  assumes "mset es = mset es'" and "inj_on te_name (set es)"
  shows "harp_obj_encode_tree b es = harp_obj_encode_tree b es' \<and>
    sorted_wrt entry_le (qsort entry_cmp es) \<and> mset (qsort entry_cmp es) = mset es \<and>
    (length es > 256 \<longrightarrow> cb_view (harp_obj_encode_tree b es) = None)"
  using qsort_perm [OF assms] mset_eq_length [OF assms(1)] assms(1)
  by (simp add: harp_obj_encode_tree_def sorted_qsort cb_view_def)

definition ex_entry :: "bytes \<Rightarrow> harp_tree_entry" where
  "ex_entry n = \<lparr>te_name = n, te_hash = 1 # replicate 32 0, te_kind = 0\<rparr>"

lemma tree_encoding_canonical_witness:
  "harp_obj_encode_tree \<lparr>cb_buf = [], cb_cap = 0, cb_oom = False, cb_avail = 4096\<rparr>
     [ex_entry [0x62, 0x61], ex_entry [0x63]] =
   harp_obj_encode_tree \<lparr>cb_buf = [], cb_cap = 0, cb_oom = False, cb_avail = 4096\<rparr>
     [ex_entry [0x63], ex_entry [0x62, 0x61]]"
  using tree_encoding_canonical [of "[ex_entry [0x62, 0x61], ex_entry [0x63]]"
      "[ex_entry [0x63], ex_entry [0x62, 0x61]]"]
  by (simp add: ex_entry_def)

text \<open>
  C38: Walking an encoded tree visits exactly its entries, in canonical order.  If the encoder produced bytes,
  \<open>harp_obj_tree_foreach\<close> on them succeeds and calls the callback with each entry's name, hash and kind in
  sorted order until the callback asks to stop; kind detection says \<^emph>\<open>tree\<close>.
\<close>

theorem tree_roundtrip:
  assumes "cbuf_wf b" and "cb_buf b = []" and "cb_view (harp_obj_encode_tree b es) = Some bs"
    and "\<forall>e \<in> set es. length (te_name e) < 2 ^ 64 \<and> hash_ok (te_hash e)"
  shows "harp_obj_kind bs = 2 \<and>
    harp_obj_tree_foreach bs cb ud = (True, visit_entries cb (qsort entry_cmp es) ud)"
proof -
  from assms(3) have n: "length es \<le> 256"
    by (auto simp: harp_obj_encode_tree_def cb_view_def split: if_splits)
  from emits_Some [OF emits_encode_tree [OF n] assms(1,3)] assms(2)
  have bs: "bs = obj_enc (tree_item (qsort entry_cmp es))" by simp
  have ok: "tree_ok (qsort entry_cmp es)" using assms(4) n by (simp add: tree_ok_def)
  then have "harp_obj_kind bs = 2" unfolding bs by (intro kind_of_objects) (auto simp: tree_ok_def)
  with tree_foreach_enc [OF ok, of cb ud] bs show ?thesis by simp
qed

lemma tree_roundtrip_witness:
  "harp_obj_tree_foreach (obj_enc (tree_item [ex_entry [0x61]])) (\<lambda>n h k u. (True, u @ [n])) [] = (True, [[0x61]])"
proof -
  let ?b = "\<lparr>cb_buf = [], cb_cap = 256, cb_oom = False, cb_avail = 256\<rparr>"
  have n: "length [ex_entry [0x61]] \<le> 256" by simp
  have "cb_view (harp_obj_encode_tree ?b [ex_entry [0x61]]) =
      Some (obj_enc (tree_item [ex_entry [0x61]]))"
    using emits_view [OF emits_encode_tree [OF n], of ?b]
    by (simp add: cbuf_wf_def qsort_def cb_view_def harp_cbuf_put_def ensure_def obj_enc_eq tree_item_def
        entry_item_def ex_entry_def head_bytes_def)
  from tree_roundtrip [OF _ _ this, of "\<lambda>n h k u. (True, u @ [n])" "[]"] show ?thesis
    by (simp add: cbuf_wf_def ex_entry_def hash_ok_def qsort_def)
qed

text \<open>
  Blobs and snapshots parse back.  From the bytes of an encoded blob, \<open>harp_obj_parse_blob\<close> returns its media
  type and payload; from the bytes of an encoded snapshot the parsers return its root hash and its engine
  version, the latter cut to the 23 bytes that the C field holds.
\<close>

theorem object_parse_roundtrip:
  assumes "cbuf_wf b" and "cb_buf b = []" and "snapshot_ok root ps author engine message"
    and "0 \<notin> set engine" and "length media < 2 ^ 64" and "length payload < 2 ^ 64"
  shows "(cb_view (harp_obj_encode_blob b media payload) = Some bs \<longrightarrow>
            harp_obj_parse_blob bs = Some (Some media, payload)) \<and>
    (cb_view (harp_obj_encode_snapshot b root ps t author engine message) = Some bs \<longrightarrow>
       harp_obj_parse_snapshot_root bs = Some root \<and>
       harp_obj_parse_snapshot_engine bs 24 = Some (take 23 engine))"
proof -
  have e: "cstr (take 23 engine) = take 23 engine"
    using assms(4) by (intro cstr_no_nul) (auto dest: in_set_takeD)
  show ?thesis
    using emits_Some [OF emits_encode_blob assms(1), of media payload bs]
      emits_Some [OF emits_encode_snapshot assms(1), of root ps t author engine message bs]
      parse_blob_enc [OF assms(5,6)] parse_snapshot_enc [OF assms(3), of t] assms(2) e
    by (auto simp: harp_obj_parse_snapshot_root_def harp_obj_parse_snapshot_engine_def)
qed

lemma object_parse_roundtrip_witness:
  "harp_obj_parse_blob (obj_enc (blob_item [0x61] [1, 2, 3])) = Some (Some [0x61], [1, 2, 3])"
proof -
  let ?b = "\<lparr>cb_buf = [], cb_cap = 256, cb_oom = False, cb_avail = 256\<rparr>"
  have "cb_view (harp_obj_encode_blob ?b [0x61] [1, 2, 3]) = Some (obj_enc (blob_item [0x61] [1, 2, 3]))"
    using emits_view [OF emits_encode_blob, of ?b]
    by (simp add: cbuf_wf_def cb_view_def harp_cbuf_put_def ensure_def obj_enc_eq blob_item_def head_bytes_def)
  then show ?thesis
    using object_parse_roundtrip [of ?b "1 # replicate 32 0" "[]" "[]" "[]" None "[0x61]" "[1, 2, 3]"
        "obj_enc (blob_item [0x61] [1, 2, 3])" 0]
    by (simp add: cbuf_wf_def snapshot_ok_def hash_ok_def)
qed

text \<open>
  Child enumeration finds every reference.  On the encodings of lists and snapshots \<open>harp_obj_foreach_child\<close>
  calls the callback on every chunk hash, or on the root and, when asked for, every parent, in order; on
  trees it visits the entries until the callback stops it; blobs have no children; and it reports success.
\<close>

theorem foreach_child_complete:
  assumes "length media < 2 ^ 64" and "length payload < 2 ^ 64" and "length hs < 2 ^ 64"
    and "\<forall>h \<in> set hs. hash_ok h" and "tree_ok es" and "snapshot_ok root ps author engine message"
  shows "harp_obj_foreach_child (obj_enc (blob_item media payload)) ip cb ud = (True, ud) \<and>
    harp_obj_foreach_child (obj_enc (list_item media hs)) ip cb ud =
      (True, fold (\<lambda>h u. snd (cb h u)) hs ud) \<and>
    harp_obj_foreach_child (obj_enc (tree_item es)) ip cb ud =
      (True, visit_entries (\<lambda>name h kind. cb h) es ud) \<and>
    harp_obj_foreach_child (obj_enc (snapshot_item root ps t author engine message)) ip cb ud =
      (True, fold (\<lambda>h u. snd (cb h u)) (root # (if ip then ps else [])) ud)"
proof (intro conjI)
  show "harp_obj_foreach_child (obj_enc (blob_item media payload)) ip cb ud = (True, ud)"
    using kind_of_objects(1) [OF assms(1,2)] by (simp add: harp_obj_foreach_child_def)
  have "harp_obj_kind (obj_enc (tree_item es)) = 2"
    using assms(5) by (intro kind_of_objects) (auto simp: tree_ok_def)
  moreover have "child_tree_entry cb = (\<lambda>name h kind. cb h)"
    by (intro ext) (simp add: child_tree_entry_def)
  ultimately show "harp_obj_foreach_child (obj_enc (tree_item es)) ip cb ud =
      (True, visit_entries (\<lambda>name h kind. cb h) es ud)"
    using tree_foreach_enc [OF assms(5)] by (simp add: harp_obj_foreach_child_def)
qed (simp_all only: foreach_child_list_enc [OF assms(1,3)] foreach_child_snapshot_enc [OF assms(6)]
    assms(4) [rule_format])

lemma foreach_child_complete_witness:
  "harp_obj_foreach_child (obj_enc (list_item [] [1 # replicate 32 9])) False (\<lambda>h u. (True, u @ [h])) []
     = (True, [1 # replicate 32 9])"
  using foreach_child_complete [of "[]" "[]" "[1 # replicate 32 9]" "[]" "1 # replicate 32 0" "[]" "[]" "[]" None
      False "\<lambda>h u. (True, u @ [h])" "[]" 0]
  by (simp add: hash_ok_def tree_ok_def snapshot_ok_def)

end
