(* ===== verification/Harp_Anonymize.thy ===== *)
theory Harp_Anonymize
  imports Harp_Object
begin

text \<open>
  \<^verbatim>\<open>core/src/anonymize.c\<close>: the re-encoder that clears personal data from a diagnostic device section.  The
  code is one function of nested loops; each loop body is a definition here, with the output buffer as loop
  state.  The specification is a rewriting of CBOR trees that blanks a fixed set of leaves.
\<close>

unbundle bit_operations_syntax

section \<open>The code\<close>

type_synonym anon_step = "harp_cbuf \<Rightarrow> harp_cdec \<Rightarrow> bool \<times> harp_cbuf \<times> harp_cdec"

text \<open>Copy one item verbatim; drop one item and write an empty string in its place.\<close>

definition anon_copy :: anon_step where
  "anon_copy out d =
     (case harp_cdec_span d of
        (None, d) \<Rightarrow> (False, out, d)
      | (Some span, d) \<Rightarrow> (True, harp_cbuf_put out span, d))"

definition anon_blank :: anon_step where
  "anon_blank out d =
     (case harp_cdec_skip d of
        (None, d) \<Rightarrow> (False, out, d)
      | (Some u, d) \<Rightarrow> (True, harp_cbor_text out [], d))"

text \<open>The loop over the pairs of a map with integer keys, and over the elements of an array.\<close>

definition anon_map :: "(u64 \<Rightarrow> anon_step) \<Rightarrow> anon_step" where
  "anon_map f out d =
     (case harp_cdec_map d of
        (None, d) \<Rightarrow> (False, out, d)
      | (Some n, d) \<Rightarrow>
          loop_ret (\<lambda>out d. case harp_cdec_uint d of
                              (None, d) \<Rightarrow> (False, out, d)
                            | (Some key, d) \<Rightarrow> f key (harp_cbor_uint out key) d)
            (unat n) (harp_cbor_map out n) d)"

definition anon_array :: "anon_step \<Rightarrow> anon_step" where
  "anon_array f out d =
     (case harp_cdec_array d of
        (None, d) \<Rightarrow> (False, out, d)
      | (Some n, d) \<Rightarrow> loop_ret f (unat n) (harp_cbor_array out n) d)"

definition anon_log_field :: "u64 \<Rightarrow> anon_step" where
  "anon_log_field fk = (if fk = 3 then anon_blank else anon_copy)"

definition anon_name_field :: "u64 \<Rightarrow> anon_step" where
  "anon_name_field sk = (if sk = 1 then anon_blank else anon_copy)"

definition anon_channel_field :: "u64 \<Rightarrow> anon_step" where
  "anon_channel_field ekey = (if ekey = 2 \<or> ekey = 3 \<or> ekey = 4 then anon_blank else anon_copy)"

definition anon_identity_field :: "u64 \<Rightarrow> anon_step" where
  "anon_identity_field ik =
     (if ik = 0 \<or> ik = 1 then anon_map anon_name_field
      else if ik = 2 \<or> ik = 9 then anon_blank
      else if ik = 7 then anon_array (anon_map anon_channel_field)
      else anon_copy)"

definition anon_section_field :: "u64 \<Rightarrow> anon_step" where
  "anon_section_field key =
     (if key = 2 then anon_array (anon_map anon_log_field)
      else if key \<noteq> 0 then anon_copy
      else anon_map anon_identity_field)"

definition harp_anonymize_device_section :: "harp_cbuf \<Rightarrow> bytes \<Rightarrow> bool \<times> harp_cbuf" where
  "harp_anonymize_device_section out sec =
     (case anon_map anon_section_field out (harp_cdec_init sec) of
        (False, out, d) \<Rightarrow> (False, out)
      | (True, out, d) \<Rightarrow> (\<not> cd_err d, out))"

section \<open>Specification\<close>

text \<open>
  \<open>clear_map F\<close> rewrites the values of a map by key, \<open>clear_list\<close> the elements of an array.  \<open>map_shape\<close> and
  \<open>list_shape\<close> say that an item has the shape that the re-encoder walks into.
\<close>

fun clear_map :: "(u64 \<Rightarrow> cbor \<Rightarrow> cbor) \<Rightarrow> cbor \<Rightarrow> cbor" where
  "clear_map F (CMap kvs) = CMap (map (\<lambda>(k, v). (k, case k of CUint n \<Rightarrow> F n v | _ \<Rightarrow> v)) kvs)"
| "clear_map F t = t"

fun clear_list :: "(cbor \<Rightarrow> cbor) \<Rightarrow> cbor \<Rightarrow> cbor" where
  "clear_list F (CArray xs) = CArray (map F xs)"
| "clear_list F t = t"

fun map_shape :: "(u64 \<Rightarrow> cbor \<Rightarrow> bool) \<Rightarrow> cbor \<Rightarrow> bool" where
  "map_shape P (CMap kvs) \<longleftrightarrow>
     length kvs < 2 ^ 63 \<and> list_all (\<lambda>(k, v). case k of CUint n \<Rightarrow> P n v | _ \<Rightarrow> False) kvs"
| "map_shape P t \<longleftrightarrow> False"

fun list_shape :: "(cbor \<Rightarrow> bool) \<Rightarrow> cbor \<Rightarrow> bool" where
  "list_shape P (CArray xs) \<longleftrightarrow> length xs < 2 ^ 64 \<and> list_all P xs"
| "list_shape P t \<longleftrightarrow> False"

definition blank_keys :: "u64 set \<Rightarrow> u64 \<Rightarrow> cbor \<Rightarrow> cbor" where
  "blank_keys ks k v = (if k \<in> ks then CText [] else v)"

definition clear_identity :: "u64 \<Rightarrow> cbor \<Rightarrow> cbor" where
  "clear_identity k v =
     (if k \<in> {0, 1} then clear_map (blank_keys {1}) v
      else if k = 7 then clear_list (clear_map (blank_keys {2, 3, 4})) v
      else blank_keys {2, 9} k v)"

definition clear_section :: "cbor \<Rightarrow> cbor" where
  "clear_section = clear_map (\<lambda>k v.
     if k = 0 then clear_map clear_identity v
     else if k = 2 then clear_list (clear_map (blank_keys {3})) v
     else v)"

definition identity_shape :: "u64 \<Rightarrow> cbor \<Rightarrow> bool" where
  "identity_shape k v \<longleftrightarrow>
     (if k \<in> {0, 1} then map_shape (\<lambda>_. field_ok) v
      else if k = 7 then list_shape (map_shape (\<lambda>_. field_ok)) v
      else field_ok v)"

definition section_shape :: "cbor \<Rightarrow> bool" where
  "section_shape = map_shape (\<lambda>k v.
     if k = 0 then map_shape identity_shape v
     else if k = 2 then list_shape (map_shape (\<lambda>_. field_ok)) v
     else field_ok v)"

section \<open>Rewriting\<close>

text \<open>A step recodes \<open>t\<close> to \<open>t'\<close>: it consumes the encoding of \<open>t\<close> and appends the encoding of \<open>t'\<close>.\<close>

definition recodes :: "anon_step \<Rightarrow> cbor \<Rightarrow> cbor \<Rightarrow> bool" where
  "recodes f t t' \<longleftrightarrow>
     (\<exists>g. emits g (enc_item t') \<and> (\<forall>out r. f out (dec (enc_item t @ r)) = (True, g out, dec r)))"

lemma recodes_copy: "field_ok t \<Longrightarrow> recodes anon_copy t t"
  unfolding recodes_def anon_copy_def
  by (rule exI [of _ "\<lambda>out. harp_cbuf_put out (enc_item t)"])
    (use harp_cdec_span_enc_item(2) [of t] in \<open>auto simp: field_ok_def\<close>)

lemma recodes_blank: "field_ok t \<Longrightarrow> recodes anon_blank t (CText [])"
  unfolding recodes_def anon_blank_def
  by (rule exI [of _ "\<lambda>out. harp_cbor_text out []"])
    (use harp_cdec_span_enc_item(1) [of t] emits_text [of "[]"] in \<open>auto simp: field_ok_def\<close>)

lemma recodes_loop:
  assumes "\<And>x. x \<in> set xs \<Longrightarrow> emits (h x) (enc x) \<and> (\<forall>out r. f out (dec (g x @ r)) = (True, h x out, dec r))"
  shows "loop_ret f (length xs) out (dec (concat (map g xs) @ r)) = (True, fold h xs out, dec r)"
    and "emits (fold h xs) (concat (map enc xs))"
proof -
  show "loop_ret f (length xs) out (dec (concat (map g xs) @ r)) = (True, fold h xs out, dec r)"
    by (rule loop_ret_concat) (use assms in blast)
  have "emits (\<lambda>b. foldl (\<lambda>b x. h x b) b xs) (concat (map enc xs))"
    by (rule emits_foldl) (use assms in blast)
  then show "emits (fold h xs) (concat (map enc xs))" by (simp add: foldl_conv_fold fun_eq_iff)
qed

lemma recodes_array:
  assumes "list_shape P t" and "\<And>x. P x \<Longrightarrow> recodes f x (F x)"
  shows "recodes (anon_array f) t (clear_list F t)"
proof -
  from assms(1) obtain xs where t: "t = CArray xs" and l: "length xs < 2 ^ 64" and P: "\<And>x. x \<in> set xs \<Longrightarrow> P x"
    by (cases t) (auto simp: list_all_iff)
  from assms(2) P have "\<forall>x \<in> set xs. \<exists>h. emits h (enc_item (F x)) \<and>
      (\<forall>out r. f out (dec (enc_item x @ r)) = (True, h out, dec r))" by (auto simp: recodes_def)
  then obtain h where h: "\<And>x. x \<in> set xs \<Longrightarrow> emits (h x) (enc_item (F x)) \<and>
      (\<forall>out r. f out (dec (enc_item x @ r)) = (True, h x out, dec r))" by metis
  note loop = recodes_loop [of xs h "\<lambda>x. enc_item (F x)" f enc_item, OF h]
  have c: "harp_cdec_array (dec (enc_item t @ r)) = (Some (of_nat (length xs)), dec (concat (map enc_item xs) @ r))" for r
    using array_count_enc [OF l, of enc_item r] enc_item_pos by (simp add: t Suc_le_eq)
  show ?thesis
    unfolding recodes_def anon_array_def
    by (rule exI [of _ "\<lambda>out. fold h xs (harp_cbor_array out (of_nat (length xs)))"])
      (use c l loop(1) emits_comp [OF emits_array loop(2)] in \<open>simp add: t comp_def\<close>)
qed

lemma recodes_map:
  assumes "map_shape P t" and "\<And>k x. P k x \<Longrightarrow> recodes (f k) x (F k x)"
  shows "recodes (anon_map f) t (clear_map F t)"
proof -
  from assms(1) obtain kvs where t: "t = CMap kvs" and l: "length kvs < 2 ^ 63"
    and a: "\<forall>p \<in> set kvs. case fst p of CUint n \<Rightarrow> P n (snd p) | _ \<Rightarrow> False"
    by (cases t) (auto simp: list_all_iff case_prod_beta)
  have P: "\<exists>n. k = CUint n \<and> P n v" if "(k, v) \<in> set kvs" for k v
    using bspec [OF a that] by (cases k) auto
  let ?F = "\<lambda>(k, v). (k, case k of CUint n \<Rightarrow> F n v | _ \<Rightarrow> v)"
  let ?g = "\<lambda>(k, v). enc_item k @ enc_item v"
  let ?f = "\<lambda>out d. case harp_cdec_uint d of (None, d) \<Rightarrow> (False, out, d) | (Some key, d) \<Rightarrow> f key (harp_cbor_uint out key) d"
  have "\<forall>p \<in> set kvs. \<exists>h. emits h (?g (?F p)) \<and> (\<forall>out r. ?f out (dec (?g p @ r)) = (True, h out, dec r))"
  proof
    fix p
    assume "p \<in> set kvs"
    moreover obtain k v where p: "p = (k, v)" by (cases p)
    ultimately obtain n where n: "k = CUint n" "P n v" using P by blast
    from assms(2) [OF n(2)] obtain h where h: "emits h (enc_item (F n v))"
      "\<And>out r. f n out (dec (enc_item v @ r)) = (True, h out, dec r)"
      unfolding recodes_def by blast
    then show "\<exists>h. emits h (?g (?F p)) \<and> (\<forall>out r. ?f out (dec (?g p @ r)) = (True, h out, dec r))"
      using n p emits_comp [OF emits_uint h(1)] by (intro exI [of _ "\<lambda>out. h (harp_cbor_uint out n)"]) simp
  qed
  from bchoice [OF this] obtain h where h: "\<forall>p \<in> set kvs. emits (h p) (?g (?F p)) \<and>
      (\<forall>out r. ?f out (dec (?g p @ r)) = (True, h p out, dec r))" ..
  note loop = recodes_loop [of kvs h "\<lambda>p. ?g (?F p)" ?f ?g, OF bspec [OF h]]
  have two: "2 \<le> length (?g p)" for p
    using add_mono [OF enc_item_pos [of "fst p", folded Suc_le_eq] enc_item_pos [of "snd p", folded Suc_le_eq]]
    by (cases p) simp
  have e: "enc_item (CMap ps) = head_bytes 5 (of_nat (length ps)) @ concat (map ?g ps)" for ps
    by (simp add: comp_def case_prod_unfold)
  have c: "harp_cdec_map (dec (enc_item t @ r)) = (Some (of_nat (length kvs)), dec (concat (map ?g kvs) @ r))" for r
    using map_count_enc [OF l, of ?g r] two unfolding t e by simp
  have em: "emits (\<lambda>out. fold h kvs (harp_cbor_map out (of_nat (length kvs)))) (enc_item (clear_map F t))"
    using emits_comp [OF emits_map loop(2)] unfolding t clear_map.simps e by (simp add: comp_def)
  have "anon_map f out (dec (enc_item t @ r)) = (True, fold h kvs (harp_cbor_map out (of_nat (length kvs))), dec r)" for out r
    unfolding anon_map_def c using l loop(1) by simp
  with em show ?thesis unfolding recodes_def by (intro exI conjI allI)
qed

lemma recodes_keys:
  "field_ok v \<Longrightarrow> recodes (if k \<in> ks then anon_blank else anon_copy) v (blank_keys ks k v)"
  by (simp add: blank_keys_def recodes_blank recodes_copy)

lemma recodes_identity: "identity_shape k v \<Longrightarrow> recodes (anon_identity_field k) v (clear_identity k v)"
proof -
  have name: "recodes (anon_name_field j) x (blank_keys {1} j x)" if "field_ok x" for j x
    using recodes_keys [OF that, of j "{1}"] by (simp add: anon_name_field_def)
  have chan: "recodes (anon_channel_field j) x (blank_keys {2, 3, 4} j x)" if "field_ok x" for j x
    using recodes_keys [OF that, of j "{2, 3, 4}"] by (simp add: anon_channel_field_def)
  have leaf: "recodes (if j = 2 \<or> j = 9 then anon_blank else anon_copy) x (blank_keys {2, 9} j x)"
    if "field_ok x" for j x
    using recodes_keys [OF that, of j "{2, 9}"] by simp
  assume s: "identity_shape k v"
  consider "k = 0 \<or> k = 1" | "k = 7" | "k \<noteq> 0" "k \<noteq> 1" "k \<noteq> 7" by blast
  then show ?thesis
  proof cases
    case 1
    then show ?thesis
      using s recodes_map [of "\<lambda>_. field_ok" v anon_name_field "blank_keys {1}", OF _ name]
      by (auto simp: identity_shape_def anon_identity_field_def clear_identity_def)
  next
    case 2
    then show ?thesis
      using s recodes_array [OF _ recodes_map [of "\<lambda>_. field_ok" _ anon_channel_field, OF _ chan]]
      by (simp add: identity_shape_def anon_identity_field_def clear_identity_def)
  next
    case 3
    then have "anon_identity_field k = (if k = 2 \<or> k = 9 then anon_blank else anon_copy)"
      by (simp add: anon_identity_field_def)
    with 3 s leaf [of v k] show ?thesis by (simp only: identity_shape_def clear_identity_def) simp
  qed
qed

lemma recodes_section: "section_shape t \<Longrightarrow> recodes (anon_map anon_section_field) t (clear_section t)"
proof -
  have log: "recodes (anon_log_field j) x (blank_keys {3} j x)" if "field_ok x" for j x
    using recodes_keys [OF that, of j "{3}"] by (simp add: anon_log_field_def)
  assume "section_shape t"
  then show ?thesis
    unfolding section_shape_def clear_section_def
    by (rule recodes_map)
      (auto simp: anon_section_field_def intro: recodes_copy recodes_array recodes_map recodes_identity log
        split: if_splits)
qed

text \<open>
  C40: The anonymizer clears exactly the personal data.  On every well-formed device section the re-encoder succeeds
  and appends the encoding of the same tree with the listed leaves blanked (serial, build id, vendor and product
  names, channel names, groups and paths, log messages) and everything else byte for byte; so two sections that
  differ in those leaves only produce the same output.
\<close>

theorem anonymize_exact:
  assumes "section_shape t" and "cbuf_wf out"
  shows "fst (harp_anonymize_device_section out (enc_item t)) \<and>
    cb_view (snd (harp_anonymize_device_section out (enc_item t))) =
      cb_view (harp_cbuf_put out (enc_item (clear_section t))) \<and>
    (section_shape t' \<and> clear_section t' = clear_section t \<longrightarrow>
      cb_view (snd (harp_anonymize_device_section out (enc_item t'))) =
      cb_view (snd (harp_anonymize_device_section out (enc_item t))))"
proof -
  have exact: "fst (harp_anonymize_device_section out (enc_item t)) \<and>
    cb_view (snd (harp_anonymize_device_section out (enc_item t))) =
      cb_view (harp_cbuf_put out (enc_item (clear_section t)))" if t: "section_shape t" for t
  proof -
    obtain g where g: "emits g (enc_item (clear_section t))"
      "\<And>out r. anon_map anon_section_field out (dec (enc_item t @ r)) = (True, g out, dec r)"
      using recodes_section [OF t] by (auto simp: recodes_def)
    show ?thesis
      using g(2) [of out "[]"] emits_view [OF g(1) assms(2)] by (simp add: harp_anonymize_device_section_def)
  qed
  show ?thesis using exact [OF assms(1)] exact [of t'] by simp
qed

definition ex_section :: "bytes \<Rightarrow> cbor" where
  "ex_section serial = CMap [(CUint 0, CMap [(CUint 2, CText serial), (CUint 3, CText [0x31])]),
     (CUint 1, CMap [])]"

lemma anonymize_exact_witness:
  "cb_view (snd (harp_anonymize_device_section \<lparr>cb_buf = [], cb_cap = 0, cb_oom = False, cb_avail = 4096\<rparr>
       (enc_item (ex_section [0x61])))) =
   cb_view (snd (harp_anonymize_device_section \<lparr>cb_buf = [], cb_cap = 0, cb_oom = False, cb_avail = 4096\<rparr>
       (enc_item (ex_section [0x62, 0x63]))))"
proof -
  have "section_shape (ex_section [0x61])" "section_shape (ex_section [0x62, 0x63])"
    "clear_section (ex_section [0x61]) = clear_section (ex_section [0x62, 0x63])"
    by (simp_all add: ex_section_def section_shape_def identity_shape_def clear_section_def clear_identity_def
        blank_keys_def field_ok_def HARP_CBOR_MAX_DEPTH_def)
  moreover have "cbuf_wf \<lparr>cb_buf = [], cb_cap = 0, cb_oom = False, cb_avail = 4096\<rparr>" by (simp add: cbuf_wf_def)
  ultimately show ?thesis
    using anonymize_exact [of "ex_section [0x62, 0x63]" "\<lparr>cb_buf = [], cb_cap = 0, cb_oom = False, cb_avail = 4096\<rparr>"
        "ex_section [0x61]"] by simp
qed

end
