(* ===== verification/Harp_Fs.thy ===== *)
theory Harp_Fs
  imports Harp_Prelude "HOL-Library.AList" "HOL-Library.Sublist"
begin

text \<open>
  The file system under \<^verbatim>\<open>core/src/store.c\<close> and its platform primitives.  A file system is an association
  list from full paths to files and directories; the order of the list is the order in which \<^verbatim>\<open>readdir\<close>
  reports entries.  The empty path stands for the root or the current directory and always exists.  Which
  system calls fail is given by a record of faults, so that every error branch of the store is a branch of
  the model; the store code is the POSIX variant, with the Windows name mapping beside it.
\<close>

datatype fnode = File bytes | Dir

type_synonym fs = "(bytes \<times> fnode) list"

record os_faults =
  flt_fopen :: "bytes \<Rightarrow> bool"
  flt_fwrite :: "nat option"
  flt_sync :: bool
  flt_rename :: bool
  flt_ferror :: "bytes \<Rightarrow> bool"
  flt_opendir :: "bytes \<Rightarrow> bool"
  flt_remove :: "bytes \<Rightarrow> bool"
  flt_mkdir :: "bytes \<Rightarrow> bool"
  flt_calloc :: bool

definition no_faults :: os_faults where
  "no_faults = \<lparr>flt_fopen = \<lambda>p. False, flt_fwrite = None, flt_sync = False, flt_rename = False,
     flt_ferror = \<lambda>p. False, flt_opendir = \<lambda>p. False, flt_remove = \<lambda>p. False, flt_mkdir = \<lambda>p. False,
     flt_calloc = False\<rparr>"

abbreviation slash :: u8 where
  "slash \<equiv> 47"

definition parent :: "bytes \<Rightarrow> bytes" where
  "parent p = rev (drop 1 (dropWhile (\<lambda>c. c \<noteq> slash) (rev p)))"

definition is_dir :: "fs \<Rightarrow> bytes \<Rightarrow> bool" where
  "is_dir fs p \<longleftrightarrow> p = [] \<or> map_of fs p = Some Dir"

text \<open>\<^verbatim>\<open>readdir\<close>: the names directly under a directory.\<close>

definition children :: "fs \<Rightarrow> bytes \<Rightarrow> bytes list" where
  "children fs d =
     map (\<lambda>e. drop (length d + 1) (fst e))
       (filter (\<lambda>e. take (length d + 1) (fst e) = d @ [slash] \<and> length (fst e) > length d + 1 \<and>
                    slash \<notin> set (drop (length d + 1) (fst e))) fs)"

definition dir_make :: "os_faults \<Rightarrow> bytes \<Rightarrow> fs \<Rightarrow> bool \<times> fs" where
  "dir_make flt p fs =
     (if p = [] \<or> map_of fs p \<noteq> None then (True, fs)
      else if flt_mkdir flt p \<or> \<not> is_dir fs (parent p) then (False, fs)
      else (True, fs @ [(p, Dir)]))"

definition path_readable :: "fs \<Rightarrow> bytes \<Rightarrow> bool" where
  "path_readable fs p \<longleftrightarrow> p = [] \<or> map_of fs p \<noteq> None"

definition rename_atomic :: "os_faults \<Rightarrow> bytes \<Rightarrow> bytes \<Rightarrow> fs \<Rightarrow> bool \<times> fs" where
  "rename_atomic flt tmp path fs =
     (case map_of fs tmp of
        Some (File d) \<Rightarrow>
          if flt_rename flt \<or> map_of fs path = Some Dir then (False, fs)
          else (True, AList.update path (File d) (AList.delete tmp fs))
      | _ \<Rightarrow> (False, fs))"

text \<open>\<^verbatim>\<open>path_kind\<close>: the \<^verbatim>\<open>is_dir\<close> flag of an existing path.\<close>

definition path_kind :: "fs \<Rightarrow> bytes \<Rightarrow> bool option" where
  "path_kind fs p = (if p = [] then Some True else map_option (\<lambda>n. n = Dir) (map_of fs p))"

text \<open>\<^verbatim>\<open>remove(3)\<close>: unlinks a file, or an empty directory.\<close>

definition fs_remove :: "os_faults \<Rightarrow> bytes \<Rightarrow> fs \<Rightarrow> bool \<times> fs" where
  "fs_remove flt p fs =
     (if flt_remove flt p then (False, fs)
      else case map_of fs p of
             None \<Rightarrow> (False, fs)
           | Some (File d) \<Rightarrow> (True, AList.delete p fs)
           | Some Dir \<Rightarrow> if children fs p = [] then (True, AList.delete p fs) else (False, fs))"

text \<open>\<^verbatim>\<open>fopen(path, "wb")\<close> creates or truncates; \<^verbatim>\<open>fopen(path, "rb")\<close> gives the contents.\<close>

definition fopen_wb :: "os_faults \<Rightarrow> bytes \<Rightarrow> fs \<Rightarrow> fs option" where
  "fopen_wb flt p fs =
     (if flt_fopen flt p \<or> map_of fs p = Some Dir \<or> p = [] \<or> \<not> is_dir fs (parent p) then None
      else Some (AList.update p (File []) fs))"

definition fopen_rb :: "os_faults \<Rightarrow> bytes \<Rightarrow> fs \<Rightarrow> bytes option" where
  "fopen_rb flt p fs =
     (if flt_fopen flt p then None
      else case map_of fs p of Some (File d) \<Rightarrow> Some d | _ \<Rightarrow> None)"

text \<open>\<^verbatim>\<open>snprintf\<close> into a buffer of \<open>n\<close> bytes keeps \<open>n - 1\<close>; \<^verbatim>\<open>strstr\<close>.\<close>

definition snprintf :: "nat \<Rightarrow> bytes \<Rightarrow> bytes" where
  "snprintf n s = take (n - 1) s"

fun strstr :: "bytes \<Rightarrow> bytes \<Rightarrow> bool" where
  "strstr [] q = (q = [])"
| "strstr (c # cs) q = (prefix q (c # cs) \<or> strstr cs q)"

text \<open>\<^verbatim>\<open>mkdirs\<close>: \<open>mkdir\<close> on every prefix that ends before a slash, then on the whole path.\<close>

definition HARP_STORE_PATH_MAX :: nat where [simp]: "HARP_STORE_PATH_MAX = 1024"

fun mkdir_prefixes :: "os_faults \<Rightarrow> bytes list \<Rightarrow> fs \<Rightarrow> bool \<times> fs" where
  "mkdir_prefixes flt [] fs = (True, fs)"
| "mkdir_prefixes flt (p # ps) fs =
     (case dir_make flt p fs of (False, fs) \<Rightarrow> (False, fs) | (True, fs) \<Rightarrow> mkdir_prefixes flt ps fs)"

definition slash_prefixes :: "bytes \<Rightarrow> bytes list" where
  "slash_prefixes p = map (\<lambda>i. take i p) (filter (\<lambda>i. p ! i = slash) [1..<length p])"

definition mkdirs :: "os_faults \<Rightarrow> bytes \<Rightarrow> fs \<Rightarrow> bool \<times> fs" where
  "mkdirs flt p fs =
     (if length p \<ge> HARP_STORE_PATH_MAX then (False, fs)
      else mkdir_prefixes flt (slash_prefixes p @ [p]) fs)"

section \<open>Lemmas\<close>

lemma map_of_update [simp]: "map_of (AList.update k v al) = (map_of al)(k \<mapsto> v)"
  by (simp add: update_conv')

lemma map_of_delete [simp]: "map_of (AList.delete k al) = (map_of al)(k := None)"
  by (simp add: delete_conv')

lemma dir_make_mono: "dir_make flt p fs = (r, fs') \<Longrightarrow> map_of fs q \<noteq> None \<Longrightarrow> map_of fs' q = map_of fs q"
  by (auto simp: dir_make_def map_add_def split: if_splits option.splits)

lemma mkdir_prefixes_mono:
  "mkdir_prefixes flt ps fs = (r, fs') \<Longrightarrow> map_of fs q \<noteq> None \<Longrightarrow> map_of fs' q = map_of fs q"
proof (induction ps arbitrary: fs)
  case (Cons p ps)
  obtain r1 fs1 where d: "dir_make flt p fs = (r1, fs1)" by (cases "dir_make flt p fs")
  with Cons.prems dir_make_mono [OF d, of q] Cons.IH [of fs1] show ?case
    by (auto split: bool.splits)
qed simp

lemma mkdirs_mono: "mkdirs flt p fs = (r, fs') \<Longrightarrow> map_of fs q \<noteq> None \<Longrightarrow> map_of fs' q = map_of fs q"
  by (auto simp: mkdirs_def mkdir_prefixes_mono split: if_splits)

text \<open>Making directories adds directories only.\<close>

lemma dir_make_files: "dir_make flt p fs = (r, fs') \<Longrightarrow> map_of fs' q = Some (File d) \<longleftrightarrow> map_of fs q = Some (File d)"
  by (auto simp: dir_make_def map_add_def split: if_splits option.splits)

lemma mkdirs_files:
  "mkdirs flt p fs = (r, fs') \<Longrightarrow> map_of fs' q = Some (File d) \<longleftrightarrow> map_of fs q = Some (File d)"
proof -
  have "mkdir_prefixes flt ps fs = (r, fs') \<Longrightarrow>
      map_of fs' q = Some (File d) \<longleftrightarrow> map_of fs q = Some (File d)" for ps
  proof (induction ps arbitrary: fs)
    case (Cons p ps)
    obtain r1 fs1 where dm: "dir_make flt p fs = (r1, fs1)" by (cases "dir_make flt p fs")
    from dir_make_files [OF dm, of q d] Cons.prems dm Cons.IH [of fs1] show ?case
      by (auto split: bool.splits)
  qed simp
  then show "mkdirs flt p fs = (r, fs') \<Longrightarrow> ?thesis" by (auto simp: mkdirs_def split: if_splits)
qed

lemma parent_append: "slash \<notin> set n \<Longrightarrow> parent (d @ slash # n) = d"
  by (simp add: parent_def dropWhile_append)

lemma child_in_children:
  assumes "(d @ slash # n, x) \<in> set fs" and "slash \<notin> set n" and "n \<noteq> []"
  shows "n \<in> set (children fs d)"
  using assms by (force simp: children_def)

lemma children_path: "n \<in> set (children fs d) \<Longrightarrow> map_of fs (d @ slash # n) \<noteq> None \<and> slash \<notin> set n \<and> n \<noteq> []"
proof -
  assume "n \<in> set (children fs d)"
  then obtain p x where e: "(p, x) \<in> set fs" "take (length d + 1) p = d @ [slash]"
    "length p > length d + 1" "slash \<notin> set (drop (length d + 1) p)" "n = drop (length d + 1) p"
    by (auto simp: children_def)
  then have "p = d @ slash # n" by (metis append.assoc append_Cons append_Nil append_take_drop_id)
  with e show ?thesis using weak_map_of_SomeI by force
qed

end
