(* ===== verification/Harp_Store.thy ===== *)
theory Harp_Store
  imports Harp_Object Harp_Fs
begin

text \<open>
  \<^verbatim>\<open>core/src/store.c\<close>: the file-backed object store and the refs.  The state of a store is its directory, the
  file system, the process id that names its temporaries, the pending system call faults and the
  fault-injection switches of the tests.  Return code 0 is \<open>True\<close> and -1 is \<open>False\<close>.
\<close>

record harp_store =
  sto_dir :: bytes
  sto_fs :: fs
  sto_pid :: bytes
  sto_flt :: os_faults
  sto_skip_rename :: bool
  sto_skip_sweep :: bool

section \<open>Names and paths\<close>

definition HARP_REF_NAME_MAX :: nat where [simp]: "HARP_REF_NAME_MAX = 160"

text \<open>The POSIX mapping between ref names and file names is the identity, up to the buffer size.\<close>

definition fs_from_ref :: "bytes \<Rightarrow> nat \<Rightarrow> bytes option" where
  "fs_from_ref ref outsz = (if length ref + 1 > outsz then None else Some ref)"

definition ref_from_fs :: "bytes \<Rightarrow> nat \<Rightarrow> bytes option" where
  "ref_from_fs f outsz = fs_from_ref f outsz"

text \<open>The Windows mapping, with the output written so far.\<close>

fun win_escape :: "bytes \<Rightarrow> nat \<Rightarrow> bytes \<Rightarrow> bytes option" where
  "win_escape [] outsz out = (if length out \<ge> outsz then None else Some out)"
| "win_escape (c # cs) outsz out =
     (if c = 58 then
        if length out + 3 \<ge> outsz then None else win_escape cs outsz (out @ [37, 51, 65])
      else if length out + 1 \<ge> outsz then None
      else win_escape cs outsz (out @ [c]))"

definition fs_from_ref_win :: "bytes \<Rightarrow> nat \<Rightarrow> bytes option" where
  "fs_from_ref_win ref outsz = win_escape ref outsz []"

fun win_unescape :: "bytes \<Rightarrow> nat \<Rightarrow> bytes \<Rightarrow> bytes option" where
  "win_unescape [] outsz out = (if length out \<ge> outsz then None else Some out)"
| "win_unescape (c # cs) outsz out =
     (if length out + 1 \<ge> outsz then None
      else if c = 37 \<and> take 1 cs = [51] \<and> (take 1 (drop 1 cs) = [65] \<or> take 1 (drop 1 cs) = [97])
      then win_unescape (drop 2 cs) outsz (out @ [58])
      else win_unescape cs outsz (out @ [c]))"

definition ref_from_fs_win :: "bytes \<Rightarrow> nat \<Rightarrow> bytes option" where
  "ref_from_fs_win f outsz = win_unescape f outsz []"

definition ref_char_ok :: "u8 \<Rightarrow> bool" where
  "ref_char_ok c \<longleftrightarrow> (65 \<le> c \<and> c \<le> 90) \<or> (97 \<le> c \<and> c \<le> 122) \<or> (48 \<le> c \<and> c \<le> 57) \<or>
     c = 46 \<or> c = 95 \<or> c = 58 \<or> c = 45 \<or> c = 47"

definition ref_name_ok :: "bytes \<Rightarrow> bool" where
  "ref_name_ok name \<longleftrightarrow>
     \<not> (length name = 0 \<or> length name \<ge> HARP_REF_NAME_MAX) \<and>
     \<not> (name ! 0 = slash \<or> name ! (length name - 1) = slash) \<and>
     \<not> strstr name (str ''..'') \<and>
     list_all ref_char_ok name"

definition ref_path :: "harp_store \<Rightarrow> bytes \<Rightarrow> nat \<Rightarrow> bytes option" where
  "ref_path s name outsz =
     (if \<not> ref_name_ok name then None
      else case fs_from_ref name (3 * HARP_REF_NAME_MAX) of
             None \<Rightarrow> None
           | Some fsname \<Rightarrow>
               let p = sto_dir s @ str ''/refs/'' @ fsname
               in if length p \<ge> outsz then None else Some p)"

definition obj_path :: "harp_store \<Rightarrow> harp_hash \<Rightarrow> bytes" where
  "obj_path s h = snprintf HARP_STORE_PATH_MAX (sto_dir s @ str ''/objects/'' @ harp_hash_hex h)"

section \<open>Opening\<close>

definition harp_store_open :: "harp_store \<Rightarrow> bytes \<Rightarrow> bool \<times> harp_store" where
  "harp_store_open s dir =
     (if length dir \<ge> 512 - 16 then (False, s)
      else
        let s = s\<lparr>sto_dir := snprintf 512 dir\<rparr>
        in case mkdirs (sto_flt s) (snprintf HARP_STORE_PATH_MAX (dir @ str ''/objects'')) (sto_fs s) of
             (False, fs) \<Rightarrow> (False, s\<lparr>sto_fs := fs\<rparr>)
           | (True, fs) \<Rightarrow>
               (case mkdirs (sto_flt s) (snprintf HARP_STORE_PATH_MAX (dir @ str ''/refs'')) fs of
                  (ok, fs) \<Rightarrow> (ok, s\<lparr>sto_fs := fs\<rparr>)))"

section \<open>Objects\<close>

definition harp_store_have :: "harp_store \<Rightarrow> harp_hash \<Rightarrow> bool" where
  "harp_store_have s h = path_readable (sto_fs s) (obj_path s h)"

definition tmp_path :: "harp_store \<Rightarrow> bytes \<Rightarrow> bytes" where
  "tmp_path s path = snprintf (HARP_STORE_PATH_MAX + 64) (path @ str ''.tmp.'' @ sto_pid s)"

definition write_atomic :: "harp_store \<Rightarrow> bytes \<Rightarrow> bytes \<Rightarrow> bool \<times> harp_store" where
  "write_atomic s path data =
     (let tmp = tmp_path s path; flt = sto_flt s
      in case fopen_wb flt tmp (sto_fs s) of
           None \<Rightarrow> (False, s)
         | Some fs \<Rightarrow>
             let k = (case flt_fwrite flt of None \<Rightarrow> length data | Some k \<Rightarrow> min k (length data));
                 fs = AList.update tmp (File (take k data)) fs
             in if data \<noteq> [] \<and> k \<noteq> length data
                then (False, s\<lparr>sto_fs := snd (fs_remove flt tmp fs)\<rparr>)
                else if flt_sync flt then (False, s\<lparr>sto_fs := snd (fs_remove flt tmp fs)\<rparr>)
                else if sto_skip_rename s then (False, s\<lparr>sto_fs := fs\<rparr>)
                else case rename_atomic flt tmp path fs of
                       (False, fs) \<Rightarrow> (False, s\<lparr>sto_fs := snd (fs_remove flt tmp fs)\<rparr>)
                     | (True, fs) \<Rightarrow> (True, s\<lparr>sto_fs := fs\<rparr>))"

definition harp_store_put :: "harp_store \<Rightarrow> bytes \<Rightarrow> bool \<times> harp_hash \<times> harp_store" where
  "harp_store_put s enc =
     (let h = harp_hash_compute enc; path = obj_path s h
      in if path_readable (sto_fs s) path then (True, h, s)
         else case write_atomic s path enc of (ok, s) \<Rightarrow> (ok, h, s))"

text \<open>\<^verbatim>\<open>while ((n = fread(buf, 1, 8192, f)) > 0) harp_cbuf_put(out, buf, n);\<close>\<close>

function fread_loop :: "harp_cbuf \<Rightarrow> bytes \<Rightarrow> harp_cbuf" where
  "fread_loop out data =
     (if data = [] then out else fread_loop (harp_cbuf_put out (take 8192 data)) (drop 8192 data))"
  by pat_completeness auto
termination
  by (relation "measure (\<lambda>(out, data). length data)") auto

declare fread_loop.simps [simp del]

definition harp_store_get :: "harp_store \<Rightarrow> harp_hash \<Rightarrow> harp_cbuf \<Rightarrow> bool \<times> harp_cbuf" where
  "harp_store_get s h out =
     (let path = obj_path s h
      in case fopen_rb (sto_flt s) path (sto_fs s) of
           None \<Rightarrow> (False, out)
         | Some data \<Rightarrow>
             let out = fread_loop out data
             in (\<not> (flt_ferror (sto_flt s) path \<or> cb_oom out), out))"

section \<open>Refs\<close>

record harp_ref =
  rf_name :: bytes
  rf_unborn :: bool
  rf_hash :: harp_hash
  rf_generation :: u64
  rf_dirty :: bool

definition ref_zero :: harp_ref where
  "ref_zero = \<lparr>rf_name = [], rf_unborn = True, rf_hash = replicate HARP_HASH_LEN 0,
               rf_generation = 0, rf_dirty = False\<rparr>"

definition harp_ref_encode :: "harp_cbuf \<Rightarrow> harp_ref \<Rightarrow> harp_cbuf" where
  "harp_ref_encode out r =
     (let out = harp_cbor_map out 4;
          out = harp_cbor_uint out 0;
          out = harp_cbor_text out (rf_name r);
          out = harp_cbor_uint out 1;
          out = (if rf_unborn r then harp_cbor_null out else harp_cbor_bytes out (rf_hash r));
          out = harp_cbor_uint out 2;
          out = harp_cbor_uint out (rf_generation r);
          out = harp_cbor_uint out 3
      in harp_cbor_bool out (rf_dirty r))"

definition ref_field :: "harp_ref \<times> bool \<Rightarrow> harp_cdec \<Rightarrow> (harp_ref \<times> bool) option \<times> harp_cdec" where
  "ref_field st d =
     (case st of (r, have_name) \<Rightarrow>
      (case harp_cdec_uint d of
         (None, d) \<Rightarrow> (None, d)
       | (Some key, d) \<Rightarrow>
           if key = 0 then
             (case harp_cdec_text d of
                (None, d) \<Rightarrow> (None, d)
              | (Some t, d) \<Rightarrow>
                  if length t \<ge> HARP_REF_NAME_MAX then (None, d)
                  else (Some (r\<lparr>rf_name := cstr t\<rparr>, True), d))
           else if key = 1 then
             if harp_cdec_peek_null d then
               (case harp_cdec_null d of
                  (None, d) \<Rightarrow> (None, d)
                | (Some u, d) \<Rightarrow> (Some (r\<lparr>rf_unborn := True\<rparr>, have_name), d))
             else
               (case harp_hash_read d of
                  (None, d) \<Rightarrow> (None, d)
                | (Some h, d) \<Rightarrow> (Some (r\<lparr>rf_hash := h, rf_unborn := False\<rparr>, have_name), d))
           else if key = 2 then
             (case harp_cdec_uint d of
                (None, d) \<Rightarrow> (None, d)
              | (Some g, d) \<Rightarrow> (Some (r\<lparr>rf_generation := g\<rparr>, have_name), d))
           else if key = 3 then
             (case harp_cdec_bool d of
                (None, d) \<Rightarrow> (None, d)
              | (Some b, d) \<Rightarrow> (Some (r\<lparr>rf_dirty := b\<rparr>, have_name), d))
           else
             (case harp_cdec_skip d of
                (None, d) \<Rightarrow> (None, d)
              | (Some u, d) \<Rightarrow> (Some (r, have_name), d))))"

definition harp_ref_decode :: "harp_cdec \<Rightarrow> harp_ref option \<times> harp_cdec" where
  "harp_ref_decode d =
     (case harp_cdec_map d of
        (None, d) \<Rightarrow> (None, d)
      | (Some n, d) \<Rightarrow>
          (case loop_dec ref_field (unat n) (ref_zero, False) d of
             (None, d) \<Rightarrow> (None, d)
           | (Some (r, have_name), d) \<Rightarrow> (if have_name then Some r else None, d)))"

text \<open>A missing ref is unborn; a file that does not decode is an error.\<close>

definition harp_store_ref_read :: "harp_store \<Rightarrow> bytes \<Rightarrow> harp_ref option" where
  "harp_store_ref_read s name =
     (case ref_path s name HARP_STORE_PATH_MAX of
        None \<Rightarrow> None
      | Some path \<Rightarrow>
          (case fopen_rb (sto_flt s) path (sto_fs s) of
             None \<Rightarrow> Some (ref_zero\<lparr>rf_name := snprintf HARP_REF_NAME_MAX name\<rparr>)
           | Some data \<Rightarrow> fst (harp_ref_decode (harp_cdec_init (take 1024 data)))))"

text \<open>The buffer \<open>b0\<close> gives the allocator that the local \<^verbatim>\<open>harp_cbuf\<close> sees.\<close>

definition harp_store_ref_write :: "harp_cbuf \<Rightarrow> harp_store \<Rightarrow> harp_ref \<Rightarrow> bool \<times> harp_store" where
  "harp_store_ref_write b0 s r =
     (case ref_path s (rf_name r) HARP_STORE_PATH_MAX of
        None \<Rightarrow> (False, s)
      | Some path \<Rightarrow>
          (case mkdirs (sto_flt s) (parent path) (sto_fs s) of
             (False, fs) \<Rightarrow> (False, s\<lparr>sto_fs := fs\<rparr>)
           | (True, fs) \<Rightarrow>
               let s = s\<lparr>sto_fs := fs\<rparr>;
                   b = harp_ref_encode (harp_cbuf_init b0) r
               in if cb_oom b then (False, s) else write_atomic s path (cb_buf b)))"

definition harp_store_ref_delete :: "harp_store \<Rightarrow> bytes \<Rightarrow> bool \<times> harp_store" where
  "harp_store_ref_delete s name =
     (case ref_path s name HARP_STORE_PATH_MAX of
        None \<Rightarrow> (False, s)
      | Some path \<Rightarrow> (True, s\<lparr>sto_fs := snd (fs_remove (sto_flt s) path (sto_fs s))\<rparr>))"

text \<open>
  The ref walk.  \<^verbatim>\<open>walk_one\<close> and \<^verbatim>\<open>walk_refs\<close> call each other; here one function walks a list of directory
  entries under the logical path \<open>rel\<close>, and \<open>opendir_refs\<close> is the first half of \<^verbatim>\<open>walk_refs\<close>.  Every level
  makes the name longer and names are shorter than 160 bytes, so the walk ends.
\<close>

definition opendir_refs :: "harp_store \<Rightarrow> bytes \<Rightarrow> bytes list option" where
  "opendir_refs s rel =
     (let path = (if rel \<noteq> [] then
                    (case fs_from_ref rel (3 * HARP_REF_NAME_MAX) of
                       None \<Rightarrow> None
                     | Some fsrel \<Rightarrow>
                         let p = sto_dir s @ str ''/refs/'' @ fsrel
                         in if length p \<ge> HARP_STORE_PATH_MAX then None else Some p)
                  else Some (snprintf HARP_STORE_PATH_MAX (sto_dir s @ str ''/refs'')))
      in case path of
           None \<Rightarrow> None
         | Some p \<Rightarrow>
             if flt_opendir (sto_flt s) p \<or> \<not> is_dir (sto_fs s) p then None
             else Some (children (sto_fs s) p))"

text \<open>The logical name of an entry that the walk goes on with, and whether it is a directory.\<close>

definition walk_entry :: "harp_store \<Rightarrow> bytes \<Rightarrow> bytes \<Rightarrow> (bytes \<times> bool) option" where
  "walk_entry s rel dname =
     (if take 1 dname = [46] then None
      else if strstr dname (str ''.tmp.'') then None
      else case ref_from_fs dname HARP_REF_NAME_MAX of
             None \<Rightarrow> None
           | Some dlog \<Rightarrow>
               let crel = rel @ (if rel \<noteq> [] then [slash] else []) @ dlog
               in if length crel \<ge> HARP_REF_NAME_MAX then None
                  else case ref_path s crel HARP_STORE_PATH_MAX of
                         None \<Rightarrow> None
                       | Some cpath \<Rightarrow> map_option (\<lambda>d. (crel, d)) (path_kind (sto_fs s) cpath))"

lemma walk_entry_longer:
  "walk_entry s rel dname = Some (crel, d) \<Longrightarrow> dname \<noteq> [] \<Longrightarrow> length rel < length crel \<and> length crel < 160"
  by (auto simp: walk_entry_def ref_from_fs_def fs_from_ref_def Let_def split: if_splits option.splits)

function walk_refs :: "harp_store \<Rightarrow> (harp_ref \<Rightarrow> 'u \<Rightarrow> 'u) \<Rightarrow> bytes \<Rightarrow> bytes list \<Rightarrow> 'u \<Rightarrow> 'u" where
  "walk_refs s cb rel [] ud = ud"
| "walk_refs s cb rel (dname # ds) ud =
     walk_refs s cb rel ds
       (case walk_entry s rel dname of
          None \<Rightarrow> ud
        | Some (crel, d) \<Rightarrow>
            if d then
              (if dname = [] then ud
               else case opendir_refs s crel of
                      None \<Rightarrow> ud
                    | Some names \<Rightarrow> walk_refs s cb crel names ud)
            else (case harp_store_ref_read s crel of None \<Rightarrow> ud | Some r \<Rightarrow> cb r ud))"
  by pat_completeness auto
termination
  by (relation "measures [\<lambda>(s, cb, rel, ds, ud). 160 - length rel, \<lambda>(s, cb, rel, ds, ud). length ds]")
    (auto dest: walk_entry_longer)

definition harp_store_ref_list :: "harp_store \<Rightarrow> (harp_ref \<Rightarrow> 'u \<Rightarrow> 'u) \<Rightarrow> 'u \<Rightarrow> bool \<times> 'u" where
  "harp_store_ref_list s cb ud =
     (case opendir_refs s [] of
        None \<Rightarrow> (False, ud)
      | Some names \<Rightarrow> (True, walk_refs s cb [] names ud))"

section \<open>Object iteration\<close>

fun obj_walk :: "(harp_hash \<Rightarrow> 'u \<Rightarrow> bool \<times> 'u) \<Rightarrow> bytes list \<Rightarrow> 'u \<Rightarrow> 'u" where
  "obj_walk cb [] ud = ud"
| "obj_walk cb (name # ns) ud =
     (if take 1 name = [46] then obj_walk cb ns ud
      else if strstr name (str ''.tmp.'') then obj_walk cb ns ud
      else case harp_hash_from_hex name of
             None \<Rightarrow> obj_walk cb ns ud
           | Some h \<Rightarrow> (case cb h ud of (go, ud) \<Rightarrow> if go then obj_walk cb ns ud else ud))"

definition objects_dir :: "harp_store \<Rightarrow> bytes" where
  "objects_dir s = snprintf HARP_STORE_PATH_MAX (sto_dir s @ str ''/objects'')"

text \<open>
  The directory is read while the callback may delete from it; the entries are those at the time of
  \<^verbatim>\<open>opendir\<close>.
\<close>

definition harp_store_obj_foreach ::
  "harp_store \<Rightarrow> (harp_hash \<Rightarrow> 'u \<Rightarrow> bool \<times> 'u) \<Rightarrow> 'u \<Rightarrow> bool \<times> 'u" where
  "harp_store_obj_foreach s cb ud =
     (if flt_opendir (sto_flt s) (objects_dir s) \<or> \<not> is_dir (sto_fs s) (objects_dir s) then (False, ud)
      else (True, obj_walk cb (children (sto_fs s) (objects_dir s)) ud))"

definition count_cb :: "harp_hash \<Rightarrow> nat \<Rightarrow> bool \<times> nat" where
  "count_cb h n = (True, Suc n)"

definition harp_store_obj_count :: "harp_store \<Rightarrow> nat" where
  "harp_store_obj_count s = snd (harp_store_obj_foreach s count_cb 0)"

definition harp_store_obj_delete :: "harp_store \<Rightarrow> harp_hash \<Rightarrow> bool \<times> harp_store" where
  "harp_store_obj_delete s h =
     (let path = obj_path s h
      in case fs_remove (sto_flt s) path (sto_fs s) of
           (ok, fs) \<Rightarrow> (\<not> (\<not> ok \<and> path_readable fs path), s\<lparr>sto_fs := fs\<rparr>))"

section \<open>Ref records\<close>

definition ref_bytes :: "harp_ref \<Rightarrow> bytes" where
  "ref_bytes r = head_bytes 5 4 @ enc_uint 0 @ enc_text (rf_name r) @ enc_uint 1 @
     (if rf_unborn r then [0xf6] else enc_bytes (rf_hash r)) @
     enc_uint 2 @ enc_uint (rf_generation r) @ enc_uint 3 @ [if rf_dirty r then 0xf5 else 0xf4]"

lemma emits_ref_encode [enc_simps]: "emits (\<lambda>b. harp_ref_encode b r) (ref_bytes r)"
  unfolding harp_ref_encode_def Let_def
  by (cases "rf_unborn r"; simp only: if_True if_False; rule emits_eq, (rule enc_intros emits_id)+)
    (simp_all add: ref_bytes_def)

lemmas emits_ref_encode_seq [enc_intros] = emits_comp [OF _ emits_ref_encode]

text \<open>A ref record as the code builds them: an unborn ref has a zero hash, any other a SHA-256 hash.\<close>

definition ref_ok :: "harp_ref \<Rightarrow> bool" where
  "ref_ok r \<longleftrightarrow> length (rf_name r) < HARP_REF_NAME_MAX \<and> 0 \<notin> set (rf_name r) \<and>
     (if rf_unborn r then rf_hash r = replicate HARP_HASH_LEN 0 else hash_ok (rf_hash r))"

lemma peek_null_enc [simp]: "\<not> harp_cdec_peek_null (dec (head_bytes 2 v @ r))" "harp_cdec_peek_null (dec (0xf6 # r))"
proof -
  have "drop_bit 5 (push_bit 5 2 OR head_ai v) = 2"
    by (rule major_of_initial) (simp_all add: head_ai_less)
  then have "push_bit 5 2 OR head_ai v \<noteq> 0xf6"
    by (intro notI) (simp only:, simp)
  then show "\<not> harp_cdec_peek_null (dec (head_bytes 2 v @ r))"
    by (simp add: harp_cdec_peek_null_def head_bytes_split)
qed (simp add: harp_cdec_peek_null_def)

lemma ref_decode_bytes:
  assumes "ref_ok r"
  shows "harp_ref_decode (dec (ref_bytes r @ rest)) = (Some r, dec rest)"
proof -
  let ?t = "if rf_unborn r then [0xf6] else enc_bytes (rf_hash r)"
  let ?b = "enc_uint 0 @ head_bytes 3 (of_nat (length (rf_name r))) @ rf_name r @ enc_uint 1 @ ?t @
     enc_uint 2 @ enc_uint (rf_generation r) @ enc_uint 3 @ (if rf_dirty r then 0xf5 else 0xf4) # rest"
  have "8 \<le> length ?b"
    using head_bytes_ge1 [of 0 0] head_bytes_ge1 [of 3 "of_nat (length (rf_name r))"] head_bytes_ge1 [of 0 1]
      head_bytes_ge1 [of 0 2] head_bytes_ge1 [of 0 "rf_generation r"] head_bytes_ge1 [of 0 3]
      head_bytes_ge1 [of 2 "of_nat (length (rf_hash r))"]
    by simp
  then have m: "harp_cdec_map (dec (ref_bytes r @ rest)) = (Some 4, dec ?b)"
    using harp_cdec_map_enc [of 4 ?b] by (simp add: ref_bytes_def del: harp_cdec_map_enc)
  have n: "length (rf_name r) < 2 ^ 64" "length (rf_name r) < 160" "cstr (rf_name r) = rf_name r"
    using assms by (auto simp: ref_ok_def cstr_no_nul)
  show ?thesis
  proof (cases "rf_unborn r")
    case True
    with assms m n show ?thesis
      by (cases r) (simp add: harp_ref_decode_def ref_field_def ref_zero_def ref_ok_def)
  next
    case False
    then have "hash_ok (rf_hash r)" using assms by (simp add: ref_ok_def)
    with False m n show ?thesis
      by (cases r) (simp add: harp_ref_decode_def ref_field_def ref_zero_def)
  qed
qed

text \<open>
  Ref records survive the codec, on disk and on the wire.  Whatever \<open>harp_ref_encode\<close> appended to an empty
  buffer, \<open>harp_ref_decode\<close> reads back the same name, target, generation and dirty flag and stops exactly
  behind the record; an unborn ref stays unborn.
\<close>

theorem ref_codec_roundtrip:
  assumes "ref_ok r" and "cbuf_wf b" and "cb_buf b = []" and "cb_view (harp_ref_encode b r) = Some bs"
  shows "harp_ref_decode (harp_cdec_init (bs @ rest)) = (Some r, harp_cdec_init rest)"
  using emits_Some [OF emits_ref_encode assms(2,4)] assms(3) ref_decode_bytes [OF assms(1)] by simp

lemma ref_codec_roundtrip_witness:
  "harp_ref_decode (harp_cdec_init (ref_bytes (ref_zero\<lparr>rf_name := str ''live/x'', rf_generation := 300\<rparr>) @ [7]))
     = (Some (ref_zero\<lparr>rf_name := str ''live/x'', rf_generation := 300\<rparr>), harp_cdec_init [7])"
proof -
  let ?b = "\<lparr>cb_buf = [], cb_cap = 256, cb_oom = False, cb_avail = 256\<rparr>"
  let ?r = "ref_zero\<lparr>rf_name := str ''live/x'', rf_generation := 300\<rparr>"
  have ok: "ref_ok ?r" by (simp add: ref_ok_def ref_zero_def str_def)
  have "cb_view (harp_ref_encode ?b ?r) = Some (ref_bytes ?r)"
    using emits_view [OF emits_ref_encode, of ?b]
    by (simp add: cbuf_wf_def cb_view_def harp_cbuf_put_def ensure_def ref_bytes_def ref_zero_def str_def
        head_bytes_def)
  from ref_codec_roundtrip [OF ok _ _ this, of "[7]"] show ?thesis by (simp add: cbuf_wf_def)
qed

section \<open>File names of refs\<close>

lemma win_unescape_escape:
  assumes "37 \<notin> set ref" and "length out + length ref < n"
  shows "win_unescape (concat (map (\<lambda>c. if c = 58 then [37, 51, 65] else [c]) ref)) n out = Some (out @ ref)"
  using assms by (induction ref arbitrary: out) auto

text \<open>
  The on-disk names of refs are reversible.  For every valid ref name, the Windows escaping of colons
  (which fits the buffer of \<open>3 * HARP_REF_NAME_MAX\<close> bytes that \<open>ref_path\<close> uses) contains no colon and is undone
  by the walk's unescaping, and the POSIX mapping is the identity; so distinct refs never share a file.
\<close>

theorem ref_file_name_roundtrip:
  assumes "ref_name_ok name"
  shows "(\<exists>f. fs_from_ref_win name (3 * HARP_REF_NAME_MAX) = Some f \<and> 58 \<notin> set f \<and>
            ref_from_fs_win f HARP_REF_NAME_MAX = Some name) \<and>
    fs_from_ref name (3 * HARP_REF_NAME_MAX) = Some name \<and> ref_from_fs name HARP_REF_NAME_MAX = Some name"
proof -
  have len: "length name < 160" and "list_all ref_char_ok name"
    using assms by (auto simp: ref_name_ok_def)
  then have pc: "37 \<notin> set name" by (auto simp: list_all_iff ref_char_ok_def dest!: bspec [of _ _ 37])
  let ?e = "concat (map (\<lambda>c. if c = 58 then [37, 51, 65] else [c]) name)"
  have esc: "win_escape ref n out = Some (out @ concat (map (\<lambda>c. if c = 58 then [37, 51, 65] else [c]) ref))"
    if "length out + 3 * length ref < n" for ref n out
    using that by (induction ref arbitrary: out) auto
  have "fs_from_ref_win name (3 * HARP_REF_NAME_MAX) = Some ?e"
    using len esc [of "[]" name 480] by (simp add: fs_from_ref_win_def)
  moreover have "ref_from_fs_win ?e HARP_REF_NAME_MAX = Some name"
    using win_unescape_escape [OF pc, of "[]" 160] len by (simp add: ref_from_fs_win_def)
  ultimately show ?thesis using len by (auto simp: fs_from_ref_def ref_from_fs_def split: if_splits)
qed

lemma ref_file_name_roundtrip_witness:
  "\<exists>f. fs_from_ref_win (str ''archive/12:00'') (3 * HARP_REF_NAME_MAX) = Some f \<and> 58 \<notin> set f \<and>
     ref_from_fs_win f HARP_REF_NAME_MAX = Some (str ''archive/12:00'')"
proof -
  have "ref_name_ok (str ''archive/12:00'')" by code_simp
  then show ?thesis using ref_file_name_roundtrip by blast
qed

section \<open>Atomic replacement\<close>

text \<open>
  The disk states a crash can leave behind while \<open>write_atomic\<close> runs: nothing has happened yet, the temporary
  holds some part of the data, or the rename is done.  The rename is one step (POSIX \<^verbatim>\<open>rename(2)\<close>).
\<close>

inductive crash_state :: "harp_store \<Rightarrow> bytes \<Rightarrow> bytes \<Rightarrow> fs \<Rightarrow> bool" for s path data where
  before: "crash_state s path data (sto_fs s)"
| partial_tmp: "crash_state s path data (AList.update (tmp_path s path) (File (take k data)) (sto_fs s))"
| cleaned: "crash_state s path data (AList.delete (tmp_path s path) (sto_fs s))"
| renamed: "map_of (sto_fs s) path \<noteq> Some Dir \<Longrightarrow>
    crash_state s path data (AList.update path (File data) (AList.delete (tmp_path s path) (sto_fs s)))"

inductive_cases crash_stateE: "crash_state s path data fs"

lemma tmp_path_longer: "length path < HARP_STORE_PATH_MAX \<Longrightarrow> length path < length (tmp_path s path)"
  by (auto simp: tmp_path_def snprintf_def)

lemma tmp_path_neq [simp]: "length path < HARP_STORE_PATH_MAX \<Longrightarrow> tmp_path s path \<noteq> path"
  "length path < HARP_STORE_PATH_MAX \<Longrightarrow> path \<noteq> tmp_path s path"
  using tmp_path_longer [of path s] by auto

lemma crash_state_old_or_new:
  assumes "crash_state s path data fs" and "length path < HARP_STORE_PATH_MAX"
  shows "(map_of fs path = map_of (sto_fs s) path \<or> map_of fs path = Some (File data)) \<and>
    (\<forall>q. q \<noteq> path \<longrightarrow> q \<noteq> tmp_path s path \<longrightarrow> map_of fs q = map_of (sto_fs s) q)"
  using assms by (auto elim!: crash_stateE)

text \<open>The view of a store that matters to its users: what each path holds.\<close>

lemma fs_remove_tmp:
  "map_of (snd (fs_remove flt p fs)) q = (if q = p then map_of (snd (fs_remove flt p fs)) p else map_of fs q)"
  by (auto simp: fs_remove_def split: option.split fnode.split)

lemma write_atomic_cases:
  assumes "write_atomic s path data = (ok, s')" and "length path < HARP_STORE_PATH_MAX"
  shows "s' = s\<lparr>sto_fs := sto_fs s'\<rparr>" and
    "ok \<Longrightarrow> map_of (sto_fs s') = (map_of (sto_fs s))(tmp_path s path := None, path \<mapsto> File data)" and
    "\<not> ok \<Longrightarrow> q \<noteq> tmp_path s path \<Longrightarrow> map_of (sto_fs s') q = map_of (sto_fs s) q"
proof -
  show "s' = s\<lparr>sto_fs := sto_fs s'\<rparr>"
    using assms(1) by (auto simp: write_atomic_def Let_def split: option.splits prod.splits bool.splits if_splits)
  show "ok \<Longrightarrow> map_of (sto_fs s') = (map_of (sto_fs s))(tmp_path s path := None, path \<mapsto> File data)"
    using assms by (auto simp: write_atomic_def Let_def fopen_wb_def rename_atomic_def fun_eq_iff
        split: option.splits prod.splits bool.splits if_splits fnode.splits)
  show "\<not> ok \<Longrightarrow> q \<noteq> tmp_path s path \<Longrightarrow> map_of (sto_fs s') q = map_of (sto_fs s) q"
    using assms(1)
    by (auto simp: write_atomic_def Let_def fopen_wb_def rename_atomic_def fs_remove_tmp [of _ _ _ q]
        split: option.splits prod.splits bool.splits if_splits fnode.splits)
qed

text \<open>With a working file system the write succeeds.\<close>

lemma write_atomic_succeeds:
  assumes "sto_flt s = no_faults" and "\<not> sto_skip_rename s" and "length path < HARP_STORE_PATH_MAX"
    and "map_of (sto_fs s) (tmp_path s path) \<noteq> Some Dir" and "map_of (sto_fs s) path \<noteq> Some Dir"
    and "is_dir (sto_fs s) (parent (tmp_path s path))" and "tmp_path s path \<noteq> []"
  shows "fst (write_atomic s path data)"
  using assms by (simp add: write_atomic_def Let_def no_faults_def fopen_wb_def rename_atomic_def)


definition ex_store :: harp_store where
  "ex_store = \<lparr>sto_dir = str ''d'', sto_fs = [(str ''d'', Dir), (str ''d/objects'', Dir), (str ''d/refs'', Dir)],
     sto_pid = str ''7'', sto_flt = no_faults, sto_skip_rename = False, sto_skip_sweep = False\<rparr>"


section \<open>The object store\<close>

lemma emits_fread_loop: "emits (\<lambda>b. fread_loop b data) data"
proof (induction "length data" arbitrary: data rule: less_induct)
  case less
  show ?case
  proof (cases "data = []")
    case True
    then show ?thesis using emits_id by (simp add: fread_loop.simps)
  next
    case False
    have "emits (\<lambda>b. fread_loop (harp_cbuf_put b (take 8192 data)) (drop 8192 data)) (take 8192 data @ drop 8192 data)"
      by (rule emits_comp [OF emits_put]) (rule less, use False in simp)
    with False show ?thesis by (subst fread_loop.simps) simp
  qed
qed

lemma harp_hash_compute_length [simp]: "length (harp_hash_compute data) = 33"
  by (simp add: harp_hash_compute_def harp_sha256_digest_def harp_sha256_final_def Let_def
      upt_rec numeral_eq_Suc)

lemma length_harp_hash_hex [simp]: "length (harp_hash_hex h) = 66"
  by (simp add: harp_hash_hex_def upt_rec numeral_eq_Suc)

text \<open>\<open>harp_store_open\<close> admits only directories whose paths fit every buffer.\<close>

definition dir_ok :: "harp_store \<Rightarrow> bool" where
  "dir_ok s \<longleftrightarrow> length (sto_dir s) < 496"

lemma obj_path_eq: "dir_ok s \<Longrightarrow> obj_path s h = sto_dir s @ str ''/objects/'' @ harp_hash_hex h"
  by (simp add: obj_path_def snprintf_def dir_ok_def)

lemma length_obj_path: "dir_ok s \<Longrightarrow> length (obj_path s h) = length (sto_dir s) + 75"
  by (simp add: obj_path_eq)

lemma obj_path_short: "length (obj_path s h) < HARP_STORE_PATH_MAX"
  by (simp add: obj_path_def snprintf_def)

lemma hex_bytes_hash: "length h = 33 \<Longrightarrow> hex_bytes (harp_hash_hex h) = Some h"
  by (simp only: harp_hash_hex_eq HARP_HASH_LEN_def hex_bytes_hex)

lemma hash_hex_inj:
  assumes "length h = 33" and "length h' = 33" and "harp_hash_hex h = harp_hash_hex h'"
  shows "h = h'"
proof -
  have "Some h = hex_bytes (harp_hash_hex h)" by (rule hex_bytes_hash [OF assms(1), symmetric])
  also have "\<dots> = hex_bytes (harp_hash_hex h')" by (rule arg_cong [OF assms(3)])
  also have "\<dots> = Some h'" by (rule hex_bytes_hash [OF assms(2)])
  finally show ?thesis by (rule option.inject [THEN iffD1])
qed

lemma obj_path_inj:
  "dir_ok s \<Longrightarrow> length h = 33 \<Longrightarrow> length h' = 33 \<Longrightarrow> obj_path s h = obj_path s h' \<Longrightarrow> h = h'"
  using hash_hex_inj [of h h'] by (simp add: obj_path_eq)

lemma obj_path_fs [simp]: "obj_path (s\<lparr>sto_fs := fs\<rparr>) h = obj_path s h"
  by (simp add: obj_path_def)

lemma same_dir:
  "s' = s\<lparr>sto_fs := x\<rparr> \<Longrightarrow> obj_path s' h = obj_path s h"
  "s' = s\<lparr>sto_fs := x\<rparr> \<Longrightarrow> dir_ok s' = dir_ok s"
  by (simp_all add: dir_ok_def)

lemma tmp_not_obj: "dir_ok s \<Longrightarrow> obj_path s h' \<noteq> tmp_path s (obj_path s h)"
  using tmp_path_longer [OF obj_path_short [of s h], of s] length_obj_path [of s h] length_obj_path [of s h']
  by (metis nat_neq_iff)

lemma ref_path_Some:
  "ref_path s name n = Some p \<Longrightarrow> p = sto_dir s @ str ''/refs/'' @ name \<and> length p < n \<and> ref_name_ok name"
  by (auto simp: ref_path_def fs_from_ref_def Let_def split: if_splits option.splits)

lemma ref_path_fs [simp]: "ref_path (s\<lparr>sto_fs := fs\<rparr>) name n = ref_path s name n"
  by (simp add: ref_path_def Let_def split: option.split)

lemma str_refs_objects: "str ''/refs/'' = 47 # 114 # str ''efs/''" "str ''/objects/'' = 47 # 111 # str ''bjects/''"
  by (simp_all add: str_def)

lemma ref_path_not_obj:
  "dir_ok s \<Longrightarrow> ref_path s name HARP_STORE_PATH_MAX = Some p \<Longrightarrow> obj_path s h \<noteq> p \<and> obj_path s h \<noteq> tmp_path s p"
  by (drule ref_path_Some)
    (auto simp: obj_path_eq tmp_path_def snprintf_def str_refs_objects take_Cons' dir_ok_def)

text \<open>Every object is stored under its own hash.\<close>

definition store_consistent :: "harp_store \<Rightarrow> bool" where
  "store_consistent s \<longleftrightarrow> dir_ok s \<and>
     (\<forall>h d. length h = 33 \<longrightarrow> map_of (sto_fs s) (obj_path s h) = Some (File d) \<longrightarrow> harp_hash_compute d = h)"

lemma store_consistentI:
  assumes "store_consistent s" and "s' = s\<lparr>sto_fs := sto_fs s'\<rparr>"
    and "\<And>h d. length h = 33 \<Longrightarrow> map_of (sto_fs s') (obj_path s h) = Some (File d) \<Longrightarrow>
        map_of (sto_fs s) (obj_path s h) = Some (File d) \<or> harp_hash_compute d = h"
  shows "store_consistent s'"
proof -
  have "dir_ok s'" "\<And>h. obj_path s' h = obj_path s h"
    using same_dir [OF assms(2)] assms(1) by (simp_all add: store_consistent_def)
  then show ?thesis
    using assms(1,3) unfolding store_consistent_def by metis
qed

lemma put_consistent:
  assumes "store_consistent s"
  shows "store_consistent (snd (snd (harp_store_put s enc)))"
proof (cases "path_readable (sto_fs s) (obj_path s (harp_hash_compute enc))")
  case True
  with assms show ?thesis by (simp add: harp_store_put_def Let_def)
next
  case False
  let ?p = "obj_path s (harp_hash_compute enc)"
  obtain ok s' where w: "write_atomic s ?p enc = (ok, s')" by (cases "write_atomic s ?p enc")
  note c = write_atomic_cases [OF w obj_path_short]
  have d: "dir_ok s" using assms by (simp add: store_consistent_def)
  have "store_consistent s'"
  proof (rule store_consistentI [OF assms c(1)])
    fix h d
    assume h: "length h = 33" "map_of (sto_fs s') (obj_path s h) = Some (File d)"
    show "map_of (sto_fs s) (obj_path s h) = Some (File d) \<or> harp_hash_compute d = h"
    proof (cases "ok \<and> obj_path s h = ?p")
      case True
      with c(2) h obj_path_inj [OF d h(1), of "harp_hash_compute enc"] show ?thesis by simp
    next
      case False
      with c(2,3) h tmp_not_obj [OF d, of h "harp_hash_compute enc"] show ?thesis by (cases ok) auto
    qed
  qed
  with False w show ?thesis by (simp add: harp_store_put_def Let_def)
qed

lemma unchanged_objects_consistent:
  assumes "store_consistent s" and "s' = s\<lparr>sto_fs := sto_fs s'\<rparr>"
    and "\<And>h d. map_of (sto_fs s') (obj_path s h) = Some (File d) \<Longrightarrow> map_of (sto_fs s) (obj_path s h) = Some (File d)"
  shows "store_consistent s'"
  by (rule store_consistentI [OF assms(1,2)]) (use assms(3) in blast)

lemma fs_remove_sub: "map_of (snd (fs_remove flt p fs)) q = Some x \<Longrightarrow> map_of fs q = Some x"
  by (auto simp: fs_remove_def split: if_splits option.splits fnode.splits)

lemma ref_write_objects:
  assumes "dir_ok s" and "harp_store_ref_write b0 s r = (ok, s')"
  shows "s' = s\<lparr>sto_fs := sto_fs s'\<rparr>"
    and "map_of (sto_fs s') (obj_path s h) = Some (File d) \<longleftrightarrow> map_of (sto_fs s) (obj_path s h) = Some (File d)"
proof -
  have "s' = s\<lparr>sto_fs := sto_fs s'\<rparr> \<and>
    (map_of (sto_fs s') (obj_path s h) = Some (File d) \<longleftrightarrow> map_of (sto_fs s) (obj_path s h) = Some (File d))"
  proof (cases "ref_path s (rf_name r) HARP_STORE_PATH_MAX")
    case None
    with assms(2) show ?thesis by (simp add: harp_store_ref_write_def)
  next
    case (Some p)
    obtain mk fs where m: "mkdirs (sto_flt s) (parent p) (sto_fs s) = (mk, fs)"
      by (cases "mkdirs (sto_flt s) (parent p) (sto_fs s)")
    note f = mkdirs_files [OF m, of "obj_path s h" d]
    let ?b = "harp_ref_encode (harp_cbuf_init b0) r" and ?s = "s\<lparr>sto_fs := fs\<rparr>"
    obtain ok' s'' where w: "write_atomic ?s p (cb_buf ?b) = (ok', s'')"
      by (cases "write_atomic ?s p (cb_buf ?b)")
    have p: "length p < HARP_STORE_PATH_MAX" using ref_path_Some [OF Some] by blast
    have np: "obj_path s h \<noteq> p" "obj_path s h \<noteq> tmp_path ?s p"
      using ref_path_not_obj [OF assms(1) Some, of h] by (auto simp: tmp_path_def)
    show ?thesis
    proof (cases "mk \<and> \<not> cb_oom ?b")
      case True
      with assms(2) Some m w have "s' = s''" "ok = ok'" by (simp_all add: harp_store_ref_write_def Let_def)
      with write_atomic_cases [OF w p] np f show ?thesis by (cases ok') (auto simp: fun_eq_iff)
    next
      case False
      with assms(2) Some m f show ?thesis
        by (auto simp: harp_store_ref_write_def Let_def split: bool.splits if_splits)
    qed
  qed
  then show "s' = s\<lparr>sto_fs := sto_fs s'\<rparr>"
    and "map_of (sto_fs s') (obj_path s h) = Some (File d) \<longleftrightarrow> map_of (sto_fs s) (obj_path s h) = Some (File d)"
    by auto
qed



text \<open>
  What is put can be got.  If \<open>harp_store_put\<close> reports success it returned the hash of the data and the object
  is there; reading it back (with a readable file and enough memory) appends data with that very hash to the
  buffer, and if the object was not stored before, exactly the data that was put; no other object is touched.
\<close>

theorem put_get:
  assumes "store_consistent s" and "harp_store_put s enc = (True, h, s')"
    and "harp_store_get s' h out = (True, out')" and "cbuf_wf out"
  shows "h = harp_hash_compute enc \<and> harp_store_have s' h \<and>
    (\<exists>d. cb_view out' = Some (cb_buf out @ d) \<and> harp_hash_compute d = h \<and>
       (\<not> harp_store_have s h \<longrightarrow> d = enc)) \<and>
    (\<forall>h'. length h' = 33 \<longrightarrow> h' \<noteq> h \<longrightarrow>
       map_of (sto_fs s') (obj_path s h') = map_of (sto_fs s) (obj_path s h'))"
proof -
  have d: "dir_ok s" using assms(1) by (simp add: store_consistent_def)
  have c': "store_consistent s'" using put_consistent [OF assms(1), of enc] assms(2) by simp
  have h: "h = harp_hash_compute enc" using assms(2)
    by (auto simp: harp_store_put_def Let_def split: if_splits prod.splits)
  let ?p = "obj_path s h"
  have put: "s' = s\<lparr>sto_fs := sto_fs s'\<rparr> \<and>
    (if path_readable (sto_fs s) ?p then s' = s
     else map_of (sto_fs s') = (map_of (sto_fs s))(tmp_path s ?p := None, ?p \<mapsto> File enc))"
    using assms(2) write_atomic_cases(1,2) [OF _ obj_path_short, of s s h enc True s'] h
    by (auto simp: harp_store_put_def Let_def split: if_splits prod.splits)
  have same: "obj_path s' x = obj_path s x" for x using put same_dir(1) by metis
  obtain data where f: "map_of (sto_fs s') ?p = Some (File data)" and o: "out' = fread_loop out data" "\<not> cb_oom out'"
    using assms(3) same by (auto simp: harp_store_get_def Let_def fopen_rb_def split: option.splits fnode.splits if_splits)
  from o have "cb_view (fread_loop out data) = Some (cb_buf out')" by (simp add: cb_view_def)
  from emits_Some [OF emits_fread_loop assms(4) this] have "cb_view out' = Some (cb_buf out @ data)"
    using o by (simp add: cb_view_def)
  moreover have "harp_hash_compute data = h"
    using c' f same h harp_hash_compute_length by (metis store_consistent_def)
  moreover have "\<not> harp_store_have s h \<longrightarrow> data = enc"
    using put f by (auto simp: harp_store_have_def)
  moreover have "harp_store_have s' h" using f same by (simp add: harp_store_have_def path_readable_def)
  moreover have "map_of (sto_fs s') (obj_path s h') = map_of (sto_fs s) (obj_path s h')"
    if "length h' = 33" "h' \<noteq> h" for h'
    using put that obj_path_inj [OF d that(1), of h] h tmp_not_obj [OF d, of h' h]
    by (auto split: if_splits)
  ultimately show ?thesis using h by blast
qed

lemma hexd_set: "hexd (drop_bit 4 b) \<in> set (str ''0123456789abcdef'')" "hexd (b AND 0xf) \<in> set (str ''0123456789abcdef'')"
proof -
  have "unat (drop_bit 4 b) < 16" using unsigned_less [of b, where ?'a = nat]
    by (simp add: unat_drop_bit_eq drop_bit_nat_def)
  then show "hexd (drop_bit 4 b) \<in> set (str ''0123456789abcdef'')"
    unfolding hexd_def by (intro nth_mem) simp
  have m: "b AND 0xf = take_bit 4 b" by (simp add: take_bit_eq_mask mask_numeral)
  have "unat (take_bit 4 b) < 16" by (simp add: unsigned_take_bit_eq take_bit_nat_def)
  then show "hexd (b AND 0xf) \<in> set (str ''0123456789abcdef'')"
    unfolding hexd_def m by (intro nth_mem) simp
qed

lemma harp_hash_hex_chars: "set (harp_hash_hex h) \<subseteq> set (str ''0123456789abcdef'')"
  using hexd_set by (auto simp: harp_hash_hex_def simp del: HARP_HASH_LEN_def)

lemma harp_hash_hex_plain: "slash \<notin> set (harp_hash_hex h)" "46 \<notin> set (harp_hash_hex h)"
  using harp_hash_hex_chars [of h] by (auto simp: str_def)

lemma put_ex_store: "fst (harp_store_put ex_store enc)"
proof -
  let ?h = "harp_hash_compute enc"
  let ?p = "obj_path ex_store ?h"
  have d: "dir_ok ex_store" by (simp add: dir_ok_def ex_store_def)
  have n: "map_of (sto_fs ex_store) q = None" if "length q > 10" for q
    using that by (auto simp: ex_store_def str_def)
  have p: "?p = str ''d/objects'' @ slash # harp_hash_hex ?h"
    by (simp add: obj_path_eq [OF d]) (simp add: ex_store_def str_def)
  then have t: "tmp_path ex_store ?p = str ''d/objects'' @ slash # (harp_hash_hex ?h @ str ''.tmp.7'')"
    by (simp add: tmp_path_def snprintf_def ex_store_def str_def)
  have "parent (tmp_path ex_store ?p) = str ''d/objects''"
    unfolding t by (rule parent_append) (use harp_hash_hex_plain in \<open>auto simp: str_def\<close>)
  then have "is_dir (sto_fs ex_store) (parent (tmp_path ex_store ?p))"
    by (simp add: is_dir_def ex_store_def str_def)
  moreover have "length ?p > 10" "length (tmp_path ex_store ?p) > 10" using p t by simp_all
  ultimately have "fst (write_atomic ex_store ?p enc)"
    using n by (intro write_atomic_succeeds) (auto simp: obj_path_short [simplified] ex_store_def)
  then show ?thesis by (auto simp: harp_store_put_def Let_def split: prod.split)
qed

lemma put_get_witness:
  "harp_store_have (snd (snd (harp_store_put ex_store [1, 2]))) (harp_hash_compute [1, 2])"
proof -
  let ?h = "harp_hash_compute [1, 2]"
  let ?b = "\<lparr>cb_buf = [], cb_cap = 256, cb_oom = False, cb_avail = 256\<rparr>"
  have d: "dir_ok ex_store" by (simp add: dir_ok_def ex_store_def)
  have n: "map_of (sto_fs ex_store) (obj_path ex_store h) = None" for h
    using length_obj_path [of ex_store h] by (auto simp: ex_store_def dir_ok_def str_def)
  then have c: "store_consistent ex_store" by (simp add: store_consistent_def dir_ok_def ex_store_def)
  have np: "obj_path ex_store ?h \<noteq> []" using length_obj_path [OF d, of ?h] by auto
  have r: "\<not> path_readable (sto_fs ex_store) (obj_path ex_store ?h)" using n [of ?h] np by (simp add: path_readable_def)
  obtain s1 where w: "write_atomic ex_store (obj_path ex_store ?h) [1, 2] = (True, s1)"
    using put_ex_store [of "[1, 2]"] r
    by (cases "write_atomic ex_store (obj_path ex_store ?h) [1, 2]") (auto simp: harp_store_put_def Let_def)
  with r have p: "harp_store_put ex_store [1, 2] = (True, ?h, s1)"
    by (simp add: harp_store_put_def Let_def)
  note c1 = write_atomic_cases [OF w obj_path_short]
  have "sto_flt s1 = no_faults" using arg_cong [OF c1(1), of sto_flt] by (simp add: ex_store_def)
  moreover have "map_of (sto_fs s1) (obj_path s1 ?h) = Some (File [1, 2])"
    using c1(2) same_dir(1) [OF c1(1)] by simp
  ultimately have "harp_store_get s1 ?h ?b = (True, fread_loop ?b [1, 2])"
    by (simp add: harp_store_get_def Let_def fopen_rb_def no_faults_def fread_loop.simps
        harp_cbuf_put_def ensure_def)
  from put_get [OF c p this] show ?thesis using p by (simp add: cbuf_wf_def)
qed

section \<open>Reading refs back\<close>

lemma ref_path_inj:
  "ref_path s n k = Some p \<Longrightarrow> ref_path s n' k = Some p \<Longrightarrow> n = n'"
  by (auto dest!: ref_path_Some)

lemma ref_bytes_length:
  assumes "ref_ok r"
  shows "length (ref_bytes r) \<le> 1024"
proof -
  have "length (rf_hash r) = 33" "length (rf_name r) < 160"
    using assms by (auto simp: ref_ok_def split: if_splits)
  moreover note length_head_bytes(1) [of 5 4] length_head_bytes(1) [of 0 0] length_head_bytes(1) [of 0 1]
    length_head_bytes(1) [of 0 2] length_head_bytes(1) [of 0 3] length_head_bytes(1) [of 0 "rf_generation r"]
    length_head_bytes(1) [of 3 "of_nat (length (rf_name r))"] length_head_bytes(1) [of 2 33]
  ultimately show ?thesis by (auto simp: ref_bytes_def)
qed

lemma harp_cbuf_init_wf [simp]: "cbuf_wf (harp_cbuf_init b)" "cb_buf (harp_cbuf_init b) = []"
  by (simp_all add: harp_cbuf_init_def cbuf_wf_def)

text \<open>What a successful ref write changes.\<close>

lemma ref_write_ok:
  assumes "harp_store_ref_write b0 s r = (True, s')"
  obtains p fs where "ref_path s (rf_name r) HARP_STORE_PATH_MAX = Some p"
    and "mkdirs (sto_flt s) (parent p) (sto_fs s) = (True, fs)"
    and "s' = s\<lparr>sto_fs := sto_fs s'\<rparr>"
    and "map_of (sto_fs s') = (map_of fs)(tmp_path s p := None, p \<mapsto> File (ref_bytes r))"
proof -
  from assms obtain p fs where p: "ref_path s (rf_name r) HARP_STORE_PATH_MAX = Some p"
    and m: "mkdirs (sto_flt s) (parent p) (sto_fs s) = (True, fs)"
    and o: "\<not> cb_oom (harp_ref_encode (harp_cbuf_init b0) r)"
    and w: "write_atomic (s\<lparr>sto_fs := fs\<rparr>) p (cb_buf (harp_ref_encode (harp_cbuf_init b0) r)) = (True, s')"
    by (auto simp: harp_store_ref_write_def Let_def split: option.splits prod.splits bool.splits if_splits)
  have "cb_view (harp_ref_encode (harp_cbuf_init b0) r) = Some (cb_buf (harp_ref_encode (harp_cbuf_init b0) r))"
    using o by (simp add: cb_view_def)
  from emits_Some [OF emits_ref_encode _ this] have b: "cb_buf (harp_ref_encode (harp_cbuf_init b0) r) = ref_bytes r"
    by simp
  have "length p < HARP_STORE_PATH_MAX" using ref_path_Some [OF p] by blast
  from write_atomic_cases [OF w this] b have "s' = s\<lparr>sto_fs := sto_fs s'\<rparr>"
    "map_of (sto_fs s') = (map_of fs)(tmp_path s p := None, p \<mapsto> File (ref_bytes r))"
    by (simp_all add: tmp_path_def)
  with p m that show thesis by blast
qed

lemma ref_write_same:
  assumes "ref_ok r" and "harp_store_ref_write b0 s r = (True, s')" and "flt_fopen (sto_flt s) = (\<lambda>p. False)"
  shows "harp_store_ref_read s' (rf_name r) = Some r"
proof -
  from ref_write_ok [OF assms(2)] obtain p fs where
    p: "ref_path s (rf_name r) HARP_STORE_PATH_MAX = Some p" and
    s': "s' = s\<lparr>sto_fs := sto_fs s'\<rparr>" and
    f: "map_of (sto_fs s') = (map_of fs)(tmp_path s p := None, p \<mapsto> File (ref_bytes r))" .
  have "flt_fopen (sto_flt s') = (\<lambda>p. False)" using arg_cong [OF s', of sto_flt] assms(3) by simp
  moreover have "ref_path s' n k = ref_path s n k" for n k by (subst s') (rule ref_path_fs)
  ultimately show ?thesis
    using p f ref_bytes_length [OF assms(1)] ref_decode_bytes [OF assms(1), of "[]"]
    by (simp add: harp_store_ref_read_def fopen_rb_def)
qed

text \<open>
  A written ref reads back, and no other ref changes.  After \<open>harp_store_ref_write\<close> reported success,
  \<open>harp_store_ref_read\<close> returns the same record; every other ref whose file is not the writer's temporary
  reads as before.
\<close>

theorem ref_write_read:
  assumes "ref_ok r" and "harp_store_ref_write b0 s r = (True, s')" and "flt_fopen (sto_flt s) = (\<lambda>p. False)"
  shows "harp_store_ref_read s' (rf_name r) = Some r \<and>
    (\<forall>n. n \<noteq> rf_name r \<longrightarrow>
       ref_path s n HARP_STORE_PATH_MAX \<noteq> map_option (tmp_path s) (ref_path s (rf_name r) HARP_STORE_PATH_MAX) \<longrightarrow>
       harp_store_ref_read s' n = harp_store_ref_read s n)"
proof -
  from ref_write_ok [OF assms(2)] obtain p fs where
    p: "ref_path s (rf_name r) HARP_STORE_PATH_MAX = Some p" and
    m: "mkdirs (sto_flt s) (parent p) (sto_fs s) = (True, fs)" and
    s': "s' = s\<lparr>sto_fs := sto_fs s'\<rparr>" and
    f: "map_of (sto_fs s') = (map_of fs)(tmp_path s p := None, p \<mapsto> File (ref_bytes r))" .
  have flt: "flt_fopen (sto_flt s') = (\<lambda>p. False)" using arg_cong [OF s', of sto_flt] assms(3) by simp
  have rp: "ref_path s' n k = ref_path s n k" for n k by (subst s') (rule ref_path_fs)
  note ref_write_same [OF assms]
  moreover have "harp_store_ref_read s' n = harp_store_ref_read s n"
    if n: "n \<noteq> rf_name r" "ref_path s n HARP_STORE_PATH_MAX \<noteq> Some (tmp_path s p)" for n
  proof (cases "ref_path s n HARP_STORE_PATH_MAX")
    case (Some q)
    with n p have "q \<noteq> p" "q \<noteq> tmp_path s p" using ref_path_inj [of s n _ q "rf_name r"] by auto
    then have "\<forall>d. map_of (sto_fs s') q = Some (File d) \<longleftrightarrow> map_of (sto_fs s) q = Some (File d)"
      using f mkdirs_files [OF m] by simp
    then have "fopen_rb (sto_flt s') q (sto_fs s') = fopen_rb (sto_flt s) q (sto_fs s)"
      using flt assms(3) by (auto simp: fopen_rb_def split: option.split fnode.split)
    with Some rp show ?thesis by (simp add: harp_store_ref_read_def)
  qed (simp add: rp harp_store_ref_read_def)
  ultimately show ?thesis using p by simp
qed

lemma ref_write_read_witness:
  "harp_store_ref_read (snd (harp_store_ref_write \<lparr>cb_buf = [], cb_cap = 0, cb_oom = False, cb_avail = 256\<rparr>
       ex_store (ref_zero\<lparr>rf_name := str ''a''\<rparr>))) (str ''a'') = Some (ref_zero\<lparr>rf_name := str ''a''\<rparr>)"
proof -
  let ?b = "\<lparr>cb_buf = [], cb_cap = 0, cb_oom = False, cb_avail = 256\<rparr>" and ?r = "ref_zero\<lparr>rf_name := str ''a''\<rparr>"
  have ok: "ref_ok ?r" by (simp add: ref_ok_def ref_zero_def str_def)
  have "fst (harp_store_ref_write ?b ex_store ?r)" by code_simp
  then obtain s' where w: "harp_store_ref_write ?b ex_store ?r = (True, s')"
    by (cases "harp_store_ref_write ?b ex_store ?r") simp
  from ref_write_read [OF ok w] show ?thesis using w by (simp add: ex_store_def no_faults_def)
qed

end
