(* ===== verification/Harp_Gc.thy ===== *)
theory Harp_Gc
  imports Harp_Store
begin

text \<open>
  Mark-and-sweep collection of \<^verbatim>\<open>core/src/store.c\<close>.  The mark set is the open-addressed table of the code; its
  contract is the locale \<open>mark_set\<close>, against which the mark phase is verified.  Two things can keep the C code
  from returning: probing a full table and unbounded recursion.  The model makes both visible: probing stops
  after one round of the table (from then on the loop repeats itself), recursion stops when its fuel is
  used up, and either sets the flag \<open>mk_stuck\<close>; \<open>gc_returns\<close> shows that it is never set.
\<close>

unbundle bit_operations_syntax

section \<open>The mark set\<close>

record hashset =
  hs_keys :: "harp_hash list"
  hs_used :: "bool list"
  hs_cap :: nat

definition hs_slot :: "hashset \<Rightarrow> harp_hash \<Rightarrow> nat" where
  "hs_slot hs h = unat (le_val (take 8 h) AND (of_nat (hs_cap hs) - 1) :: u64)"

text \<open>The probe loop of \<^verbatim>\<open>hs_add\<close> and \<^verbatim>\<open>hs_has\<close>: a free slot or the slot that holds the key.\<close>

fun hs_find :: "hashset \<Rightarrow> harp_hash \<Rightarrow> nat \<Rightarrow> nat \<Rightarrow> (bool \<times> nat) option" where
  "hs_find hs h 0 i = None"
| "hs_find hs h (Suc n) i =
     (if \<not> hs_used hs ! i then Some (False, i)
      else if harp_hash_eq (hs_keys hs ! i) h then Some (True, i)
      else hs_find hs h n ((i + 1) AND (hs_cap hs - 1)))"

definition hs_add :: "hashset \<Rightarrow> harp_hash \<Rightarrow> (bool \<times> hashset) option" where
  "hs_add hs h =
     (case hs_find hs h (hs_cap hs) (hs_slot hs h) of
        None \<Rightarrow> None
      | Some (True, i) \<Rightarrow> Some (False, hs)
      | Some (False, i) \<Rightarrow>
          Some (True, hs\<lparr>hs_used := (hs_used hs)[i := True], hs_keys := (hs_keys hs)[i := h]\<rparr>))"

definition hs_has :: "hashset \<Rightarrow> harp_hash \<Rightarrow> bool option" where
  "hs_has hs h = map_option fst (hs_find hs h (hs_cap hs) (hs_slot hs h))"

definition hs_empty :: "nat \<Rightarrow> hashset" where
  "hs_empty cap = \<lparr>hs_keys = replicate cap (replicate HARP_HASH_LEN 0), hs_used = replicate cap False, hs_cap = cap\<rparr>"

section \<open>Mark and sweep\<close>

record 'set markctx =
  mk_set :: 'set
  mk_aborted :: bool
  mk_stuck :: bool

text \<open>
  \<^verbatim>\<open>mark_obj\<close>; the set operation is an argument, \<open>b0\<close> is the allocator of the local buffer and the number is
  the fuel.
\<close>

fun mark_obj :: "('set \<Rightarrow> harp_hash \<Rightarrow> (bool \<times> 'set) option) \<Rightarrow> harp_cbuf \<Rightarrow> harp_store \<Rightarrow> nat \<Rightarrow> harp_hash
    \<Rightarrow> 'set markctx \<Rightarrow> 'set markctx" where
  "mark_obj add b0 s 0 h m = m\<lparr>mk_stuck := True\<rparr>"
| "mark_obj add b0 s (Suc n) h m =
     (if mk_stuck m \<or> mk_aborted m then m
      else case add (mk_set m) h of
             None \<Rightarrow> m\<lparr>mk_stuck := True\<rparr>
           | Some (False, t) \<Rightarrow> m\<lparr>mk_set := t\<rparr>
           | Some (True, t) \<Rightarrow>
               (case harp_store_get s h (harp_cbuf_init b0) of
                  (False, enc) \<Rightarrow> m\<lparr>mk_set := t, mk_aborted := True\<rparr>
                | (True, enc) \<Rightarrow>
                    (case harp_obj_foreach_child (cb_buf enc) False
                            (\<lambda>c m. let m = mark_obj add b0 s n c m in (\<not> mk_aborted m, m)) (m\<lparr>mk_set := t\<rparr>) of
                       (True, m) \<Rightarrow> m
                     | (False, m) \<Rightarrow> m\<lparr>mk_aborted := True\<rparr>)))"

definition mark_ref_cb :: "('set \<Rightarrow> harp_hash \<Rightarrow> (bool \<times> 'set) option) \<Rightarrow> harp_cbuf \<Rightarrow> harp_store \<Rightarrow> nat
    \<Rightarrow> harp_ref \<Rightarrow> 'set markctx \<Rightarrow> 'set markctx" where
  "mark_ref_cb add b0 s n r m = (if \<not> rf_unborn r then mark_obj add b0 s n (rf_hash r) m else m)"

record sweepctx =
  sw_store :: harp_store
  sw_deleted :: nat
  sw_done :: bool
  sw_stuck :: bool

definition sweep_cb :: "('set \<Rightarrow> harp_hash \<Rightarrow> bool option) \<Rightarrow> 'set \<Rightarrow> nat \<Rightarrow> harp_hash \<Rightarrow> sweepctx
    \<Rightarrow> bool \<times> sweepctx" where
  "sweep_cb has t mx h w =
     (case has t h of
        None \<Rightarrow> (False, w\<lparr>sw_stuck := True\<rparr>)
      | Some True \<Rightarrow> (True, w)
      | Some False \<Rightarrow>
          if mx \<noteq> 0 \<and> sw_deleted w \<ge> mx then (False, w\<lparr>sw_done := True\<rparr>)
          else (case harp_store_obj_delete (sw_store w) h of
                  (ok, s) \<Rightarrow>
                    let w = w\<lparr>sw_store := s, sw_deleted := (if ok then sw_deleted w + 1 else sw_deleted w)\<rparr>
                    in (\<not> sto_skip_sweep s, w)))"

text \<open>\<^verbatim>\<open>while (cap < (nobj + 1) * 2) cap <<= 1;\<close> from 16.\<close>

definition gc_cap :: "nat \<Rightarrow> nat" where
  "gc_cap nobj = grow 16 ((nobj + 1) * 2)"

text \<open>The result is the return code with the count and the store; \<open>None\<close> if the call never returns.\<close>

definition harp_store_gc :: "harp_cbuf \<Rightarrow> harp_store \<Rightarrow> nat \<Rightarrow> (bool \<times> nat \<times> harp_store) option" where
  "harp_store_gc b0 s max_sweep =
     (let nobj = harp_store_obj_count s; cap = gc_cap nobj
      in if flt_calloc (sto_flt s) then Some (False, 0, s)
         else
           let m = snd (harp_store_ref_list s (mark_ref_cb hs_add b0 s (nobj + 2))
                          \<lparr>mk_set = hs_empty cap, mk_aborted = False, mk_stuck = False\<rparr>)
           in if mk_stuck m then None
              else if mk_aborted m then Some (False, 0, s)
              else
                let w = snd (harp_store_obj_foreach s (sweep_cb hs_has (mk_set m) max_sweep)
                               \<lparr>sw_store = s, sw_deleted = 0, sw_done = False, sw_stuck = False\<rparr>)
                in if sw_stuck w then None else Some (True, sw_deleted w, sw_store w))"

section \<open>The contract of the mark set\<close>

text \<open>
  \<open>elems\<close> is the set that a table stands for.  While it holds fewer keys than its capacity, adding says
  whether the key is new and membership is exact.
\<close>

locale mark_set =
  fixes add :: "'set \<Rightarrow> 'k \<Rightarrow> (bool \<times> 'set) option"
    and has :: "'set \<Rightarrow> 'k \<Rightarrow> bool option"
    and elems :: "'set \<Rightarrow> 'k set"
    and cap :: "'set \<Rightarrow> nat"
    and inv :: "'set \<Rightarrow> bool"
    and key_ok :: "'k \<Rightarrow> bool"
  assumes add_spec: "inv t \<Longrightarrow> key_ok k \<Longrightarrow> card (elems t) < cap t \<Longrightarrow>
      \<exists>t'. add t k = Some (k \<notin> elems t, t') \<and> inv t' \<and> elems t' = insert k (elems t) \<and> cap t' = cap t"
    and has_spec: "inv t \<Longrightarrow> key_ok k \<Longrightarrow> card (elems t) < cap t \<Longrightarrow> has t k = Some (k \<in> elems t)"
    and elems_finite: "inv t \<Longrightarrow> finite (elems t)"

section \<open>The table implements the contract\<close>

definition hs_elems :: "hashset \<Rightarrow> harp_hash set" where
  "hs_elems hs = {hs_keys hs ! i | i. i < hs_cap hs \<and> hs_used hs ! i}"

text \<open>The \<open>j\<close>-th probe for a key.\<close>

definition probe :: "hashset \<Rightarrow> harp_hash \<Rightarrow> nat \<Rightarrow> nat" where
  "probe hs h j = (hs_slot hs h + j) mod hs_cap hs"

text \<open>Every stored key can be reached by its own probe sequence without crossing a free slot.\<close>

definition hs_inv :: "hashset \<Rightarrow> bool" where
  "hs_inv hs \<longleftrightarrow> (\<exists>k. hs_cap hs = 2 ^ k \<and> k < 64) \<and> length (hs_keys hs) = hs_cap hs \<and>
     length (hs_used hs) = hs_cap hs \<and>
     (\<forall>i < hs_cap hs. hs_used hs ! i \<longrightarrow> length (hs_keys hs ! i) = 33 \<and>
        (\<exists>j < hs_cap hs. i = probe hs (hs_keys hs ! i) j \<and>
           (\<forall>j' < j. hs_used hs ! probe hs (hs_keys hs ! i) j' \<and>
              hs_keys hs ! probe hs (hs_keys hs ! i) j' \<noteq> hs_keys hs ! i)))"

lemma and_pow2: "n AND (2 ^ k - 1) = n mod 2 ^ k" for n k :: nat
  by (simp add: take_bit_eq_mod [symmetric] take_bit_eq_mask mask_eq_exp_minus_1)

lemma hs_slot_less: "hs_inv hs \<Longrightarrow> hs_slot hs h < hs_cap hs"
proof -
  assume "hs_inv hs"
  then obtain k where k: "hs_cap hs = 2 ^ k" "k < 64" by (auto simp: hs_inv_def)
  then have "(of_nat (hs_cap hs) - 1 :: u64) = mask k" by (simp add: mask_eq_exp_minus_1)
  then have "hs_slot hs h = unat (take_bit k (le_val (take 8 h) :: u64))"
    by (simp add: hs_slot_def take_bit_eq_mask)
  also have "\<dots> < 2 ^ k" by (simp add: unsigned_take_bit_eq)
  finally show ?thesis using k by simp
qed

lemma hs_find_probe:
  assumes "hs_inv hs"
  shows "hs_find hs h n (probe hs h j) =
     (case find (\<lambda>j. \<not> hs_used hs ! probe hs h j \<or> harp_hash_eq (hs_keys hs ! probe hs h j) h) [j..<j + n] of
        None \<Rightarrow> None
      | Some j \<Rightarrow> Some (hs_used hs ! probe hs h j, probe hs h j))"
proof (induction n arbitrary: j)
  case (Suc n)
  obtain k where k: "hs_cap hs = 2 ^ k" using assms by (auto simp: hs_inv_def)
  have next': "(probe hs h j + 1) AND (hs_cap hs - 1) = probe hs h (j + 1)"
    unfolding k and_pow2 probe_def by (simp add: mod_simps)
  have "[j..<j + Suc n] = j # [j + 1..<(j + 1) + n]" by (simp add: upt_rec)
  then show ?case using Suc.IH [of "j + 1"] next' by (auto split: option.split)
qed simp

lemma hash_eq33: "length a = 33 \<Longrightarrow> length b = 33 \<Longrightarrow> harp_hash_eq a b \<longleftrightarrow> a = b"
  by (simp add: harp_hash_eq_def)

lemma find_upt: "find P [0..<n] = Some j \<longleftrightarrow> j < n \<and> P j \<and> (\<forall>j' < j. \<not> P j')" for j n :: nat
  by (auto simp: find_Some_iff)

abbreviation hs_lookup :: "hashset \<Rightarrow> harp_hash \<Rightarrow> (bool \<times> nat) option" where
  "hs_lookup hs h \<equiv> hs_find hs h (hs_cap hs) (hs_slot hs h)"

lemma probe_0: "hs_inv hs \<Longrightarrow> probe hs h 0 = hs_slot hs h"
  using hs_slot_less [of hs h] by (simp add: probe_def)

lemma hs_cap_pos: "hs_inv hs \<Longrightarrow> 0 < hs_cap hs"
  by (auto simp: hs_inv_def)

lemma probe_less: "hs_inv hs \<Longrightarrow> probe hs h j < hs_cap hs"
  using hs_cap_pos [of hs] by (simp add: probe_def)

lemma hs_lookup_Some:
  assumes "hs_inv hs" and "j < hs_cap hs"
    and "\<not> hs_used hs ! probe hs h j \<or> harp_hash_eq (hs_keys hs ! probe hs h j) h"
    and "\<And>j'. j' < j \<Longrightarrow> hs_used hs ! probe hs h j' \<and> \<not> harp_hash_eq (hs_keys hs ! probe hs h j') h"
  shows "hs_lookup hs h = Some (hs_used hs ! probe hs h j, probe hs h j)"
proof -
  have "find (\<lambda>j. \<not> hs_used hs ! probe hs h j \<or> harp_hash_eq (hs_keys hs ! probe hs h j) h) [0..<hs_cap hs] = Some j"
    using assms(2-4) by (auto simp: find_upt)
  then show ?thesis
    using hs_find_probe [OF assms(1), of h "hs_cap hs" 0] probe_0 [OF assms(1)] by simp
qed

lemma hs_inv_slot:
  assumes "hs_inv hs" and "i < hs_cap hs" and "hs_used hs ! i"
  obtains j where "j < hs_cap hs" and "i = probe hs (hs_keys hs ! i) j" and "length (hs_keys hs ! i) = 33"
    and "\<And>j'. j' < j \<Longrightarrow> hs_used hs ! probe hs (hs_keys hs ! i) j' \<and>
          hs_keys hs ! probe hs (hs_keys hs ! i) j' \<noteq> hs_keys hs ! i"
  using assms unfolding hs_inv_def by blast

lemma hs_key_len: "hs_inv hs \<Longrightarrow> i < hs_cap hs \<Longrightarrow> hs_used hs ! i \<Longrightarrow> length (hs_keys hs ! i) = 33"
  by (blast elim: hs_inv_slot)

lemma hs_lookup_present:
  assumes "hs_inv hs" and "h \<in> hs_elems hs"
  shows "\<exists>i. hs_lookup hs h = Some (True, i)"
proof -
  from assms(2) obtain i where i: "i < hs_cap hs" "hs_used hs ! i" "h = hs_keys hs ! i"
    by (auto simp: hs_elems_def)
  from hs_inv_slot [OF assms(1) i(1,2), unfolded i(3) [symmetric]] obtain j where
    j: "j < hs_cap hs" "i = probe hs h j" "length h = 33"
      "\<And>j'. j' < j \<Longrightarrow> hs_used hs ! probe hs h j' \<and> hs_keys hs ! probe hs h j' \<noteq> h"
    by blast
  have eq: "harp_hash_eq (hs_keys hs ! probe hs h j) h" using i(3) j(2) by (simp add: harp_hash_eq_def)
  have "hs_used hs ! probe hs h j' \<and> \<not> harp_hash_eq (hs_keys hs ! probe hs h j') h" if "j' < j" for j'
    using j(3) j(4) [OF that] hs_key_len [OF assms(1) probe_less [OF assms(1)], of h j'] by (simp add: hash_eq33)
  from hs_lookup_Some [OF assms(1) j(1) disjI2 [OF eq] this] i(2) j(2) show ?thesis by simp
qed

lemma hs_keys_inj: "hs_inv hs \<Longrightarrow> inj_on (\<lambda>i. hs_keys hs ! i) {i. i < hs_cap hs \<and> hs_used hs ! i}"
proof (rule inj_onI, clarify)
  fix a b
  assume hs: "hs_inv hs" and a: "a < hs_cap hs" "hs_used hs ! a" and b: "b < hs_cap hs" "hs_used hs ! b"
    and eq: "hs_keys hs ! a = hs_keys hs ! b"
  from hs_inv_slot [OF hs a] obtain ja where ja: "a = probe hs (hs_keys hs ! a) ja"
    "\<And>j'. j' < ja \<Longrightarrow> hs_keys hs ! probe hs (hs_keys hs ! a) j' \<noteq> hs_keys hs ! a" by metis
  from hs_inv_slot [OF hs b] obtain jb where jb: "b = probe hs (hs_keys hs ! b) jb"
    "\<And>j'. j' < jb \<Longrightarrow> hs_keys hs ! probe hs (hs_keys hs ! b) j' \<noteq> hs_keys hs ! b" by metis
  have "\<not> ja < jb" using ja(1) jb(2) [of ja] eq by metis
  moreover have "\<not> jb < ja" using jb(1) ja(2) [of jb] eq by metis
  ultimately have "ja = jb" by simp
  with ja(1) jb(1) eq show "a = b" by metis
qed

lemma hs_elems_image: "hs_elems hs = (\<lambda>i. hs_keys hs ! i) ` {i. i < hs_cap hs \<and> hs_used hs ! i}"
  by (auto simp: hs_elems_def)

lemma hs_elems_finite: "finite (hs_elems hs)"
  by (simp add: hs_elems_image)

lemma hs_free_slot:
  assumes "hs_inv hs" and "card (hs_elems hs) < hs_cap hs"
  shows "\<exists>i < hs_cap hs. \<not> hs_used hs ! i"
proof (rule ccontr)
  assume "\<not> ?thesis"
  then have "{i. i < hs_cap hs \<and> hs_used hs ! i} = {..<hs_cap hs}" by auto
  then have "card (hs_elems hs) = hs_cap hs"
    using hs_keys_inj [OF assms(1)] by (simp add: hs_elems_image card_image)
  with assms(2) show False by simp
qed

lemma probe_surj:
  assumes "hs_inv hs" and "i < hs_cap hs"
  shows "\<exists>j < hs_cap hs. probe hs h j = i"
proof (cases "hs_slot hs h \<le> i")
  case True
  then show ?thesis using assms by (intro exI [of _ "i - hs_slot hs h"]) (auto simp: probe_def)
next
  case False
  then have "hs_slot hs h + (hs_cap hs - hs_slot hs h + i) = hs_cap hs + i"
    using hs_slot_less [OF assms(1), of h] by simp
  then show ?thesis
    using assms False hs_slot_less [OF assms(1), of h]
    by (intro exI [of _ "hs_cap hs - hs_slot hs h + i"]) (simp add: probe_def)
qed

lemma hs_lookup_absent:
  assumes "hs_inv hs" and "card (hs_elems hs) < hs_cap hs" and "length h = 33" and "h \<notin> hs_elems hs"
  obtains j where "j < hs_cap hs" and "hs_lookup hs h = Some (False, probe hs h j)"
    and "\<not> hs_used hs ! probe hs h j"
    and "\<And>j'. j' < j \<Longrightarrow> hs_used hs ! probe hs h j' \<and> hs_keys hs ! probe hs h j' \<noteq> h"
proof -
  let ?P = "\<lambda>j. \<not> hs_used hs ! probe hs h j \<or> harp_hash_eq (hs_keys hs ! probe hs h j) h"
  from hs_free_slot [OF assms(1,2)] probe_surj [OF assms(1)] obtain j0 where
    "j0 < hs_cap hs" "\<not> hs_used hs ! probe hs h j0" by metis
  then have ex: "\<exists>j. j < hs_cap hs \<and> ?P j" by blast
  define j where "j = (LEAST j. j < hs_cap hs \<and> ?P j)"
  have j: "j < hs_cap hs" "?P j" using LeastI_ex [OF ex] by (auto simp: j_def)
  have least: "\<not> ?P j'" if "j' < j" for j'
    using not_less_Least [OF that [unfolded j_def]] that j(1) by simp
  have eq: "harp_hash_eq (hs_keys hs ! probe hs h i) h \<longleftrightarrow> False" if "hs_used hs ! probe hs h i" for i
    using that assms(3,4) hs_key_len [OF assms(1) probe_less [OF assms(1)] that] probe_less [OF assms(1), of h i]
    by (auto simp: hash_eq33 hs_elems_def)
  have u: "\<not> hs_used hs ! probe hs h j" using j(2) eq [of j] by blast
  have "hs_lookup hs h = Some (False, probe hs h j)"
    using hs_lookup_Some [OF assms(1) j(1), of h] u least by auto
  moreover have "hs_used hs ! probe hs h j' \<and> hs_keys hs ! probe hs h j' \<noteq> h" if "j' < j" for j'
    using least [OF that] assms(3) by (auto simp: harp_hash_eq_def)
  ultimately show thesis using that j(1) u by blast
qed

lemma hs_slot_upd [simp]: "hs_slot (hs\<lparr>hs_used := u, hs_keys := k\<rparr>) h = hs_slot hs h"
  "probe (hs\<lparr>hs_used := u, hs_keys := k\<rparr>) h j = probe hs h j"
  by (simp_all add: hs_slot_def probe_def)

lemma hs_add_new:
  assumes "hs_inv hs" and "i = probe hs h j" and "j < hs_cap hs" and "\<not> hs_used hs ! i" and "length h = 33"
    and "\<And>j'. j' < j \<Longrightarrow> hs_used hs ! probe hs h j' \<and> hs_keys hs ! probe hs h j' \<noteq> h"
  shows "hs_inv (hs\<lparr>hs_used := (hs_used hs)[i := True], hs_keys := (hs_keys hs)[i := h]\<rparr>)" (is "hs_inv ?hs")
    and "hs_elems (hs\<lparr>hs_used := (hs_used hs)[i := True], hs_keys := (hs_keys hs)[i := h]\<rparr>) = insert h (hs_elems hs)"
proof -
  have i: "i < hs_cap hs" using probe_less [OF assms(1)] assms(2) by simp
  have len: "length (hs_keys hs) = hs_cap hs" "length (hs_used hs) = hs_cap hs"
    using assms(1) by (auto simp: hs_inv_def)
  show "hs_elems ?hs = insert h (hs_elems hs)"
    using i len assms(4) by (auto simp: hs_elems_def nth_list_update split: if_splits)
  have "length (hs_keys ?hs ! a) = 33 \<and> (\<exists>j < hs_cap hs. a = probe hs (hs_keys ?hs ! a) j \<and>
        (\<forall>j' < j. hs_used ?hs ! probe hs (hs_keys ?hs ! a) j' \<and>
           hs_keys ?hs ! probe hs (hs_keys ?hs ! a) j' \<noteq> hs_keys ?hs ! a))"
    if a: "a < hs_cap hs" "hs_used ?hs ! a" for a
  proof (cases "a = i")
    case True
    have "probe hs h j' \<noteq> i" if "j' < j" for j' using assms(4,6) that by metis
    with True assms i len show ?thesis by (auto simp: nth_list_update)
  next
    case False
    with a have u: "hs_used hs ! a" by simp
    from hs_inv_slot [OF assms(1) a(1) u] obtain ja where ja: "ja < hs_cap hs" "a = probe hs (hs_keys hs ! a) ja"
      "length (hs_keys hs ! a) = 33"
      "\<And>j'. j' < ja \<Longrightarrow> hs_used hs ! probe hs (hs_keys hs ! a) j' \<and>
          hs_keys hs ! probe hs (hs_keys hs ! a) j' \<noteq> hs_keys hs ! a" by metis
    moreover have "i \<noteq> probe hs (hs_keys hs ! a) j'" if "j' < ja" for j' using ja(4) assms(4) that by metis
    ultimately show ?thesis using False by (intro conjI exI [of _ ja]) (simp_all add: nth_list_update_neq)
  qed
  then show "hs_inv ?hs" using assms(1) unfolding hs_inv_def by simp
qed

interpretation hs: mark_set hs_add hs_has hs_elems hs_cap hs_inv "\<lambda>h. length h = 33"
proof unfold_locales
  fix t :: hashset and k :: harp_hash
  assume t: "hs_inv t" and k: "length k = 33" and c: "card (hs_elems t) < hs_cap t"
  show "\<exists>t'. hs_add t k = Some (k \<notin> hs_elems t, t') \<and> hs_inv t' \<and>
      hs_elems t' = insert k (hs_elems t) \<and> hs_cap t' = hs_cap t"
  proof (cases "k \<in> hs_elems t")
    case True
    with hs_lookup_present [OF t True] t show ?thesis by (auto simp: hs_add_def)
  next
    case False
    from hs_lookup_absent [OF t c k False] obtain j where
      "j < hs_cap t" "hs_lookup t k = Some (False, probe t k j)" "\<not> hs_used t ! probe t k j"
      "\<And>j'. j' < j \<Longrightarrow> hs_used t ! probe t k j' \<and> hs_keys t ! probe t k j' \<noteq> k" by metis
    with hs_add_new [OF t refl, of j k] k False show ?thesis by (simp add: hs_add_def)
  qed
  show "hs_has t k = Some (k \<in> hs_elems t)"
  proof (cases "k \<in> hs_elems t")
    case True
    with hs_lookup_present [OF t True] show ?thesis by (auto simp: hs_has_def)
  next
    case False
    from hs_lookup_absent [OF t c k False] obtain j where "hs_lookup t k = Some (False, probe t k j)" .
    with False show ?thesis by (simp add: hs_has_def)
  qed
qed (rule hs_elems_finite)

lemma grow_pow2: "\<exists>j. c = 2 ^ j \<Longrightarrow> \<exists>j. grow c n = 2 ^ j"
proof (induction c n rule: grow.induct)
  case (1 c n)
  then obtain j where "c = 2 ^ j" by blast
  then have "2 * c = 2 ^ Suc j" by simp
  show ?case
  proof (cases "0 < c \<and> c < n")
    case True
    then have "\<exists>j. grow (2 * c) n = 2 ^ j" using 1(1) \<open>2 * c = 2 ^ Suc j\<close> by blast
    with True show ?thesis by (simp add: grow.simps [of c])
  next
    case False
    then have "grow c n = c" by (auto simp: grow.simps [of c])
    then show ?thesis using 1(2) by simp
  qed
qed

lemma hs_empty_inv: "gc_cap n < 2 ^ 64 \<Longrightarrow> hs_inv (hs_empty (gc_cap n))" "hs_elems (hs_empty c) = {}"
proof -
  assume "gc_cap n < 2 ^ 64"
  moreover obtain k where k: "gc_cap n = 2 ^ k"
  proof -
    have "\<exists>j. (16 :: nat) = 2 ^ j" by (rule exI [of _ 4]) simp
    from grow_pow2 [OF this, of "(n + 1) * 2"] that show thesis by (auto simp: gc_cap_def)
  qed
  ultimately have "(2 :: nat) ^ k < 2 ^ 64" by simp
  then have "k < 64" by (rule power_less_imp_less_exp [rotated]) simp
  with k show "hs_inv (hs_empty (gc_cap n))" by (auto simp: hs_inv_def hs_empty_def)
qed (simp add: hs_elems_def hs_empty_def)

section \<open>The children of arbitrary bytes\<close>

text \<open>Two runs of a parser whose user data stay in the relation \<open>R\<close>.\<close>

definition sim3 :: "('s \<Rightarrow> 't \<Rightarrow> bool) \<Rightarrow> bool \<times> 's \<times> harp_cdec \<Rightarrow> bool \<times> 't \<times> harp_cdec \<Rightarrow> bool" where
  "sim3 R x y \<longleftrightarrow> fst x = fst y \<and> snd (snd x) = snd (snd y) \<and> R (fst (snd x)) (fst (snd y))"

lemma loop_ret_sim:
  assumes "\<And>s t d. R s t \<Longrightarrow> sim3 R (f s d) (g t d)" and "R s t"
  shows "sim3 R (loop_ret f n s d) (loop_ret g n t d)"
  using assms(2)
proof (induction n arbitrary: s t d)
  case (Suc n)
  from assms(1) [OF Suc.prems, of d] show ?case
    using Suc.IH by (cases "f s d"; cases "g t d") (auto simp: sim3_def split: bool.split)
qed (simp add: sim3_def)

lemma obj_fields_sim:
  assumes "\<And>k s t d. R s t \<Longrightarrow> sim3 R (v k s d) (w k t d)" and "R s t"
  shows "fst (obj_fields enc v s) = fst (obj_fields enc w t) \<and> R (snd (obj_fields enc v s)) (snd (obj_fields enc w t))"
proof (cases "harp_cdec_map (harp_cdec_init enc)")
  case (Pair n d)
  show ?thesis
  proof (cases n)
    case None
    with Pair assms(2) show ?thesis by (simp add: obj_fields_def)
  next
    case (Some c)
    let ?l = "\<lambda>v. loop_ret (\<lambda>s d. case harp_cdec_uint d of (None, d) \<Rightarrow> (False, s, d) | (Some key, d) \<Rightarrow> v key s d)"
    have "sim3 R (?l v (unat c) s d) (?l w (unat c) t d)"
    proof (rule loop_ret_sim [where R = R])
      fix s t d assume "R s t"
      then show "sim3 R (case harp_cdec_uint d of (None, d) \<Rightarrow> (False, s, d) | (Some key, d) \<Rightarrow> v key s d)
          (case harp_cdec_uint d of (None, d) \<Rightarrow> (False, t, d) | (Some key, d) \<Rightarrow> w key t d)"
        using assms(1) by (cases "harp_cdec_uint d") (auto simp: sim3_def [of R "(False, _)"] split: option.split)
    qed (rule assms(2))
    with Some Pair show ?thesis
      by (cases "?l v (unat c) s d"; cases "?l w (unat c) t d")
        (auto simp: obj_fields_def sim3_def split: bool.split)
  qed
qed

lemma skip_ret_sim: "R s t \<Longrightarrow> sim3 R (skip_ret s d) (skip_ret t d)"
  by (auto simp: skip_ret_def sim3_def split: prod.split option.split)

lemma harp_hash_read_ok: "harp_hash_read d = (Some h, d') \<Longrightarrow> hash_ok h"
  by (auto simp: harp_hash_read_def hash_ok_def split: prod.splits option.splits if_splits)

text \<open>A callback that leaves its data alone after it asked to stop.\<close>

definition sticky_cb :: "'u harp_hash_cb \<Rightarrow> bool" where
  "sticky_cb cb \<longleftrightarrow> (\<forall>h u. \<not> fst (cb h u) \<longrightarrow> (\<forall>h'. snd (cb h' (snd (cb h u))) = snd (cb h u)))"

definition collect_cb :: "harp_hash list harp_hash_cb" where
  "collect_cb h u = (True, u @ [h])"

abbreviation run_cb :: "'u harp_hash_cb \<Rightarrow> harp_hash list \<Rightarrow> 'u \<Rightarrow> 'u" where
  "run_cb cb hs u \<equiv> fold (\<lambda>h u. snd (cb h u)) hs u"

lemma run_cb_stopped:
  assumes "sticky_cb cb" and "\<not> fst (cb h u)"
  shows "run_cb cb hs (snd (cb h u)) = snd (cb h u)"
  using assms by (induction hs) (auto simp: sticky_cb_def)

definition list_rel where
  "list_rel cb ud s t \<longleftrightarrow> snd s = run_cb cb (snd t) ud \<and> (\<forall>h \<in> set (snd t). hash_ok h)"

definition tree_rel where
  "tree_rel cb ud s t \<longleftrightarrow> \<not> fst t \<and> snd s = run_cb cb (snd t) ud \<and> (\<forall>h \<in> set (snd t). hash_ok h) \<and>
     (fst s \<longrightarrow> (\<forall>h. snd (cb h (snd s)) = snd s))"

lemma child_hash_sim: "list_rel cb ud s t \<Longrightarrow> sim3 (list_rel cb ud) (child_hash cb s d) (child_hash collect_cb t d)"
  by (auto simp: child_hash_def sim3_def list_rel_def collect_cb_def split: prod.split option.split
      dest: harp_hash_read_ok)

lemma child_hashes_sim: "list_rel cb ud s t \<Longrightarrow> sim3 (list_rel cb ud) (child_hashes cb s d) (child_hashes collect_cb t d)"
proof (cases "harp_cdec_array d")
  case (Pair n d')
  assume r: "list_rel cb ud s t"
  have "sim3 (list_rel cb ud) (loop_ret (child_hash cb) k s d') (loop_ret (child_hash collect_cb) k t d')" for k
    by (rule loop_ret_sim [where R = "list_rel cb ud"]) (rule child_hash_sim r, assumption?)+
  with Pair r show ?thesis by (cases n) (auto simp: child_hashes_def, simp add: sim3_def)
qed

lemma child_cb_sim:
  "list_rel cb ud s t \<Longrightarrow> sim3 (list_rel cb ud) (child_cb cb ip kind k s d) (child_cb collect_cb ip kind k t d)"
  by (auto simp: child_cb_def intro: child_hash_sim child_hashes_sim skip_ret_sim)

lemma sticky_cbD: "sticky_cb cb \<Longrightarrow> cb h u = (False, u') \<Longrightarrow> snd (cb h' u') = u'"
  by (metis fst_conv snd_conv sticky_cb_def)

lemma tree_entry_sim:
  assumes "sticky_cb cb" and "tree_rel cb ud s t"
  shows "sim3 (tree_rel cb ud) (tree_entry (child_tree_entry cb) s d) (tree_entry (child_tree_entry collect_cb) t d)"
  using assms
  by (cases s; cases t)
    (auto simp: tree_entry_def sim3_def tree_rel_def child_tree_entry_def collect_cb_def
      split: prod.split option.split dest: harp_hash_read_ok sticky_cbD)

lemma tree_cb_sim:
  assumes "sticky_cb cb" and "tree_rel cb ud s t"
  shows "sim3 (tree_rel cb ud) (tree_cb (child_tree_entry cb) k s d) (tree_cb (child_tree_entry collect_cb) k t d)"
proof (cases "harp_cdec_map d")
  case (Pair n d')
  have "sim3 (tree_rel cb ud) (loop_ret (tree_entry (child_tree_entry cb)) c s d')
      (loop_ret (tree_entry (child_tree_entry collect_cb)) c t d')" for c
    by (rule loop_ret_sim [where R = "tree_rel cb ud"]) (rule tree_entry_sim [OF assms(1)] assms(2), assumption?)+
  with Pair assms(2) show ?thesis
    by (cases n) (auto simp: tree_cb_def intro: skip_ret_sim, simp add: sim3_def)
qed

text \<open>What \<open>harp_obj_foreach_child\<close> enumerates does not depend on the callback.\<close>

definition obj_children :: "bytes \<Rightarrow> bool \<times> harp_hash list" where
  "obj_children enc = harp_obj_foreach_child enc False collect_cb []"

lemma foreach_child_fold:
  assumes "sticky_cb cb"
  shows "harp_obj_foreach_child enc False cb ud = (fst (obj_children enc), run_cb cb (snd (obj_children enc)) ud)"
    and "\<forall>h \<in> set (snd (obj_children enc)). hash_ok h"
proof -
  have l: "list_rel cb ud (True, ud) (True, [])" and t: "tree_rel cb ud (False, ud) (False, [])"
    by (simp_all add: list_rel_def tree_rel_def)
  note L = obj_fields_sim [where R = "list_rel cb ud" and v = "child_cb cb False (harp_obj_kind enc)" and
      w = "child_cb collect_cb False (harp_obj_kind enc)" and enc = enc, OF child_cb_sim l]
  note T = obj_fields_sim [where R = "tree_rel cb ud" and v = "tree_cb (child_tree_entry cb)" and
      w = "tree_cb (child_tree_entry collect_cb)" and enc = enc, OF tree_cb_sim [OF assms] t]
  have "harp_obj_foreach_child enc False cb ud = (fst (obj_children enc), run_cb cb (snd (obj_children enc)) ud) \<and>
     (\<forall>h \<in> set (snd (obj_children enc)). hash_ok h)"
    using L T
    by (auto simp: obj_children_def harp_obj_foreach_child_def harp_obj_tree_foreach_def Let_def
        list_rel_def tree_rel_def split_beta prod_eq_iff)
  then show "harp_obj_foreach_child enc False cb ud = (fst (obj_children enc), run_cb cb (snd (obj_children enc)) ud)"
    and "\<forall>h \<in> set (snd (obj_children enc)). hash_ok h" by auto
qed

section \<open>The mark phase\<close>

text \<open>The objects that can be read, and the references of one that is well-formed.\<close>

definition obj_there :: "harp_cbuf \<Rightarrow> harp_store \<Rightarrow> harp_hash set" where
  "obj_there b0 s = {h. length h = 33 \<and> fst (harp_store_get s h (harp_cbuf_init b0))}"

definition obj_enc_of :: "harp_cbuf \<Rightarrow> harp_store \<Rightarrow> harp_hash \<Rightarrow> bytes" where
  "obj_enc_of b0 s h = cb_buf (snd (harp_store_get s h (harp_cbuf_init b0)))"

definition obj_refs :: "harp_cbuf \<Rightarrow> harp_store \<Rightarrow> harp_hash \<Rightarrow> harp_hash list option" where
  "obj_refs b0 s h =
     (if h \<in> obj_there b0 s \<and> fst (obj_children (obj_enc_of b0 s h))
      then Some (snd (obj_children (obj_enc_of b0 s h))) else None)"

lemma mark_obj_frozen: "mk_stuck m \<or> mk_aborted m \<Longrightarrow> mark_obj add b0 s (Suc n) h m = m"
  by simp

lemma mark_child_sticky: "sticky_cb (\<lambda>c m. let m = mark_obj add b0 s n c m in (\<not> mk_aborted m, m))"
proof (cases n)
  case 0
  then show ?thesis by (simp add: sticky_cb_def Let_def)
next
  case (Suc k)
  then show ?thesis by (simp add: sticky_cb_def Let_def mark_obj_frozen del: mark_obj.simps)
qed

lemma mark_obj_step:
  assumes "\<not> mk_stuck m" and "\<not> mk_aborted m" and "add (mk_set m) h = Some (True, t)" and "length h = 33"
  shows "mark_obj add b0 s (Suc n) h m =
     (if h \<notin> obj_there b0 s then m\<lparr>mk_set := t, mk_aborted := True\<rparr>
      else let m' = fold (mark_obj add b0 s n) (snd (obj_children (obj_enc_of b0 s h))) (m\<lparr>mk_set := t\<rparr>)
           in if fst (obj_children (obj_enc_of b0 s h)) then m' else m'\<lparr>mk_aborted := True\<rparr>)"
proof (cases "harp_store_get s h (harp_cbuf_init b0)")
  case (Pair ok enc)
  have "fold (\<lambda>h u. snd (let m = mark_obj add b0 s n h u in (\<not> mk_aborted m, m))) = fold (mark_obj add b0 s n)"
    by (simp add: Let_def)
  with Pair assms foreach_child_fold(1) [OF mark_child_sticky [of add b0 s n], of "cb_buf enc" "m\<lparr>mk_set := t\<rparr>"]
  show ?thesis
    by (cases ok) (simp_all add: obj_there_def obj_enc_of_def Let_def split: bool.split)
qed

text \<open>
  Between the marked sets \<open>A\<close> and \<open>B\<close>: everything new has its references marked; everything new is reachable
  from \<open>hs\<close> or from \<open>A\<close>.
\<close>

definition refs_marked :: "('k \<Rightarrow> 'k list option) \<Rightarrow> 'k set \<Rightarrow> 'k set \<Rightarrow> bool" where
  "refs_marked refs A B \<longleftrightarrow> (\<forall>x \<in> B - A. \<exists>ks. refs x = Some ks \<and> set ks \<subseteq> B)"

definition only_reachable :: "('k \<Rightarrow> 'k list option) \<Rightarrow> 'k list \<Rightarrow> 'k set \<Rightarrow> 'k set \<Rightarrow> bool" where
  "only_reachable refs hs A B \<longleftrightarrow>
     (\<forall>P. (\<forall>x ks c. P x \<longrightarrow> refs x = Some ks \<longrightarrow> c \<in> set ks \<longrightarrow> P c) \<longrightarrow> (\<forall>h \<in> set hs. P h) \<longrightarrow>
          (\<forall>x \<in> A. P x) \<longrightarrow> (\<forall>x \<in> B. P x))"

lemma refs_marked_trans:
  assumes "refs_marked refs A B" and "refs_marked refs B C" and "B \<subseteq> C"
  shows "refs_marked refs A C"
  unfolding refs_marked_def
proof
  fix x assume x: "x \<in> C - A"
  show "\<exists>ks. refs x = Some ks \<and> set ks \<subseteq> C"
  proof (cases "x \<in> B")
    case True
    with x have "x \<in> B - A" by simp
    from bspec [OF assms(1) [unfolded refs_marked_def] this] assms(3) show ?thesis by fast
  next
    case False
    with x have "x \<in> C - B" by simp
    from bspec [OF assms(2) [unfolded refs_marked_def] this] show ?thesis .
  qed
qed

lemma only_reachableD:
  assumes "only_reachable refs hs A B" and "\<And>x ks c. P x \<Longrightarrow> refs x = Some ks \<Longrightarrow> c \<in> set ks \<Longrightarrow> P c"
    and "\<And>h. h \<in> set hs \<Longrightarrow> P h" and "\<And>x. x \<in> A \<Longrightarrow> P x" and "x \<in> B"
  shows "P x"
  by (rule assms(1) [unfolded only_reachable_def, rule_format, of P x]) (fact assms(3-5) | erule (2) assms(2))+

lemma only_reachable_trans:
  assumes "only_reachable refs as A B" and "only_reachable refs bs B C"
  shows "only_reachable refs (as @ bs) A C"
  unfolding only_reachable_def
proof (intro allI impI ballI)
  fix P x
  assume c: "\<forall>x ks c. P x \<longrightarrow> refs x = Some ks \<longrightarrow> c \<in> set ks \<longrightarrow> P c" and h: "\<forall>h \<in> set (as @ bs). P h"
    and A: "\<forall>x \<in> A. P x" and x: "x \<in> C"
  have "P y" if "y \<in> B" for y
    by (rule only_reachableD [OF assms(1), where P = P], erule (2) c [rule_format])
      (use h A that in simp_all)
  note B = this
  show "P x"
    by (rule only_reachableD [OF assms(2), where P = P], erule (2) c [rule_format])
      (use h B x in simp_all)
qed

locale hash_mark_set = mark_set add has elems cap inv "\<lambda>h. length h = 33"
  for add :: "'set \<Rightarrow> harp_hash \<Rightarrow> (bool \<times> 'set) option"
    and has :: "'set \<Rightarrow> harp_hash \<Rightarrow> bool option"
    and elems :: "'set \<Rightarrow> harp_hash set"
    and cap :: "'set \<Rightarrow> nat"
    and inv :: "'set \<Rightarrow> bool"
begin

text \<open>Only existing objects are marked until the first missing one aborts the collection.\<close>

definition mk_inv :: "harp_hash set \<Rightarrow> 'set markctx \<Rightarrow> bool" where
  "mk_inv E m \<longleftrightarrow> inv (mk_set m) \<and> finite E \<and> card E < cap (mk_set m) \<and>
     (\<not> mk_aborted m \<longrightarrow> elems (mk_set m) \<subseteq> E)"

text \<open>
  Marking the hashes \<open>hs\<close> takes \<open>m\<close> to \<open>m'\<close>: marks are never lost, it does not get stuck if there is fuel for
  every unmarked object, and if nothing was missing then \<open>hs\<close> is marked, everything newly marked has its
  references marked, and nothing unreachable is marked.
\<close>

definition mark_good where
  "mark_good E refs n hs m m' \<longleftrightarrow> mk_inv E m' \<and> elems (mk_set m) \<subseteq> elems (mk_set m') \<and>
     (mk_aborted m \<longrightarrow> mk_aborted m') \<and> (mk_stuck m \<longrightarrow> mk_stuck m') \<and>
     (\<not> mk_stuck m \<longrightarrow> card (E - elems (mk_set m)) < n \<longrightarrow> \<not> mk_stuck m') \<and>
     (\<not> mk_aborted m' \<longrightarrow> \<not> mk_stuck m' \<longrightarrow>
        set hs \<subseteq> elems (mk_set m') \<and> refs_marked refs (elems (mk_set m)) (elems (mk_set m')) \<and>
        only_reachable refs hs (elems (mk_set m)) (elems (mk_set m')))"

lemma mark_good_refl: "mk_inv E m \<Longrightarrow> mark_good E refs n [] m m"
  by (simp add: mark_good_def refs_marked_def only_reachable_def)

lemma mark_good_trans:
  assumes "mark_good E refs n as m m1" and "mark_good E refs n bs m1 m2"
  shows "mark_good E refs n (as @ bs) m m2"
proof -
  have fin: "finite E" using assms(2) by (simp add: mark_good_def mk_inv_def)
  have sub: "elems (mk_set m) \<subseteq> elems (mk_set m1)" "elems (mk_set m1) \<subseteq> elems (mk_set m2)"
    using assms by (simp_all add: mark_good_def)
  have "card (E - elems (mk_set m1)) \<le> card (E - elems (mk_set m))"
    using fin sub by (intro card_mono) auto
  then have nostuck: "\<not> mk_stuck m \<Longrightarrow> card (E - elems (mk_set m)) < n \<Longrightarrow> \<not> mk_stuck m2"
    using assms by (simp add: mark_good_def)
  have "set (as @ bs) \<subseteq> elems (mk_set m2) \<and> refs_marked refs (elems (mk_set m)) (elems (mk_set m2)) \<and>
      only_reachable refs (as @ bs) (elems (mk_set m)) (elems (mk_set m2))"
    if "\<not> mk_aborted m2" "\<not> mk_stuck m2"
  proof -
    have "\<not> mk_aborted m1" "\<not> mk_stuck m1" using assms(2) that by (auto simp: mark_good_def)
    with assms that sub(2) show ?thesis
      unfolding mark_good_def by (auto intro: refs_marked_trans only_reachable_trans)
  qed
  then show ?thesis using assms sub nostuck unfolding mark_good_def by auto
qed

lemma mark_good_fold:
  assumes "\<And>h m. h \<in> set hs \<Longrightarrow> mk_inv E m \<Longrightarrow> mark_good E refs n [h] m (f h m)" and "mk_inv E m"
  shows "mark_good E refs n hs m (fold f hs m)"
  using assms
proof (induction hs arbitrary: m)
  case (Cons h hs)
  have 1: "mark_good E refs n [h] m (f h m)" using Cons.prems by simp
  then have "mk_inv E (f h m)" by (simp add: mark_good_def)
  with Cons have "mark_good E refs n hs (f h m) (fold f hs (f h m))" by simp
  from mark_good_trans [OF 1 this] show ?case by simp
qed (simp add: mark_good_refl)

lemma mk_inv_frozen: "mk_inv E m \<Longrightarrow> mk_aborted m \<Longrightarrow> mark_good E refs n hs m m"
  by (simp add: mark_good_def)

text \<open>Marking one new object that is there: its mark uses up one unit of fuel, then its children are marked.\<close>

lemma mark_good_new_base:
  assumes good: "mark_good E refs n hs (m\<lparr>mk_set := t\<rparr>) m'" and t: "elems t = insert h (elems (mk_set m))"
    and h: "h \<in> E" "h \<notin> elems (mk_set m)"
  shows "mk_inv E m'" and "insert h (elems (mk_set m)) \<subseteq> elems (mk_set m')"
    and "mk_aborted m \<longrightarrow> mk_aborted m'" and "mk_stuck m \<longrightarrow> mk_stuck m'"
    and "\<not> mk_stuck m \<longrightarrow> card (E - elems (mk_set m)) < Suc n \<longrightarrow> \<not> mk_stuck m'"
proof -
  have g: "mk_inv E m'" "elems t \<subseteq> elems (mk_set m')" "mk_aborted m \<longrightarrow> mk_aborted m'"
    "mk_stuck m \<longrightarrow> mk_stuck m'" "\<not> mk_stuck m \<longrightarrow> card (E - elems t) < n \<longrightarrow> \<not> mk_stuck m'"
    using good by (simp_all add: mark_good_def)
  have fin: "finite E" using g(1) by (simp only: mk_inv_def)
  have "E - elems (mk_set m) = insert h (E - elems t)" unfolding t using h by blast
  moreover have "h \<notin> E - elems t" unfolding t by blast
  ultimately have "card (E - elems (mk_set m)) = Suc (card (E - elems t))"
    using fin by (metis card_insert_disjoint finite_Diff)
  with g(5) show "\<not> mk_stuck m \<longrightarrow> card (E - elems (mk_set m)) < Suc n \<longrightarrow> \<not> mk_stuck m'"
    by (simp only: Suc_less_eq)
  show "mk_inv E m'" "insert h (elems (mk_set m)) \<subseteq> elems (mk_set m')"
    "mk_aborted m \<longrightarrow> mk_aborted m'" "mk_stuck m \<longrightarrow> mk_stuck m'"
    using g(1-4) by (simp_all only: t)
qed

lemma mark_good_new_bad:
  assumes "mark_good E refs n hs (m\<lparr>mk_set := t\<rparr>) m'" and "elems t = insert h (elems (mk_set m))"
    and "h \<in> E" "h \<notin> elems (mk_set m)"
  shows "mark_good E refs (Suc n) [h] m (m'\<lparr>mk_aborted := True\<rparr>)"
  using mark_good_new_base [OF assms] by (simp add: mark_good_def mk_inv_def)

lemma mark_good_new:
  assumes good: "mark_good E refs n hs (m\<lparr>mk_set := t\<rparr>) m'" and t: "elems t = insert h (elems (mk_set m))"
    and h: "h \<in> E" "h \<notin> elems (mk_set m)" and refs: "refs h = Some hs"
  shows "mark_good E refs (Suc n) [h] m m'"
proof -
  note base = mark_good_new_base [OF good t h]
  have "refs_marked refs (elems (mk_set m)) (elems (mk_set m'))"
    "only_reachable refs [h] (elems (mk_set m)) (elems (mk_set m'))"
    if "\<not> mk_aborted m'" "\<not> mk_stuck m'"
  proof -
    have g: "set hs \<subseteq> elems (mk_set m')" "refs_marked refs (elems t) (elems (mk_set m'))"
      "only_reachable refs hs (elems t) (elems (mk_set m'))"
      using good that by (simp_all add: mark_good_def)
    show "refs_marked refs (elems (mk_set m)) (elems (mk_set m'))"
      unfolding refs_marked_def
    proof
      fix x assume x: "x \<in> elems (mk_set m') - elems (mk_set m)"
      show "\<exists>ks. refs x = Some ks \<and> set ks \<subseteq> elems (mk_set m')"
      proof (cases "x = h")
        case False
        with x t have "x \<in> elems (mk_set m') - elems t" by simp
        from bspec [OF g(2) [unfolded refs_marked_def] this] show ?thesis .
      qed (use refs g(1) in simp)
    qed
    show "only_reachable refs [h] (elems (mk_set m)) (elems (mk_set m'))"
      unfolding only_reachable_def
    proof (intro allI impI ballI)
      fix P x
      assume c: "\<forall>x ks c. P x \<longrightarrow> refs x = Some ks \<longrightarrow> c \<in> set ks \<longrightarrow> P c" and ph: "\<forall>h \<in> set [h]. P h"
        and A: "\<forall>x \<in> elems (mk_set m). P x" and x: "x \<in> elems (mk_set m')"
      have hs: "P k" if "k \<in> set hs" for k
        using c [rule_format, OF _ refs that] ph by simp
      have T: "P k" if "k \<in> elems t" for k
        using that ph A unfolding t by (cases "k = h") simp_all
      show "P x"
        by (rule only_reachableD [OF g(3), where P = P], erule (2) c [rule_format]) (use hs T x in simp_all)
    qed
  qed
  with base show ?thesis unfolding mark_good_def by simp
qed

lemma mark_obj_good:
  assumes "mk_inv (obj_there b0 s) m" and "length h = 33"
  shows "mark_good (obj_there b0 s) (obj_refs b0 s) n [h] m (mark_obj add b0 s n h m)"
  using assms
proof (induction n arbitrary: h m)
  case 0
  then show ?case by (simp add: mark_good_def mk_inv_def)
next
  case (Suc n)
  let ?E = "obj_there b0 s" and ?r = "obj_refs b0 s"
  show ?case
  proof (cases "mk_stuck m \<or> mk_aborted m")
    case True
    then show ?thesis using Suc.prems(1) by (auto simp: mark_good_def)
  next
    case False
    then have i: "inv (mk_set m)" "finite ?E" "card ?E < cap (mk_set m)" "elems (mk_set m) \<subseteq> ?E"
      using Suc.prems(1) by (auto simp: mk_inv_def)
    then have "card (elems (mk_set m)) < cap (mk_set m)" using card_mono [of ?E "elems (mk_set m)"] by simp
    from add_spec [OF i(1) Suc.prems(2) this] obtain t where
      t: "add (mk_set m) h = Some (h \<notin> elems (mk_set m), t)" "inv t" "elems t = insert h (elems (mk_set m))"
        "cap t = cap (mk_set m)" by blast
    show ?thesis
    proof (cases "h \<in> elems (mk_set m)")
      case True
      with t False i show ?thesis
        by (simp add: mark_good_def mk_inv_def insert_absorb refs_marked_def only_reachable_def)
    next
      case new: False
      note step = mark_obj_step [of m add h t, OF _ _ _ Suc.prems(2), of b0 s n]
      show ?thesis
      proof (cases "h \<in> ?E")
        case missing: False
        then show ?thesis using step t new False i by (auto simp: mark_good_def mk_inv_def)
      next
        case there: True
        let ?c = "obj_children (obj_enc_of b0 s h)"
        have m1: "mk_inv ?E (m\<lparr>mk_set := t\<rparr>)" using t i there by (auto simp: mk_inv_def)
        have ok: "\<forall>h \<in> set (snd ?c). hash_ok h"
          by (rule foreach_child_fold(2) [OF mark_child_sticky])
        have good: "mark_good ?E ?r n (snd ?c) (m\<lparr>mk_set := t\<rparr>)
            (fold (mark_obj add b0 s n) (snd ?c) (m\<lparr>mk_set := t\<rparr>))"
          by (rule mark_good_fold [OF _ m1]) (use Suc.IH ok in auto)
        show ?thesis
        proof (cases "fst ?c")
          case True
          then have "?r h = Some (snd ?c)" using there by (simp add: obj_refs_def)
          from mark_good_new [OF good t(3) there new this] show ?thesis
            using step t new False there True by simp
        next
          case bad: False
          have "mark_good ?E ?r (Suc n) [h] m
              ((fold (mark_obj add b0 s n) (snd ?c) (m\<lparr>mk_set := t\<rparr>))\<lparr>mk_aborted := True\<rparr>)"
            by (rule mark_good_new_bad [OF good t(3) there new])
          then show ?thesis using step t new False there bad by (simp add: Let_def)
        qed
      qed
    qed
  qed
qed

end

interpretation hsm: hash_mark_set hs_add hs_has hs_elems hs_cap hs_inv
  by unfold_locales

section \<open>The roots\<close>

text \<open>The refs that the walk reports, as a list.\<close>

function list_refs :: "harp_store \<Rightarrow> bytes \<Rightarrow> bytes list \<Rightarrow> harp_ref list" where
  "list_refs s rel [] = []"
| "list_refs s rel (dname # ds) =
     (case walk_entry s rel dname of
        None \<Rightarrow> []
      | Some (crel, d) \<Rightarrow>
          if d then
            (if dname = [] then []
             else case opendir_refs s crel of None \<Rightarrow> [] | Some names \<Rightarrow> list_refs s crel names)
          else (case harp_store_ref_read s crel of None \<Rightarrow> [] | Some r \<Rightarrow> [r])) @
     list_refs s rel ds"
  by pat_completeness auto
termination
  by (relation "measures [\<lambda>(s, rel, ds). 160 - length rel, \<lambda>(s, rel, ds). length ds]")
    (auto dest: walk_entry_longer)

definition store_refs :: "harp_store \<Rightarrow> harp_ref list" where
  "store_refs s = (case opendir_refs s [] of None \<Rightarrow> [] | Some names \<Rightarrow> list_refs s [] names)"

lemma walk_refs_fold: "walk_refs s cb rel ds ud = fold cb (list_refs s rel ds) ud"
  by (induction s cb rel ds ud rule: walk_refs.induct) (auto split: option.split)

lemma ref_list_fold: "snd (harp_store_ref_list s cb ud) = fold cb (store_refs s) ud"
  by (simp add: harp_store_ref_list_def store_refs_def walk_refs_fold split: option.split)

lemma loop_dec_inv:
  assumes "\<And>s d s' d'. P s \<Longrightarrow> f s d = (Some s', d') \<Longrightarrow> P s'" and "P s" and "loop_dec f n s d = (Some s', d')"
  shows "P s'"
  using assms(2,3)
proof (induction n arbitrary: s d)
  case (Suc n)
  then obtain s1 d1 where "f s d = (Some s1, d1)" and "loop_dec f n s1 d1 = (Some s', d')"
    by (auto split: prod.splits option.splits)
  with Suc.IH [of s1 d1] Suc.prems(1) assms(1) show ?case by blast
qed simp

lemma ref_decode_hash: "harp_ref_decode d = (Some r, d') \<Longrightarrow> rf_unborn r \<or> hash_ok (rf_hash r)"
proof -
  let ?P = "\<lambda>st :: harp_ref \<times> bool. rf_unborn (fst st) \<or> hash_ok (rf_hash (fst st))"
  assume "harp_ref_decode d = (Some r, d')"
  then have "\<exists>n d1 hn d2. loop_dec ref_field n (ref_zero, False) d1 = (Some (r, hn), d2)"
    by (auto simp: harp_ref_decode_def split: prod.splits option.splits if_splits)
  then obtain n d1 hn d2 where l: "loop_dec ref_field n (ref_zero, False) d1 = (Some (r, hn), d2)"
    by blast
  have "?P (r, hn)"
  proof (rule loop_dec_inv [where P = ?P, OF _ _ l])
    fix s d s' d'
    assume "?P s" and "ref_field s d = (Some s', d')"
    then show "?P s'"
      by (auto simp: ref_field_def split: prod.splits option.splits if_splits dest: harp_hash_read_ok)
  qed (simp add: ref_zero_def)
  then show ?thesis by simp
qed

lemma ref_read_hash: "harp_store_ref_read s n = Some r \<Longrightarrow> rf_unborn r \<or> hash_ok (rf_hash r)"
  by (auto simp: harp_store_ref_read_def ref_zero_def fst_conv split: option.splits
      dest!: ref_decode_hash [OF prod_eqI [of _ "(Some r, _)"], simplified])

lemma store_refs_hash: "r \<in> set (store_refs s) \<Longrightarrow> \<not> rf_unborn r \<Longrightarrow> hash_ok (rf_hash r)"
proof -
  have "r \<in> set (list_refs s rel ds) \<Longrightarrow> rf_unborn r \<or> hash_ok (rf_hash r)" for rel ds
  proof (induction s rel ds rule: list_refs.induct)
    case (2 s rel dname ds)
    show ?case
    proof (cases "r \<in> set (list_refs s rel ds)")
      case False
      with 2(3) obtain crel d where w: "walk_entry s rel dname = Some (crel, d)"
        by (cases "walk_entry s rel dname") auto
      show ?thesis
      proof (cases d)
        case True
        with False 2(3) w obtain names where "dname \<noteq> []" "opendir_refs s crel = Some names"
          "r \<in> set (list_refs s crel names)"
          by (cases "opendir_refs s crel") (auto split: if_splits)
        with 2(1) [OF w refl True] show ?thesis by blast
      next
        case leaf: False
        with False 2(3) w show ?thesis
          by (cases "harp_store_ref_read s crel") (auto dest: ref_read_hash)
      qed
    qed (rule 2(2))
  qed simp
  then show "r \<in> set (store_refs s) \<Longrightarrow> \<not> rf_unborn r \<Longrightarrow> hash_ok (rf_hash r)"
    by (auto simp: store_refs_def split: option.splits)
qed

section \<open>The objects on disk\<close>

definition obj_name :: "bytes \<Rightarrow> harp_hash option" where
  "obj_name name = (if take 1 name = [46] \<or> strstr name (str ''.tmp.'') then None else harp_hash_from_hex name)"

fun run_until :: "('a \<Rightarrow> 'u \<Rightarrow> bool \<times> 'u) \<Rightarrow> 'a list \<Rightarrow> 'u \<Rightarrow> 'u" where
  "run_until cb [] u = u"
| "run_until cb (h # hs) u = (case cb h u of (go, u) \<Rightarrow> if go then run_until cb hs u else u)"

lemma obj_walk_run: "obj_walk cb names u = run_until cb (List.map_filter obj_name names) u"
  by (induction names arbitrary: u) (auto simp: obj_name_def map_filter_simps split: option.splits prod.split)

lemma in_map_filter: "h \<in> set (List.map_filter f xs) \<longleftrightarrow> (\<exists>x \<in> set xs. f x = Some h)"
  by (force simp: List.map_filter_def)

definition obj_list :: "harp_store \<Rightarrow> harp_hash list" where
  "obj_list s = List.map_filter obj_name (children (sto_fs s) (objects_dir s))"

definition objects_open :: "harp_store \<Rightarrow> bool" where
  "objects_open s \<longleftrightarrow> \<not> flt_opendir (sto_flt s) (objects_dir s) \<and> is_dir (sto_fs s) (objects_dir s)"

lemma obj_foreach_run:
  "objects_open s \<Longrightarrow> harp_store_obj_foreach s cb u = (True, run_until cb (obj_list s) u)"
  by (simp add: harp_store_obj_foreach_def objects_open_def obj_list_def obj_walk_run)

lemma obj_count_list: "objects_open s \<Longrightarrow> harp_store_obj_count s = length (obj_list s)"
proof -
  have "run_until count_cb hs n = n + length hs" for hs n
    by (induction hs arbitrary: n) (auto simp: count_cb_def)
  then show "objects_open s \<Longrightarrow> ?thesis" by (simp add: harp_store_obj_count_def obj_foreach_run)
qed

lemma strstr_set: "strstr a q \<Longrightarrow> set q \<subseteq> set a"
  by (induction a) (auto dest!: set_mono_prefix)

lemma obj_name_hex: "length h = 33 \<Longrightarrow> obj_name (harp_hash_hex h) = Some h"
proof -
  assume h: "length h = 33"
  have "\<not> strstr (harp_hash_hex h) (str ''.tmp.'')"
    using strstr_set [of "harp_hash_hex h" "str ''.tmp.''"] harp_hash_hex_plain(2) [of h] by (auto simp: str_def)
  moreover have "take 1 (harp_hash_hex h) \<noteq> [46]"
    using harp_hash_hex_plain(2) [of h] by (cases "harp_hash_hex h") auto
  ultimately show ?thesis using hex_bytes_hash [OF h] by (simp add: obj_name_def harp_hash_from_hex_def)
qed

lemma objects_dir_eq: "dir_ok s \<Longrightarrow> obj_path s h = objects_dir s @ slash # harp_hash_hex h"
  by (simp add: obj_path_eq objects_dir_def snprintf_def dir_ok_def) (simp add: str_def)

lemma obj_list_files:
  assumes "dir_ok s" and "length h = 33" and "map_of (sto_fs s) (obj_path s h) \<noteq> None"
  shows "h \<in> set (obj_list s)"
proof -
  obtain x where "(obj_path s h, x) \<in> set (sto_fs s)" using assms(3) by (auto dest: map_of_SomeD)
  then have "harp_hash_hex h \<in> set (children (sto_fs s) (objects_dir s))"
    unfolding objects_dir_eq [OF assms(1)]
  proof (rule child_in_children)
    show "harp_hash_hex h \<noteq> []" using length_harp_hash_hex [of h] by (metis list.size(3) zero_neq_numeral)
  qed (rule harp_hash_hex_plain(1))
  with obj_name_hex [OF assms(2)] show ?thesis
    unfolding obj_list_def by (force simp: in_map_filter)
qed

lemma hex_bytes_length: "hex_bytes s = Some bs \<Longrightarrow> length bs = length s div 2"
  by (induction s arbitrary: bs rule: hex_bytes.induct) (auto split: option.splits)

lemma obj_list_len: "h \<in> set (obj_list s) \<Longrightarrow> length h = 33"
  by (auto simp: obj_list_def in_map_filter obj_name_def harp_hash_from_hex_def
      dest!: hex_bytes_length split: if_splits)

lemma obj_there_list:
  assumes "dir_ok s"
  shows "obj_there b0 s \<subseteq> set (obj_list s)"
proof
  fix h assume "h \<in> obj_there b0 s"
  then have "length h = 33" "map_of (sto_fs s) (obj_path s h) \<noteq> None"
    by (auto simp: obj_there_def harp_store_get_def fopen_rb_def Let_def split: option.splits)
  with assms show "h \<in> set (obj_list s)" by (rule obj_list_files)
qed

lemma gc_cap_enough: "(n + 1) * 2 \<le> gc_cap n"
  unfolding gc_cap_def by (rule grow_enough) simp

lemma obj_there_card:
  assumes "dir_ok s" and "objects_open s"
  shows "finite (obj_there b0 s)" and "card (obj_there b0 s) \<le> harp_store_obj_count s"
proof -
  show "finite (obj_there b0 s)" by (rule finite_subset [OF obj_there_list [OF assms(1)]]) simp
  have "card (obj_there b0 s) \<le> card (set (obj_list s))"
    by (rule card_mono [OF _ obj_there_list [OF assms(1)]]) simp
  also have "\<dots> \<le> harp_store_obj_count s" using card_length [of "obj_list s"] by (simp add: obj_count_list assms(2))
  finally show "card (obj_there b0 s) \<le> harp_store_obj_count s" .
qed

section \<open>The sweep phase\<close>

text \<open>The store during the sweep: only unmarked object files may have disappeared.\<close>

definition swept :: "harp_hash set \<Rightarrow> harp_store \<Rightarrow> harp_store \<Rightarrow> bool" where
  "swept M s s' \<longleftrightarrow> s' = s\<lparr>sto_fs := sto_fs s'\<rparr> \<and>
     (\<forall>q. map_of (sto_fs s') q = map_of (sto_fs s) q \<or>
        (map_of (sto_fs s') q = None \<and> (\<exists>h. length h = 33 \<and> h \<notin> M \<and> q = obj_path s h)))"

lemma swept_delete:
  assumes "swept M s s1" and "length h = 33" and "h \<notin> M"
  shows "swept M s (snd (harp_store_obj_delete s1 h))"
proof -
  have p: "obj_path s1 h = obj_path s h" using assms(1) same_dir(1) by (metis swept_def)
  obtain ok fs where f: "fs_remove (sto_flt s1) (obj_path s h) (sto_fs s1) = (ok, fs)"
    by (cases "fs_remove (sto_flt s1) (obj_path s h) (sto_fs s1)")
  have s2: "snd (harp_store_obj_delete s1 h) = s1\<lparr>sto_fs := fs\<rparr>"
    by (simp add: harp_store_obj_delete_def Let_def p f)
  have q: "map_of fs q = map_of (sto_fs s1) q \<or> (map_of fs q = None \<and> q = obj_path s h)" for q
    using f by (auto simp: fs_remove_def split: if_splits option.splits fnode.splits)
  have s1: "s1 = s\<lparr>sto_fs := sto_fs s1\<rparr>" using assms(1) by (simp add: swept_def)
  have "s1\<lparr>sto_fs := fs\<rparr> = s\<lparr>sto_fs := fs\<rparr>" by (subst s1) simp
  then show ?thesis unfolding s2 using q assms by (simp add: swept_def) metis
qed

lemma delete_gone:
  assumes "flt_remove (sto_flt s) = (\<lambda>p. False)"
  shows "map_of (sto_fs (snd (harp_store_obj_delete s h))) (obj_path s h) \<noteq> Some (File d)"
  using assms by (auto simp: harp_store_obj_delete_def Let_def fs_remove_def split: option.splits fnode.splits)

context hash_mark_set
begin

lemma sweep_step:
  assumes "inv t" and "card (elems t) < cap t" and "length h = 33" and "swept (elems t) s (sw_store w)" and "\<not> sw_stuck w"
  shows "swept (elems t) s (sw_store (snd (sweep_cb has t mx h w))) \<and> \<not> sw_stuck (snd (sweep_cb has t mx h w)) \<and>
    (mx \<noteq> 0 \<longrightarrow> sw_deleted w \<le> mx \<longrightarrow> sw_deleted (snd (sweep_cb has t mx h w)) \<le> mx)"
proof (cases "h \<in> elems t")
  case True
  with has_spec [OF assms(1,3,2)] assms show ?thesis by (simp add: sweep_cb_def)
next
  case False
  with has_spec [OF assms(1,3,2)] swept_delete [OF assms(4,3) False] assms(4,5) show ?thesis
    by (simp add: sweep_cb_def Let_def split_beta)
qed

lemma sweep_run:
  assumes "inv t" and "card (elems t) < cap t" and "\<And>h. h \<in> set hs \<Longrightarrow> length h = 33"
    and "swept (elems t) s (sw_store w)" and "\<not> sw_stuck w" and "mx \<noteq> 0 \<longrightarrow> sw_deleted w \<le> mx"
  shows "swept (elems t) s (sw_store (run_until (sweep_cb has t mx) hs w)) \<and>
    \<not> sw_stuck (run_until (sweep_cb has t mx) hs w) \<and>
    (mx \<noteq> 0 \<longrightarrow> sw_deleted (run_until (sweep_cb has t mx) hs w) \<le> mx)"
  using assms(3-)
proof (induction hs arbitrary: w)
  case (Cons h hs)
  let ?r = "sweep_cb has t mx h w"
  have step: "swept (elems t) s (sw_store (snd ?r))" "\<not> sw_stuck (snd ?r)" "mx \<noteq> 0 \<longrightarrow> sw_deleted (snd ?r) \<le> mx"
    using sweep_step [OF assms(1,2) _ Cons.prems(2,3), of h mx] Cons.prems(1,4) by auto
  with Cons.IH [of "snd ?r"] Cons.prems(1) show ?case by (auto simp: split_beta)
qed simp

text \<open>An unbounded sweep of a store that can delete goes through the whole list.\<close>

lemma sweep_all:
  assumes "inv t" and "card (elems t) < cap t" and "\<And>h. h \<in> set hs \<Longrightarrow> length h = 33"
    and "swept (elems t) s (sw_store w)" and "\<not> sw_stuck w"
    and "flt_remove (sto_flt s) = (\<lambda>p. False)" and "\<not> sto_skip_sweep s" and "h \<in> set hs" and "h \<notin> elems t"
  shows "map_of (sto_fs (sw_store (run_until (sweep_cb has t 0) hs w))) (obj_path s h) \<noteq> Some (File d)"
  using assms(3-5,8)
proof (induction hs arbitrary: w)
  case (Cons a hs)
  let ?r = "sweep_cb has t 0 a w" and ?w = "\<lambda>w. run_until (sweep_cb has t 0) hs w"
  have a: "length a = 33" using Cons.prems(1) by simp
  note st = sweep_step [OF assms(1,2) a Cons.prems(2,3), of 0]
  have w: "sw_store w = s\<lparr>sto_fs := sto_fs (sw_store w)\<rparr>" using Cons.prems(2) by (simp add: swept_def)
  have go: "fst ?r"
    using has_spec [OF assms(1) a assms(2)] assms(7) arg_cong [OF w, of sto_skip_sweep]
    by (cases "a \<in> elems t")
      (auto simp: sweep_cb_def Let_def harp_store_obj_delete_def split_beta)
  have run: "run_until (sweep_cb has t 0) (a # hs) w = ?w (snd ?r)" using go by (simp add: split_beta)
  show ?case
  proof (cases "h \<in> set hs")
    case True
    then show ?thesis unfolding run using Cons.IH [of "snd ?r"] Cons.prems(1) st by auto
  next
    case False
    then have "a = h" using Cons.prems(4) by simp
    have flt: "flt_remove (sto_flt (sw_store w)) = (\<lambda>p. False)" using arg_cong [OF w, of sto_flt] assms(6) by simp
    have p: "obj_path (sw_store w) h = obj_path s h" using w same_dir(1) by metis
    have "sw_store (snd ?r) = snd (harp_store_obj_delete (sw_store w) h)"
      using has_spec [OF assms(1) a assms(2)] assms(9) \<open>a = h\<close> by (simp add: sweep_cb_def Let_def split_beta)
    then have gone: "map_of (sto_fs (sw_store (snd ?r))) (obj_path s h) \<noteq> Some (File d)"
      using delete_gone [OF flt, of h d] p by simp
    have "swept (elems t) (sw_store (snd ?r)) (sw_store (?w (snd ?r)))"
      using sweep_run [OF assms(1,2), of hs "sw_store (snd ?r)" "snd ?r" 0] Cons.prems(1) st
      by (auto simp: swept_def)
    then have "map_of (sto_fs (sw_store (?w (snd ?r)))) (obj_path s h) \<in>
        {None, map_of (sto_fs (sw_store (snd ?r))) (obj_path s h)}"
      unfolding swept_def by blast
    with gone show ?thesis unfolding run by (metis empty_iff insert_iff option.distinct(1))
  qed
qed simp

end

section \<open>Correctness of the collector\<close>

text \<open>The live objects: what a listed ref names, and what live well-formed objects refer to.\<close>

inductive gc_live :: "harp_cbuf \<Rightarrow> harp_store \<Rightarrow> harp_hash \<Rightarrow> bool" for b0 s where
  root: "r \<in> set (store_refs s) \<Longrightarrow> \<not> rf_unborn r \<Longrightarrow> gc_live b0 s (rf_hash r)"
| child: "gc_live b0 s h \<Longrightarrow> obj_refs b0 s h = Some ks \<Longrightarrow> c \<in> set ks \<Longrightarrow> gc_live b0 s c"

lemma gc_live_len: "gc_live b0 s h \<Longrightarrow> length h = 33"
proof (induction rule: gc_live.induct)
  case (root r)
  then show ?case using store_refs_hash by simp
next
  case (child h ks c)
  then have "ks = snd (obj_children (obj_enc_of b0 s h))" by (simp add: obj_refs_def split: if_splits)
  with child show ?case using foreach_child_fold(2) [of collect_cb] by (auto simp: sticky_cb_def collect_cb_def)
qed

lemma no_refs_no_live:
  assumes "store_refs s = []"
  shows "\<not> gc_live b0 s h"
proof
  assume "gc_live b0 s h"
  then show False by (induction rule: gc_live.induct) (simp_all add: assms)
qed

definition gc_roots :: "harp_store \<Rightarrow> harp_hash list" where
  "gc_roots s = map rf_hash (filter (\<lambda>r. \<not> rf_unborn r) (store_refs s))"

definition gc_marked :: "harp_cbuf \<Rightarrow> harp_store \<Rightarrow> hashset markctx" where
  "gc_marked b0 s = fold (mark_obj hs_add b0 s (harp_store_obj_count s + 2)) (gc_roots s)
     \<lparr>mk_set = hs_empty (gc_cap (harp_store_obj_count s)), mk_aborted = False, mk_stuck = False\<rparr>"

lemma gc_marked_eq:
  "snd (harp_store_ref_list s (mark_ref_cb hs_add b0 s (harp_store_obj_count s + 2))
     \<lparr>mk_set = hs_empty (gc_cap (harp_store_obj_count s)), mk_aborted = False, mk_stuck = False\<rparr>) = gc_marked b0 s"
proof -
  have "fold (mark_ref_cb hs_add b0 s n) rs m = fold (mark_obj hs_add b0 s n) (map rf_hash (filter (\<lambda>r. \<not> rf_unborn r) rs)) m"
    for n rs m by (induction rs arbitrary: m) (auto simp: mark_ref_cb_def)
  then show ?thesis by (simp add: ref_list_fold gc_marked_def gc_roots_def)
qed

text \<open>The collector is run on an opened store, with an object count that fits the machine.\<close>

definition gc_ready :: "harp_store \<Rightarrow> bool" where
  "gc_ready s \<longleftrightarrow> dir_ok s \<and> objects_open s \<and> gc_cap (harp_store_obj_count s) < 2 ^ 64"

lemma gc_mark_good:
  assumes "gc_ready s"
  shows "hsm.mark_good (obj_there b0 s) (obj_refs b0 s) (harp_store_obj_count s + 2) (gc_roots s)
    \<lparr>mk_set = hs_empty (gc_cap (harp_store_obj_count s)), mk_aborted = False, mk_stuck = False\<rparr> (gc_marked b0 s)"
  unfolding gc_marked_def
proof (rule hsm.mark_good_fold)
  let ?n = "harp_store_obj_count s"
  note card = obj_there_card [of s b0]
  show "hsm.mk_inv (obj_there b0 s) \<lparr>mk_set = hs_empty (gc_cap ?n), mk_aborted = False, mk_stuck = False\<rparr>"
  proof -
    have "hs_cap (hs_empty (gc_cap ?n)) = gc_cap ?n" by (simp add: hs_empty_def)
    then show ?thesis
      using assms card gc_cap_enough [of ?n] hs_empty_inv(1) [of ?n] hs_empty_inv(2) [of "gc_cap ?n"]
      by (simp add: hsm.mk_inv_def gc_ready_def)
  qed
  fix h m
  assume "h \<in> set (gc_roots s)" and "hsm.mk_inv (obj_there b0 s) m"
  moreover have "length h = 33" using calculation(1) store_refs_hash by (auto simp: gc_roots_def)
  ultimately show "hsm.mark_good (obj_there b0 s) (obj_refs b0 s) (?n + 2) [h] m (mark_obj hs_add b0 s (?n + 2) h m)"
    by (intro hsm.mark_obj_good)
qed

lemma gc_mark_result:
  assumes "gc_ready s"
  shows "\<not> mk_stuck (gc_marked b0 s)" and "hs_inv (mk_set (gc_marked b0 s))"
    and "\<not> mk_aborted (gc_marked b0 s) \<Longrightarrow> card (hs_elems (mk_set (gc_marked b0 s))) < hs_cap (mk_set (gc_marked b0 s))"
    and "\<not> mk_aborted (gc_marked b0 s) \<Longrightarrow> h \<in> hs_elems (mk_set (gc_marked b0 s)) \<longleftrightarrow> gc_live b0 s h"
    and "\<not> mk_aborted (gc_marked b0 s) \<Longrightarrow> gc_live b0 s h \<Longrightarrow> obj_refs b0 s h \<noteq> None"
proof -
  let ?m = "gc_marked b0 s" and ?E = "obj_there b0 s" and ?n = "harp_store_obj_count s"
  let ?M = "hs_elems (mk_set ?m)"
  note g = gc_mark_good [OF assms, of b0]
  have e: "hs_elems (hs_empty (gc_cap ?n)) = {}" by (rule hs_empty_inv(2))
  have c: "card ?E \<le> ?n" "finite ?E" using obj_there_card [of s b0] assms by (auto simp: gc_ready_def)
  show stuck: "\<not> mk_stuck ?m" using g e c by (simp add: hsm.mark_good_def)
  show "hs_inv (mk_set ?m)" using g by (simp add: hsm.mark_good_def hsm.mk_inv_def)
  assume ok: "\<not> mk_aborted ?m"
  have i: "card ?E < hs_cap (mk_set ?m)" "?M \<subseteq> ?E" using g ok by (simp_all add: hsm.mark_good_def hsm.mk_inv_def)
  show "card ?M < hs_cap (mk_set ?m)" using card_mono [OF c(2) i(2)] i(1) by simp
  have r: "set (gc_roots s) \<subseteq> ?M" "refs_marked (obj_refs b0 s) {} ?M" "only_reachable (obj_refs b0 s) (gc_roots s) {} ?M"
    using g ok stuck e by (simp_all add: hsm.mark_good_def)
  have closed: "\<exists>ks. obj_refs b0 s x = Some ks \<and> set ks \<subseteq> ?M" if "x \<in> ?M" for x
    using r(2) that by (simp add: refs_marked_def)
  have sound: "x \<in> ?M" if "gc_live b0 s x" for x
    using that
  proof (induction rule: gc_live.induct)
    case (root r)
    then show ?case using r(1) by (auto simp: gc_roots_def)
  next
    case (child h ks c)
    then show ?case using closed [of h] by auto
  qed
  have complete: "gc_live b0 s x" if "x \<in> ?M" for x
    by (rule only_reachableD [OF r(3), where P = "gc_live b0 s"], erule (2) gc_live.child)
      (use that in \<open>auto simp: gc_roots_def intro: gc_live.root\<close>)
  show "h \<in> ?M \<longleftrightarrow> gc_live b0 s h" using sound complete by blast
  show "gc_live b0 s h \<Longrightarrow> obj_refs b0 s h \<noteq> None" using sound closed by fastforce
qed

lemma gc_cases:
  assumes "gc_ready s" and "\<not> flt_calloc (sto_flt s)"
  shows "harp_store_gc b0 s mx =
    (if mk_aborted (gc_marked b0 s) then Some (False, 0, s)
     else let w = run_until (sweep_cb hs_has (mk_set (gc_marked b0 s)) mx) (obj_list s)
                    \<lparr>sw_store = s, sw_deleted = 0, sw_done = False, sw_stuck = False\<rparr>
          in Some (True, sw_deleted w, sw_store w))"
proof (cases "mk_aborted (gc_marked b0 s)")
  case True
  with assms(2) gc_mark_result(1) [OF assms(1), of b0] show ?thesis
    unfolding harp_store_gc_def Let_def gc_marked_eq by simp
next
  case False
  let ?w = "\<lparr>sw_store = s, sw_deleted = 0, sw_done = False, sw_stuck = False\<rparr>"
  note r = gc_mark_result [OF assms(1), of b0]
  have "swept X s (sw_store ?w)" for X by (simp add: swept_def)
  then have "\<not> sw_stuck (run_until (sweep_cb hs_has (mk_set (gc_marked b0 s)) mx) (obj_list s) ?w)"
    using hsm.sweep_run [OF r(2) r(3) [OF False] obj_list_len, where s = s and w = ?w and mx = mx] by simp
  with False assms r(1) show ?thesis
    unfolding harp_store_gc_def Let_def gc_marked_eq by (simp add: obj_foreach_run gc_ready_def)
qed

lemma gc_swept:
  assumes "gc_ready s" and "harp_store_gc b0 s mx = Some (ok, n, s')"
  shows "swept {h. gc_live b0 s h} s s'" and "\<not> ok \<Longrightarrow> s' = s \<and> n = 0"
    and "ok \<Longrightarrow> \<not> mk_aborted (gc_marked b0 s)" and "mx \<noteq> 0 \<Longrightarrow> n \<le> mx"
proof -
  let ?w = "\<lparr>sw_store = s, sw_deleted = 0, sw_done = False, sw_stuck = False\<rparr>"
  have refl: "swept X s s" for X by (simp add: swept_def)
  have "swept {h. gc_live b0 s h} s s' \<and> (\<not> ok \<longrightarrow> s' = s \<and> n = 0) \<and> (ok \<longrightarrow> \<not> mk_aborted (gc_marked b0 s)) \<and>
      (mx \<noteq> 0 \<longrightarrow> n \<le> mx)"
  proof (cases "flt_calloc (sto_flt s) \<or> mk_aborted (gc_marked b0 s)")
    case True
    with assms gc_cases [OF assms(1), of b0 mx] refl show ?thesis
      by (cases "flt_calloc (sto_flt s)") (auto simp: harp_store_gc_def)
  next
    case False
    then have na: "\<not> mk_aborted (gc_marked b0 s)" by simp
    note r = gc_mark_result [OF assms(1), of b0]
    have "hs_elems (mk_set (gc_marked b0 s)) = {h. gc_live b0 s h}" using r(4) [OF na] by auto
    with hsm.sweep_run [OF r(2) r(3) [OF na] obj_list_len, where s = s and w = ?w and mx = mx] refl
      gc_cases [OF assms(1), of b0 mx] assms(2) False na
    show ?thesis by (auto simp: Let_def)
  qed
  then show "swept {h. gc_live b0 s h} s s'" and "\<not> ok \<Longrightarrow> s' = s \<and> n = 0"
    and "ok \<Longrightarrow> \<not> mk_aborted (gc_marked b0 s)" and "mx \<noteq> 0 \<Longrightarrow> n \<le> mx" by auto
qed

text \<open>
  The mark set behaves as a set.  While the open-addressed table holds fewer keys than slots, adding a hash
  ends, reports whether the hash is new and yields the table of the enlarged set; lookup ends and is exact; and
  the probe invariant is kept.
\<close>

theorem mark_table_refines_set:
  assumes "hs_inv t" and "length h = 33" and "card (hs_elems t) < hs_cap t"
  shows "(\<exists>t'. hs_add t h = Some (h \<notin> hs_elems t, t') \<and> hs_inv t' \<and> hs_elems t' = insert h (hs_elems t) \<and>
            hs_cap t' = hs_cap t) \<and>
    hs_has t h = Some (h \<in> hs_elems t)"
  using hs.add_spec [OF assms] hs.has_spec [OF assms] by blast

lemma mark_table_refines_set_witness:
  "hs_has (hs_empty (gc_cap 0)) (replicate 33 7) = Some (replicate 33 7 \<in> hs_elems (hs_empty (gc_cap 0)))"
proof -
  have c: "gc_cap 0 = 16" by (simp add: gc_cap_def grow.simps)
  have "hs_inv (hs_empty (gc_cap 0))" by (rule hs_empty_inv(1)) (simp add: c)
  moreover have "card (hs_elems (hs_empty (gc_cap 0))) < hs_cap (hs_empty (gc_cap 0))"
    by (simp add: hs_empty_inv(2)) (simp add: hs_empty_def c)
  ultimately show ?thesis using mark_table_refines_set [of "hs_empty (gc_cap 0)" "replicate 33 7"] by simp
qed


text \<open>An empty store with one object file that no ref names, and an allocator.\<close>

definition ex_garbage :: harp_store where
  "ex_garbage = ex_store\<lparr>sto_fs := (obj_path ex_store (1 # replicate 32 2), File [0]) # sto_fs ex_store\<rparr>"

definition ex_buf :: harp_cbuf where
  "ex_buf = \<lparr>cb_buf = [], cb_cap = 0, cb_oom = False, cb_avail = 0\<rparr>"

lemma ex_garbage_gc: "gc_ready ex_garbage" "harp_store_gc ex_buf ex_garbage 0 = Some (True, 1, ex_store)"
proof -
  have count: "harp_store_obj_count ex_garbage = 1" by code_simp
  have cap: "gc_cap (Suc 0) = 16" by (simp add: gc_cap_def grow.simps)
  have "objects_open ex_garbage" by code_simp
  then show r: "gc_ready ex_garbage"
    by (simp add: gc_ready_def count cap dir_ok_def) (simp add: ex_garbage_def ex_store_def)
  have "store_refs ex_garbage = []" by code_simp
  then have m: "gc_marked ex_buf ex_garbage = \<lparr>mk_set = hs_empty 16, mk_aborted = False, mk_stuck = False\<rparr>"
    by (simp add: gc_marked_def gc_roots_def count cap)
  have c: "\<not> flt_calloc (sto_flt ex_garbage)" by code_simp
  have l: "obj_list ex_garbage = [1 # replicate 32 2]" by code_simp
  have h: "hs_has (hs_empty 16) (1 # replicate 32 2) = Some False" by code_simp
  have "fs_remove (sto_flt ex_garbage) (obj_path ex_garbage (1 # replicate 32 2)) (sto_fs ex_garbage) =
      (True, sto_fs ex_store)" by code_simp
  then have d: "harp_store_obj_delete ex_garbage (1 # replicate 32 2) = (True, ex_store)"
    by (simp add: harp_store_obj_delete_def Let_def ex_garbage_def)
  show "harp_store_gc ex_buf ex_garbage 0 = Some (True, 1, ex_store)"
    using gc_cases [OF r c, of ex_buf 0] by (simp add: m l h d sweep_cb_def Let_def)
qed


text \<open>
  C29: Garbage collection reclaims everything that is dead.  An unbounded run that reports success, on a store whose
  files can be unlinked, leaves no object file that the listed refs do not reach.
\<close>

theorem gc_complete:
  assumes "gc_ready s" and "harp_store_gc b0 s 0 = Some (True, n, s')"
    and "flt_remove (sto_flt s) = (\<lambda>p. False)" and "\<not> sto_skip_sweep s"
  shows "\<forall>h d. length h = 33 \<longrightarrow> map_of (sto_fs s') (obj_path s h) = Some (File d) \<longrightarrow> gc_live b0 s h"
proof (intro allI impI, rule ccontr)
  fix h d
  assume len: "length h = 33" and file': "map_of (sto_fs s') (obj_path s h) = Some (File d)"
    and dead: "\<not> gc_live b0 s h"
  let ?w = "\<lparr>sw_store = s, sw_deleted = 0, sw_done = False, sw_stuck = False\<rparr>"
  note sw = gc_swept [OF assms(1,2)]
  have na: "\<not> mk_aborted (gc_marked b0 s)" using sw(3) by simp
  note r = gc_mark_result [OF assms(1), of b0]
  have nc: "\<not> flt_calloc (sto_flt s)" using assms(2) by (auto simp: harp_store_gc_def)
  have "map_of (sto_fs s) (obj_path s h) \<noteq> None"
    using sw(1) file' unfolding swept_def by (metis option.distinct(1))
  then have h: "h \<in> set (obj_list s)" using assms(1) len by (intro obj_list_files) (auto simp: gc_ready_def)
  have u: "h \<notin> hs_elems (mk_set (gc_marked b0 s))" using r(4) [OF na] dead by simp
  have w: "swept (hs_elems (mk_set (gc_marked b0 s))) s (sw_store ?w)" "\<not> sw_stuck ?w" by (simp_all add: swept_def)
  have "s' = sw_store (run_until (sweep_cb hs_has (mk_set (gc_marked b0 s)) 0) (obj_list s) ?w)"
    using gc_cases [OF assms(1) nc, of b0 0] assms(2) na by (simp add: Let_def)
  with hsm.sweep_all [OF r(2) r(3) [OF na] obj_list_len _ _ assms(3,4) h u, where w = ?w and d = d, OF _ w] file'
  show False by simp
qed

lemma gc_complete_witness:
  "map_of (sto_fs ex_garbage) (obj_path ex_garbage (1 # replicate 32 2)) = Some (File [0]) \<and>
   map_of (sto_fs ex_store) (obj_path ex_garbage (1 # replicate 32 2)) \<noteq> Some (File [0])"
proof
  have "store_refs ex_garbage = []" by code_simp
  note dead = no_refs_no_live [OF this]
  show "map_of (sto_fs ex_garbage) (obj_path ex_garbage (1 # replicate 32 2)) = Some (File [0])" by code_simp
  have "\<forall>h d. length h = 33 \<longrightarrow> map_of (sto_fs ex_store) (obj_path ex_garbage h) = Some (File d) \<longrightarrow>
      gc_live ex_buf ex_garbage h"
    by (rule gc_complete [OF ex_garbage_gc]) (simp_all add: ex_garbage_def ex_store_def no_faults_def)
  from this [THEN spec, of "1 # replicate 32 2", THEN spec, of "[0]"] dead
  show "map_of (sto_fs ex_store) (obj_path ex_garbage (1 # replicate 32 2)) \<noteq> Some (File [0])" by simp
qed

text \<open>
  Garbage collection returns.  On an opened store the mark table is large enough that probing always finds a
  free slot, and the recursion over the object graph, shared or cyclic as it may be, ends.
\<close>

theorem gc_returns:
  assumes "gc_ready s"
  shows "harp_store_gc b0 s mx \<noteq> None"
  using gc_cases [OF assms, of b0 mx] by (cases "flt_calloc (sto_flt s)") (auto simp: harp_store_gc_def Let_def)

lemma gc_returns_witness: "harp_store_gc ex_buf ex_garbage 5 \<noteq> None"
  by (rule gc_returns [OF ex_garbage_gc(1)])

end
