(* ===== verification/Harp_Envelope.thy ===== *)
theory Harp_Envelope
  imports Harp_Cbor
begin

text \<open>
  \<^verbatim>\<open>core/src/envelope.c\<close>: the control-plane envelope, a CBOR map with the message type, the request id,
  the method name and an optional body.  A C string field is represented by the bytes before its NUL.
\<close>

definition HARP_MSG_REQUEST :: u32 where [simp]: "HARP_MSG_REQUEST = 0"
definition HARP_MSG_RESPONSE :: u32 where [simp]: "HARP_MSG_RESPONSE = 1"
definition HARP_MSG_ERROR :: u32 where [simp]: "HARP_MSG_ERROR = 2"
definition HARP_MSG_NOTIFICATION :: u32 where [simp]: "HARP_MSG_NOTIFICATION = 3"
definition HARP_METHOD_MAX :: nat where [simp]: "HARP_METHOD_MAX = 64"

record harp_env =
  e_msgtype :: u32
  e_rid :: u64
  e_method :: bytes
  e_has_body :: bool
  e_body :: bytes

text \<open>The locals of \<^verbatim>\<open>harp_env_parse\<close>: the structure being filled and the three \<^verbatim>\<open>have_\<close> flags.\<close>

record env_locals =
  el_env :: harp_env
  el_type :: bool
  el_rid :: bool
  el_method :: bool

definition env_zero :: harp_env where
  "env_zero = \<lparr>e_msgtype = 0, e_rid = 0, e_method = [], e_has_body = False, e_body = []\<rparr>"

definition env_field :: "env_locals \<Rightarrow> harp_cdec \<Rightarrow> env_locals option \<times> harp_cdec" where
  "env_field s d =
     (case harp_cdec_uint d of
        (None, d) \<Rightarrow> (None, d)
      | (Some key, d) \<Rightarrow>
          if key = 0 then
            (case harp_cdec_uint d of
               (None, d) \<Rightarrow> (None, d)
             | (Some t, d) \<Rightarrow>
                 if t > 3 then (None, d)
                 else (Some (s\<lparr>el_env := (el_env s)\<lparr>e_msgtype := ucast t\<rparr>, el_type := True\<rparr>), d))
          else if key = 1 then
            (case harp_cdec_uint d of
               (None, d) \<Rightarrow> (None, d)
             | (Some v, d) \<Rightarrow>
                 (Some (s\<lparr>el_env := (el_env s)\<lparr>e_rid := v\<rparr>, el_rid := True\<rparr>), d))
          else if key = 2 then
            (case harp_cdec_text d of
               (None, d) \<Rightarrow> (None, d)
             | (Some t, d) \<Rightarrow>
                 if length t \<ge> HARP_METHOD_MAX then (None, d)
                 else (Some (s\<lparr>el_env := (el_env s)\<lparr>e_method := cstr t\<rparr>, el_method := True\<rparr>), d))
          else if key = 3 then
            (case harp_cdec_span d of
               (None, d) \<Rightarrow> (None, d)
             | (Some sp, d) \<Rightarrow>
                 (Some (s\<lparr>el_env := (el_env s)\<lparr>e_body := sp, e_has_body := True\<rparr>\<rparr>), d))
          else
            (case harp_cdec_skip d of
               (None, d) \<Rightarrow> (None, d)
             | (Some u, d) \<Rightarrow> (Some s, d)))"

definition harp_env_parse :: "bytes \<Rightarrow> harp_env option" where
  "harp_env_parse buf =
     (case harp_cdec_map (harp_cdec_init buf) of
        (None, d) \<Rightarrow> None
      | (Some n, d) \<Rightarrow>
          (case loop_dec env_field (unat n)
                  \<lparr>el_env = env_zero, el_type = False, el_rid = False, el_method = False\<rparr> d of
             (None, d) \<Rightarrow> None
           | (Some s, d) \<Rightarrow>
               if el_type s \<and> el_rid s \<and> el_method s then Some (el_env s) else None))"

definition harp_env_head :: "harp_cbuf \<Rightarrow> u32 \<Rightarrow> u64 \<Rightarrow> bytes \<Rightarrow> bool \<Rightarrow> harp_cbuf" where
  "harp_env_head out msgtype rid method has_body =
     (let out = harp_cbor_map out (if has_body then 4 else 3);
          out = harp_cbor_uint out 0;
          out = harp_cbor_uint out (ucast msgtype);
          out = harp_cbor_uint out 1;
          out = harp_cbor_uint out rid;
          out = harp_cbor_uint out 2;
          out = harp_cbor_text out method
      in if has_body then harp_cbor_uint out 3 else out)"

definition harp_env_error :: "harp_cbuf \<Rightarrow> u64 \<Rightarrow> bytes \<Rightarrow> bytes \<Rightarrow> bytes option \<Rightarrow> harp_cbuf" where
  "harp_env_error out rid method code message =
     (let out = harp_env_head out HARP_MSG_ERROR rid method True;
          out = harp_cbor_map out (if message \<noteq> None then 2 else 1);
          out = harp_cbor_uint out 0;
          out = harp_cbor_text out code
      in case message of
           None \<Rightarrow> out
         | Some m \<Rightarrow> harp_cbor_text (harp_cbor_uint out 1) m)"

section \<open>What the encoders emit\<close>

definition env_head_bytes :: "u32 \<Rightarrow> u64 \<Rightarrow> bytes \<Rightarrow> bool \<Rightarrow> bytes" where
  "env_head_bytes msgtype rid method has_body =
     head_bytes 5 (if has_body then 4 else 3) @ enc_uint 0 @ enc_uint (ucast msgtype) @
     enc_uint 1 @ enc_uint rid @ enc_uint 2 @ enc_text method @
     (if has_body then enc_uint 3 else [])"

lemma emits_env_head [enc_simps]:
  "emits (\<lambda>b. harp_env_head b t rid m hb) (env_head_bytes t rid m hb)"
  unfolding harp_env_head_def Let_def
  by (cases hb; simp only: if_True if_False; rule emits_eq, (rule enc_intros emits_id)+)
    (simp_all add: env_head_bytes_def)


section \<open>Correctness\<close>

text \<open>A message as an endpoint builds it: the envelope head, then the body item if there is one.\<close>

definition env_message :: "u32 \<Rightarrow> u64 \<Rightarrow> bytes \<Rightarrow> cbor option \<Rightarrow> bytes" where
  "env_message t rid m body =
     env_head_bytes t rid m (body \<noteq> None) @ (case body of None \<Rightarrow> [] | Some x \<Rightarrow> enc_item x)"

lemma env_map_ok:
  assumes "hb \<Longrightarrow> 1 \<le> length body"
  shows "harp_cdec_map (dec (env_head_bytes t rid m hb @ body)) =
     (Some (if hb then 4 else 3), dec (enc_uint 0 @ enc_uint (ucast t) @ enc_uint 1 @ enc_uint rid @
        enc_uint 2 @ head_bytes 3 (of_nat (length m)) @ m @ (if hb then enc_uint 3 else []) @ body))"
  using head_bytes_ge1 [of 0 0] head_bytes_ge1 [of 0 "ucast t"] head_bytes_ge1 [of 0 1]
    head_bytes_ge1 [of 0 rid] head_bytes_ge1 [of 0 2] head_bytes_ge1 [of 3 "of_nat (length m)"]
    head_bytes_ge1 [of 0 3] assms
  by (cases hb) (simp_all add: env_head_bytes_def)

lemma env_type_small: "unat t \<le> 3 \<Longrightarrow> \<not> 3 < (ucast t :: u64) \<and> ucast (ucast t :: u64) = t"
  for t :: u32
  by (auto simp: word_less_nat_alt unsigned_ucast_eq take_bit_nat_eq_self take_bit_word_ge)

lemma env_parse_message:
  assumes "unat t \<le> 3" and "length m < HARP_METHOD_MAX" and "0 \<notin> set m"
    and "\<And>x. body = Some x \<Longrightarrow> item_ok x (HARP_CBOR_MAX_DEPTH + 1)"
  shows "harp_env_parse (env_message t rid m body) =
     Some \<lparr>e_msgtype = t, e_rid = rid, e_method = m, e_has_body = (body \<noteq> None),
           e_body = (case body of None \<Rightarrow> [] | Some x \<Rightarrow> enc_item x)\<rparr>"
proof (cases body)
  case None
  then show ?thesis
    using assms env_map_ok [of False "[]" t rid m] env_type_small [of t]
    by (simp add: env_message_def harp_env_parse_def env_field_def env_zero_def cstr_no_nul)
next
  case (Some x)
  with assms have "item_ok x (HARP_CBOR_MAX_DEPTH + 1)" by simp
  from harp_cdec_span_enc_item(2) [OF this, of "[]"]
  have "harp_cdec_span (dec (enc_item x)) = (Some (enc_item x), dec [])" by simp
  then show ?thesis
    using Some assms env_map_ok [of True "enc_item x" t rid m] enc_item_pos [of x] env_type_small [of t]
    by (simp add: env_message_def harp_env_parse_def env_field_def env_zero_def cstr_no_nul)
qed

text \<open>
  The control envelope round-trips.  A request, response, error or notification with a method name
  shorter than 64 bytes and free of NULs, with no body or with any body item nested at most 32 levels
  deep, is parsed back to the same type, request id and method, and the body comes back as exactly the
  bytes of the item.  Bytes after the message are ignored.
\<close>

theorem env_roundtrip:
  assumes "unat t \<le> 3" and "length m < HARP_METHOD_MAX" and "0 \<notin> set m"
    and "\<And>x. body = Some x \<Longrightarrow> item_ok x (HARP_CBOR_MAX_DEPTH + 1)"
  shows "harp_env_parse (env_message t rid m body) =
     Some \<lparr>e_msgtype = t, e_rid = rid, e_method = m, e_has_body = (body \<noteq> None),
           e_body = (case body of None \<Rightarrow> [] | Some x \<Rightarrow> enc_item x)\<rparr>"
  using assms by (rule env_parse_message)

lemma env_roundtrip_witness:
  "harp_env_parse (env_message 0 7 (str ''core.ping'') (Some (CUint 5))) =
     Some \<lparr>e_msgtype = 0, e_rid = 7, e_method = str ''core.ping'', e_has_body = True, e_body = [5]\<rparr>"
  using env_roundtrip [of 0 "str ''core.ping''" "Some (CUint 5)" 7]
  by (simp add: HARP_CBOR_MAX_DEPTH_def str_def head_bytes_def)

end
