(* ===== verification/Harp_Frame.thy ===== *)
theory Harp_Frame
  imports Harp_Prelude
begin

text \<open>
  The two fixed-size little-endian headers: the link frame header of \<^verbatim>\<open>core/src/frame.c\<close> and the audio
  frame header of \<^verbatim>\<open>core/src/audio.c\<close>, with the constants of \<^verbatim>\<open>frame.h\<close> and \<^verbatim>\<open>audio.h\<close>.  The C decoders
  fill the header structure before they judge it; the models return the verdict and the structure.
\<close>

unbundle bit_operations_syntax

section \<open>Link frames\<close>

definition HARP_FRAME_FVER :: u8 where [simp]: "HARP_FRAME_FVER = 0x01"
definition HARP_FRAME_MAX_PAYLOAD :: nat where [simp]: "HARP_FRAME_MAX_PAYLOAD = 65536"
definition HARP_FLAG_FIN :: u16 where [simp]: "HARP_FLAG_FIN = 0x0001"
definition HARP_CTL_MAX_PAYLOAD :: nat where [simp]: "HARP_CTL_MAX_PAYLOAD = 65536"
definition HARP_EVT_MAX_PAYLOAD :: nat where [simp]: "HARP_EVT_MAX_PAYLOAD = 65536"
definition HARP_LOG_MAX_PAYLOAD :: nat where [simp]: "HARP_LOG_MAX_PAYLOAD = 65536"
definition HARP_OBJ_MAX_PAYLOAD :: nat where [simp]: "HARP_OBJ_MAX_PAYLOAD = 16 * 1024 * 1024"
definition HARP_STREAM_CTL :: u8 where [simp]: "HARP_STREAM_CTL = 0"
definition HARP_STREAM_EVT :: u8 where [simp]: "HARP_STREAM_EVT = 1"
definition HARP_STREAM_OBJ :: u8 where [simp]: "HARP_STREAM_OBJ = 2"
definition HARP_STREAM_LOG :: u8 where [simp]: "HARP_STREAM_LOG = 3"

record harp_frame_hdr =
  fh_fver :: u8
  fh_stream :: u8
  fh_flags :: u16
  fh_length :: u32

definition harp_frame_hdr_encode :: "harp_frame_hdr \<Rightarrow> bytes" where
  "harp_frame_hdr_encode h =
     [fh_fver h, fh_stream h,
      ucast (fh_flags h AND 0xff), ucast (drop_bit 8 (fh_flags h)),
      ucast (fh_length h AND 0xff), ucast (drop_bit 8 (fh_length h)),
      ucast (drop_bit 16 (fh_length h)), ucast (drop_bit 24 (fh_length h))]"

definition harp_frame_hdr_decode :: "bytes \<Rightarrow> bool \<times> harp_frame_hdr" where
  "harp_frame_hdr_decode i =
     (let h = \<lparr>fh_fver = i ! 0, fh_stream = i ! 1,
               fh_flags = ucast (i ! 2) OR push_bit 8 (ucast (i ! 3)),
               fh_length = ucast (i ! 4) OR push_bit 8 (ucast (i ! 5)) OR
                           push_bit 16 (ucast (i ! 6)) OR push_bit 24 (ucast (i ! 7))\<rparr>
      in (if fh_fver h \<noteq> HARP_FRAME_FVER then False
          else if fh_flags h AND NOT HARP_FLAG_FIN \<noteq> 0 then False
          else if fh_length h > 65536 then False
          else True, h))"

section \<open>Audio frames\<close>

definition HARP_AUDIO_FVER :: u8 where [simp]: "HARP_AUDIO_FVER = 0x01"
definition HARP_AUDIO_FMT_F32 :: u16 where [simp]: "HARP_AUDIO_FMT_F32 = 0x0001"

record harp_audio_hdr =
  ah_fver :: u8
  ah_dirflags :: u8
  ah_slots :: u16
  ah_epoch :: u32
  ah_ts :: u64
  ah_nsamples :: u16
  ah_fmt :: u16

definition put16 :: "u16 \<Rightarrow> bytes" where
  "put16 v = [ucast v, ucast (drop_bit 8 v)]"

definition put32 :: "u32 \<Rightarrow> bytes" where
  "put32 v = [ucast v, ucast (drop_bit 8 v), ucast (drop_bit 16 v), ucast (drop_bit 24 v)]"

definition get16 :: "bytes \<Rightarrow> nat \<Rightarrow> u16" where
  "get16 p i = ucast (p ! i) OR push_bit 8 (ucast (p ! (i + 1)))"

definition get32 :: "bytes \<Rightarrow> nat \<Rightarrow> u32" where
  "get32 p i = ucast (p ! i) OR push_bit 8 (ucast (p ! (i + 1))) OR
               push_bit 16 (ucast (p ! (i + 2))) OR push_bit 24 (ucast (p ! (i + 3)))"

definition harp_audio_hdr_encode :: "harp_audio_hdr \<Rightarrow> bytes" where
  "harp_audio_hdr_encode h =
     [ah_fver h, ah_dirflags h] @ put16 (ah_slots h) @ put32 (ah_epoch h) @
     put32 (ucast (ah_ts h)) @ put32 (ucast (drop_bit 32 (ah_ts h))) @
     put16 (ah_nsamples h) @ put16 (ah_fmt h)"

definition harp_audio_hdr_decode :: "bytes \<Rightarrow> bool \<times> harp_audio_hdr" where
  "harp_audio_hdr_decode i =
     (let h = \<lparr>ah_fver = i ! 0, ah_dirflags = i ! 1, ah_slots = get16 i 2, ah_epoch = get32 i 4,
               ah_ts = ucast (get32 i 8) OR push_bit 32 (ucast (get32 i 12)),
               ah_nsamples = get16 i 16, ah_fmt = get16 i 18\<rparr>
      in (if ah_fver h \<noteq> HARP_AUDIO_FVER then False
          else if ah_fmt h \<noteq> HARP_AUDIO_FMT_F32 then False
          else if ah_nsamples h = 0 then False
          else True, h))"

text \<open>\<^verbatim>\<open>(size_t)slots * nsamples * 4\<close>, which cannot wrap in 64 bits.\<close>

definition harp_audio_payload_len :: "harp_audio_hdr \<Rightarrow> nat" where
  "harp_audio_payload_len h = unat (ah_slots h) * unat (ah_nsamples h) * 4"

section \<open>Little-endian packing\<close>

lemma le16_join: "ucast (ucast v :: u8) OR push_bit 8 (ucast (ucast (drop_bit 8 v) :: u8)) = v"
  for v :: u16
  by (rule bit_word_eqI) (auto simp: bit_simps)

lemma and_ff: "v AND 0xff = take_bit 8 v"
  for v :: "'a::len word"
  by (simp add: take_bit_eq_mask mask_numeral)

lemma le_mask: "ucast (v AND 0xff) = (ucast v :: u8)"
  for v :: "'a::len word"
  unfolding and_ff by (rule bit_word_eqI) (auto simp: bit_simps)

lemma le32_join:
  "ucast (ucast v :: u8) OR push_bit 8 (ucast (ucast (drop_bit 8 v) :: u8)) OR
   push_bit 16 (ucast (ucast (drop_bit 16 v) :: u8)) OR
   push_bit 24 (ucast (ucast (drop_bit 24 v) :: u8)) = v"
  for v :: u32
proof (rule bit_word_eqI)
  fix n assume "n < LENGTH(32)"
  then consider "n < 8" | "8 \<le> n" "n < 16" | "16 \<le> n" "n < 24" | "24 \<le> n" "n < 32"
    by force
  then show "bit (ucast (ucast v :: u8) OR push_bit 8 (ucast (ucast (drop_bit 8 v) :: u8)) OR
      push_bit 16 (ucast (ucast (drop_bit 16 v) :: u8)) OR
      push_bit 24 (ucast (ucast (drop_bit 24 v) :: u8)) :: u32) n = bit v n"
    by cases (auto simp: bit_simps)
qed

lemma le64_join: "ucast (ucast v :: u32) OR push_bit 32 (ucast (ucast (drop_bit 32 v) :: u32)) = v"
  for v :: u64
  by (rule bit_word_eqI) (auto simp: bit_simps)

lemma get16_put16: "get16 (p @ put16 v @ r) (length p) = v"
  by (simp add: get16_def put16_def nth_append le16_join)

lemma get32_put32: "get32 (p @ put32 v @ r) (length p) = v"
  by (simp add: get32_def put32_def nth_append le32_join)

section \<open>Correctness\<close>

text \<open>The headers a sender may produce.\<close>

definition frame_hdr_valid :: "harp_frame_hdr \<Rightarrow> bool" where
  "frame_hdr_valid h \<longleftrightarrow> fh_fver h = HARP_FRAME_FVER \<and> fh_flags h \<in> {0, HARP_FLAG_FIN} \<and>
     unat (fh_length h) \<le> HARP_FRAME_MAX_PAYLOAD"

lemma fin_flags_iff: "f AND NOT HARP_FLAG_FIN = 0 \<longleftrightarrow> f = 0 \<or> f = 1"
proof
  assume a: "f AND NOT HARP_FLAG_FIN = 0"
  have "f = (f AND HARP_FLAG_FIN) OR (f AND NOT HARP_FLAG_FIN)"
    by (rule bit_word_eqI) (auto simp: bit_simps simp del: HARP_FLAG_FIN_def)
  with a have "f = f AND HARP_FLAG_FIN" by simp
  then have "f = f mod 2" by (simp add: and_one_eq)
  then show "f = 0 \<or> f = 1" by (metis parity_cases)
qed auto

lemma frame_decode_encode: "snd (harp_frame_hdr_decode (harp_frame_hdr_encode h)) = h"
  by (cases h) (simp add: harp_frame_hdr_decode_def harp_frame_hdr_encode_def Let_def le_mask
      le16_join le32_join)

lemma harp_frame_hdr_encode_length [simp]: "length (harp_frame_hdr_encode h) = 8"
  by (simp add: harp_frame_hdr_encode_def)

lemma harp_frame_hdr_decode_encode:
  "harp_frame_hdr_decode (harp_frame_hdr_encode h) = (frame_hdr_valid h, h)"
proof -
  have "fst (harp_frame_hdr_decode (harp_frame_hdr_encode h)) = frame_hdr_valid h"
    using frame_decode_encode [of h] fin_flags_iff [of "fh_flags h"]
    by (auto simp: harp_frame_hdr_decode_def Let_def frame_hdr_valid_def
        word_less_nat_alt not_less)
  then show ?thesis using frame_decode_encode [of h] by (simp add: prod_eq_iff)
qed

text \<open>
  Frame headers survive the link, and the receiver's verdict is exact.  Decoding the eight bytes that
  \<open>harp_frame_hdr_encode\<close> produced gives back every field, and the header is accepted exactly when it has
  the protocol version, no reserved flag and a length within the payload limit.
\<close>

theorem frame_hdr_roundtrip:
  "length (harp_frame_hdr_encode h) = 8 \<and>
   harp_frame_hdr_decode (harp_frame_hdr_encode h) = (frame_hdr_valid h, h)"
  by (simp add: harp_frame_hdr_decode_encode)

definition audio_hdr_valid :: "harp_audio_hdr \<Rightarrow> bool" where
  "audio_hdr_valid h \<longleftrightarrow> ah_fver h = HARP_AUDIO_FVER \<and> ah_fmt h = HARP_AUDIO_FMT_F32 \<and>
     0 < unat (ah_nsamples h)"

lemma audio_decode_encode: "snd (harp_audio_hdr_decode (harp_audio_hdr_encode h)) = h"
  by (cases h) (simp add: harp_audio_hdr_decode_def harp_audio_hdr_encode_def Let_def
      put16_def put32_def get16_def get32_def le16_join le32_join le64_join)

text \<open>
  Audio frame headers survive the trip as well, the 64-bit timestamp included, and are accepted exactly
  when the version and format are the defined ones and there is at least one sample (zero slots are
  legal: a pacing frame).  The payload length announced by an accepted header never wraps in 64 bits.
\<close>

theorem audio_hdr_roundtrip:
  "length (harp_audio_hdr_encode h) = 20 \<and>
   harp_audio_hdr_decode (harp_audio_hdr_encode h) = (audio_hdr_valid h, h) \<and>
   harp_audio_payload_len h < 2 ^ 34"
proof -
  have "fst (harp_audio_hdr_decode (harp_audio_hdr_encode h)) = audio_hdr_valid h"
    using audio_decode_encode [of h]
    by (auto simp: harp_audio_hdr_decode_def Let_def audio_hdr_valid_def unat_gt_0)
  moreover have "length (harp_audio_hdr_encode h) = 20"
    by (simp add: harp_audio_hdr_encode_def put16_def put32_def)
  moreover have "unat (ah_slots h) * unat (ah_nsamples h) < 2 ^ 16 * 2 ^ 16"
    using unsigned_less [of "ah_slots h"] unsigned_less [of "ah_nsamples h"]
    by (intro mult_strict_mono) auto
  ultimately show ?thesis using audio_decode_encode [of h]
    by (simp add: harp_audio_payload_len_def prod_eq_iff mult.commute)
qed

end
