(* ===== verification/Harp_Io.thy ===== *)
theory Harp_Io
  imports Harp_Prelude "HOL-Library.Sublist"
begin

text \<open>
  The byte pipe under the link: \<^verbatim>\<open>harp_read_exact\<close> and \<^verbatim>\<open>harp_write_all\<close> of \<^verbatim>\<open>core/src/link.c\<close> (the
  fd transport) and the FunctionFS endpoint framing of \<^verbatim>\<open>device/ffs_link.c\<close>, which implements the same
  \<open>harp_io\<close> interface with a userspace read buffer.

  The kernel is a script: the outcomes that the \<^verbatim>\<open>read\<close> and \<^verbatim>\<open>write\<close> calls of one run will have, in
  order.  A read outcome is an error, or a burst of bytes of which a call takes as much as it asked for
  (the rest stays for the next call); an empty burst is a return value of 0.  A write outcome is an error
  or the number of bytes the kernel is willing to take.  When the read script is used up the peer is gone
  and reads fail; when the write script is used up the kernel takes everything.  The interface that the
  framing code relies on is the locale \<open>byte_pipe\<close>; both transports are shown to implement it.
\<close>

section \<open>System calls\<close>

datatype errno = EINTR | ESHUTDOWN | EOTHER

datatype rd_event = RdData bytes | RdErr errno

datatype wr_event = WrTake nat | WrErr errno

record os =
  os_rd :: "rd_event list"
  os_wr :: "wr_event list"
  os_out :: bytes

text \<open>\<^verbatim>\<open>read(fd, p, n)\<close>: the bytes read, or the error.\<close>

fun io_read :: "nat \<Rightarrow> rd_event list \<Rightarrow> (errno + bytes) \<times> rd_event list" where
  "io_read n [] = (Inl ESHUTDOWN, [])"
| "io_read n (RdErr e # sc) = (Inl e, sc)"
| "io_read n (RdData bs # sc) =
     (Inr (take n bs), if n < length bs then RdData (drop n bs) # sc else sc)"

text \<open>\<^verbatim>\<open>write(fd, p, n)\<close>: how many bytes the kernel took, or the error.\<close>

fun io_write :: "bytes \<Rightarrow> wr_event list \<Rightarrow> (errno + nat) \<times> wr_event list" where
  "io_write p [] = (Inr (length p), [])"
| "io_write p (WrErr e # sc) = (Inl e, sc)"
| "io_write p (WrTake k # sc) = (Inr (min k (length p)), sc)"

fun rd_size :: "rd_event list \<Rightarrow> nat" where
  "rd_size [] = 0"
| "rd_size (RdErr e # sc) = Suc (rd_size sc)"
| "rd_size (RdData bs # sc) = Suc (length bs) + rd_size sc"

lemma io_read_decreases:
  "io_read n sc = (Inr bs, sc') \<Longrightarrow> 0 < n \<Longrightarrow> rd_size sc' < rd_size sc"
  "io_read n sc = (Inl EINTR, sc') \<Longrightarrow> rd_size sc' < rd_size sc"
  by (cases "(n, sc)" rule: io_read.cases; force split: if_splits)+

lemma io_write_decreases:
  "io_write p sc = (Inl EINTR, sc') \<Longrightarrow> length sc' < length sc"
  "io_write p sc = (Inr r, sc') \<Longrightarrow> p \<noteq> [] \<Longrightarrow>
     length sc' + (length p - r) < length sc + length p"
  by (cases "(p, sc)" rule: io_write.cases; force)+

lemmas io_decreases = io_read_decreases [OF sym] io_write_decreases [OF sym]

section \<open>The fd transport\<close>

text \<open>\<^verbatim>\<open>harp_read_exact(fd, buf, n)\<close>; the accumulator is the part of \<^verbatim>\<open>buf\<close> filled so far.\<close>

function harp_read_exact :: "nat \<Rightarrow> rd_event list \<Rightarrow> bytes \<Rightarrow> bytes option \<times> rd_event list" where
  "harp_read_exact n sc p =
     (if n = 0 then (Some p, sc)
      else case io_read n sc of
             (Inl e, sc') \<Rightarrow> if e = EINTR then harp_read_exact n sc' p else (None, sc')
           | (Inr bs, sc') \<Rightarrow>
               if bs = [] then (None, sc')
               else harp_read_exact (n - length bs) sc' (p @ bs))"
  by pat_completeness auto
termination
  by (relation "measure (\<lambda>(n, sc, p). rd_size sc)") (auto dest: io_decreases)

declare harp_read_exact.simps [simp del]

text \<open>
  \<^verbatim>\<open>harp_write_all(fd, buf, n)\<close>.  A kernel that keeps taking 0 bytes keeps the loop spinning; each turn
  uses up one outcome of the script.
\<close>

function harp_write_all :: "bytes \<Rightarrow> wr_event list \<Rightarrow> bytes \<Rightarrow> bool \<times> wr_event list \<times> bytes" where
  "harp_write_all p sc out =
     (if p = [] then (True, sc, out)
      else case io_write p sc of
             (Inl e, sc') \<Rightarrow> if e = EINTR then harp_write_all p sc' out else (False, sc', out)
           | (Inr r, sc') \<Rightarrow> harp_write_all (drop r p) sc' (out @ take r p))"
  by pat_completeness auto
termination
  by (relation "measure (\<lambda>(p, sc, out). length sc + length p)") (auto dest: io_decreases)

declare harp_write_all.simps [simp del]

definition fd_read_exact :: "nat \<Rightarrow> os \<Rightarrow> bytes option \<times> os" where
  "fd_read_exact n s =
     (case harp_read_exact n (os_rd s) [] of (r, sc) \<Rightarrow> (r, s\<lparr>os_rd := sc\<rparr>))"

definition fd_write_all :: "bytes \<Rightarrow> os \<Rightarrow> bool \<times> os" where
  "fd_write_all p s =
     (case harp_write_all p (os_wr s) (os_out s) of
        (ok, sc, out) \<Rightarrow> (ok, s\<lparr>os_wr := sc, os_out := out\<rparr>))"

section \<open>The FunctionFS transport\<close>

definition FFS_READ_CHUNK :: nat where
  "FFS_READ_CHUNK = 16384"

text \<open>\<open>ffs_rbuf\<close> is the unread part \<^verbatim>\<open>rbuf[rpos..rlen)\<close> of the read buffer.\<close>

record ffs_io =
  ffs_os :: os
  ffs_rbuf :: bytes
  ffs_usb_errors :: nat

definition usb_error :: "errno \<Rightarrow> ffs_io \<Rightarrow> ffs_io" where
  "usb_error e f = (if e \<noteq> ESHUTDOWN then f\<lparr>ffs_usb_errors := Suc (ffs_usb_errors f)\<rparr> else f)"

function ffs_read_loop :: "nat \<Rightarrow> ffs_io \<Rightarrow> bytes \<Rightarrow> bytes option \<times> ffs_io" where
  "ffs_read_loop n f p =
     (if n = 0 then (Some p, f)
      else if ffs_rbuf f \<noteq> [] then
        let take' = min (length (ffs_rbuf f)) n
        in ffs_read_loop (n - take') (f\<lparr>ffs_rbuf := drop take' (ffs_rbuf f)\<rparr>)
             (p @ take take' (ffs_rbuf f))
      else case io_read FFS_READ_CHUNK (os_rd (ffs_os f)) of
             (Inl e, sc) \<Rightarrow>
               let f = f\<lparr>ffs_os := (ffs_os f)\<lparr>os_rd := sc\<rparr>\<rparr>
               in if e = EINTR then ffs_read_loop n f p else (None, usb_error e f)
           | (Inr bs, sc) \<Rightarrow>
               ffs_read_loop n (f\<lparr>ffs_os := (ffs_os f)\<lparr>os_rd := sc\<rparr>, ffs_rbuf := bs\<rparr>) p)"
  by pat_completeness auto
termination
  by (relation "measures [\<lambda>(n, f, p). rd_size (os_rd (ffs_os f)), \<lambda>(n, f, p). n]")
    (auto simp: FFS_READ_CHUNK_def dest: io_decreases)

declare ffs_read_loop.simps [simp del]

definition ffs_read_exact :: "nat \<Rightarrow> ffs_io \<Rightarrow> bytes option \<times> ffs_io" where
  "ffs_read_exact n f = ffs_read_loop n f []"

definition ffs_readable :: "ffs_io \<Rightarrow> bool" where
  "ffs_readable f \<longleftrightarrow> ffs_rbuf f \<noteq> []"

text \<open>The write loop, counting abnormal errors.\<close>

function ffs_write_loop :: "bytes \<Rightarrow> wr_event list \<Rightarrow> bytes \<Rightarrow> nat
    \<Rightarrow> bool \<times> wr_event list \<times> bytes \<times> nat" where
  "ffs_write_loop p sc out errs =
     (if p = [] then (True, sc, out, errs)
      else case io_write p sc of
             (Inl e, sc') \<Rightarrow>
               if e = EINTR then ffs_write_loop p sc' out errs
               else (False, sc', out, if e \<noteq> ESHUTDOWN then Suc errs else errs)
           | (Inr r, sc') \<Rightarrow> ffs_write_loop (drop r p) sc' (out @ take r p) errs)"
  by pat_completeness auto
termination
  by (relation "measure (\<lambda>(p, sc, out, errs). length sc + length p)")
    (auto dest: io_decreases)

declare ffs_write_loop.simps [simp del]

text \<open>The zero-length packet after a message that fills its last 512-byte packet, retried on \<open>EINTR\<close>.\<close>

fun ffs_zlp :: "wr_event list \<Rightarrow> nat \<Rightarrow> wr_event list \<times> nat" where
  "ffs_zlp [] errs = ([], errs)"
| "ffs_zlp (WrTake k # sc) errs = (sc, errs)"
| "ffs_zlp (WrErr e # sc) errs =
     (if e = EINTR then ffs_zlp sc errs else (sc, if e \<noteq> ESHUTDOWN then Suc errs else errs))"

definition ffs_write_all :: "bytes \<Rightarrow> ffs_io \<Rightarrow> bool \<times> ffs_io" where
  "ffs_write_all p f =
     (case ffs_write_loop p (os_wr (ffs_os f)) (os_out (ffs_os f)) (ffs_usb_errors f) of
        (ok, sc, out, errs) \<Rightarrow>
          let (sc, errs) = (if ok \<and> p \<noteq> [] \<and> length p mod 512 = 0 then ffs_zlp sc errs
                            else (sc, errs))
          in (ok, f\<lparr>ffs_os := (ffs_os f)\<lparr>os_wr := sc, os_out := out\<rparr>, ffs_usb_errors := errs\<rparr>))"

definition ffs_io_init :: "os \<Rightarrow> ffs_io" where
  "ffs_io_init s = \<lparr>ffs_os = s, ffs_rbuf = [], ffs_usb_errors = 0\<rparr>"

section \<open>The contract of a transport\<close>

text \<open>
  \<open>inp\<close> is what the peer will still deliver before the connection ends, \<open>out\<close> what has been written.
  A read of \<open>n\<close> bytes is exact: it returns the next \<open>n\<close> bytes if the peer delivers them, however the
  kernel cuts them up, and fails otherwise.  A write that reports success has written everything.
\<close>

locale byte_pipe =
  fixes rd :: "nat \<Rightarrow> 's \<Rightarrow> bytes option \<times> 's"
    and wr :: "bytes \<Rightarrow> 's \<Rightarrow> bool \<times> 's"
    and inp :: "'s \<Rightarrow> bytes"
    and out :: "'s \<Rightarrow> bytes"
  assumes rd_full: "n \<le> length (inp s) \<Longrightarrow>
      fst (rd n s) = Some (take n (inp s)) \<and> inp (snd (rd n s)) = drop n (inp s)"
    and rd_short: "length (inp s) < n \<Longrightarrow> fst (rd n s) = None"
    and rd_out: "out (snd (rd n s)) = out s"
    and wr_ok: "fst (wr p s) \<Longrightarrow> out (snd (wr p s)) = out s @ p"
    and wr_prefix: "\<exists>q. prefix q p \<and> out (snd (wr p s)) = out s @ q"
    and wr_inp: "inp (snd (wr p s)) = inp s"
begin

lemma rd_cases:
  obtains (full) s' where "n \<le> length (inp s)" and "rd n s = (Some (take n (inp s)), s')"
      and "inp s' = drop n (inp s)" and "out s' = out s"
  | (short) s' where "length (inp s) < n" and "rd n s = (None, s')" and "out s' = out s"
  using rd_full [of n s] rd_short [of s n] rd_out [of n s]
  by (cases "n \<le> length (inp s)"; cases "rd n s") auto

end

section \<open>The fd transport keeps the contract\<close>

text \<open>An fd read ends at the first return value of 0 (end of file) or error other than \<open>EINTR\<close>.\<close>

fun fd_input :: "rd_event list \<Rightarrow> bytes" where
  "fd_input [] = []"
| "fd_input (RdErr e # sc) = (if e = EINTR then fd_input sc else [])"
| "fd_input (RdData bs # sc) = (if bs = [] then [] else bs @ fd_input sc)"

lemma io_read_fd_input:
  "io_read n sc = (Inl e, sc') \<Longrightarrow> fd_input sc = (if e = EINTR then fd_input sc' else [])"
  "io_read n sc = (Inr bs, sc') \<Longrightarrow> 0 < n \<Longrightarrow>
     length bs \<le> n \<and> fd_input sc = (if bs = [] then [] else bs @ fd_input sc')"
  by (cases "(n, sc)" rule: io_read.cases; force split: if_splits)+

lemma harp_read_exact_0 [simp]: "harp_read_exact 0 sc p = (Some p, sc)"
  by (simp add: harp_read_exact.simps)

lemma harp_read_exact_step:
  assumes "0 < n"
  shows "harp_read_exact n sc p =
     (case io_read n sc of
        (Inl e, sc') \<Rightarrow> if e = EINTR then harp_read_exact n sc' p else (None, sc')
      | (Inr bs, sc') \<Rightarrow>
          if bs = [] then (None, sc') else harp_read_exact (n - length bs) sc' (p @ bs))"
  using assms by (subst harp_read_exact.simps) (simp split: prod.split sum.split)

lemma harp_read_exact_spec:
  "(n \<le> length (fd_input sc) \<longrightarrow>
      fst (harp_read_exact n sc p) = Some (p @ take n (fd_input sc)) \<and>
      fd_input (snd (harp_read_exact n sc p)) = drop n (fd_input sc)) \<and>
   (length (fd_input sc) < n \<longrightarrow> fst (harp_read_exact n sc p) = None)"
proof (induction n sc p rule: harp_read_exact.induct)
  case (1 n sc p)
  obtain r sc' where io: "io_read n sc = (r, sc')" by (cases "io_read n sc")
  show ?case
  proof (cases "n = 0")
    case False
    then have step: "0 < n" by simp
    show ?thesis
    proof (cases r)
      case (Inl e)
      with io io_read_fd_input(1) [of n sc e sc'] 1(1) [OF False io [symmetric], of e] step
      show ?thesis by (auto simp: harp_read_exact_step)
    next
      case (Inr bs)
      with io io_read_fd_input(2) [of n sc bs sc'] 1(2) [OF False io [symmetric], of bs] step
      show ?thesis by (auto simp: harp_read_exact_step)
    qed
  qed simp
qed

lemma io_write_take: "io_write p sc = (Inr r, sc') \<Longrightarrow> r \<le> length p"
  by (cases "(p, sc)" rule: io_write.cases) auto

lemma harp_write_all_Nil [simp]: "harp_write_all [] sc out = (True, sc, out)"
  by (simp add: harp_write_all.simps)

lemma harp_write_all_step:
  assumes "p \<noteq> []"
  shows "harp_write_all p sc out =
     (case io_write p sc of
        (Inl e, sc') \<Rightarrow> if e = EINTR then harp_write_all p sc' out else (False, sc', out)
      | (Inr r, sc') \<Rightarrow> harp_write_all (drop r p) sc' (out @ take r p))"
  using assms by (subst harp_write_all.simps) (simp split: prod.split sum.split)

lemma prefix_take_append: "prefix q (drop k p) \<Longrightarrow> prefix (take k p @ q) p"
  by (metis append_take_drop_id same_prefix_prefix)

lemma harp_write_all_spec:
  "\<exists>q. prefix q p \<and> snd (snd (harp_write_all p sc out)) = out @ q \<and>
       (fst (harp_write_all p sc out) \<longrightarrow> q = p)"
proof (induction p sc out rule: harp_write_all.induct)
  case (1 p sc out)
  obtain r sc' where io: "io_write p sc = (r, sc')" by (cases "io_write p sc")
  show ?case
  proof (cases "p = []")
    case False
    show ?thesis
    proof (cases r)
      case (Inl e)
      with False io 1(1) [OF False io [symmetric], of e] show ?thesis
        by (auto simp: harp_write_all_step)
    next
      case (Inr k)
      with 1(2) [OF False io [symmetric], of k] obtain q where
        "prefix q (drop k p)" and
        "snd (snd (harp_write_all (drop k p) sc' (out @ take k p))) = (out @ take k p) @ q" and
        "fst (harp_write_all (drop k p) sc' (out @ take k p)) \<longrightarrow> q = drop k p"
        by auto
      then show ?thesis
        using False io Inr
        by (intro exI [of _ "take k p @ q"]) (auto simp: harp_write_all_step prefix_take_append)
    qed
  qed simp
qed

interpretation fd: byte_pipe fd_read_exact fd_write_all "\<lambda>s. fd_input (os_rd s)" os_out
proof unfold_locales
  fix n s p
  show "n \<le> length (fd_input (os_rd s)) \<Longrightarrow>
      fst (fd_read_exact n s) = Some (take n (fd_input (os_rd s))) \<and>
      fd_input (os_rd (snd (fd_read_exact n s))) = drop n (fd_input (os_rd s))"
    using harp_read_exact_spec [of n "os_rd s" "[]"]
    by (auto simp: fd_read_exact_def split: prod.splits)
  show "length (fd_input (os_rd s)) < n \<Longrightarrow> fst (fd_read_exact n s) = None"
    using harp_read_exact_spec [of n "os_rd s" "[]"]
    by (auto simp: fd_read_exact_def split: prod.splits)
  show "os_out (snd (fd_read_exact n s)) = os_out s"
    by (simp add: fd_read_exact_def split: prod.splits)
  show "fst (fd_write_all p s) \<Longrightarrow> os_out (snd (fd_write_all p s)) = os_out s @ p"
    and "\<exists>q. prefix q p \<and> os_out (snd (fd_write_all p s)) = os_out s @ q"
    using harp_write_all_spec [of p "os_wr s" "os_out s"]
    by (auto simp: fd_write_all_def split: prod.splits)
  show "fd_input (os_rd (snd (fd_write_all p s))) = fd_input (os_rd s)"
    by (simp add: fd_write_all_def split: prod.splits)
qed

section \<open>The FunctionFS transport keeps it too\<close>

text \<open>An empty read is a zero-length packet here, and is retried.\<close>

fun ffs_stream :: "rd_event list \<Rightarrow> bytes" where
  "ffs_stream [] = []"
| "ffs_stream (RdErr e # sc) = (if e = EINTR then ffs_stream sc else [])"
| "ffs_stream (RdData bs # sc) = bs @ ffs_stream sc"

definition ffs_input :: "ffs_io \<Rightarrow> bytes" where
  "ffs_input f = ffs_rbuf f @ ffs_stream (os_rd (ffs_os f))"

lemma io_read_ffs_stream:
  "io_read n sc = (Inl e, sc') \<Longrightarrow> ffs_stream sc = (if e = EINTR then ffs_stream sc' else [])"
  "io_read n sc = (Inr bs, sc') \<Longrightarrow> ffs_stream sc = bs @ ffs_stream sc'"
  by (cases "(n, sc)" rule: io_read.cases; force split: if_splits)+

lemma ffs_read_loop_0 [simp]: "ffs_read_loop 0 f p = (Some p, f)"
  by (simp add: ffs_read_loop.simps)

lemma ffs_read_loop_buf:
  assumes "0 < n" and "ffs_rbuf f \<noteq> []"
  shows "ffs_read_loop n f p =
     ffs_read_loop (n - min (length (ffs_rbuf f)) n)
       (f\<lparr>ffs_rbuf := drop (min (length (ffs_rbuf f)) n) (ffs_rbuf f)\<rparr>)
       (p @ take (min (length (ffs_rbuf f)) n) (ffs_rbuf f))"
  using assms by (subst ffs_read_loop.simps) (simp add: Let_def)

lemma ffs_read_loop_sys:
  assumes "0 < n" and "ffs_rbuf f = []"
  shows "ffs_read_loop n f p =
     (case io_read FFS_READ_CHUNK (os_rd (ffs_os f)) of
        (Inl e, sc) \<Rightarrow>
          if e = EINTR then ffs_read_loop n (f\<lparr>ffs_os := (ffs_os f)\<lparr>os_rd := sc\<rparr>\<rparr>) p
          else (None, usb_error e (f\<lparr>ffs_os := (ffs_os f)\<lparr>os_rd := sc\<rparr>\<rparr>))
      | (Inr bs, sc) \<Rightarrow>
          ffs_read_loop n (f\<lparr>ffs_os := (ffs_os f)\<lparr>os_rd := sc\<rparr>, ffs_rbuf := bs\<rparr>) p)"
  using assms by (subst ffs_read_loop.simps) (simp add: Let_def split: prod.split sum.split)

lemma usb_error_frame [simp]:
  "ffs_os (usb_error e f) = ffs_os f" "ffs_rbuf (usb_error e f) = ffs_rbuf f"
  by (simp_all add: usb_error_def)

lemma ffs_read_loop_spec:
  "(n \<le> length (ffs_input f) \<longrightarrow>
      fst (ffs_read_loop n f p) = Some (p @ take n (ffs_input f)) \<and>
      ffs_input (snd (ffs_read_loop n f p)) = drop n (ffs_input f)) \<and>
   (length (ffs_input f) < n \<longrightarrow> fst (ffs_read_loop n f p) = None) \<and>
   os_out (ffs_os (snd (ffs_read_loop n f p))) = os_out (ffs_os f)"
proof (induction n f p rule: ffs_read_loop.induct)
  case (1 n f p)
  show ?case
  proof (cases "n = 0")
    case False
    show ?thesis
    proof (cases "ffs_rbuf f = []")
      case buf: False
      from False buf 1(1) [OF False buf refl] show ?thesis
        by (auto simp: ffs_read_loop_buf ffs_input_def min_def)
    next
      case True
      obtain r sc where io: "io_read FFS_READ_CHUNK (os_rd (ffs_os f)) = (r, sc)"
        by (cases "io_read FFS_READ_CHUNK (os_rd (ffs_os f))")
      show ?thesis
      proof (cases r)
        case (Inl e)
        with False True io 1(2) [OF False _ io [symmetric], of e]
          io_read_ffs_stream(1) [of FFS_READ_CHUNK "os_rd (ffs_os f)" e sc]
        show ?thesis by (auto simp: ffs_read_loop_sys ffs_input_def)
      next
        case (Inr bs)
        with False True io 1(3) [OF False _ io [symmetric], of bs]
          io_read_ffs_stream(2) [of FFS_READ_CHUNK "os_rd (ffs_os f)" bs sc]
        show ?thesis by (auto simp: ffs_read_loop_sys ffs_input_def)
      qed
    qed
  qed simp
qed

lemma ffs_write_loop_same:
  "(case ffs_write_loop p sc out errs of (ok, sc', out', errs') \<Rightarrow> (ok, sc', out'))
     = harp_write_all p sc out"
proof (induction p sc out errs rule: ffs_write_loop.induct)
  case (1 p sc out errs)
  obtain r sc' where io: "io_write p sc = (r, sc')" by (cases "io_write p sc")
  show ?case
  proof (cases "p = []")
    case False
    with io 1(1) [OF False io [symmetric]] 1(2) [OF False io [symmetric]] show ?thesis
      by (cases r) (auto simp: harp_write_all_step ffs_write_loop.simps [of p])
  qed (simp add: ffs_write_loop.simps)
qed

interpretation ffs: byte_pipe ffs_read_exact ffs_write_all ffs_input "\<lambda>f. os_out (ffs_os f)"
proof unfold_locales
  fix n f p
  show "n \<le> length (ffs_input f) \<Longrightarrow> fst (ffs_read_exact n f) = Some (take n (ffs_input f)) \<and>
      ffs_input (snd (ffs_read_exact n f)) = drop n (ffs_input f)"
    and "length (ffs_input f) < n \<Longrightarrow> fst (ffs_read_exact n f) = None"
    and "os_out (ffs_os (snd (ffs_read_exact n f))) = os_out (ffs_os f)"
    using ffs_read_loop_spec [of n f "[]"] by (simp_all add: ffs_read_exact_def)
  show "fst (ffs_write_all p f) \<Longrightarrow>
      os_out (ffs_os (snd (ffs_write_all p f))) = os_out (ffs_os f) @ p"
    and "\<exists>q. prefix q p \<and> os_out (ffs_os (snd (ffs_write_all p f))) = os_out (ffs_os f) @ q"
    using harp_write_all_spec [of p "os_wr (ffs_os f)" "os_out (ffs_os f)"]
      ffs_write_loop_same [of p "os_wr (ffs_os f)" "os_out (ffs_os f)" "ffs_usb_errors f", symmetric]
    by (auto simp: ffs_write_all_def split: prod.splits)
  show "ffs_input (snd (ffs_write_all p f)) = ffs_input f"
    by (simp add: ffs_write_all_def ffs_input_def split: prod.splits)
qed

text \<open>
  The FunctionFS framing delivers exactly the bytes the endpoint carries.  However the kernel cuts the
  host's bytes into reads, with interrupted calls and zero-length packets in between,
  \<open>ffs_read_exact\<close> returns the next \<open>n\<close> bytes of the stream when they arrive before the endpoint
  goes down and fails otherwise; when \<open>ffs_write_all\<close> reports success every byte was written, in order,
  and in all cases what was written is a prefix of the message.
\<close>

theorem ffs_transport_exact:
  "(n \<le> length (ffs_input f) \<longrightarrow>
      fst (ffs_read_exact n f) = Some (take n (ffs_input f)) \<and>
      ffs_input (snd (ffs_read_exact n f)) = drop n (ffs_input f)) \<and>
   (length (ffs_input f) < n \<longrightarrow> fst (ffs_read_exact n f) = None) \<and>
   (fst (ffs_write_all p f) \<longrightarrow>
      os_out (ffs_os (snd (ffs_write_all p f))) = os_out (ffs_os f) @ p) \<and>
   (\<exists>q. prefix q p \<and> os_out (ffs_os (snd (ffs_write_all p f))) = os_out (ffs_os f) @ q)"
  using ffs.rd_full ffs.rd_short ffs.wr_ok ffs.wr_prefix by blast

lemma ffs_transport_exact_witness:
  "fst (ffs_read_exact 3 (ffs_io_init
      \<lparr>os_rd = [RdData [1], RdErr EINTR, RdData [], RdData [2, 3, 4]], os_wr = [], os_out = []\<rparr>))
    = Some [1, 2, 3]"
  using ffs_transport_exact [of 3 "ffs_io_init
      \<lparr>os_rd = [RdData [1], RdErr EINTR, RdData [], RdData [2, 3, 4]], os_wr = [], os_out = []\<rparr>"]
  by (simp add: ffs_io_init_def ffs_input_def)

end
