(* ===== verification/Harp_Link.thy ===== *)
theory Harp_Link
  imports Harp_Cbor Harp_Frame Harp_Io
begin

text \<open>
  \<^verbatim>\<open>core/src/link.c\<close>: message reassembly and fragmentation over a byte pipe.  \<open>harp_link_recv\<close> is the
  unbounded \<^verbatim>\<open>for (;;)\<close> loop over frames, a partial function (\<open>None\<close> would mean that it never returns;
  \<open>link_recv_returns\<close> shows that it always does on a transport that keeps the \<open>byte_pipe\<close> contract).  The
  transport's \<^verbatim>\<open>read_exact\<close> and \<^verbatim>\<open>write_all\<close> are arguments, as they are function pointers in C.
\<close>

unbundle bit_operations_syntax

type_synonym harp_link = "harp_cbuf list"

definition harp_link_init :: "harp_link \<Rightarrow> harp_link" where
  "harp_link_init l = map harp_cbuf_init l"

definition harp_link_free :: "harp_link \<Rightarrow> harp_link" where
  "harp_link_free l = map harp_cbuf_free l"

definition harp_stream_msg_cap :: "u8 \<Rightarrow> nat" where
  "harp_stream_msg_cap stream =
     (if stream = HARP_STREAM_CTL then HARP_CTL_MAX_PAYLOAD
      else if stream = HARP_STREAM_EVT then HARP_EVT_MAX_PAYLOAD
      else if stream = HARP_STREAM_LOG then HARP_LOG_MAX_PAYLOAD
      else HARP_OBJ_MAX_PAYLOAD)"

text \<open>The return codes 0 (with the stream), -1 and -2.\<close>

datatype recv_rc = RecvOk u8 | RecvIo | RecvProto

text \<open>
  One turn of the loop: \<open>Inl\<close> a return from the function, \<open>Inr\<close> the next turn.  \<open>link_deliver\<close> is the part
  after the payload has been read.
\<close>

definition link_deliver ::
  "harp_frame_hdr \<Rightarrow> bytes \<Rightarrow> harp_link \<Rightarrow> harp_cbuf \<Rightarrow> 's
   \<Rightarrow> (recv_rc \<times> harp_link \<times> harp_cbuf \<times> 's) + (harp_link \<times> 's)" where
  "link_deliver h payload l msg s =
     (if unat (fh_stream h) \<ge> 4 then Inr (l, s)
      else
        let i = unat (fh_stream h);
            acc = harp_cbuf_put (l ! i) payload;
            l = l[i := acc];
            cap = harp_stream_msg_cap (fh_stream h)
        in if cb_oom acc then Inl (RecvProto, l, msg, s)
           else if cap \<noteq> 0 \<and> length (cb_buf acc) > cap then Inl (RecvProto, l, msg, s)
           else if fh_flags h AND HARP_FLAG_FIN \<noteq> 0 then
             let msg = harp_cbuf_put (harp_cbuf_reset msg) (cb_buf acc);
                 l = l[i := harp_cbuf_reset acc]
             in Inl (if cb_oom msg then RecvProto else RecvOk (fh_stream h), l, msg, s)
           else Inr (l, s))"

definition recv_frame ::
  "(nat \<Rightarrow> 's \<Rightarrow> bytes option \<times> 's) \<Rightarrow> harp_link \<Rightarrow> harp_cbuf \<Rightarrow> 's
   \<Rightarrow> (recv_rc \<times> harp_link \<times> harp_cbuf \<times> 's) + (harp_link \<times> 's)" where
  "recv_frame rd l msg s =
     (case rd 8 s of
        (None, s) \<Rightarrow> Inl (RecvIo, l, msg, s)
      | (Some hdr, s) \<Rightarrow>
          (case harp_frame_hdr_decode hdr of
             (False, h) \<Rightarrow> Inl (RecvProto, l, msg, s)
           | (True, h) \<Rightarrow>
               (case (if fh_length h \<noteq> 0 then rd (unat (fh_length h)) s else (Some [], s)) of
                  (None, s) \<Rightarrow> Inl (RecvIo, l, msg, s)
                | (Some payload, s) \<Rightarrow> link_deliver h payload l msg s)))"

partial_function (option) harp_link_recv ::
  "(nat \<Rightarrow> 's \<Rightarrow> bytes option \<times> 's) \<Rightarrow> harp_link \<Rightarrow> harp_cbuf \<Rightarrow> 's
   \<Rightarrow> (recv_rc \<times> harp_link \<times> harp_cbuf \<times> 's) option" where
  "harp_link_recv rd l msg s =
     (case recv_frame rd l msg s of
        Inl r \<Rightarrow> Some r
      | Inr (l', s') \<Rightarrow> harp_link_recv rd l' msg s')"

text \<open>
  Writing one chunk, with the \<^verbatim>\<open>--corrupt-ctl-pct\<close> fault injection of the test device: \<open>cf\<close> is the static
  frame counter, an \<^verbatim>\<open>unsigned\<close> that wraps.
\<close>

definition send_chunk ::
  "(bytes \<Rightarrow> 's \<Rightarrow> bool \<times> 's) \<Rightarrow> int \<Rightarrow> u32 \<Rightarrow> bytes \<Rightarrow> 's \<Rightarrow> bool \<times> 's" where
  "send_chunk wr pct fn p s =
     (if 0 < pct \<and> pct \<le> 100 \<and> uint (((fn + 1) * 2654435761) mod 100) < pct then
        let bi = unat fn mod length p;
            bad = p ! bi XOR 0xff
        in case (if bi \<noteq> 0 then wr (take bi p) s else (True, s)) of
             (False, s) \<Rightarrow> (False, s)
           | (True, s) \<Rightarrow>
               (case wr [bad] s of
                  (False, s) \<Rightarrow> (False, s)
                | (True, s) \<Rightarrow>
                    if bi + 1 < length p then wr (drop (bi + 1) p) s else (True, s))
      else wr p s)"

function harp_link_send ::
  "(bytes \<Rightarrow> 's \<Rightarrow> bool \<times> 's) \<Rightarrow> int \<Rightarrow> u8 \<Rightarrow> u32 \<Rightarrow> bytes \<Rightarrow> 's \<Rightarrow> int \<times> u32 \<times> 's" where
  "harp_link_send wr pct stream cf data s =
     (let chunk = min (length data) HARP_FRAME_MAX_PAYLOAD;
          h = \<lparr>fh_fver = HARP_FRAME_FVER, fh_stream = stream,
               fh_flags = (if chunk = length data then HARP_FLAG_FIN else 0),
               fh_length = of_nat chunk\<rparr>
      in case wr (harp_frame_hdr_encode h) s of
           (False, s) \<Rightarrow> (- 1, cf, s)
         | (True, s) \<Rightarrow>
             (case (if chunk \<noteq> 0 then send_chunk wr pct cf (take chunk data) s else (True, s)) of
                (False, s) \<Rightarrow> (- 1, cf + 1, s)
              | (True, s) \<Rightarrow>
                  let cf = (if chunk \<noteq> 0 then cf + 1 else cf)
                  in if drop chunk data = [] then (0, cf, s)
                     else harp_link_send wr pct stream cf (drop chunk data) s))"
  by pat_completeness auto
termination
  by (relation "measure (\<lambda>(wr, pct, stream, cf, data, s). length data)") auto

declare harp_link_send.simps [simp del]

section \<open>The frames of a message\<close>

function link_frames :: "u8 \<Rightarrow> bytes \<Rightarrow> bytes" where
  "link_frames stream data =
     (if length data \<le> HARP_FRAME_MAX_PAYLOAD
      then harp_frame_hdr_encode \<lparr>fh_fver = HARP_FRAME_FVER, fh_stream = stream,
             fh_flags = HARP_FLAG_FIN, fh_length = of_nat (length data)\<rparr> @ data
      else harp_frame_hdr_encode \<lparr>fh_fver = HARP_FRAME_FVER, fh_stream = stream,
             fh_flags = 0, fh_length = of_nat HARP_FRAME_MAX_PAYLOAD\<rparr> @
           take HARP_FRAME_MAX_PAYLOAD data @ link_frames stream (drop HARP_FRAME_MAX_PAYLOAD data))"
  by pat_completeness auto
termination
  by (relation "measure (\<lambda>(stream, data). length data)") auto

declare link_frames.simps [simp del]

section \<open>Memory\<close>

lemma grow_le_double: "c < n \<Longrightarrow> grow c n \<le> 2 * n"
proof (induction c n rule: grow.induct)
  case (1 c n)
  then show ?case
    by (cases "c = 0"; cases "2 * c < n")
      (auto simp: grow.simps [of c n] grow.simps [of 0 n] grow.simps [of "2 * c" n])
qed

lemma harp_cbuf_put_fits:
  assumes "\<not> cb_oom b" and "length (cb_buf b) + length xs \<le> m" and "max 256 (2 * m) \<le> cb_avail b"
  shows "\<not> cb_oom (harp_cbuf_put b xs)" and "cb_buf (harp_cbuf_put b xs) = cb_buf b @ xs"
proof -
  let ?c = "if cb_cap b \<noteq> 0 then cb_cap b else 256" and ?n = "length (cb_buf b) + length xs"
  have "\<not> ?n \<le> cb_cap b \<Longrightarrow> grow ?c ?n \<le> max 256 (2 * ?n)"
    using grow_le_double [of ?c ?n] grow_done [of ?n ?c] by (cases "?c < ?n") auto
  with assms have "\<not> ?n \<le> cb_cap b \<Longrightarrow> \<not> cb_avail b < grow ?c ?n" by auto
  then show "\<not> cb_oom (harp_cbuf_put b xs)" "cb_buf (harp_cbuf_put b xs) = cb_buf b @ xs"
    using assms(1) by (auto simp: harp_cbuf_put_def ensure_def Let_def)
qed

section \<open>Receiving what was sent\<close>

text \<open>The buffer is not in the error state and its allocator can hold a message of \<open>m\<close> bytes.\<close>

definition link_room :: "harp_cbuf \<Rightarrow> nat \<Rightarrow> bool" where
  "link_room b m \<longleftrightarrow> \<not> cb_oom b \<and> max 256 (2 * m) \<le> cb_avail b"

lemma link_deliver_frame: "link_deliver h p l msg s = Inr (l', s') \<Longrightarrow> s' = s"
  by (auto simp: link_deliver_def Let_def split: if_splits)

text \<open>Every accumulator is within its stream's message limit, up to \<open>k\<close> more bytes.\<close>

definition link_within :: "nat \<Rightarrow> harp_link \<Rightarrow> bool" where
  "link_within k l \<longleftrightarrow>
     (\<forall>i < 4. length (cb_buf (l ! i)) \<le> harp_stream_msg_cap (of_nat i) + k)"

definition recv_bound :: "recv_rc \<Rightarrow> harp_link \<Rightarrow> harp_cbuf \<Rightarrow> bool" where
  "recv_bound rc l msg \<longleftrightarrow> length l = 4 \<and> link_within HARP_FRAME_MAX_PAYLOAD l \<and>
     (rc \<noteq> RecvProto \<longrightarrow> link_within 0 l) \<and>
     (\<forall>st. rc = RecvOk st \<longrightarrow> unat st < 4 \<and> length (cb_buf msg) \<le> harp_stream_msg_cap st)"

lemma link_within_mono: "link_within 0 l \<Longrightarrow> link_within k l"
  by (auto simp: link_within_def trans_le_add1)

lemma link_within_upd:
  assumes "link_within 0 l" and "length l = 4" and "i < 4"
    and "length (cb_buf b) \<le> harp_stream_msg_cap (of_nat i) + k"
  shows "link_within k (l[i := b])"
  using assms by (auto simp: link_within_def nth_list_update trans_le_add1)

lemma harp_cbuf_put_length: "length (cb_buf (harp_cbuf_put b p)) \<le> length (cb_buf b) + length p"
  by (auto simp: harp_cbuf_put_def ensure_def Let_def)

lemma harp_cbuf_reset_buf [simp]: "cb_buf (harp_cbuf_reset b) = []"
  by (simp add: harp_cbuf_reset_def)

lemma harp_stream_msg_cap_pos [simp]: "0 < harp_stream_msg_cap st"
  by (simp add: harp_stream_msg_cap_def)

lemma harp_frame_hdr_decode_len:
  "harp_frame_hdr_decode i = (ok, h) \<Longrightarrow> ok \<Longrightarrow> unat (fh_length h) \<le> HARP_FRAME_MAX_PAYLOAD"
  by (auto simp: harp_frame_hdr_decode_def Let_def word_less_nat_alt split: if_splits)

lemma link_deliver_bound:
  assumes "length l = 4" and "link_within 0 l" and "length p \<le> HARP_FRAME_MAX_PAYLOAD"
  shows "(\<forall>l' s'. link_deliver h p l msg s = Inr (l', s') \<longrightarrow> length l' = 4 \<and> link_within 0 l') \<and>
    (\<forall>rc l' msg' s'. link_deliver h p l msg s = Inl (rc, l', msg', s') \<longrightarrow> recv_bound rc l' msg')"
proof (cases "unat (fh_stream h) < 4")
  case True
  let ?i = "unat (fh_stream h)" and ?cap = "harp_stream_msg_cap (fh_stream h)"
  let ?a = "harp_cbuf_put (l ! ?i) p"
  have "length (cb_buf (l ! ?i)) \<le> ?cap"
    using True assms(2) by (auto simp: link_within_def dest: spec [of _ ?i])
  with harp_cbuf_put_length [of "l ! ?i" p] assms(3)
  have a: "link_within HARP_FRAME_MAX_PAYLOAD (l[?i := ?a])"
    by (intro link_within_upd assms True) simp
  have b: "length (cb_buf ?a) \<le> ?cap \<Longrightarrow> link_within 0 (l[?i := ?a])"
    by (intro link_within_upd assms True) simp
  have c: "link_within 0 (l[?i := harp_cbuf_reset ?a])"
    by (intro link_within_upd assms True) simp
  have d: "length (cb_buf (harp_cbuf_put (harp_cbuf_reset msg) (cb_buf ?a))) \<le> length (cb_buf ?a)"
    using harp_cbuf_put_length [of "harp_cbuf_reset msg" "cb_buf ?a"] by simp
  show ?thesis
    using True a b c d assms(1)
    by (auto simp: link_deliver_def Let_def recv_bound_def link_within_mono)
qed (use assms in \<open>auto simp: link_deliver_def\<close>)

context byte_pipe
begin

lemma recv_frame_input:
  assumes "inp s = harp_frame_hdr_encode h @ payload @ rest" and "frame_hdr_valid h"
    and "unat (fh_length h) = length payload"
  obtains s' where "inp s' = rest" and "out s' = out s"
    and "recv_frame rd l msg s = link_deliver h payload l msg s'"
proof -
  from assms(1) obtain s1 where
    1: "rd 8 s = (Some (harp_frame_hdr_encode h), s1)" "inp s1 = payload @ rest" "out s1 = out s"
    by (cases s rule: rd_cases [where n = 8]) auto
  have 2: "harp_frame_hdr_decode (harp_frame_hdr_encode h) = (True, h)"
    using assms(2) by (simp add: harp_frame_hdr_decode_encode)
  show thesis
  proof (cases "fh_length h = 0")
    case True
    with assms(3) 1 2 that [of s1] show thesis by (simp add: recv_frame_def)
  next
    case False
    from 1(2) assms(3) obtain s2 where
      "rd (unat (fh_length h)) s1 = (Some payload, s2)" "inp s2 = rest" "out s2 = out s1"
      by (cases s1 rule: rd_cases [where n = "unat (fh_length h)"]) auto
    with False 1 2 that [of s2] show thesis by (simp add: recv_frame_def)
  qed
qed

lemma recv_frame_consumes:
  "recv_frame rd l msg s = Inr (l', s') \<Longrightarrow> length (inp s') < length (inp s)"
proof (cases s rule: rd_cases [where n = 8])
  case (full s1)
  assume r: "recv_frame rd l msg s = Inr (l', s')"
  obtain ok h where h: "harp_frame_hdr_decode (take 8 (inp s)) = (ok, h)"
    by (cases "harp_frame_hdr_decode (take 8 (inp s))")
  show ?thesis
    by (cases s1 rule: rd_cases [where n = "unat (fh_length h)"])
      (use r full h in \<open>auto simp: recv_frame_def split: bool.splits if_splits
        dest!: link_deliver_frame\<close>)
qed (simp add: recv_frame_def)

text \<open>The receive loop always returns: every frame it goes past uses up at least its header.\<close>

lemma recv_returns: "\<exists>r. harp_link_recv rd l msg s = Some r"
proof (induction "length (inp s)" arbitrary: l s rule: less_induct)
  case less
  show ?case
  proof (cases "recv_frame rd l msg s")
    case (Inl r)
    then show ?thesis by (cases r) (simp add: harp_link_recv.simps)
  next
    case (Inr p)
    obtain l' s' where p: "p = (l', s')" by (cases p)
    with Inr recv_frame_consumes [of l msg s l' s'] less [of s' l'] show ?thesis
      by (simp add: harp_link_recv.simps [of rd l])
  qed
qed

text \<open>
  A message that arrives in frames is appended to whatever its stream has accumulated and handed out
  when the final frame is in; the other streams' accumulators are not touched.
\<close>

lemma recv_message:
  assumes "inp s = link_frames st data @ rest" and "unat st < 4" and "unat st < length l"
    and "length (cb_buf (l ! unat st)) + length data \<le> harp_stream_msg_cap st"
    and "link_room (l ! unat st) (harp_stream_msg_cap st)"
    and "max 256 (2 * harp_stream_msg_cap st) \<le> cb_avail msg"
  shows "\<exists>l' msg' s'. harp_link_recv rd l msg s = Some (RecvOk st, l', msg', s') \<and>
     cb_view msg' = Some (cb_buf (l ! unat st) @ data) \<and> inp s' = rest \<and> out s' = out s \<and>
     cb_buf (l' ! unat st) = [] \<and> (\<forall>j. j \<noteq> unat st \<longrightarrow> l' ! j = l ! j)"
  using assms
proof (induction st data arbitrary: l s rule: link_frames.induct)
  case (1 st data)
  let ?i = "unat st" and ?m = "harp_stream_msg_cap st"
  show ?case
  proof (cases "length data \<le> HARP_FRAME_MAX_PAYLOAD")
    case True
    let ?h = "\<lparr>fh_fver = HARP_FRAME_FVER, fh_stream = st, fh_flags = HARP_FLAG_FIN,
               fh_length = of_nat (length data)\<rparr>"
    have len: "unat (fh_length ?h) = length data"
      using True by (simp add: unat_of_nat take_bit_nat_eq_self)
    have v: "frame_hdr_valid ?h" using True len by (simp add: frame_hdr_valid_def)
    from 1(2) True have "inp s = harp_frame_hdr_encode ?h @ data @ rest"
      by (simp add: link_frames.simps [of st data])
    from recv_frame_input [OF this v len, of l msg] obtain s' where
      s': "inp s' = rest" "out s' = out s" "recv_frame rd l msg s = link_deliver ?h data l msg s'" .
    have acc: "\<not> cb_oom (harp_cbuf_put (l ! ?i) data)"
      "cb_buf (harp_cbuf_put (l ! ?i) data) = cb_buf (l ! ?i) @ data"
      using harp_cbuf_put_fits [of "l ! ?i" data ?m] 1(5,6) by (auto simp: link_room_def)
    have msg: "\<not> cb_oom (harp_cbuf_put (harp_cbuf_reset msg) (cb_buf (l ! ?i) @ data))"
      "cb_buf (harp_cbuf_put (harp_cbuf_reset msg) (cb_buf (l ! ?i) @ data)) = cb_buf (l ! ?i) @ data"
      using harp_cbuf_put_fits [of "harp_cbuf_reset msg" "cb_buf (l ! ?i) @ data" ?m] 1(5,7)
      by (auto simp: harp_cbuf_reset_def)
    show ?thesis
      using s' acc msg 1(3,4,5)
      by (simp add: harp_link_recv.simps link_deliver_def Let_def cb_view_def)
  next
    case False
    let ?h = "\<lparr>fh_fver = HARP_FRAME_FVER, fh_stream = st, fh_flags = 0,
               fh_length = of_nat HARP_FRAME_MAX_PAYLOAD\<rparr>"
    let ?p = "take HARP_FRAME_MAX_PAYLOAD data" and ?q = "drop HARP_FRAME_MAX_PAYLOAD data"
    have len: "unat (fh_length ?h) = length ?p" using False by simp
    have v: "frame_hdr_valid ?h" by (simp add: frame_hdr_valid_def)
    from 1(2) False have "inp s = harp_frame_hdr_encode ?h @ ?p @ (link_frames st ?q @ rest)"
      by (simp add: link_frames.simps [of st data])
    from recv_frame_input [OF this v len, of l msg] obtain s' where
      s': "inp s' = link_frames st ?q @ rest" "out s' = out s"
      "recv_frame rd l msg s = link_deliver ?h ?p l msg s'" .
    let ?acc = "harp_cbuf_put (l ! ?i) ?p"
    have acc: "\<not> cb_oom ?acc" "cb_buf ?acc = cb_buf (l ! ?i) @ ?p"
      using harp_cbuf_put_fits [of "l ! ?i" ?p ?m] 1(5,6) by (auto simp: link_room_def)
    have step: "recv_frame rd l msg s = Inr (l[?i := ?acc], s')"
    proof -
      have "\<not> harp_stream_msg_cap st < length (cb_buf ?acc)"
        using 1(5) unfolding acc(2) by simp
      with s'(3) acc(1) 1(3) show ?thesis
        unfolding link_deliver_def Let_def by simp
    qed
    have "\<exists>l' msg' t. harp_link_recv rd (l[?i := ?acc]) msg s' = Some (RecvOk st, l', msg', t) \<and>
       cb_view msg' = Some (cb_buf (l[?i := ?acc] ! ?i) @ ?q) \<and> inp t = rest \<and> out t = out s' \<and>
       cb_buf (l' ! ?i) = [] \<and> (\<forall>j. j \<noteq> ?i \<longrightarrow> l' ! j = l[?i := ?acc] ! j)"
      by (rule 1(1) [OF False s'(1) 1(3)]) (use 1(4-7) acc False in \<open>auto simp: link_room_def\<close>)
    then show ?thesis
      using step acc s'(2) 1(4) by (auto simp: harp_link_recv.simps [of rd l])
  qed
qed

text \<open>
  Memory: between calls every accumulator is within its stream's limit, and one frame past it when the
  receiver gives up on an oversized message.
\<close>

lemma recv_frame_bound:
  assumes "length l = 4" and "link_within 0 l"
  shows "(\<forall>l' s'. recv_frame rd l msg s = Inr (l', s') \<longrightarrow> length l' = 4 \<and> link_within 0 l') \<and>
    (\<forall>rc l' msg' s'. recv_frame rd l msg s = Inl (rc, l', msg', s') \<longrightarrow>
       recv_bound rc l' msg')"
proof (cases s rule: rd_cases [where n = 8])
  case (short s1)
  then show ?thesis
    using assms by (simp add: recv_frame_def recv_bound_def link_within_mono)
next
  case (full s1)
  obtain ok h where h: "harp_frame_hdr_decode (take 8 (inp s)) = (ok, h)"
    by (cases "harp_frame_hdr_decode (take 8 (inp s))")
  have "recv_frame rd l msg s = Inl (RecvProto, l, msg, s1) \<or>
    (\<exists>s2. recv_frame rd l msg s = Inl (RecvIo, l, msg, s2)) \<or>
    (\<exists>p s2. length p \<le> HARP_FRAME_MAX_PAYLOAD \<and> recv_frame rd l msg s = link_deliver h p l msg s2)"
  proof (cases ok)
    case True
    then have n: "unat (fh_length h) \<le> HARP_FRAME_MAX_PAYLOAD"
      using harp_frame_hdr_decode_len [OF h] by simp
    show ?thesis
    proof (cases "fh_length h = 0")
      case zero: True
      have "recv_frame rd l msg s = link_deliver h [] l msg s1"
        using full h True zero by (simp add: recv_frame_def)
      then show ?thesis by (metis le0 list.size(3))
    next
      case nz: False
      show ?thesis
      proof (cases s1 rule: rd_cases [where n = "unat (fh_length h)"])
        case full2: (full s2)
        have "recv_frame rd l msg s = link_deliver h (take (unat (fh_length h)) (inp s1)) l msg s2"
          using full h True nz full2 by (simp add: recv_frame_def)
        moreover have "length (take (unat (fh_length h)) (inp s1)) \<le> HARP_FRAME_MAX_PAYLOAD"
          using n by (simp add: min.coboundedI2)
        ultimately show ?thesis by blast
      qed (use full h True nz in \<open>simp add: recv_frame_def\<close>)
    qed
  qed (use full h in \<open>simp add: recv_frame_def\<close>)
  then consider "recv_frame rd l msg s = Inl (RecvProto, l, msg, s1)"
    | s2 where "recv_frame rd l msg s = Inl (RecvIo, l, msg, s2)"
    | p s2 where "length p \<le> HARP_FRAME_MAX_PAYLOAD" "recv_frame rd l msg s = link_deliver h p l msg s2"
    by blast
  then show ?thesis
  proof cases
    case (3 p s2)
    then show ?thesis using link_deliver_bound [OF assms 3(1), of h msg s2] by simp
  qed (use assms in \<open>simp_all add: recv_bound_def link_within_mono\<close>)
qed

lemma recv_bounded:
  assumes "harp_link_recv rd l msg s = Some (rc, l', msg', s')"
    and "length l = 4" and "link_within 0 l"
  shows "recv_bound rc l' msg'"
  using assms
proof (induction "length (inp s)" arbitrary: l s rule: less_induct)
  case less
  show ?case
  proof (cases "recv_frame rd l msg s")
    case (Inl q)
    with less(2) recv_frame_bound [OF less(3,4), of msg s] show ?thesis
      by (simp add: harp_link_recv.simps [of rd l])
  next
    case (Inr q)
    obtain l1 s1 where q: "q = (l1, s1)" by (cases q)
    from Inr q less(2) have "harp_link_recv rd l1 msg s1 = Some (rc, l', msg', s')"
      by (simp add: harp_link_recv.simps [of rd l])
    moreover have "length l1 = 4" "link_within 0 l1" "length (inp s1) < length (inp s)"
      using recv_frame_bound [OF less(3,4), of msg s] recv_frame_consumes Inr q by auto
    ultimately show ?thesis using less(1) by blast
  qed
qed

text \<open>
  What a successful send puts on the wire: the frames of the message itself, or, when the fault injector
  is on, the frames of a message of the same length.
\<close>

lemma wr_okD: "wr p s = (True, s') \<Longrightarrow> out s' = out s @ p \<and> inp s' = inp s"
  using wr_ok [of p s] wr_inp [of p s] by simp

lemma send_chunk_out:
  assumes "send_chunk wr pct fn p s = (True, s')" and "p \<noteq> []"
  shows "\<exists>q. length q = length p \<and> out s' = out s @ q \<and> inp s' = inp s \<and> (pct = 0 \<longrightarrow> q = p)"
proof (cases "0 < pct \<and> pct \<le> 100 \<and> uint (((fn + 1) * 2654435761) mod 100) < pct")
  case False
  with assms wr_okD [of p s s'] show ?thesis by (auto simp: send_chunk_def)
next
  case True
  let ?b = "unat fn mod length p"
  have b: "?b < length p" using assms(2) by simp
  from True assms(1) obtain s1 s2 where
    "(if ?b \<noteq> 0 then wr (take ?b p) s else (True, s)) = (True, s1)"
    "wr [p ! ?b XOR 0xff] s1 = (True, s2)"
    "(if ?b + 1 < length p then wr (drop (?b + 1) p) s2 else (True, s2)) = (True, s')"
    unfolding send_chunk_def Let_def by (auto split: prod.splits bool.splits)
  then have "out s' = out s @ (take ?b p @ [p ! ?b XOR 0xff] @ drop (?b + 1) p) \<and> inp s' = inp s"
    by (auto split: if_splits dest!: wr_okD)
  moreover have "length (take ?b p @ [p ! ?b XOR 0xff] @ drop (?b + 1) p) = length p"
    using b by simp
  ultimately show ?thesis using True by blast
qed

lemma send_out:
  assumes "harp_link_send wr pct st cf data s = (0, cf', s')"
  shows "\<exists>data'. length data' = length data \<and> out s' = out s @ link_frames st data' \<and>
    inp s' = inp s \<and> (pct = 0 \<longrightarrow> data' = data)"
  using assms
proof (induction "length data" arbitrary: data cf s rule: less_induct)
  case less
  let ?c = "min (length data) HARP_FRAME_MAX_PAYLOAD" and ?q = "drop HARP_FRAME_MAX_PAYLOAD data"
  let ?h = "\<lparr>fh_fver = HARP_FRAME_FVER, fh_stream = st,
     fh_flags = (if ?c = length data then HARP_FLAG_FIN else 0), fh_length = of_nat ?c\<rparr>"
  from less(2) obtain s1 s2 cf1 where
    h: "wr (harp_frame_hdr_encode ?h) s = (True, s1)" and
    c: "(if ?c \<noteq> 0 then send_chunk wr pct cf (take ?c data) s1 else (True, s1)) = (True, s2)" and
    r: "if drop ?c data = [] then s2 = s' else harp_link_send wr pct st cf1 (drop ?c data) s2 = (0, cf', s')"
    by (subst (asm) harp_link_send.simps)
      (auto simp: Let_def split: prod.splits bool.splits if_splits)
  have s1: "out s1 = out s @ harp_frame_hdr_encode ?h" "inp s1 = inp s"
    using wr_okD [OF h] by auto
  have "\<exists>q. length q = ?c \<and> out s2 = out s1 @ q \<and> inp s2 = inp s1 \<and> (pct = 0 \<longrightarrow> q = take ?c data)"
    using send_chunk_out [of pct cf "take ?c data" s1 s2] c
    by (cases "?c = 0") (auto split: if_splits)
  then obtain q where q: "length q = ?c" "out s2 = out s1 @ q" "inp s2 = inp s1"
    "pct = 0 \<longrightarrow> q = take ?c data" by blast
  show ?case
  proof (cases "length data \<le> HARP_FRAME_MAX_PAYLOAD")
    case True
    with r q s1 show ?thesis
      by (intro exI [of _ q]) (simp add: min_absorb1 link_frames.simps [of st q])
  next
    case False
    then have c': "?c = HARP_FRAME_MAX_PAYLOAD" by simp
    with r False have "harp_link_send wr pct st cf1 ?q s2 = (0, cf', s')" by (simp split: if_splits)
    then obtain d' where d': "length d' = length ?q" "out s' = out s2 @ link_frames st d'"
      "inp s' = inp s2" "pct = 0 \<longrightarrow> d' = ?q"
    proof -
      have "length ?q < length data" using False by simp
      from less(1) [OF this, of cf1 s2] \<open>harp_link_send wr pct st cf1 ?q s2 = (0, cf', s')\<close> that
      show thesis by blast
    qed
    have "link_frames st (q @ d') = harp_frame_hdr_encode ?h @ q @ link_frames st d'"
      using False q(1) d'(1) by (subst link_frames.simps) simp
    with d' q s1 False show ?thesis
      by (intro exI [of _ "q @ d'"]) (auto simp: min_def)
  qed
qed

end

section \<open>The link over the transports\<close>

text \<open>
  C23: What one side sends, the other side receives.  If \<open>harp_link_send\<close> reports success on a socket (fault
  injection off), and the receiver's socket delivers the bytes written, in whatever bursts and with whatever
  interrupted calls, followed by anything else, then \<open>harp_link_recv\<close> returns the stream and exactly the
  message, for every message within the stream's size limit, leaves the following bytes unread, empties the
  stream's accumulator and does not touch the other streams' partial messages.
\<close>

theorem link_roundtrip:
  assumes "harp_link_send fd_write_all 0 st cf data s = (0, cf', s')" and "os_out s = []"
    and "fd_input (os_rd r) = os_out s' @ rest"
    and "unat st < 4" and "length l = 4" and "length data \<le> harp_stream_msg_cap st"
    and "cb_buf (l ! unat st) = []" and "link_room (l ! unat st) (harp_stream_msg_cap st)"
    and "link_room msg (harp_stream_msg_cap st)"
  shows "\<exists>l' msg' r'. harp_link_recv fd_read_exact l msg r = Some (RecvOk st, l', msg', r') \<and>
     cb_view msg' = Some data \<and> fd_input (os_rd r') = rest \<and> cb_buf (l' ! unat st) = [] \<and>
     (\<forall>j. j \<noteq> unat st \<longrightarrow> l' ! j = l ! j)"
proof -
  from fd.send_out [OF assms(1)] assms(2,3) have "fd_input (os_rd r) = link_frames st data @ rest"
    by auto
  from fd.recv_message [of r, OF this, of l msg] assms(4-9) show ?thesis
    by (auto simp: link_room_def)
qed

lemma link_roundtrip_witness:
  "\<exists>l' msg' r'. harp_link_recv fd_read_exact (replicate 4 \<lparr>cb_buf = [], cb_cap = 0, cb_oom = False, cb_avail = 200000\<rparr>)
       \<lparr>cb_buf = [], cb_cap = 0, cb_oom = False, cb_avail = 200000\<rparr>
       \<lparr>os_rd = [RdData [1, 0, 1], RdErr EINTR, RdData [0, 2, 0, 0], RdData [0, 7, 9]], os_wr = [], os_out = []\<rparr>
     = Some (RecvOk 0, l', msg', r') \<and> cb_view msg' = Some [7, 9]"
proof -
  let ?b = "\<lparr>cb_buf = [], cb_cap = 0, cb_oom = False, cb_avail = 200000\<rparr>"
  let ?s = "\<lparr>os_rd = [], os_wr = [WrTake 3, WrErr EINTR], os_out = []\<rparr>"
  let ?r = "\<lparr>os_rd = [RdData [1, 0, 1], RdErr EINTR, RdData [0, 2, 0, 0], RdData [0, 7, 9]],
             os_wr = [], os_out = []\<rparr>"
  have s: "harp_link_send fd_write_all 0 0 0 [7, 9] ?s
      = (0, 1, \<lparr>os_rd = [], os_wr = [], os_out = [1, 0, 1, 0, 2, 0, 0, 0, 7, 9]\<rparr>)"
    by code_simp
  show ?thesis
    using link_roundtrip [OF s, of ?r "[]" "replicate 4 ?b" ?b]
    by (auto simp: link_room_def harp_stream_msg_cap_def)
qed

text \<open>
  The fault injector never breaks the framing.  With any corruption percentage, a successful send writes
  the frames of some message of the same length as the one given, so the receiver stays in step and sees at
  most a wrong payload.
\<close>

theorem link_corruption_keeps_framing:
  assumes "harp_link_send ffs_write_all pct st cf data f = (0, cf', f')"
  shows "\<exists>data'. length data' = length data \<and>
    os_out (ffs_os f') = os_out (ffs_os f) @ link_frames st data'"
  using ffs.send_out [OF assms] by blast

lemma link_corruption_keeps_framing_witness:
  "\<exists>data'. length data' = length ([7, 9] :: bytes) \<and>
     [1, 0, 1, 0, 2, 0, 0, 0, 0xf8, 9] = [] @ link_frames 0 data'"
proof -
  have s: "harp_link_send ffs_write_all 100 0 0 [7, 9] (ffs_io_init \<lparr>os_rd = [], os_wr = [], os_out = []\<rparr>)
    = (0, 1, ffs_io_init \<lparr>os_rd = [], os_wr = [], os_out = [1, 0, 1, 0, 2, 0, 0, 0, 0xf8, 9]\<rparr>)"
    by code_simp
  show ?thesis using link_corruption_keeps_framing [OF s] by (simp add: ffs_io_init_def)
qed


text \<open>
  C27: A peer cannot make the receiver's memory grow without limit.  Starting from accumulators within the
  per-stream limits, \<open>harp_link_recv\<close> delivers only messages within the stream's limit, keeps all four
  accumulators within their limits unless it reports a protocol error, and even then no accumulator exceeds
  its limit by more than one frame.
\<close>

theorem link_recv_bounded:
  assumes "harp_link_recv fd_read_exact l msg s = Some (rc, l', msg', s')"
    and "length l = 4" and "link_within 0 l"
  shows "length l' = 4 \<and> link_within HARP_FRAME_MAX_PAYLOAD l' \<and>
    (rc \<noteq> RecvProto \<longrightarrow> link_within 0 l') \<and>
    (\<forall>st. rc = RecvOk st \<longrightarrow> unat st < 4 \<and> length (cb_buf msg') \<le> harp_stream_msg_cap st)"
  using fd.recv_bounded [OF assms] by (simp add: recv_bound_def)

lemma link_recv_bounded_witness:
  "link_within HARP_FRAME_MAX_PAYLOAD
     (replicate 4 \<lparr>cb_buf = [], cb_cap = 0, cb_oom = False, cb_avail = 10\<rparr>)"
proof -
  let ?l = "replicate 4 \<lparr>cb_buf = [], cb_cap = 0, cb_oom = False, cb_avail = 10\<rparr>"
  let ?s = "\<lparr>os_rd = [], os_wr = [], os_out = []\<rparr>"
  have w: "link_within 0 ?l" by (simp add: link_within_def)
  have "harp_link_recv fd_read_exact ?l (?l ! 0) ?s = Some (RecvIo, ?l, ?l ! 0, ?s)"
    by (simp add: harp_link_recv.simps recv_frame_def fd_read_exact_def harp_read_exact.simps)
  from link_recv_bounded [OF this _ w] show ?thesis by simp
qed

end
