(* ===== verification/Harp_Logring.thy ===== *)
theory Harp_Logring
  imports Harp_Cbor
begin

text \<open>
  \<^verbatim>\<open>device/log_ring.c\<close>: the device log, a circular byte buffer of length-prefixed records that drops the oldest
  records when it is full.  The abstract log is a list of records; \<open>ring_holds\<close> relates the two, and every
  operation of the ring is shown to implement the operation on lists.  The scalars of a record header are packed
  in the byte order of the host, here little-endian.
\<close>

unbundle bit_operations_syntax

section \<open>The code\<close>

definition HARP_LOGRING_CAP :: nat where "HARP_LOGRING_CAP = 128 * 1024"
definition HARP_LOGRING_BUNDLE_MAX :: nat where "HARP_LOGRING_BUNDLE_MAX = 32 * 1024"
definition LOGREC_TAG_MAX :: nat where "LOGREC_TAG_MAX = 31"
definition LOGREC_MSG_MAX :: nat where "LOGREC_MSG_MAX = 480"
definition HDR_BYTES :: nat where "HDR_BYTES = 16"

record logring =
  lr_buf :: bytes
  lr_head :: nat
  lr_tail :: nat
  lr_used :: nat
  lr_nrec :: nat
  lr_dropped :: u64

text \<open>\<^verbatim>\<open>memcpy(dst + pos, p, n)\<close> inside an array.\<close>

definition memcpy_at :: "bytes \<Rightarrow> nat \<Rightarrow> bytes \<Rightarrow> bytes" where
  "memcpy_at dst pos p = take pos dst @ p @ drop (pos + length p) dst"

definition ring_put :: "bytes \<Rightarrow> nat \<Rightarrow> bytes \<Rightarrow> bytes" where
  "ring_put buf pos p =
     (let first = HARP_LOGRING_CAP - pos
      in if length p \<le> first then memcpy_at buf pos p
         else memcpy_at (memcpy_at buf pos (take first p)) 0 (drop first p))"

definition ring_get :: "bytes \<Rightarrow> nat \<Rightarrow> nat \<Rightarrow> bytes" where
  "ring_get buf pos n =
     (let first = HARP_LOGRING_CAP - pos
      in if n \<le> first then take n (drop pos buf)
         else take first (drop pos buf) @ take (n - first) buf)"

definition rec_len_at :: "bytes \<Rightarrow> nat \<Rightarrow> nat" where
  "rec_len_at buf pos = unat (le_val (ring_get buf pos 4) :: u32)"

text \<open>The eviction loop of \<^verbatim>\<open>ring_append_locked\<close>.\<close>

function ring_evict :: "logring \<Rightarrow> nat \<Rightarrow> logring" where
  "ring_evict r tot =
     (if lr_used r + tot > HARP_LOGRING_CAP \<and> lr_nrec r > 0 then
        let rl = rec_len_at (lr_buf r) (lr_tail r)
        in ring_evict (r\<lparr>lr_tail := (lr_tail r + rl) mod HARP_LOGRING_CAP, lr_used := lr_used r - rl,
                         lr_nrec := lr_nrec r - 1, lr_dropped := lr_dropped r + 1\<rparr>) tot
      else r)"
  by pat_completeness auto
termination
  by (relation "measure (\<lambda>(r, tot). lr_nrec r)") (auto simp: Let_def)

declare ring_evict.simps [simp del]

text \<open>The header \<^verbatim>\<open>h[HDR_BYTES]\<close>: total, msc, message length, level, tag length.\<close>

definition rec_header :: "nat \<Rightarrow> u64 \<Rightarrow> nat \<Rightarrow> int \<Rightarrow> nat \<Rightarrow> bytes" where
  "rec_header tot msc msglen level taglen =
     le_bytes 4 (of_nat tot :: u32) @ le_bytes 8 msc @ le_bytes 2 (of_nat msglen :: u16) @
     [of_int level, of_nat taglen]"

definition ring_append_locked :: "logring \<Rightarrow> int \<Rightarrow> bytes \<Rightarrow> u64 \<Rightarrow> bytes \<Rightarrow> logring" where
  "ring_append_locked r level tag msc msg =
     (let taglen = min (length tag) LOGREC_TAG_MAX; msglen = min (length msg) LOGREC_MSG_MAX;
          tot = HDR_BYTES + taglen + msglen
      in if tot > HARP_LOGRING_CAP then r
         else
           let r = ring_evict r tot;
               head = lr_head r;
               buf = ring_put (lr_buf r) head (rec_header tot msc msglen level taglen);
               buf = ring_put buf ((head + HDR_BYTES) mod HARP_LOGRING_CAP) (take taglen tag);
               buf = ring_put buf ((head + HDR_BYTES + taglen) mod HARP_LOGRING_CAP) (take msglen msg)
           in r\<lparr>lr_buf := buf, lr_head := (head + tot) mod HARP_LOGRING_CAP,
                lr_used := lr_used r + tot, lr_nrec := lr_nrec r + 1\<rparr>)"

text \<open>The line is the output of the formatting; \<^verbatim>\<open>vsnprintf\<close> keeps 1023 bytes, trailing newlines are stripped.\<close>

definition harp_devlog :: "logring \<Rightarrow> int \<Rightarrow> bytes \<Rightarrow> bytes \<Rightarrow> logring" where
  "harp_devlog r level tag line =
     ring_append_locked r level tag 0
       (rev (dropWhile (\<lambda>c. c = 10 \<or> c = 13) (rev (take (min (length line) 1023) line))))"

definition harp_devlog_put :: "logring \<Rightarrow> int \<Rightarrow> bytes \<Rightarrow> u64 \<Rightarrow> bytes \<Rightarrow> logring" where
  "harp_devlog_put r level tag msc msg = ring_append_locked r level tag msc msg"

text \<open>The first loop of \<^verbatim>\<open>harp_devlog_emit_cbor\<close> skips old records, the second writes the others.\<close>

fun emit_skip :: "bytes \<Rightarrow> nat \<Rightarrow> nat \<Rightarrow> nat \<Rightarrow> nat \<Rightarrow> nat \<times> nat" where
  "emit_skip buf mx cur remain 0 = (cur, 0)"
| "emit_skip buf mx cur remain (Suc nrec) =
     (if remain > mx then
        let rl = rec_len_at buf cur
        in emit_skip buf mx ((cur + rl) mod HARP_LOGRING_CAP) (remain - rl) nrec
      else (cur, Suc nrec))"

fun emit_records :: "bytes \<Rightarrow> nat \<Rightarrow> nat \<Rightarrow> harp_cbuf \<Rightarrow> harp_cbuf" where
  "emit_records buf 0 cur m = m"
| "emit_records buf (Suc n) cur m =
     (let h = ring_get buf cur HDR_BYTES;
          tot = unat (le_val (take 4 h) :: u32);
          msc = (le_val (take 8 (drop 4 h)) :: u64);
          msglen = unat (le_val (take 2 (drop 12 h)) :: u16);
          level = h ! 14; taglen = unat (h ! 15);
          tag = ring_get buf ((cur + HDR_BYTES) mod HARP_LOGRING_CAP) taglen;
          msg = ring_get buf ((cur + HDR_BYTES + taglen) mod HARP_LOGRING_CAP) msglen;
          m = harp_cbor_map m 4;
          m = harp_cbor_uint m 0;
          m = harp_cbor_uint m msc;
          m = harp_cbor_uint m 1;
          m = harp_cbor_uint m (ucast level);
          m = harp_cbor_uint m 2;
          m = harp_cbor_textn m tag;
          m = harp_cbor_uint m 3;
          m = harp_cbor_textn m msg
      in emit_records buf n ((cur + tot) mod HARP_LOGRING_CAP) m)"

definition harp_devlog_emit_cbor :: "logring \<Rightarrow> harp_cbuf \<Rightarrow> nat \<Rightarrow> harp_cbuf" where
  "harp_devlog_emit_cbor r m max_payload =
     (case emit_skip (lr_buf r) max_payload (lr_tail r) (lr_used r) (lr_nrec r) of
        (cur, nrec) \<Rightarrow> emit_records (lr_buf r) nrec cur (harp_cbor_array m (of_nat nrec)))"

definition harp_devlog_count :: "logring \<Rightarrow> nat" where "harp_devlog_count r = lr_nrec r"
definition harp_devlog_used :: "logring \<Rightarrow> nat" where "harp_devlog_used r = lr_used r"
definition harp_devlog_capacity :: nat where "harp_devlog_capacity = HARP_LOGRING_CAP"
definition harp_devlog_dropped :: "logring \<Rightarrow> u64" where "harp_devlog_dropped r = lr_dropped r"

definition harp_devlog_reset :: "logring \<Rightarrow> logring" where
  "harp_devlog_reset r = r\<lparr>lr_head := 0, lr_tail := 0, lr_used := 0, lr_nrec := 0, lr_dropped := 0\<rparr>"

section \<open>The abstract log\<close>

record logrec =
  lg_level :: u8
  lg_tag :: bytes
  lg_msc :: u64
  lg_msg :: bytes

definition log_size :: "logrec \<Rightarrow> nat" where
  "log_size g = HDR_BYTES + length (lg_tag g) + length (lg_msg g)"

abbreviation log_total :: "logrec list \<Rightarrow> nat" where
  "log_total gs \<equiv> sum_list (map log_size gs)"

definition log_ok :: "logrec \<Rightarrow> bool" where
  "log_ok g \<longleftrightarrow> length (lg_tag g) \<le> LOGREC_TAG_MAX \<and> length (lg_msg g) \<le> LOGREC_MSG_MAX"

text \<open>The shortest tail of the log, in records dropped, that fits a budget.\<close>

fun log_trim :: "nat \<Rightarrow> logrec list \<Rightarrow> logrec list" where
  "log_trim budget [] = []"
| "log_trim budget (g # gs) = (if log_total (g # gs) > budget then log_trim budget gs else g # gs)"

definition log_rec :: "int \<Rightarrow> bytes \<Rightarrow> u64 \<Rightarrow> bytes \<Rightarrow> logrec" where
  "log_rec level tag msc msg =
     \<lparr>lg_level = of_int level, lg_tag = take LOGREC_TAG_MAX tag, lg_msc = msc, lg_msg = take LOGREC_MSG_MAX msg\<rparr>"

definition log_append :: "logrec list \<Rightarrow> logrec \<Rightarrow> logrec list" where
  "log_append gs g = log_trim (HARP_LOGRING_CAP - log_size g) gs @ [g]"

definition log_cbor :: "logrec \<Rightarrow> bytes" where
  "log_cbor g = head_bytes 5 4 @ enc_uint 0 @ enc_uint (lg_msc g) @ enc_uint 1 @ enc_uint (ucast (lg_level g)) @
     enc_uint 2 @ enc_text (lg_tag g) @ enc_uint 3 @ enc_text (lg_msg g)"

text \<open>The bytes of a record on the ring.\<close>

definition rec_bytes :: "logrec \<Rightarrow> bytes" where
  "rec_bytes g =
     le_bytes 4 (of_nat (log_size g) :: u32) @ le_bytes 8 (lg_msc g) @ le_bytes 2 (of_nat (length (lg_msg g)) :: u16) @
     [lg_level g, of_nat (length (lg_tag g))] @ lg_tag g @ lg_msg g"

section \<open>Reading and writing around the end\<close>

definition cring :: "bytes \<Rightarrow> nat \<Rightarrow> nat \<Rightarrow> bytes" where
  "cring buf pos n = map (\<lambda>i. buf ! ((pos + i) mod HARP_LOGRING_CAP)) [0..<n]"

lemma cap_pos [simp]: "0 < HARP_LOGRING_CAP"
  by (simp add: HARP_LOGRING_CAP_def)

lemma length_cring [simp]: "length (cring buf pos n) = n"
  by (simp add: cring_def)

lemma cring_add: "cring buf pos (a + b) = cring buf pos a @ cring buf ((pos + a) mod HARP_LOGRING_CAP) b"
  by (rule nth_equalityI) (auto simp: cring_def nth_append mod_simps ac_simps)

lemma mod_wrap: "pos < c \<Longrightarrow> i < c \<Longrightarrow> (pos + i) mod c = (if pos + i < c then pos + i else pos + i - c)" for c :: nat
  by (auto simp: mod_if)

lemma ring_get_cring:
  assumes "length buf = HARP_LOGRING_CAP" "pos < HARP_LOGRING_CAP" "n \<le> HARP_LOGRING_CAP"
  shows "ring_get buf pos n = cring buf pos n"
proof (rule nth_equalityI)
  show "length (ring_get buf pos n) = length (cring buf pos n)"
    using assms by (auto simp: ring_get_def Let_def)
next
  fix i
  assume "i < length (ring_get buf pos n)"
  then have i: "i < n" using assms by (auto simp: ring_get_def Let_def split: if_splits)
  then show "ring_get buf pos n ! i = cring buf pos n ! i"
    using assms mod_wrap [of pos HARP_LOGRING_CAP i] by (auto simp: ring_get_def Let_def cring_def nth_append add.commute)
qed

lemma ring_put_nth:
  assumes "length buf = HARP_LOGRING_CAP" "pos < HARP_LOGRING_CAP" "length p \<le> HARP_LOGRING_CAP"
  shows "length (ring_put buf pos p) = HARP_LOGRING_CAP"
    and "i < HARP_LOGRING_CAP \<Longrightarrow> ring_put buf pos p ! ((pos + i) mod HARP_LOGRING_CAP) =
      (if i < length p then p ! i else buf ! ((pos + i) mod HARP_LOGRING_CAP))"
proof -
  let ?C = HARP_LOGRING_CAP
  show "length (ring_put buf pos p) = ?C" using assms by (auto simp: ring_put_def Let_def memcpy_at_def)
  assume i: "i < ?C"
  show "ring_put buf pos p ! ((pos + i) mod ?C) = (if i < length p then p ! i else buf ! ((pos + i) mod ?C))"
    using assms i mod_wrap [OF assms(2) i]
    by (auto simp: ring_put_def Let_def memcpy_at_def nth_append min_def)
qed

text \<open>Writing behind a stretch of the ring extends it.\<close>

lemma cring_put:
  assumes "length buf = HARP_LOGRING_CAP" "q < HARP_LOGRING_CAP" "m + length p \<le> HARP_LOGRING_CAP"
  shows "cring (ring_put buf ((q + m) mod HARP_LOGRING_CAP) p) q (m + length p) = cring buf q m @ p"
proof -
  let ?C = HARP_LOGRING_CAP
  let ?pos = "(q + m) mod ?C" and ?b = "ring_put buf ((q + m) mod ?C) p"
  note put = ring_put_nth [OF assms(1), of ?pos p]
  have old: "?b ! ((q + i) mod ?C) = buf ! ((q + i) mod ?C)" if "i < m" for i
  proof -
    have e: "(?pos + (?C - m + i)) mod ?C = (q + i) mod ?C"
    proof -
      have "(?pos + (?C - m + i)) mod ?C = (q + m + (?C - m + i)) mod ?C" by (simp add: mod_simps)
      also have "q + m + (?C - m + i) = q + i + ?C" using assms(3) by simp
      finally show ?thesis by simp
    qed
    have "?C - m + i < ?C" "\<not> ?C - m + i < length p" using that assms(3) by auto
    with put(2) [of "?C - m + i"] assms(3) show ?thesis unfolding e by simp
  qed
  have new: "?b ! ((?pos + i) mod ?C) = p ! i" if "i < length p" for i
    using put(2) [of i] that assms(3) by simp
  have "cring ?b q m = cring buf q m" unfolding cring_def using old by (intro map_cong) auto
  moreover have "cring ?b ?pos (length p) = p" unfolding cring_def using new by (intro nth_equalityI) auto
  ultimately show ?thesis by (simp add: cring_add)
qed

section \<open>The ring holds a log\<close>

definition ring_holds :: "logring \<Rightarrow> logrec list \<Rightarrow> bool" where
  "ring_holds r gs \<longleftrightarrow>
     length (lr_buf r) = HARP_LOGRING_CAP \<and> lr_tail r < HARP_LOGRING_CAP \<and>
     lr_head r = (lr_tail r + log_total gs) mod HARP_LOGRING_CAP \<and>
     lr_used r = log_total gs \<and> log_total gs \<le> HARP_LOGRING_CAP \<and> lr_nrec r = length gs \<and>
     cring (lr_buf r) (lr_tail r) (log_total gs) = concat (map rec_bytes gs) \<and> list_all log_ok gs"

lemma length_rec_bytes [simp]: "length (rec_bytes g) = log_size g"
  by (simp add: rec_bytes_def log_size_def HDR_BYTES_def)

lemma length_concat_rec_bytes [simp]: "length (concat (map rec_bytes gs)) = log_total gs"
  by (induction gs) auto

lemma log_ok_size: "log_ok g \<Longrightarrow> log_size g \<le> 527"
  by (simp add: log_ok_def log_size_def HDR_BYTES_def LOGREC_TAG_MAX_def LOGREC_MSG_MAX_def)

lemma log_size_ge: "16 \<le> log_size g"
  by (simp add: log_size_def HDR_BYTES_def)

lemma cring_prefix:
  assumes "cring buf pos n = xs @ ys" and "length xs = a"
  shows "cring buf pos a = xs" and "cring buf ((pos + a) mod HARP_LOGRING_CAP) (n - a) = ys"
proof -
  have n: "n = a + length ys" using assms by (metis length_append length_cring)
  have e: "cring buf pos a @ cring buf ((pos + a) mod HARP_LOGRING_CAP) (length ys) = xs @ ys"
    using assms(1) unfolding n cring_add .
  then show "cring buf pos a = xs" using assms(2) by (simp add: append_eq_append_conv)
  show "cring buf ((pos + a) mod HARP_LOGRING_CAP) (n - a) = ys"
    using e assms(2) by (simp add: append_eq_append_conv n)
qed

text \<open>What a reader finds at the start of a record.\<close>

lemma rec_len_at_rec:
  assumes "length buf = HARP_LOGRING_CAP" "pos < HARP_LOGRING_CAP" "log_ok g" "cring buf pos n = rec_bytes g @ ys"
  shows "rec_len_at buf pos = log_size g"
proof -
  have "cring buf pos n = le_bytes 4 (of_nat (log_size g) :: u32) @ drop 4 (rec_bytes g) @ ys"
    using assms(4) by (simp add: rec_bytes_def)
  from cring_prefix(1) [OF this, of 4] have "cring buf pos 4 = le_bytes 4 (of_nat (log_size g) :: u32)" by simp
  then have "ring_get buf pos 4 = le_bytes 4 (of_nat (log_size g) :: u32)"
    using ring_get_cring [OF assms(1,2), of 4] by (simp add: HARP_LOGRING_CAP_def)
  then show ?thesis
    using log_ok_size [OF assms(3)]
    by (simp add: rec_len_at_def le_val_le_bytes take_bit_word_ge unat_of_nat del: le_bytes.simps)
qed

lemma ring_holds_tl:
  assumes "ring_holds r (g # gs)"
  shows "rec_len_at (lr_buf r) (lr_tail r) = log_size g"
    and "ring_holds (r\<lparr>lr_tail := (lr_tail r + log_size g) mod HARP_LOGRING_CAP, lr_used := lr_used r - log_size g,
           lr_nrec := lr_nrec r - 1, lr_dropped := d\<rparr>) gs"
proof -
  have c: "cring (lr_buf r) (lr_tail r) (lr_used r) = rec_bytes g @ concat (map rec_bytes gs)"
    using assms by (simp add: ring_holds_def)
  show "rec_len_at (lr_buf r) (lr_tail r) = log_size g"
    using assms c by (intro rec_len_at_rec) (auto simp: ring_holds_def)
  have "(lr_tail r + log_size g + log_total gs) mod HARP_LOGRING_CAP =
      ((lr_tail r + log_size g) mod HARP_LOGRING_CAP + log_total gs) mod HARP_LOGRING_CAP" by (simp add: mod_simps)
  then show "ring_holds (r\<lparr>lr_tail := (lr_tail r + log_size g) mod HARP_LOGRING_CAP, lr_used := lr_used r - log_size g,
           lr_nrec := lr_nrec r - 1, lr_dropped := d\<rparr>) gs"
    using assms cring_prefix(2) [OF c] by (simp add: ring_holds_def ac_simps)
qed

lemma ring_evict_holds:
  assumes "ring_holds r gs" and "tot \<le> HARP_LOGRING_CAP"
  shows "ring_holds (ring_evict r tot) (log_trim (HARP_LOGRING_CAP - tot) gs) \<and>
    lr_dropped (ring_evict r tot) = lr_dropped r + of_nat (length gs - length (log_trim (HARP_LOGRING_CAP - tot) gs))"
  using assms(1)
proof (induction gs arbitrary: r)
  case Nil
  then show ?case by (simp add: ring_evict.simps ring_holds_def)
next
  case (Cons g gs)
  have u: "lr_used r = log_total (g # gs)" "lr_nrec r = Suc (length gs)" using Cons.prems by (auto simp: ring_holds_def)
  have len: "length (log_trim (HARP_LOGRING_CAP - tot) gs) \<le> length gs" by (induction gs) auto
  show ?case
  proof (cases "log_total (g # gs) > HARP_LOGRING_CAP - tot")
    case True
    let ?r = "r\<lparr>lr_tail := (lr_tail r + log_size g) mod HARP_LOGRING_CAP, lr_used := lr_used r - log_size g,
           lr_nrec := lr_nrec r - 1, lr_dropped := lr_dropped r + 1\<rparr>"
    have "ring_evict r tot = ring_evict ?r tot"
      using True assms(2) u ring_holds_tl(1) [OF Cons.prems] by (subst ring_evict.simps) (simp add: Let_def)
    with True Cons.IH [OF ring_holds_tl(2) [OF Cons.prems]] len show ?thesis by (simp add: Suc_diff_le)
  next
    case False
    then have "ring_evict r tot = r" using assms(2) u by (subst ring_evict.simps) simp
    with False Cons.prems show ?thesis by simp
  qed
qed

lemma log_trim_total: "log_total (log_trim b gs) \<le> b"
  by (induction gs) auto

lemma log_trim_ok: "list_all log_ok gs \<Longrightarrow> list_all log_ok (log_trim b gs)"
  by (induction gs) auto

lemma log_rec_ok: "log_ok (log_rec level tag msc msg)"
  by (simp add: log_ok_def log_rec_def)

lemma ring_append_holds:
  assumes "ring_holds r gs"
  shows "ring_holds (ring_append_locked r level tag msc msg) (log_append gs (log_rec level tag msc msg)) \<and>
    lr_dropped (ring_append_locked r level tag msc msg) =
      lr_dropped r + of_nat (length gs + 1 - length (log_append gs (log_rec level tag msc msg)))"
proof -
  let ?C = HARP_LOGRING_CAP and ?g = "log_rec level tag msc msg"
  define tl where "tl = min (length tag) LOGREC_TAG_MAX"
  define ml where "ml = min (length msg) LOGREC_MSG_MAX"
  have tot: "HDR_BYTES + tl + ml = log_size ?g" by (simp add: tl_def ml_def log_size_def log_rec_def min.commute)
  have le: "log_size ?g \<le> ?C" using log_ok_size [OF log_rec_ok, of level tag msc msg] by (simp add: HARP_LOGRING_CAP_def)
  define e where "e = ring_evict r (log_size ?g)"
  define ts where "ts = log_trim (?C - log_size ?g) gs"
  have e: "ring_holds e ts" "lr_dropped e = lr_dropped r + of_nat (length gs - length ts)"
    using ring_evict_holds [OF assms le] by (simp_all add: e_def ts_def)
  have room: "log_total ts + log_size ?g \<le> ?C" using log_trim_total [of "?C - log_size ?g" gs] le by (simp add: ts_def)
  have eh: "length (lr_buf e) = ?C" "lr_tail e < ?C" "lr_head e = (lr_tail e + lr_used e) mod ?C" "lr_used e = log_total ts"
    "cring (lr_buf e) (lr_tail e) (lr_used e) = concat (map rec_bytes ts)"
    using e(1) by (simp_all add: ring_holds_def)
  let ?h = "rec_header (log_size ?g) msc ml level tl"
  define b1 where "b1 = ring_put (lr_buf e) (lr_head e) ?h"
  define b2 where "b2 = ring_put b1 ((lr_head e + HDR_BYTES) mod ?C) (take tl tag)"
  define b3 where "b3 = ring_put b2 ((lr_head e + HDR_BYTES + tl) mod ?C) (take ml msg)"
  have lh: "length ?h = HDR_BYTES" by (simp add: rec_header_def HDR_BYTES_def)
  have lt: "length (take tl tag) = tl" "length (take ml msg) = ml" by (simp_all add: tl_def ml_def)
  have len: "length b1 = ?C" "length b2 = ?C" "length b3 = ?C"
    using ring_put_nth(1) eh(1) room tot lh lt unfolding b1_def b2_def b3_def eh(3) by simp_all
  have hd: "(lr_head e + k) mod ?C = (lr_tail e + (lr_used e + k)) mod ?C" for k
    unfolding eh(3) by (simp only: mod_add_left_eq add.assoc)
  have pos: "(lr_head e + HDR_BYTES) mod ?C = (lr_tail e + (lr_used e + HDR_BYTES)) mod ?C"
    "(lr_head e + HDR_BYTES + tl) mod ?C = (lr_tail e + (lr_used e + HDR_BYTES + tl)) mod ?C"
    using hd [of HDR_BYTES] hd [of "HDR_BYTES + tl"] by (simp_all only: add.assoc)
  have "cring b1 (lr_tail e) (lr_used e + HDR_BYTES) = concat (map rec_bytes ts) @ ?h"
    using cring_put [OF eh(1,2), of "lr_used e" ?h] room tot lh eh(5) by (simp add: b1_def eh(3,4))
  moreover have "cring b2 (lr_tail e) (lr_used e + HDR_BYTES + tl) = cring b1 (lr_tail e) (lr_used e + HDR_BYTES) @ take tl tag"
    using cring_put [OF len(1) eh(2), of "lr_used e + HDR_BYTES" "take tl tag"] room tot lt eh(4) by (simp add: b2_def pos)
  moreover have "cring b3 (lr_tail e) (lr_used e + HDR_BYTES + tl + ml) =
      cring b2 (lr_tail e) (lr_used e + HDR_BYTES + tl) @ take ml msg"
    using cring_put [OF len(2) eh(2), of "lr_used e + HDR_BYTES + tl" "take ml msg"] room tot lt eh(4) by (simp add: b3_def pos)
  moreover have "?h @ take tl tag @ take ml msg = rec_bytes ?g"
  proof -
    have "take tl tag = take LOGREC_TAG_MAX tag" "take ml msg = take LOGREC_MSG_MAX msg"
      by (simp_all add: tl_def ml_def min_def)
    then show ?thesis using lt by (simp add: rec_header_def rec_bytes_def log_rec_def)
  qed
  ultimately have c: "cring b3 (lr_tail e) (lr_used e + log_size ?g) = concat (map rec_bytes (ts @ [?g]))"
    by (simp flip: tot add: add.assoc)
  have r: "ring_append_locked r level tag msc msg =
      e\<lparr>lr_buf := b3, lr_head := (lr_head e + log_size ?g) mod ?C, lr_used := lr_used e + log_size ?g, lr_nrec := lr_nrec e + 1\<rparr>"
    using le unfolding ring_append_locked_def Let_def tl_def [symmetric] ml_def [symmetric] tot
    by (simp add: e_def [symmetric] b1_def b2_def b3_def)
  have ap: "log_append gs ?g = ts @ [?g]" by (simp add: log_append_def ts_def)
  have "ring_holds (ring_append_locked r level tag msc msg) (ts @ [?g])"
    using e(1) len(3) c room hd [of "log_size ?g"] log_rec_ok unfolding r by (simp add: ring_holds_def)
  then show ?thesis using e(2) unfolding r ap by simp
qed

text \<open>Reading the records back.\<close>

definition ring_run :: "bytes \<Rightarrow> nat \<Rightarrow> logrec list \<Rightarrow> bool" where
  "ring_run buf cur gs \<longleftrightarrow> length buf = HARP_LOGRING_CAP \<and> cur < HARP_LOGRING_CAP \<and> log_total gs \<le> HARP_LOGRING_CAP \<and>
     cring buf cur (log_total gs) = concat (map rec_bytes gs) \<and> list_all log_ok gs"

lemma ring_run_tl:
  "ring_run buf cur (g # gs) \<Longrightarrow> ring_run buf ((cur + log_size g) mod HARP_LOGRING_CAP) gs"
  using cring_prefix(2) [of buf cur "log_total (g # gs)" "rec_bytes g" "concat (map rec_bytes gs)"]
  by (simp add: ring_run_def)

lemma emit_skip_run:
  "ring_run buf cur gs \<Longrightarrow> \<exists>cur'. emit_skip buf mx cur (log_total gs) (length gs) = (cur', length (log_trim mx gs)) \<and>
     ring_run buf cur' (log_trim mx gs)"
proof (induction gs arbitrary: cur)
  case (Cons g gs)
  have "rec_len_at buf cur = log_size g"
    using Cons.prems by (intro rec_len_at_rec [where n = "log_total (g # gs)"]) (auto simp: ring_run_def)
  with Cons.IH [OF ring_run_tl [OF Cons.prems]] Cons.prems show ?case by simp
qed (simp add: ring_run_def)

lemma ring_record:
  assumes "ring_run buf cur (g # gs)"
  defines "h \<equiv> ring_get buf cur HDR_BYTES"
  shows "unat (le_val (take 4 h) :: u32) = log_size g" "(le_val (take 8 (drop 4 h)) :: u64) = lg_msc g"
    "unat (le_val (take 2 (drop 12 h)) :: u16) = length (lg_msg g)" "h ! 14 = lg_level g" "unat (h ! 15) = length (lg_tag g)"
    "ring_get buf ((cur + HDR_BYTES) mod HARP_LOGRING_CAP) (length (lg_tag g)) = lg_tag g"
    "ring_get buf ((cur + HDR_BYTES + length (lg_tag g)) mod HARP_LOGRING_CAP) (length (lg_msg g)) = lg_msg g"
proof -
  let ?C = HARP_LOGRING_CAP
  have b: "length buf = ?C" "cur < ?C" "log_ok g" using assms(1) by (auto simp: ring_run_def)
  have sz: "length (lg_tag g) \<le> 31" "length (lg_msg g) \<le> 480" "log_size g \<le> 527"
    using b(3) log_ok_size [OF b(3)] by (auto simp: log_ok_def LOGREC_TAG_MAX_def LOGREC_MSG_MAX_def)
  define l4 where "l4 = le_bytes 4 (of_nat (log_size g) :: u32)"
  define l8 where "l8 = le_bytes 8 (lg_msc g)"
  define l2 where "l2 = le_bytes 2 (of_nat (length (lg_msg g)) :: u16)"
  have len: "length l4 = 4" "length l8 = 8" "length l2 = 2" by (simp_all add: l4_def l8_def l2_def)
  let ?hd = "l4 @ l8 @ l2 @ [lg_level g, of_nat (length (lg_tag g))]"
  have c: "cring buf cur (log_total (g # gs)) = ?hd @ lg_tag g @ lg_msg g @ concat (map rec_bytes gs)"
    using assms(1) by (simp add: ring_run_def rec_bytes_def l4_def l8_def l2_def)
  have lh: "length ?hd = HDR_BYTES" by (simp add: len HDR_BYTES_def)
  note c1 = cring_prefix [OF c lh]
  note c2 = cring_prefix [OF c1(2) refl]
  note c3 = cring_prefix [OF c2(2) refl]
  have h: "h = ?hd" unfolding h_def using c1(1) ring_get_cring [OF b(1,2), of HDR_BYTES]
    by (simp add: HDR_BYTES_def HARP_LOGRING_CAP_def)
  show "unat (le_val (take 4 h) :: u32) = log_size g" using len sz(3)
    by (simp add: h l4_def le_val_le_bytes take_bit_word_ge unat_of_nat del: le_bytes.simps)
  show "(le_val (take 8 (drop 4 h)) :: u64) = lg_msc g" using len
    by (simp add: h l8_def le_val_le_bytes take_bit_word_ge del: le_bytes.simps)
  show "unat (le_val (take 2 (drop 12 h)) :: u16) = length (lg_msg g)" using len sz(2)
    by (simp add: h l2_def le_val_le_bytes take_bit_word_ge unat_of_nat del: le_bytes.simps)
  show "h ! 14 = lg_level g" "unat (h ! 15) = length (lg_tag g)" using len sz(1)
    by (simp_all add: h nth_append unat_of_nat)
  show "ring_get buf ((cur + HDR_BYTES) mod ?C) (length (lg_tag g)) = lg_tag g"
    using c2(1) ring_get_cring [OF b(1), of "(cur + HDR_BYTES) mod ?C" "length (lg_tag g)"] sz(1)
    by (simp add: HARP_LOGRING_CAP_def)
  show "ring_get buf ((cur + HDR_BYTES + length (lg_tag g)) mod ?C) (length (lg_msg g)) = lg_msg g"
    using c3(1) ring_get_cring [OF b(1), of "(cur + HDR_BYTES + length (lg_tag g)) mod ?C" "length (lg_msg g)"] sz(2)
    by (simp add: HARP_LOGRING_CAP_def mod_add_left_eq)
qed

lemma emits_records:
  "ring_run buf cur gs \<Longrightarrow> emits (emit_records buf (length gs) cur) (concat (map log_cbor gs))"
proof (induction gs arbitrary: cur)
  case Nil
  have e: "emit_records buf 0 cur = (\<lambda>m. m)" by (simp add: fun_eq_iff)
  show ?case by (simp add: e emits_id)
next
  case (Cons g gs)
  note f = ring_record [OF Cons.prems]
  note IH = Cons.IH [OF ring_run_tl [OF Cons.prems]]
  let ?w = "\<lambda>m. harp_cbor_textn (harp_cbor_uint (harp_cbor_textn (harp_cbor_uint (harp_cbor_uint (harp_cbor_uint
     (harp_cbor_uint (harp_cbor_uint (harp_cbor_map m 4) 0) (lg_msc g)) 1) (ucast (lg_level g))) 2) (lg_tag g)) 3) (lg_msg g)"
  have "emits ?w (log_cbor g)"
    unfolding log_cbor_def by (rule emits_eq, (rule enc_intros emits_id)+) simp
  from emits_comp [OF this IH]
  show ?case by (simp add: Let_def f)
qed

lemma emits_devlog:
  assumes "ring_holds r gs"
  shows "emits (\<lambda>m. harp_devlog_emit_cbor r m mx)
    (head_bytes 4 (of_nat (length (log_trim mx gs))) @ concat (map log_cbor (log_trim mx gs)))"
proof -
  have "ring_run (lr_buf r) (lr_tail r) gs" and u: "lr_used r = log_total gs" "lr_nrec r = length gs"
    using assms by (auto simp: ring_holds_def ring_run_def)
  from emit_skip_run [OF this(1), of mx] obtain cur where
    cur: "emit_skip (lr_buf r) mx (lr_tail r) (log_total gs) (length gs) = (cur, length (log_trim mx gs))"
    "ring_run (lr_buf r) cur (log_trim mx gs)" by blast
  show ?thesis using emits_comp [OF emits_array emits_records [OF cur(2)]] by (simp add: harp_devlog_emit_cbor_def u cur(1))
qed

lemma log_trim_suffix: "\<exists>ds. gs = ds @ log_trim b gs \<and> (ds = [] \<or> log_total (last ds # log_trim b gs) > b)"
proof (induction gs)
  case (Cons g gs)
  then obtain ds where ds: "gs = ds @ log_trim b gs" "ds = [] \<or> log_total (last ds # log_trim b gs) > b" by blast
  show ?case
  proof (cases "log_total (g # gs) > b")
    case True
    with ds show ?thesis by (intro exI [of _ "g # ds"]) (cases ds, auto)
  next
    case False
    then show ?thesis by (intro exI [of _ "[]"]) simp
  qed
qed simp

text \<open>
  C39: The log ring is a bounded queue of whole records.  If the ring holds the records \<open>gs\<close>, then after logging it holds
  a suffix of \<open>gs\<close> followed by the new record (tag and message cut to their limits), with no more records dropped
  than the capacity forces and each one counted; the bytes in use never exceed the capacity; and draining it emits
  exactly the newest records that fit the budget, oldest first, however the records wrap around the buffer's end.
\<close>

theorem log_ring_refines_queue:
  assumes "ring_holds r gs"
  shows "(\<exists>ds ks. gs = ds @ ks \<and>
      ring_holds (harp_devlog_put r level tag msc msg) (ks @ [log_rec level tag msc msg]) \<and>
      harp_devlog_dropped (harp_devlog_put r level tag msc msg) = harp_devlog_dropped r + of_nat (length ds) \<and>
      (ds = [] \<or> log_total (last ds # ks @ [log_rec level tag msc msg]) > HARP_LOGRING_CAP)) \<and>
    harp_devlog_used r \<le> HARP_LOGRING_CAP \<and>
    ring_holds (harp_devlog_reset r) [] \<and>
    (\<exists>ds ks. gs = ds @ ks \<and> log_total ks \<le> mx \<and> (ds = [] \<or> log_total (last ds # ks) > mx) \<and>
      (cbuf_wf m \<longrightarrow> cb_view (harp_devlog_emit_cbor r m mx) =
         cb_view (harp_cbuf_put m (head_bytes 4 (of_nat (length ks)) @ concat (map log_cbor ks)))))"
proof (intro conjI)
  let ?g = "log_rec level tag msc msg"
  have le: "log_size ?g \<le> HARP_LOGRING_CAP"
    using log_ok_size [OF log_rec_ok, of level tag msc msg] by (simp add: HARP_LOGRING_CAP_def)
  obtain ds where ds: "gs = ds @ log_trim (HARP_LOGRING_CAP - log_size ?g) gs"
    "ds = [] \<or> log_total (last ds # log_trim (HARP_LOGRING_CAP - log_size ?g) gs) > HARP_LOGRING_CAP - log_size ?g"
    using log_trim_suffix by blast
  define ks where "ks = log_trim (HARP_LOGRING_CAP - log_size ?g) gs"
  have len: "length gs + 1 - length (log_append gs ?g) = length ds"
    using arg_cong [OF ds(1), of length] by (simp add: log_append_def)
  have "ds = [] \<or> log_total (last ds # ks @ [?g]) > HARP_LOGRING_CAP" using ds(2) le by (auto simp: ks_def)
  moreover have "ring_holds (harp_devlog_put r level tag msc msg) (ks @ [?g])"
    "harp_devlog_dropped (harp_devlog_put r level tag msc msg) = harp_devlog_dropped r + of_nat (length ds)"
    using ring_append_holds [OF assms, of level tag msc msg] unfolding len
    by (simp_all add: harp_devlog_put_def harp_devlog_dropped_def) (simp add: log_append_def ks_def)
  ultimately show "\<exists>ds ks. gs = ds @ ks \<and>
      ring_holds (harp_devlog_put r level tag msc msg) (ks @ [?g]) \<and>
      harp_devlog_dropped (harp_devlog_put r level tag msc msg) = harp_devlog_dropped r + of_nat (length ds) \<and>
      (ds = [] \<or> log_total (last ds # ks @ [?g]) > HARP_LOGRING_CAP)"
    using ds(1) unfolding ks_def by blast
  show "harp_devlog_used r \<le> HARP_LOGRING_CAP" using assms by (simp add: ring_holds_def harp_devlog_used_def)
  show "ring_holds (harp_devlog_reset r) []" using assms by (simp add: ring_holds_def harp_devlog_reset_def cring_def)
  obtain es where "gs = es @ log_trim mx gs" "es = [] \<or> log_total (last es # log_trim mx gs) > mx"
    using log_trim_suffix by blast
  then show "\<exists>ds ks. gs = ds @ ks \<and> log_total ks \<le> mx \<and> (ds = [] \<or> log_total (last ds # ks) > mx) \<and>
      (cbuf_wf m \<longrightarrow> cb_view (harp_devlog_emit_cbor r m mx) =
         cb_view (harp_cbuf_put m (head_bytes 4 (of_nat (length ks)) @ concat (map log_cbor ks))))"
    using log_trim_total [of mx gs] emits_view [OF emits_devlog [OF assms]] by blast
qed

definition ex_ring :: logring where
  "ex_ring = \<lparr>lr_buf = replicate HARP_LOGRING_CAP 0, lr_head = 0, lr_tail = 0, lr_used = 0, lr_nrec = 0, lr_dropped = 0\<rparr>"

lemma log_ring_refines_queue_witness:
  "\<exists>ks. ring_holds (harp_devlog_put ex_ring 1 (str ''session'') 0 (str ''hello'')) (ks @ [log_rec 1 (str ''session'') 0 (str ''hello'')])"
proof -
  have "ring_holds ex_ring []" by (simp add: ring_holds_def ex_ring_def cring_def)
  from log_ring_refines_queue [OF this] show ?thesis by blast
qed

end
