(* ===== verification/Harp_Float.thy ===== *)
theory Harp_Float
  imports Harp_Cbor
begin

text \<open>
  The floating point items of \<^verbatim>\<open>core/src/cbor.c\<close>.  A C \<^verbatim>\<open>double\<close> (\<^verbatim>\<open>float\<close>) is its IEEE 754 bit pattern, a
  64-bit (32-bit) word.  The conversions and comparisons that the compiler emits for the code are written out
  on sign, biased exponent and mantissa: widening is exact, narrowing rounds to nearest, ties to even.
\<close>

unbundle bit_operations_syntax

section \<open>IEEE 754 bit patterns\<close>

type_synonym f32 = u32
type_synonym f64 = u64

definition f32_sign :: "f32 \<Rightarrow> nat" where "f32_sign x = unat x div 2 ^ 31"
definition f32_exp :: "f32 \<Rightarrow> nat" where "f32_exp x = unat x div 2 ^ 23 mod 256"
definition f32_man :: "f32 \<Rightarrow> nat" where "f32_man x = unat x mod 2 ^ 23"

definition f32_make :: "nat \<Rightarrow> nat \<Rightarrow> nat \<Rightarrow> f32" where
  "f32_make s e m = of_nat (s * 2 ^ 31 + e * 2 ^ 23 + m)"

definition f64_sign :: "f64 \<Rightarrow> nat" where "f64_sign x = unat x div 2 ^ 63"
definition f64_exp :: "f64 \<Rightarrow> nat" where "f64_exp x = unat x div 2 ^ 52 mod 2048"
definition f64_man :: "f64 \<Rightarrow> nat" where "f64_man x = unat x mod 2 ^ 52"

definition f64_make :: "nat \<Rightarrow> nat \<Rightarrow> nat \<Rightarrow> f64" where
  "f64_make s e m = of_nat (s * 2 ^ 63 + e * 2 ^ 52 + m)"

definition f32_isnan :: "f32 \<Rightarrow> bool" where "f32_isnan x \<longleftrightarrow> f32_exp x = 255 \<and> f32_man x \<noteq> 0"
definition f32_isinf :: "f32 \<Rightarrow> bool" where "f32_isinf x \<longleftrightarrow> f32_exp x = 255 \<and> f32_man x = 0"
definition f64_isnan :: "f64 \<Rightarrow> bool" where "f64_isnan x \<longleftrightarrow> f64_exp x = 2047 \<and> f64_man x \<noteq> 0"

text \<open>The magnitude orders numbers of one sign; both zeros are equal.\<close>

definition f64_ord :: "f64 \<Rightarrow> int" where
  "f64_ord x = (let m = int (unat x mod 2 ^ 63) in if f64_sign x = 0 then m else - m)"

definition f64_eq :: "f64 \<Rightarrow> f64 \<Rightarrow> bool" where
  "f64_eq a b \<longleftrightarrow> \<not> f64_isnan a \<and> \<not> f64_isnan b \<and> f64_ord a = f64_ord b"

definition f64_lt :: "f64 \<Rightarrow> f64 \<Rightarrow> bool" where
  "f64_lt a b \<longleftrightarrow> \<not> f64_isnan a \<and> \<not> f64_isnan b \<and> f64_ord a < f64_ord b"

definition f64_zero :: f64 where "f64_zero = 0"
definition f64_one :: f64 where "f64_one = f64_make 0 1023 0"

text \<open>The position of the leading one bit.\<close>

fun ilog2 :: "nat \<Rightarrow> nat" where
  "ilog2 n = (if n < 2 then 0 else Suc (ilog2 (n div 2)))"

declare ilog2.simps [simp del]

text \<open>The quiet bit of a converted NaN.\<close>

definition quiet :: "nat \<Rightarrow> nat \<Rightarrow> nat" where
  "quiet q m = (if m < q then m + q else m)"

definition f64_of_f32 :: "f32 \<Rightarrow> f64" where
  "f64_of_f32 x =
     (let s = f32_sign x; e = f32_exp x; m = f32_man x
      in if e = 255 then f64_make s 2047 (if m = 0 then 0 else quiet (2 ^ 51) (m * 2 ^ 29))
         else if e = 0 then
           if m = 0 then f64_make s 0 0
           else f64_make s (ilog2 m + 874) ((m - 2 ^ ilog2 m) * 2 ^ (52 - ilog2 m))
         else f64_make s (e + 896) (m * 2 ^ 29))"

text \<open>Division by \<open>2 ^ k\<close>, rounded to nearest, ties to even.\<close>

definition rne :: "nat \<Rightarrow> nat \<Rightarrow> nat" where
  "rne n k = n div 2 ^ k +
     (if 2 * (n mod 2 ^ k) > 2 ^ k \<or> (2 * (n mod 2 ^ k) = 2 ^ k \<and> odd (n div 2 ^ k)) then 1 else 0)"

definition f32_of_f64 :: "f64 \<Rightarrow> f32" where
  "f32_of_f64 x =
     (let s = f64_sign x; e = f64_exp x; m = f64_man x
      in if e = 2047 then f32_make s 255 (if m = 0 then 0 else quiet (2 ^ 22) (m div 2 ^ 29))
         else if e = 0 then f32_make s 0 0
         else
           let sig = 2 ^ 52 + m;
               mag = (if 897 \<le> e then min (255 * 2 ^ 23) ((e - 897) * 2 ^ 23 + rne sig 29)
                      else rne sig (29 + (897 - e)))
           in f32_make s 0 mag)"

text \<open>\<^verbatim>\<open>ldexp(n, e)\<close> for a small non-negative integer and a result in the normal range.\<close>

definition ldexp :: "nat \<Rightarrow> int \<Rightarrow> f64" where
  "ldexp n e =
     (if n = 0 then 0
      else f64_make 0 (nat (int (ilog2 n) + e + 1023)) ((n - 2 ^ ilog2 n) * 2 ^ (52 - ilog2 n)))"

section \<open>The code\<close>

definition half_from_float :: "f32 \<Rightarrow> u16 option" where
  "half_from_float x =
     (let sign = (ucast (drop_bit 16 x AND 0x8000) :: u16)
      in if f32_isnan x then Some 0x7e00
         else if f32_isinf x then Some (sign OR 0x7c00)
         else if x AND 0x7fffffff = 0 then Some sign
         else
           let unb = uint (drop_bit 23 x AND 0xff) - 127; man = x AND 0x7fffff
           in if unb \<ge> - 14 \<and> unb \<le> 15 then
                if man AND 0x1fff \<noteq> 0 then None
                else Some (sign OR push_bit 10 (of_int (unb + 15)) OR ucast (drop_bit 13 man))
              else if unb < - 14 then
                let shift = nat (13 + (- 14 - unb)); full = 0x800000 OR (ucast man :: u64)
                in if shift \<ge> 24 then None
                   else if full AND (push_bit shift 1 - 1) \<noteq> 0 then None
                   else
                     let hm = drop_bit shift full
                     in if hm = 0 \<or> hm > 0x3ff then None else Some (sign OR ucast hm)
              else None)"

text \<open>The array \<^verbatim>\<open>out\<close> that \<^verbatim>\<open>harp_cbor_float\<close> fills.\<close>

definition float_bytes :: "f64 \<Rightarrow> bytes" where
  "float_bytes v =
     (let f = f32_of_f64 v
      in if f64_eq (f64_of_f32 f) v \<or> f64_isnan v then
           (case half_from_float f of
              Some h16 \<Rightarrow> [0xf9, ucast (drop_bit 8 h16), ucast h16]
            | None \<Rightarrow> [0xfa, ucast (drop_bit 24 f), ucast (drop_bit 16 f), ucast (drop_bit 8 f), ucast f])
         else 0xfb # map (\<lambda>i. ucast (drop_bit (56 - 8 * i) v)) [0..<8])"

definition harp_cbor_float :: "harp_cbuf \<Rightarrow> f64 \<Rightarrow> harp_cbuf" where
  "harp_cbor_float b v = harp_cbuf_put b (float_bytes v)"

definition half_to_double :: "u16 \<Rightarrow> f64" where
  "half_to_double h =
     (let sign = drop_bit 15 h AND 1; ex = unat (drop_bit 10 h AND 0x1f); man = unat (h AND 0x3ff);
          v = (if ex = 0 then ldexp man (- 24)
               else if ex = 31 then (if man \<noteq> 0 then f64_make 0 2047 (2 ^ 51) else f64_make 0 2047 0)
               else ldexp (1024 + man) (int ex - 25))
      in if sign \<noteq> 0 then v XOR push_bit 63 1 else v)"

definition harp_cdec_float :: "harp_cdec \<Rightarrow> f64 option \<times> harp_cdec" where
  "harp_cdec_float d =
     (case read_head d of
        (None, d) \<Rightarrow> (None, d)
      | (Some (major, ai, u), d) \<Rightarrow>
          if major \<noteq> 7 then (None, cd_fail d)
          else if ai = 25 then (Some (half_to_double (ucast u)), d)
          else if ai = 26 then (Some (f64_of_f32 (ucast u)), d)
          else if ai = 27 then (Some u, d)
          else (None, cd_fail d))"

section \<open>Fields\<close>

lemma pack3:
  fixes s e m n b c :: nat
  assumes "e < b" "m < c" "n = (s * b + e) * c + m"
  shows "n div (c * b) = s" "n div c mod b = e" "n mod c = m"
proof -
  have q: "n div c = s * b + e" using assms(2,3) by simp
  show "n mod c = m" using assms(2,3) by simp
  show "n div c mod b = e" "n div (c * b) = s" using q assms(1) by (simp_all add: div_mult2_eq)
qed

lemma f32_fields [simp]:
  assumes "s < 2" "e < 256" "m < 2 ^ 23"
  shows "f32_sign (f32_make s e m) = s" "f32_exp (f32_make s e m) = e" "f32_man (f32_make s e m) = m"
proof -
  have "s = 0 \<or> s = 1" using assms(1) by auto
  then have "s * 2 ^ 31 + e * 2 ^ 23 + m < 2 ^ 32" using assms by auto
  then have "unat (f32_make s e m) = (s * 256 + e) * 2 ^ 23 + m" unfolding f32_make_def unat_of_nat by simp
  from pack3 [OF assms(2,3) this]
  show "f32_sign (f32_make s e m) = s" "f32_exp (f32_make s e m) = e" "f32_man (f32_make s e m) = m"
    unfolding f32_sign_def f32_exp_def f32_man_def by simp_all
qed

lemma f64_fields [simp]:
  assumes "s < 2" "e < 2048" "m < 2 ^ 52"
  shows "f64_sign (f64_make s e m) = s" "f64_exp (f64_make s e m) = e" "f64_man (f64_make s e m) = m"
proof -
  have "s = 0 \<or> s = 1" using assms(1) by auto
  then have "s * 2 ^ 63 + e * 2 ^ 52 + m < 2 ^ 64" using assms by auto
  then have "unat (f64_make s e m) = (s * 2048 + e) * 2 ^ 52 + m" unfolding f64_make_def unat_of_nat by simp
  from pack3 [OF assms(2,3) this]
  show "f64_sign (f64_make s e m) = s" "f64_exp (f64_make s e m) = e" "f64_man (f64_make s e m) = m"
    unfolding f64_sign_def f64_exp_def f64_man_def by simp_all
qed

lemma f32_bounds [simp]: "f32_sign x < 2" "f32_exp x < 256" "f32_man x < 2 ^ 23"
  using unsigned_less [of x, where ?'a = nat] by (auto simp: f32_sign_def f32_exp_def f32_man_def less_mult_imp_div_less)

lemma f64_bounds [simp]: "f64_sign x < 2" "f64_exp x < 2048" "f64_man x < 2 ^ 52"
  using unsigned_less [of x, where ?'a = nat] by (auto simp: f64_sign_def f64_exp_def f64_man_def less_mult_imp_div_less)

lemma digits3: "n div (c * b) * (c * b) + n div c mod b * c + n mod c = n" for n b c :: nat
proof -
  have "n div c div b * (c * b) + n div c mod b * c = (n div c div b * b + n div c mod b) * c"
    by (simp only: algebra_simps)
  then show ?thesis by (simp only: div_mult2_eq div_mult_mod_eq)
qed

lemma f32_make_fields [simp]: "f32_make (f32_sign x) (f32_exp x) (f32_man x) = x"
proof -
  have "unat x div 2 ^ 31 * 2 ^ 31 + unat x div 2 ^ 23 mod 256 * 2 ^ 23 + unat x mod 2 ^ 23 = unat x"
    using digits3 [of "unat x" "2 ^ 23" 256] by simp
  then show ?thesis by (simp only: f32_make_def f32_sign_def f32_exp_def f32_man_def) simp
qed

lemma f64_make_fields [simp]: "f64_make (f64_sign x) (f64_exp x) (f64_man x) = x"
proof -
  have "unat x div 2 ^ 63 * 2 ^ 63 + unat x div 2 ^ 52 mod 2048 * 2 ^ 52 + unat x mod 2 ^ 52 = unat x"
    using digits3 [of "unat x" "2 ^ 52" 2048] by simp
  then show ?thesis by (simp only: f64_make_def f64_sign_def f64_exp_def f64_man_def) simp
qed

lemma ilog2_eq: "2 ^ k \<le> n \<Longrightarrow> n < 2 ^ Suc k \<Longrightarrow> ilog2 n = k"
proof (induction k arbitrary: n)
  case 0
  then show ?case by (simp add: ilog2.simps)
next
  case (Suc k)
  then have "ilog2 (n div 2) = k" by (intro Suc.IH) auto
  moreover have "\<not> n < 2" using Suc.prems(1) one_le_power [of "2::nat" k] by (simp add: not_less) (erule order_trans [rotated], simp)
  ultimately show ?case by (simp add: ilog2.simps [of n])
qed

lemma ilog2_bounds: "0 < n \<Longrightarrow> 2 ^ ilog2 n \<le> n \<and> n < 2 ^ Suc (ilog2 n)"
proof (induction n rule: ilog2.induct)
  case (1 n)
  show ?case
  proof (cases "n < 2")
    case True
    with "1.prems" show ?thesis by (simp add: ilog2.simps)
  next
    case False
    then have "2 ^ ilog2 (n div 2) \<le> n div 2 \<and> n div 2 < 2 ^ Suc (ilog2 (n div 2))" by (intro "1.IH") auto
    with False show ?thesis by (auto simp: ilog2.simps [of n])
  qed
qed

lemma ilog2_less: "0 < n \<Longrightarrow> n < 2 ^ k \<Longrightarrow> ilog2 n < k"
  using ilog2_bounds [of n] by (metis le_less_trans nat_power_less_imp_less zero_less_numeral)

lemma rne_exact [simp]: "rne (n * 2 ^ k) k = n"
  by (simp add: rne_def)

section \<open>Widening is exact\<close>

lemma sub_norm:
  assumes "0 < m" and "m < 2 ^ 23"
  shows "ilog2 m < 23" "2 ^ ilog2 m \<le> m" "(m - 2 ^ ilog2 m) * 2 ^ (52 - ilog2 m) < 2 ^ 52"
    "2 ^ 52 + (m - 2 ^ ilog2 m) * 2 ^ (52 - ilog2 m) = m * 2 ^ (52 - ilog2 m)"
proof -
  let ?k = "ilog2 m"
  show k: "?k < 23" by (rule ilog2_less [OF assms])
  have b: "2 ^ ?k \<le> m" "m < 2 ^ Suc ?k" using ilog2_bounds [OF assms(1)] by auto
  then show "2 ^ ?k \<le> m" by simp
  have p: "(2::nat) ^ ?k * 2 ^ (52 - ?k) = 2 ^ 52" using k by (simp only: flip: power_add) simp
  have "m - 2 ^ ?k < 2 ^ ?k" using b by simp
  then have "(m - 2 ^ ?k) * 2 ^ (52 - ?k) < 2 ^ ?k * 2 ^ (52 - ?k)" by (intro mult_strict_right_mono) auto
  then show "(m - 2 ^ ?k) * 2 ^ (52 - ?k) < 2 ^ 52" using p by simp
  have "2 ^ ?k * 2 ^ (52 - ?k) + (m - 2 ^ ?k) * 2 ^ (52 - ?k) = m * 2 ^ (52 - ?k)"
    using b(1) by (simp only: flip: distrib_right) simp
  then show "2 ^ 52 + (m - 2 ^ ?k) * 2 ^ (52 - ?k) = m * 2 ^ (52 - ?k)" using p by simp
qed

lemma f32_make_carry: "f32_make s e (a * 2 ^ 23 + m) = f32_make s (e + a) m"
  by (simp add: f32_make_def algebra_simps)

lemma f32_of_f64_of_f32:
  assumes "\<not> f32_isnan x"
  shows "f32_of_f64 (f64_of_f32 x) = x"
proof -
  let ?s = "f32_sign x" and ?e = "f32_exp x" and ?m = "f32_man x"
  have b: "?s < 2" "?e < 256" "?m < 2 ^ 23" by (rule f32_bounds)+
  have x: "x = f32_make ?s ?e ?m" by simp
  consider "?e = 255" | "?e = 0" "?m = 0" | "?e = 0" "0 < ?m" | "0 < ?e" "?e < 255" using b(2) by linarith
  then show ?thesis
  proof cases
    case 1
    then have "?m = 0" using assms by (simp add: f32_isnan_def)
    then show ?thesis using x 1 b by (simp add: f64_of_f32_def f32_of_f64_def Let_def)
  next
    case 2
    then show ?thesis using x b by (simp add: f64_of_f32_def f32_of_f64_def Let_def)
  next
    case 3
    note n = sub_norm [OF 3(2) b(3)]
    have e: "29 + (897 - (ilog2 ?m + 874)) = 52 - ilog2 ?m" using n(1) by simp
    show ?thesis using 3 b n x e by (simp add: f64_of_f32_def f32_of_f64_def Let_def)
  next
    case 4
    have "?m * 2 ^ 29 < 2 ^ 52" using b(3) by simp
    moreover have r: "2 ^ 52 + ?m * 2 ^ 29 = (2 ^ 23 + ?m) * 2 ^ 29" by simp
    have "rne (2 ^ 52 + ?m * 2 ^ 29) 29 = 2 ^ 23 + ?m" unfolding r by (rule rne_exact)
    moreover obtain e' where e: "?e = Suc e'" using 4(1) by (cases ?e) auto
    moreover have "e' * 2 ^ 23 + (2 ^ 23 + ?m) < 255 * 2 ^ 23" using 4(2) e b(3) by simp
    ultimately show ?thesis
      using 4 b x f32_make_carry [of ?s 0 ?e ?m] by (simp add: f64_of_f32_def f32_of_f64_def Let_def ac_simps)
  qed
qed

lemma f64_of_f32_of_f64:
  assumes "f64_eq (f64_of_f32 (f32_of_f64 v)) v"
  shows "f64_of_f32 (f32_of_f64 v) = v"
proof (cases "unat v mod 2 ^ 63 = 0")
  case True
  then have "f64_exp v = 0" "f64_man v = 0"
    by (auto simp: f64_exp_def f64_man_def dvd_eq_mod_eq_0 [symmetric] elim!: dvdE)
  then show ?thesis using f64_make_fields [of v] by (simp add: f32_of_f64_def f64_of_f32_def Let_def)
next
  case False
  let ?w = "f64_of_f32 (f32_of_f64 v)"
  have split: "unat x = f64_sign x * 2 ^ 63 + unat x mod 2 ^ 63" for x :: f64
    by (simp add: f64_sign_def)
  have "f64_sign ?w < 2" "f64_sign v < 2" by simp_all
  with assms False have "f64_sign ?w = f64_sign v \<and> unat ?w mod 2 ^ 63 = unat v mod 2 ^ 63"
    by (auto simp: f64_eq_def f64_ord_def Let_def less_2_cases_iff split: if_splits)
  then have "unat ?w = unat v" using split [of ?w] split [of v] by simp
  then show ?thesis by (rule unsigned_word_eqI)
qed

section \<open>Half precision\<close>

lemma unat_drop_bit_div: "unat (drop_bit k w) = unat w div 2 ^ k" for w :: "'a::len word"
proof -
  have "unat (drop_bit k w) = drop_bit k (unat w)"
    using unsigned_less [of w, where ?'a = nat] by (simp add: unsigned_drop_bit_eq take_bit_nat_eq_self)
  then show ?thesis by (simp only: drop_bit_eq_div)
qed

lemma unat_and_mask: "unat (w AND mask k) = unat w mod 2 ^ k" for w :: "'a::len word"
proof -
  have "unat (take_bit k w) = take_bit k (unat w)" by (simp add: unsigned_take_bit_eq)
  then show ?thesis by (simp only: take_bit_eq_mask [symmetric] take_bit_eq_mod)
qed

lemma half_fields:
  fixes h :: u16
  assumes "s < 2" "e < 32" "m < 1024" "unat h = (s * 32 + e) * 2 ^ 10 + m"
  shows "unat (drop_bit 15 h AND 1) = s" "unat (drop_bit 10 h AND 0x1f) = e" "unat (h AND 0x3ff) = m"
proof -
  have mask: "(1 :: u16) = mask 1" "(0x1f :: u16) = mask 5" "(0x3ff :: u16) = mask 10"
    by (simp_all add: mask_eq_exp_minus_1)
  note p = pack3 [OF assms(2) _ assms(4), simplified, OF assms(3)]
  show "unat (drop_bit 15 h AND 1) = s" using p(1) assms(1) by (simp only: mask unat_and_mask unat_drop_bit_div) simp
  show "unat (drop_bit 10 h AND 0x1f) = e" using p(2) by (simp only: mask unat_and_mask unat_drop_bit_div) simp
  show "unat (h AND 0x3ff) = m" using p(3) by (simp only: mask unat_and_mask) simp
qed

lemma or_shift_nat:
  fixes n m :: nat
  assumes "m < 2 ^ k"
  shows "n * 2 ^ k OR m = n * 2 ^ k + m"
proof -
  have m: "take_bit k m = m" using assms by (simp add: take_bit_nat_eq_self)
  have "n * 2 ^ k AND m = 0"
    by (subst m [symmetric], rule bit_eqI) (auto simp: bit_simps simp flip: push_bit_eq_mult)
  then show ?thesis by (simp add: disjunctive_add_eq_or)
qed

lemma unat_or: "unat (a OR b) = unat a OR unat b" for a b :: "'a::len word"
  by (simp add: unsigned_or_eq)

text \<open>The fields of a float as the code extracts them.\<close>

lemma half_sign_bits: "unat (ucast (drop_bit 16 x AND 0x8000) :: u16) = f32_sign x * 2 ^ 15" for x :: u32
proof -
  define c where "c = (0x8000 :: u32)"
  have b: "bit c n \<longleftrightarrow> n = 15" for n
    using bit_exp_iff [where ?'a = u32, of 15 n] by (auto simp: c_def)
  have w: "(ucast (drop_bit 16 x AND c) :: u16) = push_bit 15 (ucast (drop_bit 31 x))"
  proof (rule bit_word_eqI)
    fix n
    assume "n < LENGTH(16)"
    then show "bit (ucast (drop_bit 16 x AND c) :: u16) n = bit (push_bit 15 (ucast (drop_bit 31 x)) :: u16) n"
      by (cases "n = 15") (auto simp: b bit_and_iff bit_unsigned_iff bit_drop_bit_eq bit_push_bit_iff)
  qed
  have s: "drop_bit 31 x = of_nat (f32_sign x)" by (simp only: f32_sign_def flip: unat_drop_bit_div) simp
  have "f32_sign x = 0 \<or> f32_sign x = 1" using f32_bounds(1) [of x] by linarith
  then show ?thesis unfolding c_def [symmetric] w s by (elim disjE) simp_all
qed

lemma f32_mag_zero: "x AND 0x7fffffff = 0 \<longleftrightarrow> f32_exp x = 0 \<and> f32_man x = 0"
proof -
  have m: "(0x7fffffff :: u32) = mask 31" by (simp add: mask_eq_exp_minus_1)
  have "unat x mod 2 ^ 31 = f32_exp x * 2 ^ 23 + f32_man x"
    unfolding f32_exp_def f32_man_def using mod_mult2_eq [of "unat x" "2 ^ 23" 256] by simp
  then have "unat (x AND mask 31) = 0 \<longleftrightarrow> f32_exp x = 0 \<and> f32_man x = 0" by (simp only: unat_and_mask) simp
  then show ?thesis unfolding m by (simp only: unsigned_eq_0_iff)
qed

lemma f32_exp_bits: "uint (drop_bit 23 x AND 0xff) = int (f32_exp x)"
proof -
  have m: "(0xff :: u32) = mask 8" by (simp add: mask_eq_exp_minus_1)
  show ?thesis unfolding m uint_nat unat_and_mask unat_drop_bit_div f32_exp_def by simp
qed

lemma f32_man_bits: "unat (x AND 0x7fffff) = f32_man x"
proof -
  have m: "(0x7fffff :: u32) = mask 23" by (simp add: mask_eq_exp_minus_1)
  show ?thesis unfolding m unat_and_mask f32_man_def ..
qed

lemma xor_sign: "s < 2 \<Longrightarrow> e < 2048 \<Longrightarrow> m < 2 ^ 52 \<Longrightarrow>
    (if s \<noteq> 0 then f64_make 0 e m XOR push_bit 63 1 else f64_make 0 e m) = f64_make s e m"
proof -
  assume a: "s < 2" "e < 2048" "m < 2 ^ 52"
  let ?w = "f64_make 0 e m"
  have "unat ?w div 2 ^ 63 = 0" using f64_fields(1) [of 0 e m] a by (simp add: f64_sign_def)
  then have "drop_bit 63 ?w = 0" by (simp only: unsigned_eq_0_iff flip: unat_drop_bit_div)
  then have "\<not> bit (drop_bit 63 ?w) 0" by (simp only: bit_0_eq) simp
  then have "\<not> bit ?w 63" by (simp add: bit_drop_bit_eq)
  then have "\<not> bit ?w n" if "63 \<le> n" "n < 64" for n
    using that by (cases "n = 63") auto
  then have "?w AND push_bit 63 1 = 0"
    by (intro bit_word_eqI) (auto simp: bit_and_iff bit_push_bit_iff bit_1_iff simp del: push_bit_of_1)
  then have "?w XOR push_bit 63 1 = ?w + push_bit 63 1" by (simp only: disjunctive_add_eq_xor)
  also have "\<dots> = f64_make 1 e m" by (simp add: f64_make_def)
  finally show ?thesis using a(1) by (auto simp: less_2_cases_iff)
qed

lemma norm_man:
  assumes "0 < n" and "ilog2 n \<le> 52"
  shows "(n - 2 ^ ilog2 n) * 2 ^ (52 - ilog2 n) < 2 ^ 52"
proof -
  let ?k = "ilog2 n"
  have b: "2 ^ ?k \<le> n" "n < 2 ^ Suc ?k" using ilog2_bounds [OF assms(1)] by auto
  have p: "(2::nat) ^ ?k * 2 ^ (52 - ?k) = 2 ^ 52" using assms(2) by (simp only: flip: power_add) simp
  have "n - 2 ^ ?k < 2 ^ ?k" using b by simp
  then have "(n - 2 ^ ?k) * 2 ^ (52 - ?k) < 2 ^ ?k * 2 ^ (52 - ?k)" by (intro mult_strict_right_mono) auto
  then show ?thesis using p by simp
qed

lemma half_to_double_fields:
  assumes "s < 2" "e < 32" "m < 1024" "unat h = (s * 32 + e) * 2 ^ 10 + m" and "e \<noteq> 31 \<or> m = 0"
  shows "half_to_double h =
    (if e = 31 then f64_make s 2047 0
     else if e = 0 \<and> m = 0 then f64_make s 0 0
     else let n = (if e = 0 then m else 1024 + m); q = (if e = 0 then 1 else e)
          in f64_make s (ilog2 n + q + 998) ((n - 2 ^ ilog2 n) * 2 ^ (52 - ilog2 n)))"
proof -
  note f = half_fields [OF assms(1-4)]
  have sg: "drop_bit 15 h AND 1 \<noteq> 0 \<longleftrightarrow> s \<noteq> 0" using f(1) by (metis unsigned_eq_0_iff)
  let ?n = "if e = 0 then m else 1024 + m" and ?q = "if e = 0 then 1 else e"
  have k: "ilog2 ?n < 11" if "0 < ?n" using that assms(3) by (intro ilog2_less) auto
  have z: "(0 :: f64) = f64_make 0 0 0" by (simp add: f64_make_def)
  have "half_to_double h =
      (let v = (if e = 31 then f64_make 0 2047 0 else if ?n = 0 then f64_make 0 0 0
                else f64_make 0 (ilog2 ?n + ?q + 998) ((?n - 2 ^ ilog2 ?n) * 2 ^ (52 - ilog2 ?n)))
       in if s \<noteq> 0 then v XOR push_bit 63 1 else v)"
    using assms(5) unfolding half_to_double_def Let_def f sg
    by (auto simp: ldexp_def z nat_add_distrib ac_simps)
  also have "\<dots> = (if e = 31 then f64_make s 2047 0 else if ?n = 0 then f64_make s 0 0
      else f64_make s (ilog2 ?n + ?q + 998) ((?n - 2 ^ ilog2 ?n) * 2 ^ (52 - ilog2 ?n)))"
    using xor_sign [OF assms(1)] norm_man [of ?n] k assms(2)
    by (auto simp: Let_def)
  finally show ?thesis by (simp add: Let_def)
qed

lemma half_pack:
  fixes a b c :: u16
  assumes "unat a = s * 2 ^ 15" "unat b = e * 2 ^ 10" "unat c = m" "e < 32" "m < 1024"
  shows "unat (a OR b OR c) = (s * 32 + e) * 2 ^ 10 + m"
proof -
  have bc: "unat (b OR c) = e * 2 ^ 10 + m"
    unfolding unat_or assms(2,3) using assms(5) by (intro or_shift_nat) simp
  have "unat (a OR (b OR c)) = s * 2 ^ 15 + (e * 2 ^ 10 + m)"
    unfolding unat_or [of a] assms(1) bc using assms(4,5) by (intro or_shift_nat) simp
  then show ?thesis by simp
qed

lemma half_from_float_cases:
  assumes "half_from_float x = Some h" and "\<not> f32_isnan x"
  obtains (inf) "f32_exp x = 255" "f32_man x = 0" "unat h = (f32_sign x * 32 + 31) * 2 ^ 10 + 0"
  | (zero) "f32_exp x = 0" "f32_man x = 0" "unat h = (f32_sign x * 32 + 0) * 2 ^ 10 + 0"
  | (normal) e m where "f32_exp x = e + 112" "0 < e" "e < 31" "f32_man x = m * 2 ^ 13" "m < 1024"
      "unat h = (f32_sign x * 32 + e) * 2 ^ 10 + m"
  | (sub) m where "f32_exp x < 113" "0 < f32_exp x \<or> 0 < f32_man x" "113 - f32_exp x + 13 < 24"
      "2 ^ 23 + f32_man x = m * 2 ^ (113 - f32_exp x + 13)" "0 < m" "m < 1024"
      "unat h = (f32_sign x * 32 + 0) * 2 ^ 10 + m"
proof -
  let ?s = "f32_sign x" and ?e = "f32_exp x" and ?m = "f32_man x"
  let ?sign = "ucast (drop_bit 16 x AND 0x8000) :: u16" and ?man = "x AND 0x7fffff"
  note sgn = half_sign_bits [of x]
  have unb: "uint (drop_bit 23 x AND 0xff) - 127 = int ?e - 127" by (simp only: f32_exp_bits)
  consider "f32_isinf x" | "\<not> f32_isinf x" "?e = 0" "?m = 0"
    | "\<not> f32_isinf x" "?e \<noteq> 0 \<or> ?m \<noteq> 0" "113 \<le> ?e" "?e \<le> 142"
    | "\<not> f32_isinf x" "?e \<noteq> 0 \<or> ?m \<noteq> 0" "?e < 113"
    | "\<not> f32_isinf x" "?e \<noteq> 0 \<or> ?m \<noteq> 0" "142 < ?e" by linarith
  then show thesis
  proof cases
    case 1
    then have h: "h = ?sign OR 0x7c00 OR 0" using assms by (simp add: half_from_float_def Let_def)
    have "unat h = (?s * 32 + 31) * 2 ^ 10 + 0"
      unfolding h by (rule half_pack [OF sgn]) simp_all
    with 1 show thesis by (intro inf) (auto simp: f32_isinf_def)
  next
    case 2
    then have h: "h = ?sign" using assms f32_mag_zero [of x] by (simp add: half_from_float_def Let_def)
    with 2 sgn show thesis by (intro zero) auto
  next
    case 3
    then have h: "?man AND 0x1fff = 0" "h = ?sign OR push_bit 10 (of_int (int ?e - 127 + 15)) OR ucast (drop_bit 13 ?man)"
      using assms f32_mag_zero [of x] unfolding half_from_float_def Let_def unb
      by (auto split: if_splits)
    define e m where "e = ?e - 112" and "m = ?m div 2 ^ 13"
    have m13: "?m mod 2 ^ 13 = 0" using h(1) f32_man_bits [of x] unat_and_mask [of ?man 13]
      by (simp add: mask_eq_exp_minus_1)
    have m: "?m = m * 2 ^ 13" "m < 1024" using m13 f32_bounds(3) [of x] by (auto simp: m_def)
    have e: "?e = e + 112" "0 < e" "e < 31" using 3 by (auto simp: e_def)
    have "int ?e - 127 + 15 = int e" using e(1) by simp
    then have b: "unat (push_bit 10 (of_int (int ?e - 127 + 15)) :: u16) = e * 2 ^ 10"
      using e(3) unat_of_nat [where ?'a = 16, of "e * 2 ^ 10"] by (simp add: push_bit_eq_mult)
    have "unat (drop_bit 13 ?man) = m" by (simp only: unat_drop_bit_div f32_man_bits m_def)
    then have c: "unat (ucast (drop_bit 13 ?man) :: u16) = m"
      using m(2) by (simp add: unsigned_ucast_eq take_bit_nat_eq_self)
    from half_pack [OF sgn b c] e m h(2) show thesis by (intro normal) auto
  next
    case 4
    let ?k = "113 - ?e + 13" and ?full = "0x800000 OR (ucast ?man :: u64)"
    have k: "nat (13 + (- 14 - (int ?e - 127))) = ?k" using 4(3) by simp
    have full: "unat ?full = 2 ^ 23 + ?m"
    proof -
      have "unat (ucast ?man :: u64) = ?m" using f32_bounds(3) [of x] f32_man_bits [of x]
        by (simp add: unsigned_ucast_eq take_bit_nat_eq_self)
      then have "unat ?full = 1 * 2 ^ 23 OR ?m" unfolding unat_or by simp
      also have "\<dots> = 1 * 2 ^ 23 + ?m" by (rule or_shift_nat [OF f32_bounds(3)])
      finally show ?thesis by simp
    qed
    define hm where "hm = drop_bit ?k ?full"
    have h: "?k < 24" "?full AND (push_bit ?k 1 - 1) = 0" "hm \<noteq> 0" "\<not> hm > 0x3ff" "h = ?sign OR ucast hm"
      using 4 assms f32_mag_zero [of x] unfolding half_from_float_def Let_def unb k hm_def
      by (auto split: if_splits)
    define m where "m = (2 ^ 23 + ?m) div 2 ^ ?k"
    have um: "unat hm = m" unfolding hm_def unat_drop_bit_div full m_def ..
    have "(push_bit ?k 1 - 1 :: u64) = mask ?k" by (simp add: mask_eq_exp_minus_1)
    then have "(2 ^ 23 + ?m) mod 2 ^ ?k = 0" using h(2) unat_and_mask [of ?full ?k] full by simp
    then have f: "2 ^ 23 + ?m = m * 2 ^ ?k" by (metis m_def add.right_neutral div_mult_mod_eq)
    have m: "0 < m" "m < 1024" using h(3,4) um by (auto simp: word_less_nat_alt unat_gt_0)
    have c: "unat (ucast hm :: u16) = m" using um m(2) by (simp add: unsigned_ucast_eq take_bit_nat_eq_self)
    have "unat (?sign OR 0 OR ucast hm) = (?s * 32 + 0) * 2 ^ 10 + m"
      by (rule half_pack [OF sgn _ c _ m(2)]) simp_all
    with h(5) 4 f m h(1) show thesis by (intro sub) auto
  next
    case 5
    then show thesis using assms f32_mag_zero [of x] unfolding half_from_float_def Let_def unb by (auto split: if_splits)
  qed
qed

text \<open>A half-precision code is only used when it stands for the very same number.\<close>

lemma half_exact:
  assumes "half_from_float x = Some h" and "\<not> f32_isnan x"
  shows "half_to_double h = f64_of_f32 x"
  using assms
proof (cases rule: half_from_float_cases)
  case inf
  have "half_to_double h = f64_make (f32_sign x) 2047 0"
    using half_to_double_fields [OF f32_bounds(1) _ _ inf(3)] by simp
  then show ?thesis using inf by (simp add: f64_of_f32_def)
next
  case zero
  have "half_to_double h = f64_make (f32_sign x) 0 0"
    using half_to_double_fields [OF f32_bounds(1) _ _ zero(3)] by simp
  then show ?thesis using zero by (simp add: f64_of_f32_def)
next
  case (normal e m)
  have il: "ilog2 (1024 + m) = 10" using normal(5) by (intro ilog2_eq) auto
  have ex: "10 + e + 998 = f32_exp x + 896" and mn: "(1024 + m - 2 ^ 10) * 2 ^ (52 - 10) = f32_man x * 2 ^ 29"
    using normal(1,4) by simp_all
  have "half_to_double h = f64_make (f32_sign x) (ilog2 (1024 + m) + e + 998)
      ((1024 + m - 2 ^ ilog2 (1024 + m)) * 2 ^ (52 - ilog2 (1024 + m)))"
    using half_to_double_fields [OF f32_bounds(1) _ normal(5,6)] normal(2,3) by (simp add: Let_def)
  also have "\<dots> = f64_make (f32_sign x) (f32_exp x + 896) (f32_man x * 2 ^ 29)" by (simp only: il ex mn)
  finally show ?thesis using normal(1,2,3) by (simp add: f64_of_f32_def Let_def)
next
  case (sub m)
  define k where "k = 113 - f32_exp x + 13"
  have k: "k < 24" "f32_exp x = 126 - k" using sub(1,3) by (auto simp: k_def)
  have p: "(2::nat) ^ 23 = 2 ^ (23 - k) * 2 ^ k" "(2::nat) ^ 24 = 2 ^ Suc (23 - k) * 2 ^ k"
    using k(1) by (simp_all flip: power_add)
  have f: "2 ^ 23 + f32_man x = m * 2 ^ k" using sub(4) by (simp add: k_def)
  have "2 ^ (23 - k) * 2 ^ k \<le> m * 2 ^ k" using f unfolding p(1) [symmetric] by linarith
  then have lo: "2 ^ (23 - k) \<le> m" by simp
  have "m * 2 ^ k < 2 ^ Suc (23 - k) * 2 ^ k" using f f32_bounds(3) [of x] unfolding p(2) [symmetric] by simp
  then have "m < 2 ^ Suc (23 - k)" by simp
  with lo have il: "ilog2 m = 23 - k" by (rule ilog2_eq)
  have "(m - 2 ^ (23 - k)) * 2 ^ k = f32_man x"
    using f p(1) by (simp add: diff_mult_distrib) 
  moreover have "(2::nat) ^ (52 - (23 - k)) = 2 ^ k * 2 ^ 29" by (subst power_add [symmetric]) (use k(1) in \<open>simp add: add.commute\<close>)
  ultimately have "(m - 2 ^ (23 - k)) * 2 ^ (52 - (23 - k)) = f32_man x * 2 ^ 29"
    by (metis mult.assoc)
  then have "half_to_double h = f64_make (f32_sign x) (f32_exp x + 896) (f32_man x * 2 ^ 29)"
    using half_to_double_fields [OF f32_bounds(1) _ sub(6,7)] sub(5) il k by (simp add: Let_def)
  moreover have "0 < f32_exp x" "f32_exp x < 255" using k by auto
  ultimately show ?thesis by (simp add: f64_of_f32_def Let_def)
qed

section \<open>Encoding and decoding\<close>

lemma emits_float [enc_simps]: "emits (\<lambda>b. harp_cbor_float b v) (float_bytes v)"
  unfolding harp_cbor_float_def by (rule emits_put)

lemmas emits_float_seq [enc_intros] = emits_comp [OF _ emits_float]

lemma be_bytes_2: "[ucast (drop_bit 8 w), ucast w] = be_bytes 2 w" for w :: "'a::len word"
  by (simp add: numeral_2_eq_2)

lemma be_bytes_4f: "[ucast (drop_bit 24 w), ucast (drop_bit 16 w), ucast (drop_bit 8 w), ucast w] = be_bytes 4 w"
  for w :: "'a::len word"
  by (simp add: eval_nat_numeral)

lemma be_bytes_8f: "map (\<lambda>i. ucast (drop_bit (56 - 8 * i) v)) [0..<8] = be_bytes 8 v" for v :: u64
  by (simp add: eval_nat_numeral upt_rec)

lemma cdec_float_items:
  "harp_cdec_float (dec (0xf9 # be_bytes 2 (h :: u16) @ r)) = (Some (half_to_double h), dec r)"
  "harp_cdec_float (dec (0xfa # be_bytes 4 (f :: u32) @ r)) = (Some (f64_of_f32 f), dec r)"
  "harp_cdec_float (dec (0xfb # be_bytes 8 (v :: u64) @ r)) = (Some v, dec r)"
proof -
  have u: "ucast (ucast h :: u64) = h" "ucast (ucast f :: u64) = f"
    by (rule bit_word_eqI, auto simp: bit_simps)+
  have m: "drop_bit 5 (0xf9 :: u8) = 7" "drop_bit 5 (0xfa :: u8) = 7" "drop_bit 5 (0xfb :: u8) = 7"
    "(0xf9 :: u8) AND 0x1f = 25" "(0xfa :: u8) AND 0x1f = 26" "(0xfb :: u8) AND 0x1f = 27" by simp_all
  show "harp_cdec_float (dec (0xf9 # be_bytes 2 h @ r)) = (Some (half_to_double h), dec r)"
    "harp_cdec_float (dec (0xfa # be_bytes 4 f @ r)) = (Some (f64_of_f32 f), dec r)"
    "harp_cdec_float (dec (0xfb # be_bytes 8 v @ r)) = (Some v, dec r)"
    by (simp_all add: harp_cdec_float_def read_head_def need_def m Let_def arg_len_def cd_skip_bytes_def
        be_val_be_bytes_cast be_val_be_bytes u take_bit_word_ge)
qed

lemma f32_of_f64_nan: "f64_isnan v \<Longrightarrow> f32_isnan (f32_of_f64 v)"
proof -
  assume "f64_isnan v"
  moreover have "quiet (2 ^ 22) (f64_man v div 2 ^ 29) < 2 ^ 23" "quiet (2 ^ 22) (f64_man v div 2 ^ 29) \<noteq> 0"
    using f64_bounds(3) [of v] by (auto simp: quiet_def)
  ultimately show ?thesis by (simp add: f32_of_f64_def f64_isnan_def f32_isnan_def)
qed

lemma f64_of_f32_not_nan: "f64_eq (f64_of_f32 f) v \<Longrightarrow> f = f32_of_f64 v \<Longrightarrow> \<not> f64_isnan v \<Longrightarrow> \<not> f32_isnan f"
proof
  assume a: "f64_eq (f64_of_f32 f) v" "f32_isnan f"
  have m: "f32_man f * 2 ^ 29 < 2 ^ 52" "f32_man f \<noteq> 0" using f32_bounds(3) [of f] a(2) by (auto simp: f32_isnan_def)
  then have "quiet (2 ^ 51) (f32_man f * 2 ^ 29) < 2 ^ 52" "quiet (2 ^ 51) (f32_man f * 2 ^ 29) \<noteq> 0"
    by (auto simp: quiet_def)
  then have "f64_isnan (f64_of_f32 f)" using a(2) m by (simp add: f64_of_f32_def f64_isnan_def f32_isnan_def Let_def)
  with a(1) show False by (simp add: f64_eq_def)
qed

lemma half_from_float_nan: "f32_isnan f \<Longrightarrow> half_from_float f = Some 0x7e00"
  by (simp add: half_from_float_def)

lemma float_bytes_shape:
  "float_bytes v =
     (if f64_eq (f64_of_f32 (f32_of_f64 v)) v \<or> f64_isnan v then
        (case half_from_float (f32_of_f64 v) of
           Some h \<Rightarrow> 0xf9 # be_bytes 2 h | None \<Rightarrow> 0xfa # be_bytes 4 (f32_of_f64 v))
      else 0xfb # be_bytes 8 v)"
  unfolding float_bytes_def Let_def be_bytes_4f be_bytes_8f unfolding be_bytes_2 ..

lemma cdec_float_bytes: "\<not> f64_isnan v \<Longrightarrow> harp_cdec_float (dec (float_bytes v @ r)) = (Some v, dec r)"
proof -
  assume n: "\<not> f64_isnan v"
  let ?f = "f32_of_f64 v"
  show ?thesis
  proof (cases "f64_eq (f64_of_f32 ?f) v")
    case True
    have "half_to_double h = v" if "half_from_float ?f = Some h" for h
      using half_exact [OF that f64_of_f32_not_nan [OF True refl n]] f64_of_f32_of_f64 [OF True] by simp
    then show ?thesis
      using True n f64_of_f32_of_f64 [OF True]
      by (auto simp: float_bytes_shape cdec_float_items split: option.split)
  next
    case False
    then show ?thesis using n by (simp add: float_bytes_shape cdec_float_items)
  qed
qed

lemma canonical_nan: "f64_isnan (half_to_double 0x7e00)"
proof -
  note f = half_fields [of 0 31 512 "0x7e00", simplified]
  have "half_to_double 0x7e00 = f64_make 0 2047 (2 ^ 51)"
    unfolding half_to_double_def Let_def using f by (simp add: unat_eq_0)
  then show ?thesis by (simp only: f64_isnan_def) simp
qed



end
