(* ===== verification/Harp_Policy.thy ===== *)
theory Harp_Policy
  imports Harp_Prelude "HOL-Library.Multiset"
begin

text \<open>
  The pure policies of the device daemon, one header each: voice allocation (\<^verbatim>\<open>device/voice_alloc.h\<close>), arpeggiator
  selection (\<^verbatim>\<open>device/arp_select.h\<close>), the connection penalty ring (\<^verbatim>\<open>device/conn_ratelimit.h\<close>), the token bucket of
  expensive operations (\<^verbatim>\<open>device/op_ratelimit.h\<close>), event routing and epochs (\<^verbatim>\<open>device/evq_mod.h\<close>) and the fence
  wait (\<^verbatim>\<open>device/fence_wait.h\<close>).
\<close>

section \<open>Voice allocation\<close>

text \<open>The first loop returns the first free slot, the second scans for the smallest \<^verbatim>\<open>alloc_seq\<close>.\<close>

fun first_free :: "bool list \<Rightarrow> nat list \<Rightarrow> nat option" where
  "first_free active [] = None"
| "first_free active (i # is) = (if \<not> active ! i then Some i else first_free active is)"

definition harp_voice_pick :: "bool list \<Rightarrow> u64 list \<Rightarrow> nat \<Rightarrow> nat" where
  "harp_voice_pick active alloc_seq n =
     (case first_free active [0..<n] of
        Some i \<Rightarrow> i
      | None \<Rightarrow> foldl (\<lambda>oldest i. if alloc_seq ! i < alloc_seq ! oldest then i else oldest) 0 [1..<n])"

lemma first_free_None: "first_free active is = None \<longleftrightarrow> (\<forall>i \<in> set is. active ! i)"
  by (induction "is") auto

lemma first_free_Some:
  "sorted is \<Longrightarrow> first_free active is = Some i \<Longrightarrow> i \<in> set is \<and> \<not> active ! i \<and> (\<forall>j \<in> set is. j < i \<longrightarrow> active ! j)"
  by (induction "is") (auto split: if_splits)

lemma oldest_scan:
  fixes seq :: "u64 list"
  assumes "o0 < n" and "set is \<subseteq> {..<n}"
  shows "foldl (\<lambda>oldest i. if seq ! i < seq ! oldest then i else oldest) o0 is < n \<and>
    (\<forall>j \<in> insert o0 (set is). seq ! foldl (\<lambda>oldest i. if seq ! i < seq ! oldest then i else oldest) o0 is \<le> seq ! j)"
  using assms
proof (induction "is" arbitrary: o0)
  case (Cons i "is")
  let ?o = "if seq ! i < seq ! o0 then i else o0"
  have "?o < n" "set is \<subseteq> {..<n}" using Cons.prems by auto
  from Cons.IH [OF this] show ?case by (auto split: if_splits intro: order_trans less_imp_le)
qed simp

text \<open>
  Voice stealing takes a free voice, else the oldest.  For every pool of at least one voice the pick is inside
  the pool; while any voice is free it is the first free one, and otherwise its allocation number is minimal.
\<close>

theorem voice_pick_policy:
  assumes "0 < n"
  shows "harp_voice_pick active seq n < n \<and>
    (\<forall>i < n. \<not> active ! i \<longrightarrow> \<not> active ! harp_voice_pick active seq n \<and> harp_voice_pick active seq n \<le> i) \<and>
    ((\<forall>i < n. active ! i) \<longrightarrow> (\<forall>i < n. seq ! harp_voice_pick active seq n \<le> seq ! i))"
proof (cases "first_free active [0..<n]")
  case None
  then have all: "\<forall>i < n. active ! i" by (simp add: first_free_None)
  have sub: "set [1..<n] \<subseteq> {..<n}" by auto
  have "insert 0 (set [1..<n]) = {..<n}" using assms by auto
  from oldest_scan [OF assms sub, of seq, unfolded this] None all show ?thesis by (simp add: harp_voice_pick_def)
next
  case (Some i)
  have "sorted [0..<n]" by simp
  from first_free_Some [OF this Some] Some show ?thesis by (auto simp: harp_voice_pick_def not_less [symmetric])
qed

lemma voice_pick_policy_witness: "harp_voice_pick [True, True, True] [5, 3, 4] 3 < 3"
  using voice_pick_policy [of 3 "[True, True, True]" "[5, 3, 4]"] by simp

section \<open>Arpeggiator selection\<close>

record harp_arp_pick =
  ap_note :: nat
  ap_sel :: nat

text \<open>The position in the sequence of \<^verbatim>\<open>notes x octaves\<close>; \<^verbatim>\<open>idx\<close> and \<^verbatim>\<open>oct\<close> are its digits base \<^verbatim>\<open>nlatch\<close>.\<close>

definition arp_pos :: "nat \<Rightarrow> nat \<Rightarrow> nat \<Rightarrow> nat" where
  "arp_pos mode step span =
     (let s = step mod span
      in if mode = 2 then span - 1 - s
         else if mode = 3 then
           let cycle = (if span > 1 then 2 * span - 2 else 1); t = step mod cycle
           in if t \<ge> span then cycle - t else t
         else s)"

text \<open>The exchange sort of the latch indices.\<close>

definition arp_swap :: "u8 list \<Rightarrow> nat \<Rightarrow> nat list \<Rightarrow> nat \<Rightarrow> nat list" where
  "arp_swap latch i order j =
     (if latch ! (order ! j) < latch ! (order ! i) then order[i := order ! j, j := order ! i] else order)"

definition arp_order :: "nat \<Rightarrow> u8 list \<Rightarrow> nat list" where
  "arp_order mode latch =
     (let n = length latch
      in if mode \<noteq> 4 then foldl (\<lambda>order i. foldl (arp_swap latch i) order [i + 1..<n]) [0..<n] [0..<n]
         else [0..<n])"

definition harp_arp_select :: "nat \<Rightarrow> nat \<Rightarrow> u8 list \<Rightarrow> nat \<Rightarrow> harp_arp_pick" where
  "harp_arp_select mode step latch octaves =
     (let nlatch = length latch; span = nlatch * (octaves + 1);
          pos = arp_pos mode step span; idx = pos mod nlatch; oct = pos div nlatch;
          order = arp_order mode latch;
          note = unat (latch ! (order ! idx)) + 12 * oct;
          note = (if note > 127 then unat (latch ! (order ! idx)) else note)
      in \<lparr>ap_note = note, ap_sel = order ! idx\<rparr>)"

lemma arp_swap_perm:
  assumes "i < length order" "j < length order"
  shows "mset (arp_swap latch i order j) = mset order" "length (arp_swap latch i order j) = length order"
  using assms by (auto simp: arp_swap_def mset_swap)

text \<open>The inner loop brings the minimum of the rest to position \<open>i\<close> and leaves the sorted part alone.\<close>

lemma arp_inner:
  assumes "i < m" "m \<le> k" "k \<le> length order"
    and "\<forall>l. i \<le> l \<and> l < m \<longrightarrow> latch ! (order ! i) \<le> latch ! (order ! l)"
  defines "r \<equiv> foldl (arp_swap latch i) order [m..<k]"
  shows "length r = length order \<and> mset r = mset order \<and> (\<forall>l < i. r ! l = order ! l) \<and>
    set (drop i r) = set (drop i order) \<and> (\<forall>l. i \<le> l \<and> l < k \<longrightarrow> latch ! (r ! i) \<le> latch ! (r ! l))"
  unfolding r_def using assms(1-4)
proof (induction "k - m" arbitrary: m order)
  case 0
  then show ?case by simp
next
  case (Suc d)
  let ?o = "arp_swap latch i order m"
  have m: "m < k" using Suc by simp
  have p: "mset ?o = mset order" "length ?o = length order"
    using arp_swap_perm [of i order m latch] Suc.prems m by auto
  have keep: "\<forall>l < i. ?o ! l = order ! l" using Suc.prems(1) by (auto simp: arp_swap_def)
  have least: "\<forall>l. i \<le> l \<and> l < Suc m \<longrightarrow> latch ! (?o ! i) \<le> latch ! (?o ! l)"
    using Suc.prems m by (auto simp: arp_swap_def less_Suc_eq nth_list_update intro: order_trans less_imp_le)
  have "mset (drop i ?o) = mset (drop i order)"
  proof -
    have "take i ?o = take i order" using keep p(2) Suc.prems by (intro nth_equalityI) auto
    then have "mset (take i order) + mset (drop i ?o) = mset (take i order) + mset (drop i order)"
      using p(1) by (metis append_take_drop_id mset_append)
    then show ?thesis by simp
  qed
  then have d: "set (drop i ?o) = set (drop i order)" by (metis set_mset_mset)
  have u: "[m..<k] = m # [Suc m..<k]" using m by (simp add: upt_conv_Cons)
  have "length (foldl (arp_swap latch i) ?o [Suc m..<k]) = length ?o \<and>
      mset (foldl (arp_swap latch i) ?o [Suc m..<k]) = mset ?o \<and>
      (\<forall>l < i. foldl (arp_swap latch i) ?o [Suc m..<k] ! l = ?o ! l) \<and>
      set (drop i (foldl (arp_swap latch i) ?o [Suc m..<k])) = set (drop i ?o) \<and>
      (\<forall>l. i \<le> l \<and> l < k \<longrightarrow> latch ! (foldl (arp_swap latch i) ?o [Suc m..<k] ! i) \<le>
         latch ! (foldl (arp_swap latch i) ?o [Suc m..<k] ! l))"
    using Suc.hyps(2) Suc.prems p m least by (intro Suc.hyps(1)) auto
  then show ?case using p keep d unfolding u by simp
qed

lemma set_drop_nth: "set (drop k xs) = {xs ! b | b. k \<le> b \<and> b < length xs}"
proof -
  have "drop k xs = map (\<lambda>b. xs ! b) [k..<length xs]" by (rule nth_equalityI) auto
  then show ?thesis by auto
qed

lemma arp_outer:
  fixes latch :: "u8 list"
  assumes "k \<le> length latch"
  defines "r \<equiv> foldl (\<lambda>order i. foldl (arp_swap latch i) order [i + 1..<length latch]) [0..<length latch] [0..<k]"
  shows "length r = length latch \<and> mset r = mset [0..<length latch] \<and>
    (\<forall>a b. a < k \<and> a \<le> b \<and> b < length latch \<longrightarrow> latch ! (r ! a) \<le> latch ! (r ! b))"
  unfolding r_def using assms(1)
proof (induction k)
  case (Suc k)
  let ?n = "length latch"
  define r where "r = foldl (\<lambda>order i. foldl (arp_swap latch i) order [i + 1..<?n]) [0..<?n] [0..<k]"
  define q where "q = foldl (arp_swap latch k) r [Suc k..<?n]"
  have step: "foldl (\<lambda>order i. foldl (arp_swap latch i) order [i + 1..<?n]) [0..<?n] [0..<Suc k] = q"
    by (simp add: r_def q_def)
  have IH: "length r = ?n" "mset r = mset [0..<?n]"
    "\<And>a b. a < k \<Longrightarrow> a \<le> b \<Longrightarrow> b < ?n \<Longrightarrow> latch ! (r ! a) \<le> latch ! (r ! b)"
    using Suc unfolding r_def by auto
  have "\<forall>l. k \<le> l \<and> l < Suc k \<longrightarrow> latch ! (r ! k) \<le> latch ! (r ! l)"
    by (metis le_antisym less_Suc_eq_le order_refl)
  from arp_inner [OF _ _ _ this, of ?n] have i: "length q = ?n" "mset q = mset r" "\<And>l. l < k \<Longrightarrow> q ! l = r ! l"
    "set (drop k q) = set (drop k r)" "\<And>l. k \<le> l \<Longrightarrow> l < ?n \<Longrightarrow> latch ! (q ! k) \<le> latch ! (q ! l)"
    using Suc.prems IH(1) by (simp_all add: q_def)
  have "latch ! (q ! a) \<le> latch ! (q ! b)" if "a < Suc k" "a \<le> b" "b < ?n" for a b
  proof (cases "a = k \<or> b < k")
    case True
    with that i(3,5) IH(3) show ?thesis by auto
  next
    case False
    then have a: "a < k" "k \<le> b" using that by auto
    then have "q ! b \<in> set (drop k q)" using that(3) i(1) by (auto simp: set_drop_nth)
    then obtain b' where "k \<le> b'" "b' < ?n" "q ! b = r ! b'" using i(4) IH(1) by (auto simp: set_drop_nth)
    with a i(3) [of a] IH(3) [of a b'] show ?thesis by simp
  qed
  with i(1,2) IH(2) show ?case unfolding step by simp
qed simp

lemma arp_order_sorted:
  "mset (arp_order mode latch) = mset [0..<length latch] \<and> length (arp_order mode latch) = length latch \<and>
   (mode \<noteq> 4 \<longrightarrow> sorted (map (\<lambda>i. latch ! i) (arp_order mode latch)))"
  using arp_outer [of "length latch" latch] by (auto simp: arp_order_def Let_def sorted_iff_nth_mono)

lemma arp_pos_less: "0 < span \<Longrightarrow> arp_pos mode step span < span"
proof -
  assume s: "0 < span"
  have t: "step mod (2 * span - 2) < 2 * span - 2" if "1 < span" using that by (intro mod_less_divisor) simp
  show ?thesis
    using s t mod_less_divisor [OF s, of step] by (auto simp: arp_pos_def Let_def not_le)
qed

text \<open>
  The arpeggiator plays held notes only, and up-down moves one step at a time.  For every mode and step the pick is
  a latched note, sounding at its pitch or octaves above it and never above 127; the index order is a permutation
  that is sorted by pitch unless the mode is as-played; and in up-down mode consecutive positions of a sequence of
  more than one note always differ by exactly one, so no end point is repeated.
\<close>

theorem arp_select_spec:
  assumes "latch \<noteq> []" and "\<forall>x \<in> set latch. x \<le> 127"
  shows "ap_sel (harp_arp_select mode step latch octaves) < length latch \<and>
    ap_note (harp_arp_select mode step latch octaves) \<le> 127 \<and>
    (\<exists>oct \<le> octaves. ap_note (harp_arp_select mode step latch octaves) =
       unat (latch ! ap_sel (harp_arp_select mode step latch octaves)) + 12 * oct) \<and>
    mset (arp_order mode latch) = mset [0..<length latch] \<and>
    (mode \<noteq> 4 \<longrightarrow> sorted (map (\<lambda>i. latch ! i) (arp_order mode latch))) \<and>
    (1 < span \<longrightarrow> arp_pos 3 (Suc step) span = Suc (arp_pos 3 step span) \<or>
       Suc (arp_pos 3 (Suc step) span) = arp_pos 3 step span)"
proof (intro conjI)
  let ?n = "length latch" and ?order = "arp_order mode latch" and ?p = "harp_arp_select mode step latch octaves"
  let ?pos = "arp_pos mode step (?n * (octaves + 1))"
  have n: "0 < ?n" using assms(1) by simp
  note o = arp_order_sorted [of mode latch]
  have "?pos < ?n * (octaves + 1)" using n by (intro arp_pos_less) simp
  then have oct: "?pos div ?n \<le> octaves" using n by (simp add: less_mult_imp_div_less mult.commute less_Suc_eq_le [symmetric])
  have "?order ! (?pos mod ?n) \<in> set ?order" using o n by (intro nth_mem) simp
  then have sel: "?order ! (?pos mod ?n) < ?n" using o by (metis atLeastLessThan_iff mset_eq_setD set_upt)
  then have "latch ! (?order ! (?pos mod ?n)) \<le> 127" using assms(2) nth_mem by blast
  then have le: "unat (latch ! (?order ! (?pos mod ?n))) \<le> 127" by (simp add: word_le_nat_alt)
  show "ap_sel ?p < ?n" using sel by (simp add: harp_arp_select_def Let_def)
  show "ap_note ?p \<le> 127" using le by (simp add: harp_arp_select_def Let_def)
  show "\<exists>oct \<le> octaves. ap_note ?p = unat (latch ! ap_sel ?p) + 12 * oct"
    using oct by (cases "unat (latch ! (?order ! (?pos mod ?n))) + 12 * (?pos div ?n) > 127")
      (auto simp: harp_arp_select_def Let_def)
  show "mset ?order = mset [0..<?n]" "mode \<noteq> 4 \<longrightarrow> sorted (map (\<lambda>i. latch ! i) ?order)" using o by auto
  show "1 < span \<longrightarrow> arp_pos 3 (Suc step) span = Suc (arp_pos 3 step span) \<or>
       Suc (arp_pos 3 (Suc step) span) = arp_pos 3 step span"
  proof
    assume s: "1 < span"
    define t where "t = step mod (2 * span - 2)"
    have "t < 2 * span - 2" using s by (simp add: t_def)
    moreover have "Suc step mod (2 * span - 2) = (if Suc t = 2 * span - 2 then 0 else Suc t)"
      by (simp add: t_def mod_Suc)
    ultimately show "arp_pos 3 (Suc step) span = Suc (arp_pos 3 step span) \<or>
        Suc (arp_pos 3 (Suc step) span) = arp_pos 3 step span"
      using s by (auto simp: arp_pos_def Let_def simp flip: t_def)
  qed
qed

lemma arp_select_spec_witness:
  "ap_note (harp_arp_select 3 7 [60, 55, 120] 1) \<le> 127 \<and> sorted (map (\<lambda>i. [60, 55, 120 :: u8] ! i) (arp_order 3 [60, 55, 120]))"
proof -
  have "\<forall>x \<in> set [60, 55, 120 :: u8]. x \<le> 127" by simp
  with arp_select_spec [of "[60, 55, 120]" 3 7 1 6] show ?thesis by simp
qed

section \<open>The connection penalty ring\<close>

record harp_peer_penalty =
  pp_ip :: u32
  pp_until_ns :: u64

definition harp_peer_penalized :: "harp_peer_penalty list \<Rightarrow> u32 \<Rightarrow> u64 \<Rightarrow> bool" where
  "harp_peer_penalized ring ip_net now_ns \<longleftrightarrow>
     ip_net \<noteq> 0 \<and> list_ex (\<lambda>p. pp_ip p = ip_net \<and> now_ns < pp_until_ns p) ring"

definition harp_peer_penalize :: "harp_peer_penalty list \<Rightarrow> nat \<Rightarrow> u32 \<Rightarrow> u64 \<Rightarrow> u64
    \<Rightarrow> harp_peer_penalty list \<times> nat" where
  "harp_peer_penalize ring idx ip_net now_ns penalty_ns =
     (if ip_net = 0 then (ring, idx)
      else (ring[idx := \<lparr>pp_ip = ip_net, pp_until_ns = now_ns + penalty_ns\<rparr>], (idx + 1) mod length ring))"

section \<open>The token bucket\<close>

record harp_op_bucket =
  ob_allowance_ns :: u64
  ob_last_ns :: u64

definition harp_op_admit :: "harp_op_bucket \<Rightarrow> u64 \<Rightarrow> u64 \<Rightarrow> u64 \<Rightarrow> bool \<times> harp_op_bucket" where
  "harp_op_admit b now_ns cost_ns burst_ns =
     (let a = (if ob_last_ns b = 0 then burst_ns
               else if now_ns > ob_last_ns b then
                 let a = ob_allowance_ns b + (now_ns - ob_last_ns b) in if a > burst_ns then burst_ns else a
               else ob_allowance_ns b)
      in if a \<ge> cost_ns then (True, \<lparr>ob_allowance_ns = a - cost_ns, ob_last_ns = now_ns\<rparr>)
         else (False, \<lparr>ob_allowance_ns = a, ob_last_ns = now_ns\<rparr>))"

text \<open>The decisions on a sequence of requests.\<close>

fun op_admits :: "harp_op_bucket \<Rightarrow> u64 \<Rightarrow> u64 \<Rightarrow> u64 list \<Rightarrow> bool list" where
  "op_admits b cost burst [] = []"
| "op_admits b cost burst (t # ts) =
     (case harp_op_admit b t cost burst of (ok, b) \<Rightarrow> ok # op_admits b cost burst ts)"

abbreviation count_true :: "bool list \<Rightarrow> nat" where
  "count_true bs \<equiv> length (filter (\<lambda>b. b) bs)"

text \<open>A bucket in use: its credit never exceeds the burst.\<close>

lemma op_admit_used:
  assumes "0 < ob_last_ns b" "ob_last_ns b \<le> t" "ob_allowance_ns b \<le> burst" "unat burst + unat t < 2 ^ 64"
    and "harp_op_admit b t cost burst = (ok, b')"
  shows "ob_last_ns b' = t \<and> ob_allowance_ns b' \<le> burst \<and>
    unat (ob_allowance_ns b') + (if ok then unat cost else 0) \<le> unat (ob_allowance_ns b) + (unat t - unat (ob_last_ns b))"
proof -
  let ?a = "ob_allowance_ns b" and ?l = "ob_last_ns b"
  have l: "unat ?l \<le> unat t" and a: "unat ?a \<le> unat burst" using assms(2,3) by (simp_all add: word_le_nat_alt)
  have d: "unat (t - ?l) = unat t - unat ?l" using assms(2) by (rule unat_sub)
  have "unat (?a + (t - ?l)) = unat ?a + (unat t - unat ?l)"
    using a l d assms(4) by (subst unat_add_lem [THEN iffD1]) simp_all
  then show ?thesis
    using assms l a d
    by (auto simp: harp_op_admit_def Let_def word_le_nat_alt word_less_nat_alt unat_sub split: if_splits)
qed

lemma op_admits_used:
  assumes "0 < ob_last_ns b" "ob_allowance_ns b \<le> burst" "sorted (ob_last_ns b # ts)"
    and "unat burst + unat (last (ob_last_ns b # ts)) < 2 ^ 64"
  shows "count_true (op_admits b cost burst ts) * unat cost \<le>
    unat (ob_allowance_ns b) + (unat (last (ob_last_ns b # ts)) - unat (ob_last_ns b))"
  using assms
proof (induction ts arbitrary: b)
  case (Cons t ts)
  obtain ok b' where r: "harp_op_admit b t cost burst = (ok, b')" by (cases "harp_op_admit b t cost burst")
  have t: "ob_last_ns b \<le> t" "t \<le> last (t # ts)" using Cons.prems(3) by auto
  then have u: "unat (ob_last_ns b) \<le> unat t" "unat t \<le> unat (last (t # ts))" by (simp_all add: word_le_nat_alt)
  have "unat burst + unat t < 2 ^ 64" using Cons.prems(4) u by (auto split: if_splits)
  note s = op_admit_used [OF Cons.prems(1) t(1) Cons.prems(2) this r]
  have "0 < t" using Cons.prems(1) t(1) by (rule less_le_trans)
  with s Cons.IH [of b'] Cons.prems(3,4)
  have "count_true (op_admits b' cost burst ts) * unat cost \<le> unat (ob_allowance_ns b') + (unat (last (t # ts)) - unat t)"
    by simp
  with s u r show ?case by (auto split: if_splits)
qed simp

text \<open>
  The token bucket bounds the expensive operations of a connection.  Of a sequence of requests with non-decreasing
  time stamps on a fresh bucket, at most as many are admitted as the burst and the elapsed time pay for, counted in
  64-bit arithmetic that does not wrap within the stated range; and the first request is always admitted when it
  costs no more than the burst.
\<close>

theorem op_bucket_rate:
  assumes "sorted (t # ts)" and "0 < t" and "unat burst + unat (last (t # ts)) < 2 ^ 64"
  shows "count_true (op_admits \<lparr>ob_allowance_ns = 0, ob_last_ns = 0\<rparr> cost burst (t # ts)) * unat cost \<le>
      unat burst + (unat (last (t # ts)) - unat t) \<and>
    (cost \<le> burst \<longrightarrow> hd (op_admits \<lparr>ob_allowance_ns = 0, ob_last_ns = 0\<rparr> cost burst (t # ts)))"
proof -
  let ?b = "\<lparr>ob_allowance_ns = 0, ob_last_ns = 0\<rparr>"
  obtain ok b' where r: "harp_op_admit ?b t cost burst = (ok, b')" by (cases "harp_op_admit ?b t cost burst")
  then have b': "ob_last_ns b' = t" "ob_allowance_ns b' \<le> burst" "ok \<longleftrightarrow> cost \<le> burst"
    "unat (ob_allowance_ns b') + (if ok then unat cost else 0) \<le> unat burst"
    by (auto simp: harp_op_admit_def Let_def word_le_nat_alt unat_sub split: if_splits)
  from op_admits_used [of b' burst ts cost] b' assms
  have "count_true (op_admits b' cost burst ts) * unat cost \<le> unat (ob_allowance_ns b') + (unat (last (t # ts)) - unat t)"
    by simp
  with b' r show ?thesis by (auto split: if_splits)
qed

lemma op_bucket_rate_witness:
  "count_true (op_admits \<lparr>ob_allowance_ns = 0, ob_last_ns = 0\<rparr> 100 500 [1, 2, 2, 3, 4, 5, 6, 7, 300]) * 100 \<le> 799"
  using op_bucket_rate [of 1 "[2, 2, 3, 4, 5, 6, 7, 300]" 500 100] by simp

section \<open>Event routing\<close>

definition harp_evt_part :: "u32 \<Rightarrow> nat \<Rightarrow> nat" where
  "harp_evt_part channel nparts = unat (channel mod of_nat nparts)"

definition harp_mod_targets_voice :: "u32 \<Rightarrow> bool \<Rightarrow> u32 \<Rightarrow> bool" where
  "harp_mod_targets_voice ev_voice v_active v_voice_id =
     (if \<not> v_active then False else ev_voice = 0 \<or> v_voice_id = ev_voice)"

datatype harp_mod_target_kind = HARP_MODT_IGNORE | HARP_MODT_BEND | HARP_MODT_PRESSURE | HARP_MODT_PARAM

definition harp_mod_target :: "u32 \<Rightarrow> int \<Rightarrow> u32 \<Rightarrow> u32 \<Rightarrow> harp_mod_target_kind" where
  "harp_mod_target ev_a param_idx bend_id pressure_id =
     (if ev_a = bend_id then HARP_MODT_BEND
      else if ev_a = pressure_id then HARP_MODT_PRESSURE
      else if param_idx \<ge> 0 then HARP_MODT_PARAM
      else HARP_MODT_IGNORE)"

definition harp_evt_epoch_stale :: "u64 \<Rightarrow> u32 \<Rightarrow> bool" where
  "harp_evt_epoch_stale ev_epoch cur_epoch \<longleftrightarrow> ev_epoch \<noteq> 0 \<and> ev_epoch < ucast cur_epoch"

definition harp_evt_dirties_live :: "u32 \<Rightarrow> u32 \<Rightarrow> bool \<Rightarrow> bool" where
  "harp_evt_dirties_live etype voice have_txn =
     (if have_txn then False else if voice \<noteq> 0 then False else etype = 1 \<or> etype = 5)"

section \<open>The fence wait\<close>

definition harp_fence_keep_waiting :: "int \<Rightarrow> bool \<Rightarrow> bool \<Rightarrow> u64 \<Rightarrow> u64 \<Rightarrow> bool" where
  "harp_fence_keep_waiting pending running offline now_ns deadline_ns =
     (if pending \<le> 0 \<or> \<not> running then False else if offline then True else now_ns < deadline_ns)"

definition harp_fence_count_timeout :: "int \<Rightarrow> bool \<Rightarrow> bool \<Rightarrow> bool" where
  "harp_fence_count_timeout pending running offline \<longleftrightarrow> \<not> offline \<and> running \<and> pending > 0"

end
