(* ===== verification/Harp_Engine.thy ===== *)
theory Harp_Engine
  imports Harp_Float Harp_Policy
begin

text \<open>
  The event side of \<^verbatim>\<open>device/engine.c\<close>: the parameter table, the sixteen parts with their voice pools, arp
  latches and ramps, the timestamped event queue and the application of due events.  The oscillators and the
  musical step clock of the arpeggiator are not modelled.  Parts are records, C arrays are lists; the arrays
  \<^verbatim>\<open>latch[]\<close> and \<^verbatim>\<open>vel[]\<close> hold their first \<^verbatim>\<open>nlatch\<close> entries only.  \<^verbatim>\<open>float\<close> arithmetic is IEEE 754 on bit
  patterns, rounded to nearest, ties to even; a NaN result is the default quiet NaN.
\<close>

unbundle bit_operations_syntax

section \<open>Single precision arithmetic\<close>

text \<open>The nearest \<^verbatim>\<open>float\<close> to \<open>mag * 2 ^ ex\<close> with sign \<open>s\<close>; \<open>e\<close> is the weight of its last place.\<close>

definition f32_pack :: "nat \<Rightarrow> nat \<Rightarrow> int \<Rightarrow> f32" where
  "f32_pack s mag ex =
     (if mag = 0 then f32_make s 0 0
      else
        let e = max (int (ilog2 mag) + ex - 23) (- 149);
            q = (if e \<le> ex then mag * 2 ^ nat (ex - e) else rne mag (nat (e - ex)))
        in f32_make s 0 (min (255 * 2 ^ 23) (nat (e + 149) * 2 ^ 23 + q)))"

text \<open>A finite \<^verbatim>\<open>float\<close> is an integer multiple of \<open>2 ^ - 149\<close>.\<close>

definition f32_mag :: "f32 \<Rightarrow> nat" where
  "f32_mag x = (if f32_exp x = 0 then f32_man x else (2 ^ 23 + f32_man x) * 2 ^ (f32_exp x - 1))"

definition f32_int :: "f32 \<Rightarrow> int" where
  "f32_int x = (if f32_sign x = 0 then int (f32_mag x) else - int (f32_mag x))"

definition f32_qnan :: f32 where "f32_qnan = 0x7fc00000"

definition f32_add :: "f32 \<Rightarrow> f32 \<Rightarrow> f32" where
  "f32_add a b =
     (if f32_isnan a \<or> f32_isnan b then f32_qnan
      else if f32_isinf a then (if f32_isinf b \<and> f32_sign a \<noteq> f32_sign b then f32_qnan else a)
      else if f32_isinf b then b
      else
        let d = f32_int a + f32_int b
        in if d = 0 then f32_make (if f32_sign a = 1 \<and> f32_sign b = 1 then 1 else 0) 0 0
           else f32_pack (if d < 0 then 1 else 0) (nat \<bar>d\<bar>) (- 149))"

definition f32_sub :: "f32 \<Rightarrow> f32 \<Rightarrow> f32" where
  "f32_sub a b = f32_add a (b XOR push_bit 31 1)"

definition f32_mul :: "f32 \<Rightarrow> f32 \<Rightarrow> f32" where
  "f32_mul a b =
     (let s = (f32_sign a + f32_sign b) mod 2
      in if f32_isnan a \<or> f32_isnan b then f32_qnan
         else if f32_isinf a \<or> f32_isinf b then
           if f32_mag a = 0 \<or> f32_mag b = 0 then f32_qnan else f32_make s 255 0
         else f32_pack s (f32_mag a * f32_mag b) (- 298))"

text \<open>The quotient to more than 26 bits with a sticky last bit rounds like the exact quotient.\<close>

definition f32_div :: "f32 \<Rightarrow> f32 \<Rightarrow> f32" where
  "f32_div a b =
     (let s = (f32_sign a + f32_sign b) mod 2
      in if f32_isnan a \<or> f32_isnan b then f32_qnan
         else if f32_isinf a then (if f32_isinf b then f32_qnan else f32_make s 255 0)
         else if f32_isinf b then f32_make s 0 0
         else if f32_mag b = 0 then (if f32_mag a = 0 then f32_qnan else f32_make s 255 0)
         else
           let k = 30 + ilog2 (f32_mag b); n = f32_mag a * 2 ^ k; q = n div f32_mag b
           in f32_pack s (2 * q + (if n mod f32_mag b \<noteq> 0 then 1 else 0)) (- int k - 1))"

definition f32_of_nat :: "nat \<Rightarrow> f32" where
  "f32_of_nat n = f32_pack 0 n 0"

text \<open>
  The cast \<^verbatim>\<open>(int)x\<close> truncates.  Outside the range of \<^verbatim>\<open>int\<close> C leaves it undefined; the value here is that of the
  x86-64 conversion instruction.
\<close>

definition f32_to_int :: "f32 \<Rightarrow> int" where
  "f32_to_int x =
     (let v = (if f32_sign x = 0 then 1 else - 1) * int (f32_mag x div 2 ^ 149)
      in if f32_exp x = 255 \<or> v < - (2 ^ 31) \<or> v \<ge> 2 ^ 31 then - (2 ^ 31) else v)"

section \<open>The parameter table\<close>

record dev_param =
  dp_id :: u32
  dp_name :: bytes
  dp_steps :: u8
  dp_labels :: "bytes list"
  dp_def :: f32

definition NPARAMS :: nat where "NPARAMS = 12"
definition NPARTS :: nat where "NPARTS = 16"
definition NVOICES :: nat where "NVOICES = 8"
definition ARP_LATCH_MAX :: nat where "ARP_LATCH_MAX = 8"
definition DEV_EVQ_CAP :: nat where "DEV_EVQ_CAP = 512"
definition METER_NSLOTS :: nat where "METER_NSLOTS = NPARTS + 1"
definition HARP_MOD_PITCH_BEND :: u32 where "HARP_MOD_PITCH_BEND = 0x2001"
definition HARP_MOD_PRESSURE :: u32 where "HARP_MOD_PRESSURE = 0x2002"

definition ARP_MODES :: "bytes list" where
  "ARP_MODES = map str [''Off'', ''Up'', ''Down'', ''Up-Down'', ''As Played'']"
definition ARP_DIVS :: "bytes list" where
  "ARP_DIVS = map str [''1/4'', ''1/8'', ''1/8T'', ''1/16'', ''1/16T'', ''1/32'']"
definition ARP_OCTS :: "bytes list" where
  "ARP_OCTS = map str [''1'', ''2'', ''3'', ''4'']"

text \<open>The \<^verbatim>\<open>float\<close> literals of the table.\<close>

definition f32_half :: f32 where "f32_half = 0x3f000000"
definition f32_0_6 :: f32 where "f32_0_6 = 0x3f19999a"

definition param_def :: "u32 \<Rightarrow> string \<Rightarrow> u8 \<Rightarrow> bytes list \<Rightarrow> f32 \<Rightarrow> dev_param" where
  "param_def i n s ls d = \<lparr>dp_id = i, dp_name = str n, dp_steps = s, dp_labels = ls, dp_def = d\<rparr>"

definition g_params :: "dev_param list" where
  "g_params =
     [param_def 1 ''Osc Pitch'' 0 [] f32_half, param_def 2 ''Osc Shape'' 0 [] f32_half,
      param_def 3 ''Filter Cutoff'' 0 [] f32_half, param_def 4 ''Filter Reso'' 0 [] f32_half,
      param_def 5 ''Env Attack'' 0 [] f32_half, param_def 6 ''Env Release'' 0 [] f32_half,
      param_def 7 ''Master Level'' 0 [] f32_half, param_def 8 ''Arp Mode'' 5 ARP_MODES 0,
      param_def 9 ''Arp Division'' 6 ARP_DIVS f32_0_6, param_def 10 ''Arp Gate'' 0 [] f32_half,
      param_def 11 ''Arp Octaves'' 4 ARP_OCTS 0, param_def 12 ''Glide'' 0 [] 0]"

definition PVAL_DEFAULTS :: "f32 list" where
  "PVAL_DEFAULTS = [f32_half, f32_half, f32_half, f32_half, f32_half, f32_half, f32_half, 0, f32_0_6,
                    f32_half, 0, 0]"

text \<open>-1 is \<open>None\<close>.\<close>

definition param_index :: "u32 \<Rightarrow> nat option" where
  "param_index i = find (\<lambda>j. dp_id (g_params ! j) = i) [0..<NPARAMS]"

section \<open>Parts\<close>

record dev_ramp =
  rp_active :: bool
  rp_start :: u64
  rp_end :: u64
  rp_start_val :: f32
  rp_target :: f32

definition ramp_zero :: dev_ramp where
  "ramp_zero = \<lparr>rp_active = False, rp_start = 0, rp_end = 0, rp_start_val = 0, rp_target = 0\<rparr>"

text \<open>The DSP state of a voice, which only the oscillator code changes.\<close>

record voice_dsp =
  vd_smoothed :: "f32 list"
  vd_init :: bool
  vd_osc :: "f32 list"
  vd_freq :: f32
  vd_env :: f32
  vd_env_reset :: u8
  vd_seen_seq :: u32

record synth_voice =
  vo_note :: int
  vo_note_vel :: f32
  vo_note_seq :: u32
  vo_voice_id :: u32
  vo_alloc_seq :: u64
  vo_active :: bool
  vo_mod :: "f32 list"
  vo_has_mod :: bool
  vo_bend_semis :: f32
  vo_z_gain :: f32
  vo_vramp :: dev_ramp
  vo_vramp_idx :: nat
  vo_dsp :: voice_dsp

definition voice_zero :: synth_voice where
  "voice_zero = \<lparr>vo_note = 0, vo_note_vel = 0, vo_note_seq = 0, vo_voice_id = 0, vo_alloc_seq = 0,
     vo_active = False, vo_mod = replicate NPARAMS 0, vo_has_mod = False, vo_bend_semis = 0, vo_z_gain = 0,
     vo_vramp = ramp_zero, vo_vramp_idx = 0,
     vo_dsp = \<lparr>vd_smoothed = replicate 5 0, vd_init = False, vd_osc = replicate 6 0, vd_freq = 0,
                vd_env = 0, vd_env_reset = 0, vd_seen_seq = 0\<rparr>\<rparr>"

record arp_state =
  ar_playing :: bool
  ar_anchor_valid :: bool
  ar_tempo :: f64
  ar_anchor_ppq :: f64
  ar_anchor_ssi :: u64
  ar_latch :: "u8 list"
  ar_vel :: "f32 list"
  ar_step :: nat
  ar_sounding :: int
  ar_gate_off :: u64

record part =
  pt_voices :: "synth_voice list"
  pt_alloc_clock :: u64
  pt_panic_note :: int
  pt_arp :: arp_state
  pt_pval :: "f32 list"
  pt_ramps :: "dev_ramp list"

definition PANIC_NONE :: int where "PANIC_NONE = - 2"
definition PANIC_ALL :: int where "PANIC_ALL = - 1"

definition part_boot :: part where
  "part_boot =
     \<lparr>pt_voices = replicate NVOICES (voice_zero\<lparr>vo_note := - 1\<rparr>), pt_alloc_clock = 0,
      pt_panic_note = PANIC_NONE,
      pt_arp = \<lparr>ar_playing = False, ar_anchor_valid = False, ar_tempo = 0, ar_anchor_ppq = 0,
                 ar_anchor_ssi = 0, ar_latch = [], ar_vel = [], ar_step = 0, ar_sounding = - 1,
                 ar_gate_off = 0\<rparr>,
      pt_pval = PVAL_DEFAULTS, pt_ramps = replicate NPARAMS ramp_zero\<rparr>"

definition part_pget :: "part \<Rightarrow> nat \<Rightarrow> f32" where
  "part_pget p i = pt_pval p ! i"

definition part_pput :: "part \<Rightarrow> nat \<Rightarrow> f32 \<Rightarrow> part" where
  "part_pput p i v = p\<lparr>pt_pval := (pt_pval p)[i := v]\<rparr>"

definition engine_part_param_get :: "part list \<Rightarrow> int \<Rightarrow> u32 \<Rightarrow> f32" where
  "engine_part_param_get ps part_idx i =
     (if part_idx < 0 \<or> part_idx \<ge> int NPARTS then 0
      else case param_index i of None \<Rightarrow> 0 | Some idx \<Rightarrow> part_pget (ps ! nat part_idx) idx)"

definition engine_part_param_put :: "part list \<Rightarrow> int \<Rightarrow> u32 \<Rightarrow> f32 \<Rightarrow> part list" where
  "engine_part_param_put ps part_idx i v =
     (if part_idx < 0 \<or> part_idx \<ge> int NPARTS then ps
      else case param_index i of
             None \<Rightarrow> ps
           | Some idx \<Rightarrow> ps[nat part_idx := part_pput (ps ! nat part_idx) idx v])"

definition param_step_index :: "part \<Rightarrow> u32 \<Rightarrow> int" where
  "param_step_index p i =
     (case param_index i of
        None \<Rightarrow> 0
      | Some idx \<Rightarrow>
          let n = unat (dp_steps (g_params ! idx))
          in if n \<le> 1 then 0
             else let si = f32_to_int (f32_mul (part_pget p idx) (f32_of_nat n))
                  in if si \<ge> int n then int n - 1 else si)"

section \<open>Voices\<close>

definition voice_alloc :: "part \<Rightarrow> nat" where
  "voice_alloc p = harp_voice_pick (map vo_active (pt_voices p)) (map vo_alloc_seq (pt_voices p)) NVOICES"

definition voice_note_on :: "part \<Rightarrow> int \<Rightarrow> f32 \<Rightarrow> u32 \<Rightarrow> part" where
  "voice_note_on p note vel voice_id =
     (let i = voice_alloc p; v = pt_voices p ! i
      in p\<lparr>pt_alloc_clock := pt_alloc_clock p + 1,
           pt_voices := (pt_voices p)[i := v\<lparr>vo_note := note, vo_note_vel := vel, vo_voice_id := voice_id,
             vo_alloc_seq := pt_alloc_clock p, vo_active := True, vo_note_seq := vo_note_seq v + 1,
             vo_has_mod := False, vo_mod := replicate NPARAMS 0, vo_bend_semis := 0, vo_z_gain := 0,
             vo_vramp := (vo_vramp v)\<lparr>rp_active := False\<rparr>\<rparr>]\<rparr>)"

definition voice_note_off :: "part \<Rightarrow> int \<Rightarrow> part" where
  "voice_note_off p note =
     p\<lparr>pt_voices := map (\<lambda>v. if vo_active v \<and> vo_note v = note then v\<lparr>vo_note := - 1\<rparr> else v) (pt_voices p)\<rparr>"

definition part_voices_cold :: "part \<Rightarrow> part" where
  "part_voices_cold p =
     p\<lparr>pt_voices := map (\<lambda>v. voice_zero\<lparr>vo_note := - 1\<rparr>) (pt_voices p), pt_alloc_clock := 0\<rparr>"

text \<open>The loop that idles every voice of a part, in the panic, all-off and stream reset code.\<close>

definition voices_idle :: "part \<Rightarrow> part" where
  "voices_idle p = p\<lparr>pt_voices := map (\<lambda>v. v\<lparr>vo_note := - 1, vo_active := False\<rparr>) (pt_voices p)\<rparr>"

section \<open>Panic signals\<close>

definition engine_all_notes_off :: "part list \<Rightarrow> part list" where
  "engine_all_notes_off ps = map (\<lambda>p. p\<lparr>pt_panic_note := PANIC_ALL\<rparr>) ps"

definition engine_note_off_if :: "u32 \<Rightarrow> part list \<Rightarrow> part list" where
  "engine_note_off_if note ps = map (\<lambda>p. p\<lparr>pt_panic_note := sint note\<rparr>) ps"

definition panic_service :: "part \<Rightarrow> part" where
  "panic_service p =
     (let req = pt_panic_note p; p = p\<lparr>pt_panic_note := PANIC_NONE\<rparr>
      in if req = PANIC_NONE then p
         else if req = PANIC_ALL then voices_idle p
         else voice_note_off p req)"

section \<open>The arpeggiator's latch\<close>

definition arp_active :: "part \<Rightarrow> bool" where
  "arp_active p \<longleftrightarrow> param_step_index p 8 \<noteq> 0"

definition arp_voice_off :: "part \<Rightarrow> part" where
  "arp_voice_off p =
     (let a = pt_arp p; v0 = pt_voices p ! 0;
          p = (if ar_sounding a \<ge> 0 \<and> vo_note v0 = ar_sounding a
               then p\<lparr>pt_voices := (pt_voices p)[0 := v0\<lparr>vo_note := - 1\<rparr>]\<rparr> else p)
      in p\<lparr>pt_arp := a\<lparr>ar_sounding := - 1, ar_gate_off := 0\<rparr>\<rparr>)"

definition arp_voice_on :: "part \<Rightarrow> int \<Rightarrow> f32 \<Rightarrow> part" where
  "arp_voice_on p note vel =
     (let v0 = pt_voices p ! 0
      in p\<lparr>pt_voices := (pt_voices p)[0 := v0\<lparr>vo_note_vel := vel, vo_note := note,
             vo_note_seq := vo_note_seq v0 + 1, vo_active := True\<rparr>]\<rparr>)"

text \<open>The first latch index that holds the note.\<close>

fun latch_find :: "u8 list \<Rightarrow> u8 \<Rightarrow> nat option" where
  "latch_find [] note = None"
| "latch_find (n # ns) note = (if n = note then Some 0 else map_option Suc (latch_find ns note))"

definition arp_latch_add :: "part \<Rightarrow> u8 \<Rightarrow> f32 \<Rightarrow> part" where
  "arp_latch_add p note vel =
     (let a = pt_arp p
      in case latch_find (ar_latch a) note of
           Some i \<Rightarrow> p\<lparr>pt_arp := a\<lparr>ar_vel := (ar_vel a)[i := vel]\<rparr>\<rparr>
         | None \<Rightarrow>
             if length (ar_latch a) < ARP_LATCH_MAX
             then p\<lparr>pt_arp := a\<lparr>ar_latch := ar_latch a @ [note], ar_vel := ar_vel a @ [vel]\<rparr>\<rparr>
             else p)"

definition arp_latch_remove :: "part \<Rightarrow> u8 \<Rightarrow> part" where
  "arp_latch_remove p note =
     (let a = pt_arp p
      in case latch_find (ar_latch a) note of
           None \<Rightarrow> p
         | Some i \<Rightarrow> p\<lparr>pt_arp := a\<lparr>ar_latch := take i (ar_latch a) @ drop (i + 1) (ar_latch a),
                                    ar_vel := take i (ar_vel a) @ drop (i + 1) (ar_vel a)\<rparr>\<rparr>)"

definition arp_reset :: "part \<Rightarrow> part" where
  "arp_reset p = arp_voice_off (p\<lparr>pt_arp := (pt_arp p)\<lparr>ar_latch := [], ar_vel := [], ar_step := 0\<rparr>\<rparr>)"

definition arp_stream_reset :: "part \<Rightarrow> part" where
  "arp_stream_reset p =
     (let p = arp_reset p
      in p\<lparr>pt_arp := (pt_arp p)\<lparr>ar_anchor_valid := False, ar_playing := False, ar_tempo := 0\<rparr>\<rparr>)"

section \<open>Ramps\<close>

text \<open>One ramp at stream position \<open>pos\<close>: the ramp afterwards and the value it stores, if any.\<close>

definition ramp_tick :: "dev_ramp \<Rightarrow> u64 \<Rightarrow> dev_ramp \<times> f32 option" where
  "ramp_tick r pos =
     (if \<not> rp_active r then (r, None)
      else if pos \<ge> rp_end r \<or> rp_end r \<le> rp_start r then (r\<lparr>rp_active := False\<rparr>, Some (rp_target r))
      else if pos > rp_start r then
        let t = f32_div (f32_of_nat (unat (pos - rp_start r))) (f32_of_nat (unat (rp_end r - rp_start r)))
        in (r, Some (f32_add (rp_start_val r) (f32_mul (f32_sub (rp_target r) (rp_start_val r)) t)))
      else (r, None))"

definition part_ramp_tick :: "u64 \<Rightarrow> part \<Rightarrow> nat \<Rightarrow> part" where
  "part_ramp_tick pos p i =
     (case ramp_tick (pt_ramps p ! i) pos of
        (r, v) \<Rightarrow>
          let p = (case v of None \<Rightarrow> p | Some x \<Rightarrow> part_pput p i x)
          in p\<lparr>pt_ramps := (pt_ramps p)[i := r]\<rparr>)"

definition voice_ramp_tick :: "u64 \<Rightarrow> synth_voice \<Rightarrow> synth_voice" where
  "voice_ramp_tick pos v =
     (case ramp_tick (vo_vramp v) pos of
        (r, x) \<Rightarrow>
          v\<lparr>vo_vramp := r, vo_mod := (case x of None \<Rightarrow> vo_mod v | Some m \<Rightarrow> (vo_mod v)[vo_vramp_idx v := m])\<rparr>)"

definition ramps_advance :: "part \<Rightarrow> u64 \<Rightarrow> part" where
  "ramps_advance p pos =
     (let p = foldl (part_ramp_tick pos) p [0..<NPARAMS]
      in p\<lparr>pt_voices := map (voice_ramp_tick pos) (pt_voices p)\<rparr>)"

section \<open>The event queue\<close>

datatype dev_kind = DEV_EV_NOTE_ON | DEV_EV_NOTE_OFF | DEV_EV_PARAM_SET | DEV_EV_RAMP | DEV_EV_ALL_OFF
  | DEV_EV_TRANSPORT | DEV_EV_MOD

record dev_event =
  ev_ts :: u64
  ev_kind :: dev_kind
  ev_a :: u32
  ev_v :: f32
  ev_end :: u64
  ev_ppq :: f64
  ev_channel :: u8
  ev_voice :: u32

record engine =
  en_parts :: "part list"
  en_evq :: "dev_event list"
  en_touch_pending :: bool
  en_evq_drops :: u64
  en_evt_late :: u64
  en_ramp_late :: u64
  en_evt_consumed :: u32
  en_fence_waits :: u64
  en_fence_timeouts :: u64
  en_meter_peak :: "f32 list"
  en_meter_rms :: "f32 list"

definition engine_boot :: engine where
  "engine_boot =
     \<lparr>en_parts = replicate NPARTS part_boot, en_evq = [], en_touch_pending = False, en_evq_drops = 0,
      en_evt_late = 0, en_ramp_late = 0, en_evt_consumed = 0, en_fence_waits = 0, en_fence_timeouts = 0,
      en_meter_peak = replicate METER_NSLOTS 0, en_meter_rms = replicate METER_NSLOTS 0\<rparr>"

definition engine_meters_reset :: "engine \<Rightarrow> engine" where
  "engine_meters_reset g =
     g\<lparr>en_meter_peak := map (\<lambda>x. 0) (en_meter_peak g), en_meter_rms := map (\<lambda>x. 0) (en_meter_rms g)\<rparr>"

definition evq_push :: "engine \<Rightarrow> dev_event \<Rightarrow> engine" where
  "evq_push g ev =
     (if length (en_evq g) < DEV_EVQ_CAP then g\<lparr>en_evq := en_evq g @ [ev]\<rparr>
      else g\<lparr>en_evq_drops := en_evq_drops g + 1\<rparr>)"

definition evq_push_batch :: "engine \<Rightarrow> dev_event list \<Rightarrow> bool \<times> engine" where
  "evq_push_batch g evs =
     (if length (en_evq g) + length evs \<le> DEV_EVQ_CAP then (True, g\<lparr>en_evq := en_evq g @ evs\<rparr>)
      else (False, g\<lparr>en_evq_drops := en_evq_drops g + of_nat (length evs)\<rparr>))"

text \<open>The loop of \<^verbatim>\<open>evq_push_run\<close> over the queue and the drop counter, under one lock.\<close>

fun push_run_loop :: "dev_event list \<Rightarrow> u64 \<Rightarrow> dev_event list \<Rightarrow> dev_event list \<times> u64" where
  "push_run_loop q drops [] = (q, drops)"
| "push_run_loop q drops (ev # evs) =
     (if length q < DEV_EVQ_CAP then push_run_loop (q @ [ev]) drops evs
      else push_run_loop q (drops + 1) evs)"

definition evq_push_run :: "engine \<Rightarrow> dev_event list \<Rightarrow> engine" where
  "evq_push_run g evs =
     (case push_run_loop (en_evq g) (en_evq_drops g) evs of (q, n) \<Rightarrow> g\<lparr>en_evq := q, en_evq_drops := n\<rparr>)"

definition evq_full :: "engine \<Rightarrow> bool" where
  "evq_full g \<longleftrightarrow> length (en_evq g) \<ge> DEV_EVQ_CAP"

definition part_stream_reset :: "part \<Rightarrow> part" where
  "part_stream_reset p =
     arp_stream_reset ((voices_idle p)\<lparr>pt_panic_note := PANIC_NONE,
       pt_ramps := map (\<lambda>r. ramp_zero) (pt_ramps p)\<rparr>)"

definition evq_reset_for_new_stream :: "engine \<Rightarrow> engine" where
  "evq_reset_for_new_stream g =
     g\<lparr>en_evq := [], en_parts := map part_stream_reset (en_parts g), en_evt_consumed := 0\<rparr>"

section \<open>Applying due events\<close>

text \<open>The condition under which note events go to the voices and not to the step clock only.\<close>

definition arp_bypassed :: "part \<Rightarrow> bool" where
  "arp_bypassed p \<longleftrightarrow> \<not> arp_active p \<or> \<not> ar_playing (pt_arp p) \<or> \<not> ar_anchor_valid (pt_arp p)"

definition apply_note_on :: "dev_event \<Rightarrow> part \<Rightarrow> part" where
  "apply_note_on ev p =
     (let p = arp_latch_add p (ucast (ev_a ev)) (ev_v ev)
      in if arp_bypassed p then
           let vid = (if ev_voice ev \<noteq> 0 then ev_voice ev
                      else push_bit 8 (ucast (ev_channel ev)) OR (ev_a ev AND 0x7f))
           in voice_note_on p (sint (ev_a ev)) (ev_v ev) vid
         else p)"

definition apply_note_off :: "dev_event \<Rightarrow> part \<Rightarrow> part" where
  "apply_note_off ev p =
     (let p = arp_latch_remove p (ucast (ev_a ev))
      in if arp_bypassed p then voice_note_off p (sint (ev_a ev))
         else if ar_latch (pt_arp p) = [] then arp_voice_off p
         else p)"

definition apply_all_off :: "part \<Rightarrow> part" where
  "apply_all_off p = voices_idle (arp_reset p)"

definition apply_transport :: "u64 \<Rightarrow> dev_event \<Rightarrow> part \<Rightarrow> part" where
  "apply_transport pos ev p =
     (let was = ar_playing (pt_arp p);
          a = (pt_arp p)\<lparr>ar_playing := (ev_a ev AND 1 \<noteq> 0)\<rparr>;
          a = (if ev_a ev AND push_bit 3 1 \<noteq> 0 then a\<lparr>ar_tempo := f64_of_f32 (ev_v ev)\<rparr> else a);
          a = (if ev_a ev AND push_bit 5 1 \<noteq> 0
               then a\<lparr>ar_anchor_ppq := ev_ppq ev, ar_anchor_ssi := (if ev_ts ev \<noteq> 0 then ev_ts ev else pos),
                      ar_anchor_valid := True\<rparr>
               else a);
          p = p\<lparr>pt_arp := a\<rparr>;
          p = (if \<not> ar_playing a \<and> was then arp_voice_off p else p)
      in if ar_playing a \<and> \<not> was then p\<lparr>pt_arp := (pt_arp p)\<lparr>ar_step := 0\<rparr>\<rparr> else p)"

text \<open>The loops over the voices that an event addresses.\<close>

definition on_voices :: "u32 \<Rightarrow> (synth_voice \<Rightarrow> synth_voice) \<Rightarrow> part \<Rightarrow> part" where
  "on_voices voice f p =
     p\<lparr>pt_voices := map (\<lambda>v. if harp_mod_targets_voice voice (vo_active v) (vo_voice_id v) then f v else v)
                    (pt_voices p)\<rparr>"

text \<open>The second component of the next two is whether \<^verbatim>\<open>g_touch_pending\<close> is raised.\<close>

definition apply_param_set :: "dev_event \<Rightarrow> part \<Rightarrow> part \<times> bool" where
  "apply_param_set ev p =
     (if ev_voice ev \<noteq> 0 then
        (case param_index (ev_a ev) of
           None \<Rightarrow> p
         | Some j \<Rightarrow>
             let base = part_pget p j
             in on_voices (ev_voice ev)
                  (\<lambda>v. v\<lparr>vo_mod := (vo_mod v)[j := f32_sub (ev_v ev) base],
                         vo_vramp := (vo_vramp v)\<lparr>rp_active := False\<rparr>, vo_has_mod := True\<rparr>) p, False)
      else
        (case param_index (ev_a ev) of
           None \<Rightarrow> p
         | Some j \<Rightarrow>
             let p = part_pput p j (ev_v ev)
             in p\<lparr>pt_ramps := (pt_ramps p)[j := (pt_ramps p ! j)\<lparr>rp_active := False\<rparr>]\<rparr>, True))"

definition apply_ramp :: "u64 \<Rightarrow> dev_event \<Rightarrow> part \<Rightarrow> part \<times> bool" where
  "apply_ramp pos ev p =
     (if ev_voice ev \<noteq> 0 then
        (case param_index (ev_a ev) of
           None \<Rightarrow> p
         | Some j \<Rightarrow>
             let base = part_pget p j
             in on_voices (ev_voice ev)
                  (\<lambda>v. v\<lparr>vo_vramp := \<lparr>rp_active = True, rp_start = pos, rp_end = ev_end ev,
                                      rp_start_val = vo_mod v ! j, rp_target = f32_sub (ev_v ev) base\<rparr>,
                         vo_vramp_idx := j, vo_has_mod := True\<rparr>) p, False)
      else
        (case param_index (ev_a ev) of
           None \<Rightarrow> p
         | Some j \<Rightarrow>
             p\<lparr>pt_ramps := (pt_ramps p)[j := \<lparr>rp_active = True, rp_start = pos, rp_end = ev_end ev,
                                              rp_start_val = part_pget p j, rp_target = ev_v ev\<rparr>]\<rparr>, True))"

definition apply_mod :: "dev_event \<Rightarrow> part \<Rightarrow> part" where
  "apply_mod ev p =
     (let idx = param_index (ev_a ev)
      in case harp_mod_target (ev_a ev) (case idx of None \<Rightarrow> - 1 | Some j \<Rightarrow> int j)
                HARP_MOD_PITCH_BEND HARP_MOD_PRESSURE of
           HARP_MODT_IGNORE \<Rightarrow> p
         | HARP_MODT_BEND \<Rightarrow> on_voices (ev_voice ev) (\<lambda>v. v\<lparr>vo_bend_semis := ev_v ev\<rparr>) p
         | HARP_MODT_PRESSURE \<Rightarrow> on_voices (ev_voice ev) (\<lambda>v. v\<lparr>vo_z_gain := ev_v ev\<rparr>) p
         | HARP_MODT_PARAM \<Rightarrow>
             (case idx of
                None \<Rightarrow> p
              | Some j \<Rightarrow>
                  on_voices (ev_voice ev) (\<lambda>v. v\<lparr>vo_mod := (vo_mod v)[j := ev_v ev], vo_has_mod := True\<rparr>) p))"

definition count_late :: "u64 \<Rightarrow> dev_event \<Rightarrow> engine \<Rightarrow> engine" where
  "count_late pos ev g =
     (if ev_kind ev = DEV_EV_RAMP then
        (if ev_end ev \<noteq> 0 \<and> ev_end ev < pos then g\<lparr>en_ramp_late := en_ramp_late g + 1\<rparr> else g)
      else if ev_ts ev \<noteq> 0 \<and> ev_ts ev < pos then g\<lparr>en_evt_late := en_evt_late g + 1\<rparr>
      else g)"

definition evq_apply_one :: "u64 \<Rightarrow> dev_event \<Rightarrow> engine \<Rightarrow> engine" where
  "evq_apply_one pos ev g =
     (let g = count_late pos ev g;
          i = harp_evt_part (ucast (ev_channel ev)) NPARTS;
          p = en_parts g ! i;
          put = (\<lambda>p. g\<lparr>en_parts := (en_parts g)[i := p]\<rparr>);
          touch = (\<lambda>(p, t). g\<lparr>en_parts := (en_parts g)[i := p], en_touch_pending := (en_touch_pending g \<or> t)\<rparr>)
      in case ev_kind ev of
           DEV_EV_NOTE_ON \<Rightarrow> put (apply_note_on ev p)
         | DEV_EV_NOTE_OFF \<Rightarrow> put (apply_note_off ev p)
         | DEV_EV_ALL_OFF \<Rightarrow> g\<lparr>en_parts := map apply_all_off (en_parts g)\<rparr>
         | DEV_EV_TRANSPORT \<Rightarrow> g\<lparr>en_parts := map (apply_transport pos ev) (en_parts g)\<rparr>
         | DEV_EV_PARAM_SET \<Rightarrow> touch (apply_param_set ev p)
         | DEV_EV_RAMP \<Rightarrow> touch (apply_ramp pos ev p)
         | DEV_EV_MOD \<Rightarrow> put (apply_mod ev p))"

text \<open>The scan over the queue: \<open>kept\<close> is the compacted front \<^verbatim>\<open>g_evq[0..w)\<close>.\<close>

fun apply_due_loop ::
  "u64 \<Rightarrow> u64 \<Rightarrow> dev_event list \<Rightarrow> dev_event list \<Rightarrow> u64 \<Rightarrow> engine \<Rightarrow> dev_event list \<times> u64 \<times> engine" where
  "apply_due_loop pos limit [] kept nxt g = (kept, nxt, g)"
| "apply_due_loop pos limit (ev # evs) kept nxt g =
     (if ev_ts ev \<le> pos then apply_due_loop pos limit evs kept nxt (evq_apply_one pos ev g)
      else apply_due_loop pos limit evs (kept @ [ev])
             (if ev_ts ev < limit \<and> (nxt = 0 \<or> ev_ts ev < nxt) then ev_ts ev else nxt) g)"

definition evq_apply_due :: "u64 \<Rightarrow> u64 \<Rightarrow> engine \<Rightarrow> u64 \<times> engine" where
  "evq_apply_due pos limit g =
     (case apply_due_loop pos limit (en_evq g) [] 0 g of (kept, nxt, g) \<Rightarrow> (nxt, g\<lparr>en_evq := kept\<rparr>))"

section \<open>The queue\<close>

lemma push_run_loop_foldl:
  "push_run_loop (en_evq g) (en_evq_drops g) evs = (q, n) \<Longrightarrow>
     foldl evq_push g evs = g\<lparr>en_evq := q, en_evq_drops := n\<rparr>"
proof (induction evs arbitrary: g q n)
  case (Cons ev evs)
  have "push_run_loop (en_evq (evq_push g ev)) (en_evq_drops (evq_push g ev)) evs = (q, n)"
    using Cons.prems by (simp add: evq_push_def split: if_splits)
  from Cons.IH [OF this] show ?case by (simp add: evq_push_def split: if_splits)
qed simp

lemma foldl_push_fits:
  "length (en_evq g) + length evs \<le> DEV_EVQ_CAP \<Longrightarrow> foldl evq_push g evs = g\<lparr>en_evq := en_evq g @ evs\<rparr>"
  by (induction evs arbitrary: g) (simp_all add: evq_push_def)

text \<open>
  Pushing under one lock changes nothing but the locking.  \<^verbatim>\<open>evq_push_run\<close> equals pushing its events one by
  one, for every queue and every run; a batch that \<^verbatim>\<open>evq_push_batch\<close> accepts is in the queue whole, in order and
  behind what was there, exactly as single pushes would have left it, and a batch that it refuses leaves the whole
  engine as it was but for the counter of dropped events, which grows by the size of the batch.
\<close>

theorem evq_push_run_equiv:
  "evq_push_run g evs = foldl evq_push g evs \<and>
   (case evq_push_batch g evs of
      (ok, g') \<Rightarrow>
        if ok then g' = foldl evq_push g evs \<and> en_evq g' = en_evq g @ evs
        else g' = g\<lparr>en_evq_drops := en_evq_drops g + of_nat (length evs)\<rparr> \<and>
             DEV_EVQ_CAP < length (en_evq g) + length evs)"
  using push_run_loop_foldl [of g evs] foldl_push_fits [of g evs]
  by (auto simp: evq_push_run_def evq_push_batch_def split: prod.split)

section \<open>Due events\<close>

lemma evq_apply_one_evq [simp]: "en_evq (evq_apply_one pos ev g) = en_evq g"
  by (simp add: evq_apply_one_def count_late_def Let_def split: dev_kind.split prod.split)

lemma apply_due_loop_effect:
  "apply_due_loop pos limit evs kept nxt g = (kept', nxt', g') \<Longrightarrow>
     kept' = kept @ filter (\<lambda>e. pos < ev_ts e) evs \<and>
     g' = foldl (\<lambda>g e. evq_apply_one pos e g) g (filter (\<lambda>e. ev_ts e \<le> pos) evs)"
proof (induction evs arbitrary: kept nxt g)
  case (Cons ev evs)
  show ?case
  proof (cases "ev_ts ev \<le> pos")
    case True
    with Cons.prems Cons.IH [of kept nxt "evq_apply_one pos ev g"] show ?thesis by auto
  next
    case False
    with Cons.prems obtain n where "apply_due_loop pos limit evs (kept @ [ev]) n g = (kept', nxt', g')" by simp
    from Cons.IH [OF this] False show ?thesis by (simp add: linorder_not_le)
  qed
qed simp

lemma apply_due_loop_next:
  "apply_due_loop pos limit evs kept nxt g = (kept', nxt', g') \<Longrightarrow>
     (\<forall>e \<in> set evs. pos < ev_ts e \<and> ev_ts e < limit \<longrightarrow> nxt' \<noteq> 0 \<and> nxt' \<le> ev_ts e) \<and>
     (nxt \<noteq> 0 \<longrightarrow> nxt' \<noteq> 0 \<and> nxt' \<le> nxt) \<and>
     (nxt' = nxt \<or> (\<exists>e \<in> set evs. nxt' = ev_ts e \<and> pos < ev_ts e \<and> ev_ts e < limit))"
proof (induction evs arbitrary: kept nxt g)
  case (Cons ev evs)
  show ?case
  proof (cases "ev_ts ev \<le> pos")
    case True
    with Cons.prems have "apply_due_loop pos limit evs kept nxt (evq_apply_one pos ev g) = (kept', nxt', g')"
      by simp
    from Cons.IH [OF this] True show ?thesis by auto
  next
    case False
    define n where "n = (if ev_ts ev < limit \<and> (nxt = 0 \<or> ev_ts ev < nxt) then ev_ts ev else nxt)"
    from False Cons.prems have "apply_due_loop pos limit evs (kept @ [ev]) n g = (kept', nxt', g')"
      by (simp add: n_def)
    note IH = Cons.IH [OF this]
    have nz: "ev_ts ev \<noteq> 0" using False by auto
    consider (new) "ev_ts ev < limit" "nxt = 0 \<or> ev_ts ev < nxt" "n = ev_ts ev"
      | (far) "\<not> ev_ts ev < limit" "n = nxt" | (old) "nxt \<noteq> 0" "nxt \<le> ev_ts ev" "n = nxt"
      unfolding n_def by (metis linorder_not_le)
    then show ?thesis
    proof cases
      case new
      with IH nz False show ?thesis by (auto simp: linorder_not_le dest: order.trans)
    next
      case far
      with IH show ?thesis by auto
    next
      case old
      with IH show ?thesis by auto
    qed
  qed
qed simp

text \<open>
  C33: The render thread applies exactly the due events.  After \<^verbatim>\<open>evq_apply_due(pos, limit)\<close> the queue holds exactly
  the events stamped after \<open>pos\<close>, in their old order; the engine is what applying the others one after the other,
  in queue order, gives; and the returned segment boundary is 0 if no queued event is stamped strictly between
  \<open>pos\<close> and \<open>limit\<close>, and otherwise the earliest such stamp.
\<close>

theorem evq_apply_due_spec:
  "case evq_apply_due pos limit g of
     (nxt, g') \<Rightarrow>
       en_evq g' = filter (\<lambda>e. pos < ev_ts e) (en_evq g) \<and>
       g' = (foldl (\<lambda>g e. evq_apply_one pos e g) g (filter (\<lambda>e. ev_ts e \<le> pos) (en_evq g)))\<lparr>en_evq := en_evq g'\<rparr> \<and>
       (let T = {ev_ts e | e. e \<in> set (en_evq g) \<and> pos < ev_ts e \<and> ev_ts e < limit}
        in if T = {} then nxt = 0 else nxt = Min T)"
proof -
  obtain kept nxt g1 where l: "apply_due_loop pos limit (en_evq g) [] 0 g = (kept, nxt, g1)"
    by (metis prod_cases3)
  define T where "T = {ev_ts e | e. e \<in> set (en_evq g) \<and> pos < ev_ts e \<and> ev_ts e < limit}"
  note eff = apply_due_loop_effect [OF l] and n = apply_due_loop_next [OF l]
  have fin: "finite T"
    unfolding T_def by (rule finite_subset [of _ "ev_ts ` set (en_evq g)"]) auto
  have "if T = {} then nxt = 0 else nxt = Min T"
  proof (cases "T = {}")
    case True
    with n show ?thesis by (auto simp: T_def)
  next
    case False
    then have le: "\<forall>t \<in> T. nxt \<le> t" and "nxt \<noteq> 0" using n by (auto simp: T_def)
    then have "nxt \<in> T" using n by (auto simp: T_def)
    then show ?thesis using le fin False by (auto intro: Min_eqI [symmetric])
  qed
  with l eff show ?thesis by (simp add: evq_apply_due_def Let_def T_def)
qed

section \<open>Well-formed engines\<close>

text \<open>
  The bounds that every array access of the event code relies on: the sizes of the pools and tables, parameter
  indices inside the table, a latch of at most eight distinct notes with one velocity each.
\<close>

definition voice_wf :: "synth_voice \<Rightarrow> bool" where
  "voice_wf v \<longleftrightarrow> length (vo_mod v) = NPARAMS \<and> vo_vramp_idx v < NPARAMS"

definition part_wf :: "part \<Rightarrow> bool" where
  "part_wf p \<longleftrightarrow>
     length (pt_voices p) = NVOICES \<and> list_all voice_wf (pt_voices p) \<and> length (pt_pval p) = NPARAMS \<and>
     length (pt_ramps p) = NPARAMS \<and> distinct (ar_latch (pt_arp p)) \<and>
     length (ar_latch (pt_arp p)) \<le> ARP_LATCH_MAX \<and> length (ar_vel (pt_arp p)) = length (ar_latch (pt_arp p))"

definition engine_wf :: "engine \<Rightarrow> bool" where
  "engine_wf g \<longleftrightarrow>
     length (en_parts g) = NPARTS \<and> list_all part_wf (en_parts g) \<and> length (en_evq g) \<le> DEV_EVQ_CAP \<and>
     length (en_meter_peak g) = METER_NSLOTS \<and> length (en_meter_rms g) = METER_NSLOTS"

named_theorems part_wf_intros \<open>every operation keeps a part well-formed\<close>

lemma param_index_less: "param_index i = Some j \<Longrightarrow> j < NPARAMS"
  by (auto simp: param_index_def find_Some_iff)

lemma voice_pick_less:
  assumes "0 < n"
  shows "harp_voice_pick active seq n < n"
proof (cases "first_free active [0..<n]")
  case None
  have "set [1..<n] \<subseteq> {..<n}" by auto
  from oldest_scan [OF assms this, of seq] None show ?thesis by (simp add: harp_voice_pick_def)
next
  case (Some i)
  have "sorted [0..<n]" by simp
  from first_free_Some [OF this Some] Some show ?thesis by (simp add: harp_voice_pick_def)
qed

lemma voice_alloc_less: "voice_alloc p < NVOICES"
  by (simp add: voice_alloc_def voice_pick_less NVOICES_def)

lemma list_all_update: "list_all P xs \<Longrightarrow> P x \<Longrightarrow> list_all P (xs[i := x])"
  by (cases "i < length xs") (auto simp: list_all_length nth_list_update)

lemma list_all_at: "list_all P xs \<Longrightarrow> i < length xs \<Longrightarrow> P (xs ! i)"
  by (simp add: list_all_length)

lemma part_wf_note_on [part_wf_intros]: "part_wf p \<Longrightarrow> part_wf (voice_note_on p n vel vid)"
  using voice_alloc_less [of p] list_all_at [of voice_wf "pt_voices p" "voice_alloc p"]
  by (auto simp: part_wf_def voice_note_on_def Let_def voice_wf_def intro!: list_all_update)

lemma part_wf_note_off [part_wf_intros]: "part_wf p \<Longrightarrow> part_wf (voice_note_off p n)"
  by (auto simp: part_wf_def voice_note_off_def list_all_iff voice_wf_def)

lemma part_wf_idle [part_wf_intros]: "part_wf p \<Longrightarrow> part_wf (voices_idle p)"
  by (auto simp: part_wf_def voices_idle_def list_all_iff voice_wf_def)

lemma part_wf_cold [part_wf_intros]: "part_wf p \<Longrightarrow> part_wf (part_voices_cold p)"
  by (auto simp: part_wf_def part_voices_cold_def list_all_iff voice_wf_def voice_zero_def NPARAMS_def)

lemma part_wf_arp_voice_off [part_wf_intros]: "part_wf p \<Longrightarrow> part_wf (arp_voice_off p)"
  using list_all_at [of voice_wf "pt_voices p" 0]
  by (auto simp: part_wf_def arp_voice_off_def Let_def voice_wf_def NVOICES_def intro!: list_all_update)

lemma part_wf_arp_voice_on [part_wf_intros]: "part_wf p \<Longrightarrow> part_wf (arp_voice_on p n vel)"
  using list_all_at [of voice_wf "pt_voices p" 0]
  by (auto simp: part_wf_def arp_voice_on_def Let_def voice_wf_def NVOICES_def intro!: list_all_update)

lemma latch_find_None: "latch_find ns n = None \<longleftrightarrow> n \<notin> set ns"
  by (induction ns) auto

lemma latch_find_Some: "latch_find ns n = Some i \<Longrightarrow> i < length ns \<and> ns ! i = n"
  by (induction ns arbitrary: i) (auto split: if_splits)

lemma latch_drop_nth:
  "distinct ns \<Longrightarrow> i < length ns \<Longrightarrow>
     distinct (take i ns @ drop (i + 1) ns) \<and> set (take i ns @ drop (i + 1) ns) = set ns - {ns ! i}"
proof -
  assume d: "distinct ns" and i: "i < length ns"
  obtain us vs where ns: "ns = us @ ns ! i # vs" "us = take i ns" "vs = drop (i + 1) ns"
    using id_take_nth_drop [OF i] by simp
  with d have "distinct (us @ ns ! i # vs)" by metis
  moreover have "set ns = set (us @ ns ! i # vs)" using ns by metis
  ultimately show ?thesis unfolding ns(2,3) [symmetric] by auto
qed

lemma part_wf_latch_add [part_wf_intros]: "part_wf p \<Longrightarrow> part_wf (arp_latch_add p n vel)"
  by (auto simp: part_wf_def arp_latch_add_def Let_def latch_find_None split: option.splits)

lemma part_wf_latch_remove [part_wf_intros]: "part_wf p \<Longrightarrow> part_wf (arp_latch_remove p n)"
proof (cases "latch_find (ar_latch (pt_arp p)) n")
  case None
  then show "part_wf p \<Longrightarrow> ?thesis" by (simp add: arp_latch_remove_def Let_def)
next
  case (Some i)
  assume "part_wf p"
  with latch_find_Some [OF Some] Some latch_drop_nth [of "ar_latch (pt_arp p)" i] show ?thesis
    by (simp add: arp_latch_remove_def part_wf_def Let_def) linarith
qed

lemma part_wf_arp_reset [part_wf_intros]: "part_wf p \<Longrightarrow> part_wf (arp_reset p)"
  unfolding arp_reset_def by (rule part_wf_arp_voice_off) (simp add: part_wf_def)

lemma part_wf_arp_stream_reset [part_wf_intros]: "part_wf p \<Longrightarrow> part_wf (arp_stream_reset p)"
  using part_wf_arp_reset [of p] by (simp add: arp_stream_reset_def part_wf_def Let_def)

lemma part_wf_stream_reset [part_wf_intros]: "part_wf p \<Longrightarrow> part_wf (part_stream_reset p)"
  unfolding part_stream_reset_def
  by (rule part_wf_arp_stream_reset) (use part_wf_idle [of p] in \<open>auto simp: part_wf_def voices_idle_def\<close>)

lemma part_wf_panic [part_wf_intros]: "part_wf p \<Longrightarrow> part_wf (panic_service p)"
proof -
  assume "part_wf p"
  then have "part_wf (p\<lparr>pt_panic_note := PANIC_NONE\<rparr>)" by (simp add: part_wf_def)
  then show ?thesis by (simp add: panic_service_def Let_def part_wf_intros)
qed

lemma part_wf_on_voices [part_wf_intros]:
  "part_wf p \<Longrightarrow> (\<And>v. voice_wf v \<Longrightarrow> voice_wf (f v)) \<Longrightarrow> part_wf (on_voices w f p)"
  by (auto simp: part_wf_def on_voices_def list_all_iff)

lemma part_wf_apply_note_on [part_wf_intros]: "part_wf p \<Longrightarrow> part_wf (apply_note_on ev p)"
  by (simp add: apply_note_on_def Let_def part_wf_intros)

lemma part_wf_apply_note_off [part_wf_intros]: "part_wf p \<Longrightarrow> part_wf (apply_note_off ev p)"
  by (simp add: apply_note_off_def Let_def part_wf_intros)

lemma part_wf_apply_all_off [part_wf_intros]: "part_wf p \<Longrightarrow> part_wf (apply_all_off p)"
  by (simp add: apply_all_off_def part_wf_intros)

lemma part_wf_arp_fields: "part_wf p \<Longrightarrow> ar_latch a = ar_latch (pt_arp p) \<Longrightarrow> ar_vel a = ar_vel (pt_arp p) \<Longrightarrow>
    part_wf (p\<lparr>pt_arp := a\<rparr>)"
  by (simp add: part_wf_def)

lemma part_wf_apply_transport [part_wf_intros]: "part_wf p \<Longrightarrow> part_wf (apply_transport pos ev p)"
  by (simp add: apply_transport_def Let_def part_wf_arp_fields part_wf_intros)

lemma part_wf_apply_param_set [part_wf_intros]: "part_wf p \<Longrightarrow> part_wf (fst (apply_param_set ev p))"
  by (auto simp: apply_param_set_def Let_def voice_wf_def part_pput_def dest: param_index_less
      intro!: part_wf_on_voices split: option.splits) (auto simp: part_wf_def)

lemma part_wf_apply_ramp [part_wf_intros]: "part_wf p \<Longrightarrow> part_wf (fst (apply_ramp pos ev p))"
  by (auto simp: apply_ramp_def Let_def voice_wf_def dest: param_index_less
      intro!: part_wf_on_voices split: option.splits) (auto simp: part_wf_def)

lemma part_wf_apply_mod [part_wf_intros]: "part_wf p \<Longrightarrow> part_wf (apply_mod ev p)"
  by (auto simp: apply_mod_def Let_def voice_wf_def intro!: part_wf_on_voices
      split: option.split harp_mod_target_kind.split)

lemma part_wf_ramp_tick: "part_wf p \<Longrightarrow> part_wf (part_ramp_tick pos p i)"
  by (auto simp: part_ramp_tick_def part_wf_def part_pput_def Let_def split: prod.split option.split)

lemma part_wf_ramp_ticks: "part_wf p \<Longrightarrow> part_wf (foldl (part_ramp_tick pos) p is)"
  by (induction "is" arbitrary: p) (simp_all add: part_wf_ramp_tick)

lemma part_wf_ramps_advance [part_wf_intros]: "part_wf p \<Longrightarrow> part_wf (ramps_advance p pos)"
  using part_wf_ramp_ticks [of p pos "[0..<NPARAMS]"]
  by (auto simp: ramps_advance_def part_wf_def Let_def list_all_iff voice_ramp_tick_def voice_wf_def
      split: prod.split option.split)

lemma engine_wf_parts:
  "engine_wf g \<Longrightarrow> (\<And>p. part_wf p \<Longrightarrow> part_wf (f p)) \<Longrightarrow> engine_wf (g\<lparr>en_parts := map f (en_parts g)\<rparr>)"
  by (auto simp: engine_wf_def list_all_iff)

lemma harp_evt_part_less: "harp_evt_part c NPARTS < NPARTS"
  by (simp add: harp_evt_part_def NPARTS_def unat_mod)

lemma engine_wf_part:
  "engine_wf g \<Longrightarrow> part_wf p \<Longrightarrow> engine_wf (g\<lparr>en_parts := (en_parts g)[i := p], en_touch_pending := t\<rparr>)"
  "engine_wf g \<Longrightarrow> part_wf p \<Longrightarrow> engine_wf (g\<lparr>en_parts := (en_parts g)[i := p]\<rparr>)"
  by (auto simp: engine_wf_def intro!: list_all_update)

lemma engine_wf_count_late [simp]: "engine_wf (count_late pos ev g) = engine_wf g"
  by (simp add: count_late_def engine_wf_def)

lemma engine_wf_apply_one:
  assumes "engine_wf g"
  shows "engine_wf (evq_apply_one pos ev g)"
proof -
  let ?g = "count_late pos ev g" and ?i = "harp_evt_part (ucast (ev_channel ev)) NPARTS"
  have g: "engine_wf ?g" using assms by simp
  then have p: "part_wf (en_parts ?g ! ?i)"
    using harp_evt_part_less by (auto simp: engine_wf_def intro: list_all_at)
  show ?thesis
    using g p
    by (simp add: evq_apply_one_def Let_def engine_wf_part engine_wf_parts part_wf_intros split_beta
        split: dev_kind.split)
qed

lemma engine_wf_boot: "engine_wf engine_boot"
  by (simp add: engine_boot_def engine_wf_def part_boot_def part_wf_def voice_wf_def voice_zero_def list_all_iff
      PVAL_DEFAULTS_def NPARAMS_def ARP_LATCH_MAX_def)

lemma engine_wf_push: "engine_wf g \<Longrightarrow> engine_wf (evq_push g ev)"
  by (auto simp: engine_wf_def evq_push_def)

lemma engine_wf_pushes: "engine_wf g \<Longrightarrow> engine_wf (foldl evq_push g evs)"
  by (induction evs arbitrary: g) (simp_all add: engine_wf_push)

lemma engine_wf_push_run: "engine_wf g \<Longrightarrow> engine_wf (evq_push_run g evs)"
  using push_run_loop_foldl [of g evs] engine_wf_pushes [of g evs]
  by (cases "push_run_loop (en_evq g) (en_evq_drops g) evs") (auto simp: evq_push_run_def)

lemma engine_wf_push_batch: "engine_wf g \<Longrightarrow> engine_wf (snd (evq_push_batch g evs))"
  by (auto simp: engine_wf_def evq_push_batch_def)

lemma engine_wf_evq: "engine_wf g \<Longrightarrow> length q \<le> DEV_EVQ_CAP \<Longrightarrow> engine_wf (g\<lparr>en_evq := q\<rparr>)"
  by (simp add: engine_wf_def)

lemma engine_wf_applies: "engine_wf g \<Longrightarrow> engine_wf (foldl (\<lambda>g e. evq_apply_one pos e g) g evs)"
  by (induction evs arbitrary: g) (simp_all add: engine_wf_apply_one)

lemma engine_wf_apply_due: "engine_wf g \<Longrightarrow> engine_wf (snd (evq_apply_due pos limit g))"
proof -
  assume g: "engine_wf g"
  obtain kept nxt g1 where l: "apply_due_loop pos limit (en_evq g) [] 0 g = (kept, nxt, g1)"
    by (metis prod_cases3)
  from apply_due_loop_effect [OF l] have "length kept \<le> DEV_EVQ_CAP" and "engine_wf g1"
    using g engine_wf_applies [OF g] by (auto simp: engine_wf_def intro: order.trans [OF length_filter_le])
  then show ?thesis by (simp add: evq_apply_due_def l engine_wf_evq)
qed

lemma engine_wf_param_put: "engine_wf g \<Longrightarrow> engine_wf (g\<lparr>en_parts := engine_part_param_put (en_parts g) k i v\<rparr>)"
proof -
  assume g: "engine_wf g"
  have "part_wf (part_pput (en_parts g ! nat k) j v)" if "0 \<le> k" "k < int NPARTS" for j
    using that g list_all_at [of part_wf "en_parts g" "nat k"] by (simp add: engine_wf_def part_wf_def part_pput_def)
  with g show ?thesis
    by (auto simp: engine_part_param_put_def engine_wf_part(2) split: option.split)
qed

text \<open>
  What the threads of the device do to the engine: the session and panel threads push events, signal panics, set
  values and reset the stream; the render thread applies due events, serves panics, moves ramps and cools voices.
\<close>

inductive engine_step :: "engine \<Rightarrow> engine \<Rightarrow> bool" where
  step_push: "engine_step g (evq_push g ev)"
| step_run: "engine_step g (evq_push_run g evs)"
| step_batch: "engine_step g (snd (evq_push_batch g evs))"
| step_put: "engine_step g (g\<lparr>en_parts := engine_part_param_put (en_parts g) k i v\<rparr>)"
| step_all_off: "engine_step g (g\<lparr>en_parts := engine_all_notes_off (en_parts g)\<rparr>)"
| step_note_off: "engine_step g (g\<lparr>en_parts := engine_note_off_if n (en_parts g)\<rparr>)"
| step_stream: "engine_step g (evq_reset_for_new_stream g)"
| step_meters: "engine_step g (engine_meters_reset g)"
| step_due: "engine_step g (snd (evq_apply_due pos limit g))"
| step_panic: "engine_step g (g\<lparr>en_parts := map panic_service (en_parts g)\<rparr>)"
| step_ramps: "engine_step g (g\<lparr>en_parts := map (\<lambda>p. ramps_advance p pos) (en_parts g)\<rparr>)"
| step_cold: "engine_step g (g\<lparr>en_parts := map part_voices_cold (en_parts g)\<rparr>)"

lemma engine_step_wf: "engine_step g g' \<Longrightarrow> engine_wf g \<Longrightarrow> engine_wf g'"
proof (induction rule: engine_step.induct)
  case (step_all_off g)
  then show ?case unfolding engine_all_notes_off_def by (rule engine_wf_parts) (simp add: part_wf_def)
next
  case (step_note_off g n)
  then show ?case unfolding engine_note_off_if_def by (rule engine_wf_parts) (simp add: part_wf_def)
next
  case (step_stream g)
  from engine_wf_parts [OF this, of part_stream_reset] show ?case
    by (simp add: evq_reset_for_new_stream_def engine_wf_def part_wf_stream_reset)
next
  case (step_meters g)
  then show ?case by (simp add: engine_meters_reset_def engine_wf_def)
qed (simp_all add: engine_wf_push engine_wf_push_run engine_wf_push_batch engine_wf_param_put engine_wf_apply_due
      engine_wf_parts part_wf_intros)



section \<open>Patch state\<close>

text \<open>What a snapshot of a part stores, and the ramps that move it.\<close>

definition patch :: "part \<Rightarrow> f32 list \<times> dev_ramp list" where
  "patch p = (pt_pval p, pt_ramps p)"

lemma patch_voices [simp]: "patch (voice_note_on p n vel vid) = patch p" "patch (voice_note_off p n) = patch p"
  "patch (voices_idle p) = patch p" "patch (on_voices w f p) = patch p"
  by (simp_all add: patch_def voice_note_on_def voice_note_off_def voices_idle_def on_voices_def Let_def)

lemma patch_arp [simp]: "patch (arp_voice_off p) = patch p" "patch (arp_latch_add p n vel) = patch p"
  "patch (arp_latch_remove p n) = patch p" "patch (p\<lparr>pt_arp := a\<rparr>) = patch p"
  by (simp_all add: patch_def arp_voice_off_def arp_latch_add_def arp_latch_remove_def Let_def split: option.split)

lemma patch_apply [simp]: "patch (apply_note_on ev p) = patch p" "patch (apply_note_off ev p) = patch p"
  "patch (apply_all_off p) = patch p" "patch (apply_transport pos ev p) = patch p" "patch (apply_mod ev p) = patch p"
  by (simp_all add: apply_note_on_def apply_note_off_def apply_all_off_def arp_reset_def apply_transport_def
      apply_mod_def Let_def split: option.split harp_mod_target_kind.split)

lemma patch_per_voice:
  "ev_voice ev \<noteq> 0 \<Longrightarrow> patch (fst (apply_param_set ev p)) = patch p \<and> \<not> snd (apply_param_set ev p)"
  "ev_voice ev \<noteq> 0 \<Longrightarrow> patch (fst (apply_ramp pos ev p)) = patch p \<and> \<not> snd (apply_ramp pos ev p)"
  by (simp_all add: apply_param_set_def apply_ramp_def Let_def split: option.split)

lemma map_update_same: "f x = f (xs ! i) \<Longrightarrow> map f (xs[i := x]) = map f xs"
  by (metis list_update_beyond list_update_id map_update not_less)

lemma count_late_fields [simp]: "en_parts (count_late pos ev g) = en_parts g"
  "en_touch_pending (count_late pos ev g) = en_touch_pending g"
  by (simp_all add: count_late_def)

text \<open>
  Modulation and per-voice edits are transient.  An event of kind modulation, a note, panic or transport event,
  and a parameter set or ramp that addresses one voice change neither a stored parameter value nor a parameter ramp
  of any part, and they do not mark the patch as touched.
\<close>

theorem transient_events_keep_patch:
  assumes "ev_voice ev \<noteq> 0 \<or> ev_kind ev \<notin> {DEV_EV_PARAM_SET, DEV_EV_RAMP}"
  shows "map pt_pval (en_parts (evq_apply_one pos ev g)) = map pt_pval (en_parts g) \<and>
    map pt_ramps (en_parts (evq_apply_one pos ev g)) = map pt_ramps (en_parts g) \<and>
    en_touch_pending (evq_apply_one pos ev g) = en_touch_pending g"
proof -
  have *: "map patch (en_parts (evq_apply_one pos ev g)) = map patch (en_parts g) \<and>
      en_touch_pending (evq_apply_one pos ev g) = en_touch_pending g"
    using assms
    by (cases "ev_kind ev")
      (auto simp: evq_apply_one_def Let_def patch_per_voice split_beta intro!: map_update_same)
  have "map f (en_parts (evq_apply_one pos ev g)) = map f (en_parts g)" if "f = (h \<circ> patch)" for f :: "part \<Rightarrow> 'x" and h
    using * by (metis that list.map_comp)
  from this [of pt_pval fst] this [of pt_ramps snd] * show ?thesis by (auto simp: patch_def fun_eq_iff)
qed

lemma transient_events_keep_patch_witness:
  "map pt_pval (en_parts (evq_apply_one 5 \<lparr>ev_ts = 0, ev_kind = DEV_EV_PARAM_SET, ev_a = 3, ev_v = 0, ev_end = 0,
     ev_ppq = 0, ev_channel = 0, ev_voice = 60\<rparr> engine_boot)) = map pt_pval (en_parts engine_boot)"
  using transient_events_keep_patch [of "\<lparr>ev_ts = 0, ev_kind = DEV_EV_PARAM_SET, ev_a = 3, ev_v = 0, ev_end = 0,
     ev_ppq = 0, ev_channel = 0, ev_voice = 60\<rparr>" 5 engine_boot] by simp

section \<open>Notes\<close>

definition sounds :: "part \<Rightarrow> int \<Rightarrow> bool" where
  "sounds p n \<longleftrightarrow> (\<exists>v \<in> set (pt_voices p). vo_active v \<and> vo_note v = n)"

lemma sounds_note_on: "sounds (voice_note_on p m vel vid) n \<Longrightarrow> sounds p n \<or> m = n"
  using set_update_subset_insert [of "pt_voices p" "voice_alloc p"]
  by (fastforce simp: sounds_def voice_note_on_def Let_def)

lemma sounds_note_off: "sounds (voice_note_off p m) n \<Longrightarrow> 0 \<le> n \<Longrightarrow> sounds p n \<and> m \<noteq> n"
  by (auto simp: sounds_def voice_note_off_def split: if_splits)

lemma sounds_idle [simp]: "\<not> sounds (voices_idle p) n"
  by (auto simp: sounds_def voices_idle_def)

lemma sounds_arp_voice_off:
  assumes "sounds (arp_voice_off p) n" and "0 \<le> n"
  shows "sounds p n"
proof -
  let ?v = "pt_voices p ! 0"
  have "set (pt_voices (arp_voice_off p)) \<subseteq> insert (?v\<lparr>vo_note := - 1\<rparr>) (set (pt_voices p))"
    using set_update_subset_insert [of "pt_voices p" 0 "?v\<lparr>vo_note := - 1\<rparr>"]
    by (auto simp: arp_voice_off_def Let_def)
  with assms show ?thesis by (fastforce simp: sounds_def)
qed

lemma sounds_arp_fields [simp]: "sounds (p\<lparr>pt_arp := a\<rparr>) n = sounds p n"
  "sounds (arp_latch_add p m vel) n = sounds p n" "sounds (arp_latch_remove p m) n = sounds p n"
  by (simp_all add: sounds_def arp_latch_add_def arp_latch_remove_def Let_def split: option.split)

lemma sounds_patch_fields [simp]: "sounds (p\<lparr>pt_ramps := r\<rparr>) n = sounds p n" "sounds (part_pput p i v) n = sounds p n"
  by (simp_all add: sounds_def part_pput_def)

lemma sounds_on_voices:
  "(\<And>v. vo_active (f v) = vo_active v \<and> vo_note (f v) = vo_note v) \<Longrightarrow> sounds (on_voices w f p) n = sounds p n"
  by (auto simp: sounds_def on_voices_def)

lemma sounds_apply_note_on: "sounds (apply_note_on ev p) n \<Longrightarrow> sounds p n \<or> sint (ev_a ev) = n"
  by (auto simp: apply_note_on_def Let_def split: if_splits dest!: sounds_note_on)

lemma sounds_apply_note_off: "sounds (apply_note_off ev p) n \<Longrightarrow> 0 \<le> n \<Longrightarrow> sounds p n"
  by (auto simp: apply_note_off_def Let_def split: if_splits dest: sounds_note_off sounds_arp_voice_off)

lemma sounds_apply_transport: "sounds (apply_transport pos ev p) n \<Longrightarrow> 0 \<le> n \<Longrightarrow> sounds p n"
  by (auto simp: apply_transport_def Let_def split: if_splits dest!: sounds_arp_voice_off)

lemma sounds_apply_params [simp]: "sounds (fst (apply_param_set ev p)) n = sounds p n"
  "sounds (fst (apply_ramp pos ev p)) n = sounds p n" "sounds (apply_mod ev p) n = sounds p n"
  "\<not> sounds (apply_all_off p) n"
  by (simp_all add: apply_param_set_def apply_ramp_def apply_mod_def apply_all_off_def Let_def sounds_on_voices
      split: option.split harp_mod_target_kind.split)

text \<open>No event but a note-on for the same note makes a silent note sound.\<close>

lemma sounds_apply_one:
  assumes "sounds (en_parts (evq_apply_one pos ev g) ! i) n" and "0 \<le> n" and "engine_wf g" and "i < NPARTS"
  shows "sounds (en_parts g ! i) n \<or>
    ev_kind ev = DEV_EV_NOTE_ON \<and> i = harp_evt_part (ucast (ev_channel ev)) NPARTS \<and> sint (ev_a ev) = n"
proof -
  define k where "k = harp_evt_part (ucast (ev_channel ev)) NPARTS"
  have l: "length (en_parts g) = NPARTS" using assms(3) by (simp add: engine_wf_def)
  have put: "xs[k := x] ! i = (if i = k then x else xs ! i)" if "length xs = NPARTS" for xs :: "part list" and x
    using that assms(4) by (auto simp: nth_list_update)
  show ?thesis
    using assms l unfolding k_def [symmetric]
    by (cases "ev_kind ev")
      (auto simp: evq_apply_one_def Let_def k_def [symmetric] put split_beta split: if_splits
        dest: sounds_apply_note_on sounds_apply_note_off sounds_apply_transport)
qed

lemma arp_bypassed_latch [simp]: "arp_bypassed (arp_latch_remove p n) = arp_bypassed p"
  by (simp add: arp_bypassed_def arp_active_def param_step_index_def part_pget_def arp_latch_remove_def Let_def
      split: option.split)

text \<open>
  A released note stays silent.  In a well-formed engine, after a note-off is applied to a part whose
  arpeggiator is not running, no voice of that part sounds the note, and none does after any further events on any
  part unless one of them is a note-on for that note on that part.
\<close>

theorem note_off_silences:
  assumes "engine_wf g" and "ev_kind ev = DEV_EV_NOTE_OFF" and "0 \<le> sint (ev_a ev)"
    and "i = harp_evt_part (ucast (ev_channel ev)) NPARTS" and "arp_bypassed (en_parts g ! i)"
    and "\<forall>e \<in> set evs. \<not> (ev_kind e = DEV_EV_NOTE_ON \<and> harp_evt_part (ucast (ev_channel e)) NPARTS = i \<and>
           ev_a e = ev_a ev)"
  shows "\<not> sounds (en_parts (foldl (\<lambda>g e. evq_apply_one pos e g) g (ev # evs)) ! i) (sint (ev_a ev))"
proof -
  have i: "i < NPARTS" using assms(4) harp_evt_part_less by simp
  have "length (en_parts g) = NPARTS" using assms(1) by (simp add: engine_wf_def)
  with assms i have off: "\<not> sounds (en_parts (evq_apply_one pos ev g) ! i) (sint (ev_a ev))"
    by (auto simp: evq_apply_one_def Let_def apply_note_off_def dest!: sounds_note_off)
  have "\<not> sounds (en_parts (foldl (\<lambda>g e. evq_apply_one pos e g) h evs) ! i) (sint (ev_a ev))"
    if "engine_wf h" "\<not> sounds (en_parts h ! i) (sint (ev_a ev))" for h
    using that assms(6)
  proof (induction evs arbitrary: h)
    case (Cons e evs)
    have "\<not> sounds (en_parts (evq_apply_one pos e h) ! i) (sint (ev_a ev))"
      using sounds_apply_one [of pos e h i "sint (ev_a ev)"] Cons.prems assms(3) i
      by (auto simp: signed_word_eqI)
    with Cons show ?case by (simp add: engine_wf_apply_one)
  qed simp
  from this [OF engine_wf_apply_one [OF assms(1)] off] show ?thesis by simp
qed

lemma note_off_silences_witness:
  "\<not> sounds (en_parts (foldl (\<lambda>g e. evq_apply_one 7 e g) engine_boot
      [\<lparr>ev_ts = 0, ev_kind = DEV_EV_NOTE_OFF, ev_a = 60, ev_v = 0, ev_end = 0, ev_ppq = 0, ev_channel = 0, ev_voice = 0\<rparr>,
       \<lparr>ev_ts = 0, ev_kind = DEV_EV_NOTE_ON, ev_a = 61, ev_v = 0, ev_end = 0, ev_ppq = 0, ev_channel = 0, ev_voice = 0\<rparr>])
      ! 0) 60"
proof -
  have "arp_bypassed (en_parts engine_boot ! 0)"
    by (simp add: arp_bypassed_def engine_boot_def NPARTS_def part_boot_def)
  then show ?thesis
    using note_off_silences [of engine_boot "\<lparr>ev_ts = 0, ev_kind = DEV_EV_NOTE_OFF, ev_a = 60, ev_v = 0, ev_end = 0,
        ev_ppq = 0, ev_channel = 0, ev_voice = 0\<rparr>" 0 "[\<lparr>ev_ts = 0, ev_kind = DEV_EV_NOTE_ON, ev_a = 61, ev_v = 0,
        ev_end = 0, ev_ppq = 0, ev_channel = 0, ev_voice = 0\<rparr>]" 7] engine_wf_boot
    by (simp add: harp_evt_part_def)
qed

text \<open>While the arpeggiator runs, a note-off releases no voice but the first.\<close>

theorem engaged_note_off_keeps_voices:
  assumes "\<not> arp_bypassed p" and "0 < k"
  shows "pt_voices (apply_note_off ev p) ! k = pt_voices p ! k"
proof -
  have "pt_voices (arp_latch_remove p n) = pt_voices p" for n
    by (simp add: arp_latch_remove_def Let_def split: option.split)
  with assms show ?thesis by (simp add: apply_note_off_def arp_voice_off_def Let_def)
qed

section \<open>Step indices\<close>

lemma param_index_table [simp]: "param_index 8 = Some 7" "param_index 9 = Some 8" "param_index 11 = Some 10"
  by (simp_all add: param_index_def g_params_def param_def_def NPARAMS_def upt_conv_Cons)

text \<open>A stored value below zero gives a step index below zero.\<close>

lemma step_index_negative:
  "param_step_index (part_pput part_boot 8 0xbf800000) 9 = - 6"
proof -
  have six: "f32_of_nat 6 = 0x40c00000"
    by (simp add: f32_of_nat_def f32_pack_def ilog2_eq [of 2] f32_make_def)
  have "f32_mul 0xbf800000 0x40c00000 = 0xc0c00000"
    by (simp add: f32_mul_def f32_isnan_def f32_isinf_def f32_mag_def f32_exp_def f32_man_def f32_sign_def
        f32_pack_def ilog2_eq [of 300] f32_make_def rne_def)
  moreover have "f32_to_int 0xc0c00000 = - 6"
    by (simp add: f32_to_int_def f32_sign_def f32_mag_def f32_exp_def f32_man_def)
  ultimately show ?thesis
    by (simp add: param_step_index_def g_params_def param_def_def part_pput_def part_pget_def part_boot_def
        PVAL_DEFAULTS_def six Let_def)
qed

end
