(* ===== verification/Harp_Device.thy ===== *)
theory Harp_Device
  imports Harp_Store Harp_Gc Harp_Envelope Harp_Link Harp_Logring Harp_Engine
begin

text \<open>
  The device daemon's state (\<^verbatim>\<open>device/device.h\<close>), the wire helpers at the top of \<^verbatim>\<open>device/session.c\<close> and the
  credit-controlled object send queue.  The daemon runs one thread that handles messages; what that thread reads
  from its surroundings (the allocator, the clocks, the environment, the transport's write function) is part of
  the record.  \<open>dv_sent\<close> is a history variable: the messages handed to \<^verbatim>\<open>harp_link_send\<close>, oldest first, and
  \<open>dv_halted\<close> says that the process has exited or is in a loop that does not end.  The mutexes
  serialize the panel thread with the session thread and are not modelled; every operation here runs under them.
\<close>

unbundle bit_operations_syntax

section \<open>State\<close>

definition HARP_SENDQ_CAP :: nat where "HARP_SENDQ_CAP = 1024"
definition CREDIT_GRANT :: u64 where "CREDIT_GRANT = push_bit 20 16"
definition DEV_TXN_MAX :: nat where "DEV_TXN_MAX = 4"
definition DEV_TXN_EVENTS_MAX :: nat where "DEV_TXN_EVENTS_MAX = 256"
definition EVT_STAGE_CAP :: nat where "EVT_STAGE_CAP = 64"
definition LIVE_REF :: bytes where "LIVE_REF = str ''live/project''"
definition ENGINE_VERSION :: bytes where "ENGINE_VERSION = str ''2.1.0''"
definition ENGINE_ID :: bytes where "ENGINE_ID = str ''refdev-synth''"
definition FW_VERSION :: bytes where "FW_VERSION = str ''0.1.0''"
definition PROTO_MAJOR :: u64 where "PROTO_MAJOR = 1"
definition PROTO_MINOR :: u64 where "PROTO_MINOR = 0"

record dev_txn =
  tx_open :: bool
  tx_id :: u64
  tx_ev :: "dev_event list"

definition txn_zero :: dev_txn where
  "txn_zero = \<lparr>tx_open = False, tx_id = 0, tx_ev = []\<rparr>"

record dev_counters =
  ct_frame_errors :: u64
  ct_session_resets :: u64
  ct_snapshots_taken :: u64
  ct_audio_overruns :: u64
  ct_evt_stale_epoch :: u64
  ct_audio_late_frames :: u64
  ct_obj_drops :: u64
  ct_evt_txn_rejected :: u64
  ct_evt_txn_overflow :: u64
  ct_evt_txn_unknown :: u64
  ct_rate_limited :: u64

record dev_config =
  cf_engine_ver :: "bytes option"
  cf_product :: "bytes option"
  cf_engine_name :: "bytes option"
  cf_serial :: bytes
  cf_boot_count :: u64
  cf_rt_floor :: u32
  cf_rt_nsamples :: u32
  cf_in_lat :: u32
  cf_out_lat :: u32
  cf_no_rate_lock :: bool

record audio_state =
  au_running :: bool
  au_thread_live :: bool
  au_fd :: int
  au_out_fd :: int
  au_rtp_fd :: int
  au_rtp_seq :: u16
  au_rtp_ssrc :: u32
  au_host_paced_port :: int
  au_host_paced_sock :: int
  au_offline :: bool
  au_rtp_prebuffer :: u32
  au_mode :: u32
  au_rate :: u32
  au_nsamples :: u32
  au_epoch :: u32
  au_reanchors :: u64
  au_msc_final :: u64
  au_rate_trim_ppb :: int
  au_pipeline :: u32
  au_out_slots :: "u8 list"
  au_in_slots :: "u8 list"
  au_loopback_on :: bool
  au_loopback_in_slot :: u8
  au_loopback_out_slot :: u8
  au_meter_live :: bool

text \<open>
  What the handlers read from outside the daemon: the allocator, the clocks, the value of
  \<^verbatim>\<open>HARP_FORCE_CREDIT_GRANT\<close> (0 if unset), \<^verbatim>\<open>HARP_FENCE_FORCE_RT\<close>, the volume sizes (\<open>None\<close> if \<^verbatim>\<open>statvfs\<close> fails),
  the USB endpoints, whether a socket can be opened to a port, whether threads can be created, and the build date;
  also the two readings of the microsecond clock around a reply, and the C library's decimal conversions
  \<^verbatim>\<open>%.3f\<close> and \<^verbatim>\<open>%f\<close>, of which nothing is assumed.
\<close>

record dev_world =
  wd_alloc :: harp_cbuf
  wd_now_ms :: u64
  wd_now_ns :: u64
  wd_time :: u64
  wd_force_credit :: u64
  wd_force_rt :: bool
  wd_statvfs :: "(u64 \<times> u64) option"
  wd_usb_errors :: u64
  wd_usb_fds :: "int \<times> int"
  wd_rtp_open :: "u64 \<Rightarrow> int"
  wd_thread_ok :: bool
  wd_date :: bytes
  wd_now_us :: "u64 \<times> u64"
  wd_print3 :: "f64 \<Rightarrow> bytes"
  wd_scan_float :: "bytes \<Rightarrow> f32 option"

text \<open>The front panel's mailbox for a recall conflict (\<^verbatim>\<open>g_reconcile\<close> of \<^verbatim>\<open>device/panel.c\<close>).\<close>

record reconcile =
  rc_pending :: bool
  rc_expect :: bytes
  rc_live :: bytes
  rc_dirty :: bool
  rc_choice :: int

record 's dev_io =
  dio_state :: 's
  dio_write :: "bytes \<Rightarrow> 's \<Rightarrow> bool \<times> 's"
  dio_pct :: int
  dio_cf :: u32

record 's device =
  dv_store :: harp_store
  dv_engine :: engine
  dv_log :: logring
  dv_config :: dev_config
  dv_world :: dev_world
  dv_param_map_hash :: harp_hash
  dv_io :: "'s dev_io option"
  dv_hello_done :: bool
  dv_closing :: bool
  dv_peer_credit :: u64
  dv_granted :: u64
  dv_sendq :: "harp_hash list"
  dv_sendq_head :: nat
  dv_sendq_tail :: nat
  dv_sendq_count :: nat
  dv_txn :: "dev_txn list"
  dv_evt_stage :: "dev_event list"
  dv_evt_staged :: bool
  dv_rl_snapshot :: harp_op_bucket
  dv_rl_bundle :: harp_op_bucket
  dv_audio :: audio_state
  dv_live_cache :: harp_ref
  dv_live_cache_valid :: bool
  dv_last_live_ntf_ms :: u64
  dv_archives_since_gc :: u64
  dv_ctr :: dev_counters
  dv_reconcile :: reconcile
  dv_halted :: bool
  dv_sent :: "(u8 \<times> bytes) list"

abbreviation new_cbuf :: "'s device \<Rightarrow> harp_cbuf" where
  "new_cbuf d \<equiv> harp_cbuf_init (wd_alloc (dv_world d))"

section \<open>Wire helpers\<close>

text \<open>\<^verbatim>\<open>harp_link_send\<close> on the session's transport, if there is one; 0 is \<open>True\<close>.\<close>

definition dev_send :: "u8 \<Rightarrow> bytes \<Rightarrow> 's device \<Rightarrow> bool \<times> 's device" where
  "dev_send stream msg d =
     (case dv_io d of
        None \<Rightarrow> (False, d)
      | Some io \<Rightarrow>
          (case harp_link_send (dio_write io) (dio_pct io) stream (dio_cf io) msg (dio_state io) of
             (rc, cf, s) \<Rightarrow>
               (rc = 0, d\<lparr>dv_io := Some (io\<lparr>dio_cf := cf, dio_state := s\<rparr>),
                          dv_sent := dv_sent d @ [(stream, msg)]\<rparr>)))"

definition send_ctl :: "harp_cbuf \<Rightarrow> 's device \<Rightarrow> 's device" where
  "send_ctl msg d = snd (dev_send HARP_STREAM_CTL (cb_buf msg) d)"

definition evt_echo_param :: "u32 \<Rightarrow> f32 \<Rightarrow> u8 \<Rightarrow> 's device \<Rightarrow> 's device" where
  "evt_echo_param i v channel d =
     (if \<not> dv_hello_done d then d
      else
        let m = new_cbuf d;
            m = harp_cbor_array m 3;
            m = harp_cbor_array m 2;
            m = harp_cbor_uint m 0;
            m = harp_cbor_uint m 0;
            m = harp_cbor_uint m 1;
            m = harp_cbor_map m (if channel \<noteq> 0 then 3 else 2);
            m = harp_cbor_uint m 0;
            m = harp_cbor_uint m (ucast i);
            m = harp_cbor_uint m 1;
            m = harp_cbor_float m (f64_of_f32 v);
            m = (if channel \<noteq> 0 then harp_cbor_uint (harp_cbor_uint m 5) (ucast channel) else m)
        in snd (dev_send HARP_STREAM_EVT (cb_buf m) d))"

definition ntf_core_changed :: "bytes \<Rightarrow> 's device \<Rightarrow> 's device" where
  "ntf_core_changed topic d =
     (if \<not> dv_hello_done d then d
      else
        let m = harp_env_head (new_cbuf d) HARP_MSG_NOTIFICATION 0 (str ''core.changed'') True;
            m = harp_cbor_map m 1;
            m = harp_cbor_uint m 0;
            m = harp_cbor_text m topic
        in send_ctl m d)"

definition state_changed_msg :: "harp_cbuf \<Rightarrow> harp_ref \<Rightarrow> harp_cbuf" where
  "state_changed_msg m r =
     (let m = harp_env_head m HARP_MSG_NOTIFICATION 0 (str ''state.changed'') True;
          m = harp_cbor_map m 4;
          m = harp_cbor_uint m 0;
          m = harp_cbor_text m (rf_name r);
          m = harp_cbor_uint m 1;
          m = (if rf_unborn r then harp_cbor_null m else harp_cbor_bytes m (rf_hash r));
          m = harp_cbor_uint m 2;
          m = harp_cbor_uint m (rf_generation r);
          m = harp_cbor_uint m 3
      in harp_cbor_bool m (rf_dirty r))"

definition ntf_state_changed :: "harp_ref \<Rightarrow> 's device \<Rightarrow> 's device" where
  "ntf_state_changed r d = (if \<not> dv_hello_done d then d else send_ctl (state_changed_msg (new_cbuf d) r) d)"

definition grant_credit :: "'s device \<Rightarrow> 's device" where
  "grant_credit d =
     (let amt = (if wd_force_credit (dv_world d) \<noteq> 0 then wd_force_credit (dv_world d) else CREDIT_GRANT);
          m = harp_env_head (new_cbuf d) HARP_MSG_NOTIFICATION 0 (str ''core.credit'') True;
          m = harp_cbor_map m 1;
          m = harp_cbor_uint m 0;
          m = harp_cbor_uint m amt;
          d = send_ctl m d
      in d\<lparr>dv_granted := dv_granted d + amt\<rparr>)"

definition send_error :: "u64 \<Rightarrow> bytes \<Rightarrow> bytes \<Rightarrow> bytes option \<Rightarrow> 's device \<Rightarrow> 's device" where
  "send_error rid method code msg d = send_ctl (harp_env_error (new_cbuf d) rid method code msg) d"

definition rsp_head :: "harp_cbuf \<Rightarrow> u64 \<Rightarrow> bytes \<Rightarrow> bool \<Rightarrow> harp_cbuf" where
  "rsp_head m rid method has_body = harp_env_head m HARP_MSG_RESPONSE rid method has_body"

section \<open>The object send queue\<close>

definition ctr_obj_drop :: "'s device \<Rightarrow> 's device" where
  "ctr_obj_drop d = d\<lparr>dv_ctr := (dv_ctr d)\<lparr>ct_obj_drops := ct_obj_drops (dv_ctr d) + 1\<rparr>\<rparr>"

definition sendq_push :: "'s device \<Rightarrow> harp_hash \<Rightarrow> 's device" where
  "sendq_push d h =
     (if dv_sendq_count d = HARP_SENDQ_CAP then ctr_obj_drop d
      else d\<lparr>dv_sendq := (dv_sendq d)[dv_sendq_tail d := h],
             dv_sendq_tail := (dv_sendq_tail d + 1) mod HARP_SENDQ_CAP,
             dv_sendq_count := dv_sendq_count d + 1\<rparr>)"

definition sendq_pop :: "'s device \<Rightarrow> 's device" where
  "sendq_pop d =
     d\<lparr>dv_sendq_head := (dv_sendq_head d + 1) mod HARP_SENDQ_CAP, dv_sendq_count := dv_sendq_count d - 1\<rparr>"

lemma dev_send_sendq [simp]:
  "dv_sendq_count (snd (dev_send st m d)) = dv_sendq_count d"
  "dv_sendq_head (snd (dev_send st m d)) = dv_sendq_head d"
  "dv_sendq_tail (snd (dev_send st m d)) = dv_sendq_tail d"
  "dv_sendq (snd (dev_send st m d)) = dv_sendq d"
  "dv_store (snd (dev_send st m d)) = dv_store d"
  "dv_peer_credit (snd (dev_send st m d)) = dv_peer_credit d"
  "dv_ctr (snd (dev_send st m d)) = dv_ctr d"
  by (simp_all add: dev_send_def split: option.split prod.split)

text \<open>The loop of \<^verbatim>\<open>sendq_flush\<close> with its buffer; every turn that goes on shortens the queue.\<close>

function sendq_drain :: "harp_cbuf \<Rightarrow> 's device \<Rightarrow> 's device" where
  "sendq_drain enc d =
     (if dv_sendq_count d = 0 then d
      else
        let h = dv_sendq d ! dv_sendq_head d
        in case harp_store_get (dv_store d) h (harp_cbuf_reset enc) of
             (False, enc) \<Rightarrow> sendq_drain enc (ctr_obj_drop (sendq_pop d))
           | (True, enc) \<Rightarrow>
               let len = length (cb_buf enc)
               in if len > unat (dv_peer_credit d) then d
                  else let r = dev_send HARP_STREAM_OBJ (cb_buf enc) d
                       in if \<not> fst r then snd r
                          else let d = (snd r)\<lparr>dv_peer_credit := dv_peer_credit (snd r) - of_nat len\<rparr>
                               in sendq_drain enc (sendq_pop d))"
  by pat_completeness auto
termination
  by (relation "measure (\<lambda>(enc, d). dv_sendq_count d)") (auto simp: sendq_pop_def ctr_obj_drop_def)

declare sendq_drain.simps [simp del]

definition sendq_flush :: "'s device \<Rightarrow> 's device" where
  "sendq_flush d = sendq_drain (new_cbuf d) d"

text \<open>What a bounded first-in-first-out queue promises, whatever holds it.\<close>

locale bounded_fifo =
  fixes items :: "'q \<Rightarrow> 'a list"
    and ok :: "'q \<Rightarrow> bool"
    and cap :: nat
    and push :: "'q \<Rightarrow> 'a \<Rightarrow> 'q"
    and pop :: "'q \<Rightarrow> 'q"
  assumes push_room: "ok q \<Longrightarrow> length (items q) < cap \<Longrightarrow> items (push q x) = items q @ [x]"
    and push_full: "ok q \<Longrightarrow> \<not> length (items q) < cap \<Longrightarrow> items (push q x) = items q"
    and push_ok: "ok q \<Longrightarrow> ok (push q x)"
    and pop_items: "ok q \<Longrightarrow> items q \<noteq> [] \<Longrightarrow> items (pop q) = tl (items q)"
    and pop_ok: "ok q \<Longrightarrow> items q \<noteq> [] \<Longrightarrow> ok (pop q)"
    and items_cap: "ok q \<Longrightarrow> length (items q) \<le> cap"
begin

lemma pushes: "ok q \<Longrightarrow> ok (foldl push q xs) \<and> items (foldl push q xs) = take cap (items q @ xs)"
proof (induction xs arbitrary: q)
  case Nil
  then show ?case using items_cap [of q] by simp
next
  case (Cons x xs)
  have ok: "ok (push q x)" using push_ok Cons.prems by blast
  show ?case
  proof (cases "length (items q) < cap")
    case True
    with Cons.IH [OF ok] push_room [OF Cons.prems] show ?thesis by simp
  next
    case False
    with Cons.IH [OF ok] push_full [OF Cons.prems] items_cap [OF Cons.prems] show ?thesis by simp
  qed
qed

lemma pops: "ok q \<Longrightarrow> n \<le> length (items q) \<Longrightarrow> ok ((pop ^^ n) q) \<and> items ((pop ^^ n) q) = drop n (items q)"
proof (induction n)
  case (Suc n)
  then have *: "ok ((pop ^^ n) q)" "items ((pop ^^ n) q) = drop n (items q)" "drop n (items q) \<noteq> []" by auto
  then show ?case using pop_items [of "(pop ^^ n) q"] pop_ok [of "(pop ^^ n) q"] by (simp add: tl_drop drop_Suc)
qed simp

end

definition sendq_items :: "'s device \<Rightarrow> harp_hash list" where
  "sendq_items d = map (\<lambda>i. dv_sendq d ! ((dv_sendq_head d + i) mod HARP_SENDQ_CAP)) [0..<dv_sendq_count d]"

definition sendq_ok :: "'s device \<Rightarrow> bool" where
  "sendq_ok d \<longleftrightarrow> length (dv_sendq d) = HARP_SENDQ_CAP \<and> dv_sendq_head d < HARP_SENDQ_CAP \<and>
     dv_sendq_count d \<le> HARP_SENDQ_CAP \<and>
     dv_sendq_tail d = (dv_sendq_head d + dv_sendq_count d) mod HARP_SENDQ_CAP"

lemma length_sendq_items [simp]: "length (sendq_items d) = dv_sendq_count d"
  by (simp add: sendq_items_def)

lemma ring_slots_differ:
  assumes "i < n" and "n < k" and "h < (k::nat)"
  shows "(h + i) mod k \<noteq> (h + n) mod k"
proof
  assume "(h + i) mod k = (h + n) mod k"
  then have "(h + n - (h + i)) mod k = 0" using assms(1) mod_eq_dvd_iff_nat [of "h + i" "h + n" k] by force
  with assms show False by simp
qed

text \<open>A ring: \<open>n\<close> slots from \<open>h\<close> on, around the end of the list.\<close>

definition ring_items :: "'a list \<Rightarrow> nat \<Rightarrow> nat \<Rightarrow> 'a list" where
  "ring_items q h n = map (\<lambda>i. q ! ((h + i) mod length q)) [0..<n]"

lemma length_ring_items [simp]: "length (ring_items q h n) = n"
  by (simp add: ring_items_def)

lemma ring_items_mod [simp]: "ring_items q (h mod length q) n = ring_items q h n"
  by (simp add: ring_items_def mod_simps)

lemma ring_items_push:
  assumes "n < length q"
  shows "ring_items (q[(h + n) mod length q := x]) h (Suc n) = ring_items q h n @ [x]"
proof -
  have h: "h mod length q < length q" using assms by (cases q) simp_all
  have "(h + n) mod length q \<noteq> (h + i) mod length q" if "i < n" for i
    using ring_slots_differ [OF that assms h] by (simp add: mod_simps)
  then have "map (\<lambda>i. q[(h + n) mod length q := x] ! ((h + i) mod length q)) [0..<n] =
      map (\<lambda>i. q ! ((h + i) mod length q)) [0..<n]" by (intro map_cong) simp_all
  moreover have "(h + n) mod length q < length q" using assms by (cases q) simp_all
  ultimately show ?thesis by (simp add: ring_items_def)
qed

lemma ring_items_pop: "ring_items q (Suc h) (n - 1) = tl (ring_items q h n)"
  by (rule nth_equalityI) (auto simp: ring_items_def nth_tl)

interpretation sq: bounded_fifo sendq_items sendq_ok HARP_SENDQ_CAP sendq_push sendq_pop
proof unfold_locales
  fix q :: "'s device" and x
  assume ok: "sendq_ok q"
  have items: "sendq_items r = ring_items (dv_sendq r) (dv_sendq_head r) (dv_sendq_count r)" if "sendq_ok r" for r :: "'s device"
    using that by (simp add: sendq_items_def ring_items_def sendq_ok_def)
  show push: "sendq_ok (sendq_push q x)"
    using ok by (auto simp: sendq_ok_def sendq_push_def ctr_obj_drop_def mod_Suc_eq)
  show "sendq_items (sendq_push q x) = sendq_items q @ [x]" if "length (sendq_items q) < HARP_SENDQ_CAP"
    using that ok ring_items_push [of "dv_sendq_count q" "dv_sendq q" "dv_sendq_head q" x]
    unfolding items [OF push] items [OF ok] by (simp add: sendq_ok_def sendq_push_def)
  show "sendq_items (sendq_push q x) = sendq_items q" if "\<not> length (sendq_items q) < HARP_SENDQ_CAP"
    using ok that by (simp add: sendq_items_def sendq_ok_def sendq_push_def ctr_obj_drop_def)
  show pop: "sendq_ok (sendq_pop q)" if "sendq_items q \<noteq> []"
    using ok that by (cases "dv_sendq_count q") (auto simp: sendq_ok_def sendq_pop_def sendq_items_def mod_simps)
  show "sendq_items (sendq_pop q) = tl (sendq_items q)" if "sendq_items q \<noteq> []"
    using ok ring_items_pop [of "dv_sendq q" "dv_sendq_head q" "dv_sendq_count q"]
      ring_items_mod [of "dv_sendq q" "Suc (dv_sendq_head q)"]
    unfolding items [OF pop [OF that]] items [OF ok] by (simp add: sendq_pop_def sendq_ok_def)
  show "length (sendq_items q) \<le> HARP_SENDQ_CAP"
    using ok by (simp add: sendq_ok_def)
qed

section \<open>Flow control\<close>

text \<open>A session whose transport takes every write.\<close>

definition io_up :: "'s device \<Rightarrow> bool" where
  "io_up d \<longleftrightarrow> (\<exists>io. dv_io d = Some io \<and> (\<forall>p s. fst (dio_write io p s)))"

lemma link_send_up: "(\<And>p s. fst (wr p s)) \<Longrightarrow> fst (harp_link_send wr pct stream cf data s) = 0"
proof (induction wr pct stream cf data s rule: harp_link_send.induct)
  case (1 wr pct stream cf data s)
  have chunk: "fst (send_chunk wr pct fn p s)" for fn p s
    using "1.prems" by (auto simp: send_chunk_def Let_def split: prod.split bool.split) (metis fst_conv)+
  show ?case
    using "1.IH" "1.prems" chunk
    by (subst harp_link_send.simps) (auto simp: Let_def split: prod.split bool.split, (metis fst_conv)+)
qed

lemma dev_send_up:
  assumes "io_up d"
  shows "fst (dev_send stream msg d)" and "io_up (snd (dev_send stream msg d))"
    and "dv_sent (snd (dev_send stream msg d)) = dv_sent d @ [(stream, msg)]"
proof -
  from assms obtain io where io: "dv_io d = Some io" "\<And>p s. fst (dio_write io p s)" by (auto simp: io_up_def)
  with link_send_up [of "dio_write io" "dio_pct io" stream "dio_cf io" msg "dio_state io"]
  show "fst (dev_send stream msg d)" "io_up (snd (dev_send stream msg d))"
    "dv_sent (snd (dev_send stream msg d)) = dv_sent d @ [(stream, msg)]"
    by (auto simp: dev_send_def io_up_def split: prod.split)
qed

lemma unat_sub_of_nat: "n \<le> unat w \<Longrightarrow> unat (w - of_nat n) + n = unat w"
  for w :: u64
proof -
  assume n: "n \<le> unat w"
  then have "unat (of_nat n :: u64) = n" using unsigned_less [of w, where ?'a = nat] by (intro unat_of_nat_len64) simp
  with n show ?thesis by (simp add: unat_sub word_le_nat_alt)
qed

text \<open>The contents of an object's file.\<close>

definition obj_file :: "harp_store \<Rightarrow> harp_hash \<Rightarrow> bytes option" where
  "obj_file s h = fopen_rb (sto_flt s) (obj_path s h) (sto_fs s)"

lemma harp_store_get_wf:
  assumes "harp_store_get s h b = (ok, b')" and "cbuf_wf b"
  shows "cbuf_wf b'" and "ok \<Longrightarrow> \<exists>x. obj_file s h = Some x \<and> cb_buf b' = cb_buf b @ x"
proof -
  show "cbuf_wf b'"
    using assms emits_fread_loop by (auto simp: harp_store_get_def Let_def emits_def split: option.splits)
  assume ok
  with assms(1) obtain x where f: "obj_file s h = Some x" "b' = fread_loop b x" "\<not> cb_oom b'"
    by (auto simp: harp_store_get_def obj_file_def Let_def split: option.splits)
  then have "cb_view (fread_loop b x) = Some (cb_buf b')" by (simp add: cb_view_def)
  from emits_Some [OF emits_fread_loop assms(2) this] f show "\<exists>x. obj_file s h = Some x \<and> cb_buf b' = cb_buf b @ x"
    by simp
qed

lemma cbuf_wf_reset: "cbuf_wf (harp_cbuf_reset b)"
  by (simp add: cbuf_wf_def harp_cbuf_reset_def)

text \<open>What became of a queued object: sent with the bytes of its file, or dropped because it could not be read.\<close>

definition drained :: "harp_store \<Rightarrow> harp_hash \<Rightarrow> bytes option \<Rightarrow> bool" where
  "drained s h o1 \<longleftrightarrow> (case o1 of Some x \<Rightarrow> obj_file s h = Some x | None \<Rightarrow> \<exists>b. \<not> fst (harp_store_get s h b))"

definition obj_bytes :: "bytes option list \<Rightarrow> bytes list" where
  "obj_bytes outs = map the (filter (\<lambda>x. x \<noteq> None) outs)"

definition flushed :: "'s device \<Rightarrow> 's device \<Rightarrow> bytes option list \<Rightarrow> bool" where
  "flushed d d' outs \<longleftrightarrow>
     sendq_ok d' \<and> length outs \<le> length (sendq_items d) \<and>
     list_all2 (drained (dv_store d)) (take (length outs) (sendq_items d)) outs \<and>
     sendq_items d' = drop (length outs) (sendq_items d) \<and>
     dv_sent d' = dv_sent d @ map (Pair HARP_STREAM_OBJ) (obj_bytes outs) \<and>
     sum_list (map length (obj_bytes outs)) + unat (dv_peer_credit d') = unat (dv_peer_credit d) \<and>
     ct_obj_drops (dv_ctr d') = ct_obj_drops (dv_ctr d) + of_nat (length (filter (\<lambda>x. x = None) outs)) \<and>
     (sendq_items d' \<noteq> [] \<longrightarrow>
        (\<exists>x. obj_file (dv_store d) (hd (sendq_items d')) = Some x \<and> unat (dv_peer_credit d') < length x))"

lemma sendq_hd: "dv_sendq_count d \<noteq> 0 \<Longrightarrow> sendq_ok d \<Longrightarrow> hd (sendq_items d) = dv_sendq d ! dv_sendq_head d"
  by (simp add: sendq_items_def hd_map sendq_ok_def)

lemma sendq_cong: "dv_sendq d = dv_sendq d' \<Longrightarrow> dv_sendq_head d = dv_sendq_head d' \<Longrightarrow>
    dv_sendq_tail d = dv_sendq_tail d' \<Longrightarrow> dv_sendq_count d = dv_sendq_count d' \<Longrightarrow>
    sendq_items d = sendq_items d' \<and> sendq_ok d = sendq_ok d'"
  by (simp add: sendq_items_def sendq_ok_def)

text \<open>One more object at the front of the queue.\<close>

lemma flushed_Cons:
  assumes "flushed d1 d' outs" and "sendq_items d = h # sendq_items d1" and "dv_store d1 = dv_store d"
    and "drained (dv_store d) h o1"
    and "dv_sent d1 = dv_sent d @ (case o1 of None \<Rightarrow> [] | Some x \<Rightarrow> [(HARP_STREAM_OBJ, x)])"
    and "(case o1 of None \<Rightarrow> 0 | Some x \<Rightarrow> length x) + unat (dv_peer_credit d1) = unat (dv_peer_credit d)"
    and "ct_obj_drops (dv_ctr d1) = ct_obj_drops (dv_ctr d) + (case o1 of None \<Rightarrow> 1 | Some x \<Rightarrow> 0)"
  shows "flushed d d' (o1 # outs)"
  using assms by (cases o1) (auto simp: flushed_def obj_bytes_def)

lemma sendq_drain_flushed:
  "sendq_ok d \<Longrightarrow> io_up d \<Longrightarrow> cbuf_wf enc \<Longrightarrow> \<exists>outs. flushed d (sendq_drain enc d) outs"
proof (induction enc d rule: sendq_drain.induct)
  case (1 enc d)
  note eq = sendq_drain.simps [of enc d]
  show ?case
  proof (cases "dv_sendq_count d = 0")
    case True
    then have "flushed d d []" using "1.prems" by (simp add: flushed_def obj_bytes_def sendq_items_def)
    with eq True show ?thesis by auto
  next
    case False
    define h where "h = dv_sendq d ! dv_sendq_head d"
    have ne: "sendq_items d \<noteq> []" using False by (metis length_sendq_items list.size(3))
    have items: "sendq_items d = h # sendq_items (sendq_pop d)"
      using sq.pop_items [OF "1.prems"(1) ne] sendq_hd [OF False "1.prems"(1)] ne
      by (metis h_def list.collapse)
    have pop_ok: "sendq_ok (sendq_pop d)" by (rule sq.pop_ok [OF "1.prems"(1) ne])
    obtain ok b where get: "harp_store_get (dv_store d) h (harp_cbuf_reset enc) = (ok, b)" by (metis surj_pair)
    note wf = harp_store_get_wf [OF get cbuf_wf_reset]
    show ?thesis
    proof (cases ok)
      case False
      let ?d = "ctr_obj_drop (sendq_pop d)"
      have q: "sendq_items ?d = sendq_items (sendq_pop d)" "sendq_ok ?d"
        using pop_ok sendq_cong [of ?d "sendq_pop d"] by (simp_all add: ctr_obj_drop_def)
      have "io_up ?d" using "1.prems"(2) by (simp add: io_up_def ctr_obj_drop_def sendq_pop_def)
      with "1.IH"(2) [OF \<open>dv_sendq_count d \<noteq> 0\<close> refl _ _ q(2)] get wf False obtain outs
        where fl: "flushed ?d (sendq_drain b ?d) outs" by (auto simp: h_def)
      have it: "sendq_items d = h # sendq_items ?d" using items q(1) by simp
      have "drained (dv_store d) h None" using get False by (auto simp: drained_def intro: exI [of _ "harp_cbuf_reset enc"])
      then have "flushed d (sendq_drain b ?d) (None # outs)"
        by (intro flushed_Cons [OF fl it]) (simp_all add: ctr_obj_drop_def sendq_pop_def)
      moreover have "sendq_drain enc d = sendq_drain b ?d"
        using eq \<open>dv_sendq_count d \<noteq> 0\<close> get False by (simp add: h_def)
      ultimately show ?thesis by auto
    next
      case True
      with wf(2) obtain x where x: "obj_file (dv_store d) h = Some x" "cb_buf b = x" by auto
      show ?thesis
      proof (cases "unat (dv_peer_credit d) < length x")
        case big: True
        then have "sendq_drain enc d = d" using eq \<open>dv_sendq_count d \<noteq> 0\<close> get True x by (simp add: h_def)
        moreover have "flushed d d []" using "1.prems" big x items by (simp add: flushed_def obj_bytes_def)
        ultimately show ?thesis by metis
      next
        case fits: False
        define r where "r = dev_send HARP_STREAM_OBJ x d"
        have send: "fst r" "io_up (snd r)" "dv_sent (snd r) = dv_sent d @ [(HARP_STREAM_OBJ, x)]"
          unfolding r_def using dev_send_up [OF "1.prems"(2)] by blast+
        let ?d = "sendq_pop ((snd r)\<lparr>dv_peer_credit := dv_peer_credit (snd r) - of_nat (length x)\<rparr>)"
        have q: "sendq_items ?d = sendq_items (sendq_pop d)" "sendq_ok ?d"
          using pop_ok sendq_cong [of ?d "sendq_pop d"] by (simp_all add: r_def sendq_pop_def)
        have "io_up ?d" using send(2) by (simp add: io_up_def sendq_pop_def)
        moreover have "sendq_drain enc d = sendq_drain b ?d"
          using eq \<open>dv_sendq_count d \<noteq> 0\<close> get True x fits send(1) by (simp add: h_def r_def)
        moreover have "\<exists>outs. flushed ?d (sendq_drain b ?d) outs"
          using "1.IH"(1) [OF \<open>dv_sendq_count d \<noteq> 0\<close> refl get [symmetric, unfolded h_def] _ refl _ refl _ refl] get True x fits send(1) q(2)
            wf(1) \<open>io_up ?d\<close> by (auto simp: h_def r_def)
        then obtain outs where fl: "flushed ?d (sendq_drain b ?d) outs" by blast
        have it: "sendq_items d = h # sendq_items ?d" using items q(1) by simp
        have "unat (dv_peer_credit d - of_nat (length x)) + length x = unat (dv_peer_credit d)"
          by (rule unat_sub_of_nat) (use fits in simp)
        then have "flushed d (sendq_drain b ?d) (Some x # outs)"
          using x send(3) by (intro flushed_Cons [OF fl it]) (simp_all add: sendq_pop_def r_def drained_def)
        with \<open>sendq_drain enc d = sendq_drain b ?d\<close> show ?thesis by metis
      qed
    qed
  qed
qed

text \<open>
  The object queue respects the peer's credit and its order.  While the transport takes every write, flushing
  the queue handles a prefix of it, oldest first: each object is either sent, whole and with exactly the bytes of
  its file, or dropped and counted because the store could not read it.  The credit falls by exactly the bytes sent
  and is never overdrawn, and if objects are left then the credit does not cover the next one.
\<close>

theorem sendq_flush_credit:
  assumes "sendq_ok d" and "io_up d"
  shows "\<exists>outs. flushed d (sendq_flush d) outs"
  using sendq_drain_flushed [OF assms, of "new_cbuf d"]
  by (simp add: sendq_flush_def cbuf_wf_def harp_cbuf_init_def)

section \<open>A sample device\<close>

definition ex_world :: dev_world where
  "ex_world = \<lparr>wd_alloc = \<lparr>cb_buf = [], cb_cap = 0, cb_oom = False, cb_avail = 65536\<rparr>, wd_now_ms = 1000, wd_now_ns = 0,
     wd_time = 7, wd_force_credit = 0, wd_force_rt = False, wd_statvfs = None, wd_usb_errors = 0, wd_usb_fds = (- 1, - 1),
     wd_rtp_open = (\<lambda>p. - 1), wd_thread_ok = True, wd_date = [], wd_now_us = (0, 0),
     wd_print3 = (\<lambda>v. str ''0.000''), wd_scan_float = (\<lambda>s. None)\<rparr>"

definition ex_audio :: audio_state where
  "ex_audio = \<lparr>au_running = False, au_thread_live = False, au_fd = - 1, au_out_fd = - 1, au_rtp_fd = - 1, au_rtp_seq = 0,
     au_rtp_ssrc = 0, au_host_paced_port = 0, au_host_paced_sock = - 1, au_offline = False, au_rtp_prebuffer = 0,
     au_mode = 0, au_rate = 0, au_nsamples = 0, au_epoch = 0, au_reanchors = 0, au_msc_final = 0, au_rate_trim_ppb = 0,
     au_pipeline = 0, au_out_slots = [0, 1], au_in_slots = [], au_loopback_on = False, au_loopback_in_slot = 0,
     au_loopback_out_slot = 0, au_meter_live = False\<rparr>"

definition ex_device :: "unit device" where
  "ex_device = \<lparr>dv_store = ex_store, dv_engine = engine_boot,
     dv_log = \<lparr>lr_buf = replicate HARP_LOGRING_CAP 0, lr_head = 0, lr_tail = 0, lr_used = 0, lr_nrec = 0, lr_dropped = 0\<rparr>,
     dv_config = \<lparr>cf_engine_ver = None, cf_product = None, cf_engine_name = None, cf_serial = str ''1'',
       cf_boot_count = 1, cf_rt_floor = 0, cf_rt_nsamples = 0, cf_in_lat = 0, cf_out_lat = 0, cf_no_rate_lock = False\<rparr>,
     dv_world = ex_world, dv_param_map_hash = [],
     dv_io = Some \<lparr>dio_state = (), dio_write = (\<lambda>p s. (True, s)), dio_pct = 0, dio_cf = 0\<rparr>,
     dv_hello_done = False, dv_closing = False, dv_peer_credit = 5, dv_granted = 0,
     dv_sendq = replicate HARP_SENDQ_CAP [], dv_sendq_head = 0, dv_sendq_tail = 0, dv_sendq_count = 0,
     dv_txn = replicate DEV_TXN_MAX txn_zero, dv_evt_stage = [], dv_evt_staged = False,
     dv_rl_snapshot = \<lparr>ob_allowance_ns = 0, ob_last_ns = 0\<rparr>, dv_rl_bundle = \<lparr>ob_allowance_ns = 0, ob_last_ns = 0\<rparr>,
     dv_audio = ex_audio, dv_live_cache = ref_zero, dv_live_cache_valid = False, dv_last_live_ntf_ms = 0,
     dv_archives_since_gc = 0,
     dv_ctr = \<lparr>ct_frame_errors = 0, ct_session_resets = 0, ct_snapshots_taken = 0, ct_audio_overruns = 0,
       ct_evt_stale_epoch = 0, ct_audio_late_frames = 0, ct_obj_drops = 0, ct_evt_txn_rejected = 0,
       ct_evt_txn_overflow = 0, ct_evt_txn_unknown = 0, ct_rate_limited = 0\<rparr>,
     dv_reconcile = \<lparr>rc_pending = False, rc_expect = [], rc_live = [], rc_dirty = False, rc_choice = - 1\<rparr>,
     dv_halted = False, dv_sent = []\<rparr>"

lemma ex_device_ok: "sendq_ok ex_device" "io_up ex_device"
  by (simp_all add: sendq_ok_def io_up_def ex_device_def HARP_SENDQ_CAP_def)

lemma sendq_flush_credit_witness:
  "\<exists>outs. flushed (sendq_push ex_device (replicate 33 1)) (sendq_flush (sendq_push ex_device (replicate 33 1))) outs"
proof (rule sendq_flush_credit)
  show "sendq_ok (sendq_push ex_device (replicate 33 1))" by (rule sq.push_ok [OF ex_device_ok(1)])
  show "io_up (sendq_push ex_device (replicate 33 1))"
    using ex_device_ok(2) by (simp add: io_up_def sendq_push_def ctr_obj_drop_def)
qed

end
