(* ===== verification/Harp_State.thy ===== *)
theory Harp_State
  imports Harp_Device
begin

text \<open>
  \<^verbatim>\<open>device/state.c\<close>: the engine's state as content-addressed objects.  The parameter blob codec, snapshots and their
  loading, the parameter descriptors and their hash, the write-coalescing cache of the live ref, the front panel's
  set path and the closure walk before a ref is set.  A grid \<^verbatim>\<open>float v[NPARTS][NPARAMS]\<close> is a list of lists; a
  parser that returns false is \<open>None\<close>, and what it had stored by then is never read.
\<close>

unbundle bit_operations_syntax

section \<open>The parameter blob\<close>

definition PARAMS_MEDIA :: bytes where "PARAMS_MEDIA = str ''application/x.harp-refdev.params''"

type_synonym grid = "f32 list list"
type_synonym mask = "bool list list"

definition put_param :: "f32 list \<Rightarrow> harp_cbuf \<Rightarrow> nat \<Rightarrow> harp_cbuf" where
  "put_param vs m i =
     harp_cbor_float (harp_cbor_uint m (ucast (dp_id (g_params ! i)))) (f64_of_f32 (vs ! i))"

definition put_part :: "grid \<Rightarrow> harp_cbuf \<Rightarrow> nat \<Rightarrow> harp_cbuf" where
  "put_part v m pi =
     (let m = harp_cbor_uint m (of_nat pi);
          m = harp_cbor_map m (of_nat NPARAMS)
      in foldl (put_param (v ! pi)) m [0..<NPARAMS])"

definition refdev_encode_params_blob :: "grid \<Rightarrow> harp_cbuf \<Rightarrow> harp_cbuf" where
  "refdev_encode_params_blob v payload =
     foldl (put_part v) (harp_cbor_map payload (of_nat NPARTS)) [0..<NPARTS]"

definition set2 :: "'a list list \<Rightarrow> nat \<Rightarrow> nat \<Rightarrow> 'a \<Rightarrow> 'a list list" where
  "set2 g i j x = g[i := (g ! i)[j := x]]"

definition grid_set :: "nat \<Rightarrow> u64 \<Rightarrow> f64 \<Rightarrow> grid \<times> mask \<Rightarrow> grid \<times> mask" where
  "grid_set pi i val g =
     (case find (\<lambda>j. ucast (dp_id (g_params ! j)) = i) [0..<NPARAMS] of
        None \<Rightarrow> g
      | Some j \<Rightarrow> (set2 (fst g) pi j (f32_of_f64 val), set2 (snd g) pi j True))"

text \<open>One pair of an inner map; the part -1 that discards is \<open>None\<close>.\<close>

definition part_pair :: "nat option \<Rightarrow> grid \<times> mask \<Rightarrow> harp_cdec \<Rightarrow> (grid \<times> mask) option \<times> harp_cdec" where
  "part_pair pi g d =
     (case harp_cdec_uint d of
        (None, d) \<Rightarrow> (None, d)
      | (Some i, d) \<Rightarrow>
          (case harp_cdec_float d of
             (None, d) \<Rightarrow> (None, d)
           | (Some val, d) \<Rightarrow> (Some (case pi of None \<Rightarrow> g | Some p \<Rightarrow> grid_set p i val g), d)))"

definition parse_part_map ::
  "nat option \<Rightarrow> grid \<times> mask \<Rightarrow> harp_cdec \<Rightarrow> (grid \<times> mask) option \<times> harp_cdec" where
  "parse_part_map pi g d =
     (case harp_cdec_map d of
        (None, d) \<Rightarrow> (None, d)
      | (Some n, d) \<Rightarrow> loop_dec (part_pair pi) (unat n) g d)"

definition part_of_key :: "u64 \<Rightarrow> nat option" where
  "part_of_key k = (if k < of_nat NPARTS then Some (unat k) else None)"

definition part_entry :: "grid \<times> mask \<Rightarrow> harp_cdec \<Rightarrow> (grid \<times> mask) option \<times> harp_cdec" where
  "part_entry g d =
     (case harp_cdec_uint d of
        (None, d) \<Rightarrow> (None, d)
      | (Some pidx, d) \<Rightarrow> parse_part_map (part_of_key pidx) g d)"

definition refdev_parse_params_blob :: "bytes \<Rightarrow> grid \<times> mask \<Rightarrow> (grid \<times> mask) option" where
  "refdev_parse_params_blob payload g =
     (case harp_cdec_map (harp_cdec_init payload) of
        (None, d) \<Rightarrow> None
      | (Some n, d) \<Rightarrow>
          if n = 0 then Some g
          else
            (case harp_cdec_uint d of
               (None, d) \<Rightarrow> None
             | (Some first_key, d) \<Rightarrow>
                 if harp_cdec_peek d = 5 then
                   (case parse_part_map (part_of_key first_key) g d of
                      (None, d) \<Rightarrow> None
                    | (Some g, d) \<Rightarrow> fst (loop_dec part_entry (unat n - 1) g d))
                 else if harp_cdec_peek d = 7 then
                   (case harp_cdec_float d of
                      (None, d) \<Rightarrow> None
                    | (Some val, d) \<Rightarrow>
                        fst (loop_dec (part_pair (Some 0)) (unat n - 1) (grid_set 0 first_key val g) d))
                 else None))"

section \<open>Snapshots\<close>

definition engine_grid :: "part list \<Rightarrow> grid" where
  "engine_grid ps =
     map (\<lambda>pi. map (\<lambda>i. engine_part_param_get ps (int pi) (dp_id (g_params ! i))) [0..<NPARAMS]) [0..<NPARTS]"

definition engine_encode_params_blob :: "'s device \<Rightarrow> harp_cbuf \<Rightarrow> harp_cbuf" where
  "engine_encode_params_blob d out =
     (let payload = refdev_encode_params_blob (engine_grid (en_parts (dv_engine d))) (new_cbuf d)
      in harp_obj_encode_blob out PARAMS_MEDIA (cb_buf payload))"

text \<open>The hash of the new snapshot, or \<open>None\<close> for -1.\<close>

definition engine_snapshot_objects ::
  "harp_hash option \<Rightarrow> bytes option \<Rightarrow> 's device \<Rightarrow> harp_hash option \<times> 's device" where
  "engine_snapshot_objects par msg d =
     (let enc = engine_encode_params_blob d (new_cbuf d)
      in case harp_store_put (dv_store d) (cb_buf enc) of
           (False, blob_h, st) \<Rightarrow> (None, d\<lparr>dv_store := st\<rparr>)
         | (True, blob_h, st) \<Rightarrow>
             let enc = harp_obj_encode_tree (harp_cbuf_reset enc)
                         [\<lparr>te_name = str ''params'', te_hash = blob_h, te_kind = ucast HARP_OBJ_BLOB\<rparr>]
             in case harp_store_put st (cb_buf enc) of
                  (False, tree_h, st) \<Rightarrow> (None, d\<lparr>dv_store := st\<rparr>)
                | (True, tree_h, st) \<Rightarrow>
                    let enc = harp_obj_encode_snapshot (harp_cbuf_reset enc) tree_h
                                (case par of None \<Rightarrow> [] | Some p \<Rightarrow> [p]) (wd_time (dv_world d))
                                (str ''device'') ENGINE_VERSION msg
                    in case harp_store_put st (cb_buf enc) of
                         (False, snap, st) \<Rightarrow> (None, d\<lparr>dv_store := st\<rparr>)
                       | (True, snap, st) \<Rightarrow> (Some snap, d\<lparr>dv_store := st\<rparr>))"

text \<open>
  The overlay of the present values.  The scratch grid is uninitialized in C; only its present entries are read.
  \<open>ok\<close> is the flag of \<^verbatim>\<open>struct load_ctx\<close>.
\<close>

definition overlay :: "grid \<times> mask \<Rightarrow> grid \<Rightarrow> grid" where
  "overlay vp staged =
     map (\<lambda>pi. map (\<lambda>i. if snd vp ! pi ! i then fst vp ! pi ! i else staged ! pi ! i) [0..<NPARAMS]) [0..<NPARTS]"

definition load_tree_entry ::
  "harp_cbuf \<Rightarrow> harp_store \<Rightarrow> bytes \<Rightarrow> harp_hash \<Rightarrow> u32 \<Rightarrow> grid \<times> bool \<Rightarrow> bool \<times> grid \<times> bool" where
  "load_tree_entry b0 st name h kind ctx =
     (case ctx of (staged, ok) \<Rightarrow>
        if name \<noteq> str ''params'' \<or> kind \<noteq> ucast HARP_OBJ_BLOB then (True, staged, ok)
        else
          (case harp_store_get st h b0 of
             (False, enc) \<Rightarrow> (False, staged, False)
           | (True, enc) \<Rightarrow>
               (case harp_obj_parse_blob (cb_buf enc) of
                  None \<Rightarrow> (False, staged, False)
                | Some (media, payload) \<Rightarrow>
                    (case refdev_parse_params_blob payload
                            (replicate NPARTS (replicate NPARAMS 0), replicate NPARTS (replicate NPARAMS False)) of
                       None \<Rightarrow> (False, staged, False)
                     | Some vp \<Rightarrow> (True, overlay vp staged, ok)))))"

definition commit_grid :: "grid \<Rightarrow> part list \<Rightarrow> part list" where
  "commit_grid g ps =
     foldl (\<lambda>ps pi. foldl (\<lambda>ps i. engine_part_param_put ps (int pi) (dp_id (g_params ! i)) (g ! pi ! i)) ps
                      [0..<NPARAMS]) ps [0..<NPARTS]"

definition engine_load_snapshot :: "harp_hash \<Rightarrow> 's device \<Rightarrow> bool \<times> 's device" where
  "engine_load_snapshot snap_h d =
     (case harp_store_get (dv_store d) snap_h (new_cbuf d) of
        (False, enc) \<Rightarrow> (False, d)
      | (True, enc) \<Rightarrow>
          (case harp_obj_parse_snapshot_root (cb_buf enc) of
             None \<Rightarrow> (False, d)
           | Some root \<Rightarrow>
               (case harp_store_get (dv_store d) root (new_cbuf d) of
                  (False, tree_enc) \<Rightarrow> (False, d)
                | (True, tree_enc) \<Rightarrow>
                    (case harp_obj_tree_foreach (cb_buf tree_enc) (load_tree_entry (new_cbuf d) (dv_store d))
                            (engine_grid (en_parts (dv_engine d)), True) of
                       (walked, staged, ok) \<Rightarrow>
                         if \<not> walked \<or> \<not> ok then (False, d)
                         else (True, d\<lparr>dv_engine := (dv_engine d)\<lparr>en_parts :=
                                 commit_grid staged (en_parts (dv_engine d))\<rparr>\<rparr>)))))"

section \<open>Parameter descriptors\<close>

definition PFLAG_AUTOMATABLE :: u64 where "PFLAG_AUTOMATABLE = 0x01"
definition PFLAG_MODULATABLE :: u64 where "PFLAG_MODULATABLE = 0x20"
definition PFLAG_PER_VOICE_MOD :: u64 where "PFLAG_PER_VOICE_MOD = 0x40"
definition METER_ID_BASE :: u32 where "METER_ID_BASE = 0x1000"
definition METER_RATE_HZ :: u64 where "METER_RATE_HZ = 30"

definition param_modulatable :: "dev_param \<Rightarrow> bool" where
  "param_modulatable p \<longleftrightarrow> dp_id p = 3"

definition param_flags :: "dev_param \<Rightarrow> bool \<Rightarrow> u64" where
  "param_flags p include_caps =
     (if include_caps \<and> param_modulatable p
      then PFLAG_AUTOMATABLE OR (PFLAG_MODULATABLE OR PFLAG_PER_VOICE_MOD) else PFLAG_AUTOMATABLE)"

definition encode_one_param :: "bool \<Rightarrow> harp_cbuf \<Rightarrow> dev_param \<Rightarrow> harp_cbuf" where
  "encode_one_param include_caps b p =
     (let stepped = dp_steps p > 0;
          b = harp_cbor_map b (if stepped then 5 else 3);
          b = harp_cbor_uint b 0;
          b = harp_cbor_uint b (ucast (dp_id p));
          b = harp_cbor_uint b 1;
          b = harp_cbor_text b (dp_name p);
          b = (if stepped then harp_cbor_uint (harp_cbor_uint b 5) (ucast (dp_steps p)) else b);
          b = harp_cbor_uint b 8;
          b = harp_cbor_uint b (param_flags p include_caps)
      in if stepped then
           foldl (\<lambda>b s. harp_cbor_text b (dp_labels p ! s)) (harp_cbor_array (harp_cbor_uint b 9) (ucast (dp_steps p)))
             [0..<unat (dp_steps p)]
         else b)"

definition encode_param_array_from :: "harp_cbuf \<Rightarrow> dev_param list \<Rightarrow> harp_cbuf" where
  "encode_param_array_from b table =
     foldl (encode_one_param False) (harp_cbor_array b (of_nat (length table))) table"

definition encode_param_array_automatable :: "harp_cbuf \<Rightarrow> harp_cbuf" where
  "encode_param_array_automatable b = encode_param_array_from b g_params"

text \<open>\<^verbatim>\<open>%d\<close> of a small number.\<close>

fun decimal :: "nat \<Rightarrow> bytes" where
  "decimal n = (if n < 10 then [48 + of_nat n] else decimal (n div 10) @ [48 + of_nat (n mod 10)])"

declare decimal.simps [simp del]

definition METER_ID_PEAK :: "nat \<Rightarrow> u32" where "METER_ID_PEAK slot = METER_ID_BASE + of_nat slot * 2"
definition METER_ID_RMS :: "nat \<Rightarrow> u32" where "METER_ID_RMS slot = METER_ID_BASE + of_nat slot * 2 + 1"

definition put_meter :: "nat \<Rightarrow> harp_cbuf \<Rightarrow> bool \<Rightarrow> harp_cbuf" where
  "put_meter slot b rms =
     (let what = (if rms then str ''RMS'' else str ''Peak'');
          name = (if slot = NPARTS then snprintf 24 (str ''Main '' @ what)
                  else snprintf 24 (str ''Part '' @ decimal (slot + 1) @ str '' '' @ what));
          b = harp_cbor_map b 4;
          b = harp_cbor_uint b 0;
          b = harp_cbor_uint b (ucast (if rms then METER_ID_RMS slot else METER_ID_PEAK slot));
          b = harp_cbor_uint b 1;
          b = harp_cbor_text b name;
          b = harp_cbor_uint b 8;
          b = harp_cbor_uint b 0x2;
          b = harp_cbor_uint b 11
      in harp_cbor_uint b METER_RATE_HZ)"

definition encode_param_array :: "harp_cbuf \<Rightarrow> harp_cbuf" where
  "encode_param_array b =
     (let b = harp_cbor_array b (of_nat (NPARAMS + METER_NSLOTS * 2));
          b = foldl (encode_one_param True) b g_params
      in foldl (\<lambda>b slot. foldl (put_meter slot) b [False, True]) b [0..<METER_NSLOTS])"

definition hash_param_map_into :: "'s device \<Rightarrow> 's device" where
  "hash_param_map_into d =
     d\<lparr>dv_param_map_hash := harp_hash_compute (cb_buf (encode_param_array_automatable (new_cbuf d)))\<rparr>"

definition refresh_param_map_hash :: "'s device \<Rightarrow> bool \<times> 's device" where
  "refresh_param_map_hash d =
     (let prev = dv_param_map_hash d; d = hash_param_map_into d in (dv_param_map_hash d \<noteq> prev, d))"

section \<open>The live ref\<close>

text \<open>Filling the cache, where \<open>None\<close> is the early return, and the generation bump on the cached ref.\<close>

definition live_cache_load :: "'s device \<Rightarrow> 's device option" where
  "live_cache_load d =
     (if dv_live_cache_valid d then Some d
      else case harp_store_ref_read (dv_store d) LIVE_REF of
             None \<Rightarrow> None
           | Some r \<Rightarrow> Some (d\<lparr>dv_live_cache := r, dv_live_cache_valid := True\<rparr>))"

definition live_store_edge :: "harp_ref \<Rightarrow> bool \<Rightarrow> 's device \<Rightarrow> 's device" where
  "live_store_edge r transition d =
     (if transition then d\<lparr>dv_store := snd (harp_store_ref_write (wd_alloc (dv_world d)) (dv_store d) r)\<rparr> else d)"

definition live_notify :: "harp_ref \<Rightarrow> bool \<Rightarrow> 's device \<Rightarrow> 's device" where
  "live_notify r transition d =
     (let now = wd_now_ms (dv_world d)
      in if transition \<or> now - dv_last_live_ntf_ms d \<ge> 250
         then ntf_state_changed r (d\<lparr>dv_last_live_ntf_ms := now\<rparr>) else d)"

definition live_bump :: "bool \<Rightarrow> 's device \<Rightarrow> 's device" where
  "live_bump dirty d =
     (let transition = (dirty \<and> \<not> rf_dirty (dv_live_cache d));
          r = (dv_live_cache d)\<lparr>rf_generation := rf_generation (dv_live_cache d) + 1, rf_dirty := dirty\<rparr>
      in live_notify r transition (live_store_edge r transition (d\<lparr>dv_live_cache := r\<rparr>)))"

definition live_ref_touch :: "bool \<Rightarrow> 's device \<Rightarrow> 's device" where
  "live_ref_touch dirty d = (case live_cache_load d of None \<Rightarrow> d | Some d \<Rightarrow> live_bump dirty d)"

definition live_cache_flush :: "'s device \<Rightarrow> 's device" where
  "live_cache_flush d =
     (if dv_live_cache_valid d
      then d\<lparr>dv_store := snd (harp_store_ref_write (wd_alloc (dv_world d)) (dv_store d) (dv_live_cache d)),
             dv_live_cache_valid := False\<rparr>
      else d)"

definition f64_clamp01 :: "f64 \<Rightarrow> f64" where
  "f64_clamp01 v =
     (let v = (if f64_lt v f64_zero then f64_zero else v) in if f64_lt f64_one v then f64_one else v)"

definition front_panel_set_part :: "int \<Rightarrow> u32 \<Rightarrow> f64 \<Rightarrow> 's device \<Rightarrow> bool \<times> 's device" where
  "front_panel_set_part pt i v d =
     (let v = f64_clamp01 v
      in if pt < 0 \<or> pt \<ge> int NPARTS then (False, d)
         else if param_index i = None then (False, d)
         else
           let g = dv_engine d;
               d = d\<lparr>dv_engine := g\<lparr>en_parts := engine_part_param_put (en_parts g) pt i (f32_of_f64 v)\<rparr>\<rparr>;
               d = live_ref_touch True d
           in (True, evt_echo_param i (f32_of_f64 v) (word_of_int pt) d))"

definition front_panel_set :: "u32 \<Rightarrow> f64 \<Rightarrow> 's device \<Rightarrow> bool \<times> 's device" where
  "front_panel_set i v d = front_panel_set_part 0 i v d"

definition do_snapshot :: "bytes option \<Rightarrow> 's device \<Rightarrow> (harp_hash \<times> u64) option \<times> 's device" where
  "do_snapshot msg d =
     (let d = live_cache_flush d
      in case harp_store_ref_read (dv_store d) LIVE_REF of
           None \<Rightarrow> (None, d)
         | Some r \<Rightarrow>
             (case engine_snapshot_objects (if rf_unborn r then None else Some (rf_hash r)) msg d of
                (None, d) \<Rightarrow> (None, d)
              | (Some snap, d) \<Rightarrow>
                  let r = r\<lparr>rf_unborn := False, rf_hash := snap, rf_generation := rf_generation r + 1,
                            rf_dirty := False\<rparr>
                  in case harp_store_ref_write (wd_alloc (dv_world d)) (dv_store d) r of
                       (False, st) \<Rightarrow> (None, d\<lparr>dv_store := st\<rparr>)
                     | (True, st) \<Rightarrow>
                         let c = dv_ctr d;
                             d = d\<lparr>dv_store := st, dv_ctr := c\<lparr>ct_snapshots_taken := ct_snapshots_taken c + 1\<rparr>\<rparr>
                         in (Some (snap, rf_generation r), ntf_state_changed r d)))"

section \<open>The closure walk\<close>

text \<open>
  \<open>complete\<close> is the flag of \<^verbatim>\<open>struct closure_ctx\<close>.  The recursion is limited by the depth: a call at depth 17
  returns at once, and so the fuel \<open>17 - depth\<close> counts the levels that are left.
\<close>

fun closure_walk :: "harp_cbuf \<Rightarrow> harp_store \<Rightarrow> nat \<Rightarrow> harp_hash \<Rightarrow> bool \<Rightarrow> bool" where
  "closure_walk b0 st 0 h complete = complete"
| "closure_walk b0 st (Suc k) h complete =
     (if \<not> complete then complete
      else if \<not> harp_store_have st h then False
      else case harp_store_get st h b0 of
             (False, enc) \<Rightarrow> False
           | (True, enc) \<Rightarrow>
               (case harp_obj_foreach_child (cb_buf enc) False
                       (\<lambda>h complete. let complete = closure_walk b0 st k h complete in (complete, complete)) complete of
                  (ok, complete) \<Rightarrow> if \<not> ok then False else complete))"

definition closure_complete :: "'s device \<Rightarrow> harp_hash \<Rightarrow> bool" where
  "closure_complete d h = closure_walk (new_cbuf d) (dv_store d) 17 h True"

section \<open>The blob round trip\<close>

definition param_bytes :: "f32 list \<Rightarrow> nat \<Rightarrow> bytes" where
  "param_bytes vs i = enc_uint (ucast (dp_id (g_params ! i))) @ float_bytes (f64_of_f32 (vs ! i))"

definition part_bytes :: "grid \<Rightarrow> nat \<Rightarrow> bytes" where
  "part_bytes v pi = enc_uint (of_nat pi) @ head_bytes 5 (of_nat NPARAMS) @ concat (map (param_bytes (v ! pi)) [0..<NPARAMS])"

definition blob_bytes :: "grid \<Rightarrow> bytes" where
  "blob_bytes v = head_bytes 5 (of_nat NPARTS) @ concat (map (part_bytes v) [0..<NPARTS])"

lemma emits_put_param: "emits (\<lambda>m. put_param vs m i) (param_bytes vs i)"
  unfolding put_param_def by (rule emits_eq, (rule enc_intros emits_id)+) (simp add: param_bytes_def)

lemma emits_put_part: "emits (\<lambda>m. put_part v m pi) (part_bytes v pi)"
proof -
  have "emits (\<lambda>m. foldl (put_param (v ! pi)) m [0..<NPARAMS]) (concat (map (param_bytes (v ! pi)) [0..<NPARAMS]))"
    by (rule emits_foldl) (rule emits_put_param)
  note * = emits_comp [OF _ this]
  show ?thesis unfolding put_part_def Let_def
    by (rule emits_eq, (rule * enc_intros emits_id)+) (simp add: part_bytes_def)
qed

lemma emits_params_blob: "emits (refdev_encode_params_blob v) (blob_bytes v)"
proof -
  have "emits (\<lambda>m. foldl (put_part v) m [0..<NPARTS]) (concat (map (part_bytes v) [0..<NPARTS]))"
    by (rule emits_foldl) (rule emits_put_part)
  from emits_comp [OF emits_map this, of "of_nat NPARTS"] show ?thesis
    by (simp add: refdev_encode_params_blob_def [abs_def] blob_bytes_def)
qed

lemma loop_dec_concat:
  assumes "\<And>x s r. x \<in> set xs \<Longrightarrow> f s (dec (g x @ r)) = (Some (upd x s), dec r)"
  shows "loop_dec f (length xs) s (dec (concat (map g xs) @ r)) = (Some (fold upd xs s), dec r)"
  using assms by (induction xs arbitrary: s) auto

lemma fold_pair:
  "fold (\<lambda>x g. (F x (fst g), G x (snd g))) xs g = (fold F xs (fst g), fold G xs (snd g))"
  by (induction xs arbitrary: g) simp_all

lemma fold_list_update: "n \<le> length xs \<Longrightarrow> fold (\<lambda>i xs. xs[i := f i]) [0..<n] xs = map f [0..<n] @ drop n xs"
proof (induction n)
  case (Suc n)
  then have "drop n xs = xs ! n # drop (Suc n) xs" by (simp add: Cons_nth_drop_Suc)
  with Suc show ?case by (simp add: list_update_append)
qed simp

lemma fold_set2:
  "i < length g \<Longrightarrow> n \<le> length (g ! i) \<Longrightarrow>
     fold (\<lambda>j g. set2 g i j (f j)) [0..<n] g = g[i := fold (\<lambda>j xs. xs[j := f j]) [0..<n] (g ! i)]"
  by (induction n) (simp_all add: set2_def)

definition grid_ok :: "'a list list \<Rightarrow> bool" where
  "grid_ok g \<longleftrightarrow> length g = NPARTS \<and> (\<forall>r \<in> set g. length r = NPARAMS)"

lemma find_param: "i < NPARAMS \<Longrightarrow>
    find (\<lambda>j. (ucast (dp_id (g_params ! j)) :: u64) = ucast (dp_id (g_params ! i))) [0..<NPARAMS] = Some i"
proof -
  have "\<forall>i \<in> set [0..<NPARAMS].
      find (\<lambda>j. (ucast (dp_id (g_params ! j)) :: u64) = ucast (dp_id (g_params ! i))) [0..<NPARAMS] = Some i"
    by (simp add: NPARAMS_def upt_conv_Cons g_params_def param_def_def)
  then show "i < NPARAMS \<Longrightarrow> ?thesis" by simp
qed

lemma f64_of_f32_isnan: "\<not> f32_isnan x \<Longrightarrow> \<not> f64_isnan (f64_of_f32 x)"
  using f32_of_f64_nan [of "f64_of_f32 x"] by (auto simp: f32_of_f64_of_f32)

lemma float_bytes_len: "1 \<le> length (float_bytes v)"
  by (simp add: float_bytes_def Let_def split: option.split)

lemma part_pair_enc:
  assumes "i < NPARAMS" and "\<not> f32_isnan (vs ! i)"
  shows "part_pair (Some pi) g (dec (param_bytes vs i @ r)) =
    (Some (set2 (fst g) pi i (vs ! i), set2 (snd g) pi i True), dec r)"
  using assms find_param [OF assms(1)] f64_of_f32_isnan [OF assms(2)]
  by (simp add: part_pair_def param_bytes_def cdec_float_bytes f32_of_f64_of_f32 grid_set_def)

lemma param_map_enc:
  "harp_cdec_map (dec (head_bytes 5 (of_nat NPARAMS) @ concat (map (param_bytes vs) [0..<NPARAMS]) @ r)) =
     (Some (of_nat NPARAMS), dec (concat (map (param_bytes vs) [0..<NPARAMS]) @ r))"
proof -
  have "2 \<le> length (param_bytes vs i)" for i
    using head_bytes_ge1 [of 0 "ucast (dp_id (g_params ! i))"] float_bytes_len [of "f64_of_f32 (vs ! i)"]
    by (simp add: param_bytes_def)
  from map_count_enc [of "[0..<NPARAMS]" "param_bytes vs" r, OF _ this] show ?thesis by (simp add: NPARAMS_def)
qed

lemma parse_part_map_enc:
  assumes "\<forall>x \<in> set vs. \<not> f32_isnan x" and "length vs = NPARAMS" and "grid_ok (fst g)" and "grid_ok (snd g)"
    and "pi < NPARTS"
  shows "parse_part_map (Some pi) g
      (dec (head_bytes 5 (of_nat NPARAMS) @ concat (map (param_bytes vs) [0..<NPARAMS]) @ r)) =
    (Some ((fst g)[pi := vs], (snd g)[pi := replicate NPARAMS True]), dec r)"
proof -
  have row: "length (h ! pi) = NPARAMS" "pi < length h" if "grid_ok h" for h :: "'x list list"
    using that assms(5) by (auto simp: grid_ok_def)
  have "loop_dec (part_pair (Some pi)) (length [0..<NPARAMS]) g (dec (concat (map (param_bytes vs) [0..<NPARAMS]) @ r)) =
      (Some (fold (\<lambda>i g. (set2 (fst g) pi i (vs ! i), set2 (snd g) pi i True)) [0..<NPARAMS] g), dec r)"
    by (rule loop_dec_concat) (use assms in \<open>simp add: part_pair_enc\<close>)
  moreover have "fold (\<lambda>j g. set2 g pi j (vs ! j)) [0..<NPARAMS] (fst g) = (fst g)[pi := vs]"
    using row [OF assms(3)] assms(2)
    by (simp add: fold_set2 fold_list_update) (metis append_Nil2 map_nth)
  moreover have "fold (\<lambda>j g. set2 g pi j True) [0..<NPARAMS] (snd g) = (snd g)[pi := replicate NPARAMS True]"
    using row [OF assms(4)] by (simp add: fold_set2 fold_list_update map_replicate_const)
  moreover have "unat (of_nat NPARAMS :: u64) = NPARAMS" by (simp add: NPARAMS_def)
  ultimately show ?thesis
    using fold_pair [of "\<lambda>i g. set2 g pi i (vs ! i)" "\<lambda>i g. set2 g pi i True" "[0..<NPARAMS]" g]
    by (simp add: parse_part_map_def param_map_enc)
qed

lemma part_of_key_nat: "pi < NPARTS \<Longrightarrow> part_of_key (of_nat pi) = Some pi"
  by (simp add: part_of_key_def NPARTS_def word_less_nat_alt)

lemma grid_ok_update: "grid_ok g \<Longrightarrow> length r = NPARAMS \<Longrightarrow> grid_ok (g[i := r])"
  by (auto simp: grid_ok_def dest!: subsetD [OF set_update_subset_insert])

lemma part_entry_enc:
  assumes "grid_ok v" and "\<forall>r \<in> set v. \<forall>x \<in> set r. \<not> f32_isnan x" and "grid_ok (fst g)" and "grid_ok (snd g)"
    and "pi < NPARTS"
  shows "part_entry g (dec (part_bytes v pi @ r)) =
    (Some ((fst g)[pi := v ! pi], (snd g)[pi := replicate NPARAMS True]), dec r)"
proof -
  have "v ! pi \<in> set v" using assms by (simp add: grid_ok_def)
  with assms(1,2) have "\<forall>x \<in> set (v ! pi). \<not> f32_isnan x" "length (v ! pi) = NPARAMS" by (auto simp: grid_ok_def)
  from parse_part_map_enc [OF this assms(3-5), of r] show ?thesis
    by (simp add: part_entry_def part_bytes_def part_of_key_nat [OF assms(5)])
qed

lemma parts_loop_enc:
  assumes "grid_ok v" and "\<forall>r \<in> set v. \<forall>x \<in> set r. \<not> f32_isnan x" and "\<forall>i \<in> set is. i < NPARTS"
    and "grid_ok (fst g)" and "grid_ok (snd g)"
  shows "loop_dec part_entry (length is) g (dec (concat (map (part_bytes v) is) @ r)) =
    (Some (fold (\<lambda>i g. ((fst g)[i := v ! i], (snd g)[i := replicate NPARAMS True])) is g), dec r)"
  using assms(3-)
proof (induction "is" arbitrary: g)
  case (Cons i "is")
  then have "length (v ! i) = NPARAMS" using assms(1) by (auto simp: grid_ok_def)
  with Cons part_entry_enc [OF assms(1,2), of g i] show ?case by (simp add: grid_ok_update)
qed simp

lemma parse_blob_bytes:
  assumes "grid_ok v" and "\<forall>r \<in> set v. \<forall>x \<in> set r. \<not> f32_isnan x" and "grid_ok (fst g)" and "grid_ok (snd g)"
  shows "refdev_parse_params_blob (blob_bytes v) g = Some (v, replicate NPARTS (replicate NPARAMS True))"
proof -
  let ?row = "\<lambda>vs. concat (map (param_bytes vs) [0..<NPARAMS])" and ?t = "replicate NPARAMS True"
  let ?rest = "concat (map (part_bytes v) [1..<NPARTS])"
  have lv: "length v = NPARTS" "v ! 0 \<in> set v" "length (fst g) = NPARTS" "length (snd g) = NPARTS"
    using assms by (auto simp: grid_ok_def NPARTS_def)
  then have v0: "\<forall>x \<in> set (v ! 0). \<not> f32_isnan x" "length (v ! 0) = NPARAMS" "0 < NPARTS"
    using assms(1,2) by (auto simp: grid_ok_def NPARTS_def)
  have upt: "[0..<NPARTS] = 0 # [1..<NPARTS]" by (simp add: NPARTS_def upt_conv_Cons)
  have "2 \<le> length (part_bytes v i)" for i
    using head_bytes_ge1 [of 0 "of_nat i"] head_bytes_ge1 [of 5 "of_nat NPARAMS"] by (simp add: part_bytes_def)
  from map_count_enc [of "[0..<NPARTS]" "part_bytes v" "[]", OF _ this]
  have m: "harp_cdec_map (dec (blob_bytes v)) =
      (Some (of_nat NPARTS), dec (enc_uint 0 @ head_bytes 5 (of_nat NPARAMS) @ ?row (v ! 0) @ ?rest))"
    by (simp add: blob_bytes_def NPARTS_def upt_conv_Cons part_bytes_def)
  have peek: "harp_cdec_peek (dec (head_bytes 5 (of_nat NPARAMS) @ x)) = 5" for x
    by (simp add: harp_cdec_peek_def head_bytes_def NPARAMS_def)
  note first = parse_part_map_enc [OF v0(1,2) assms(3,4) v0(3), of ?rest]
  let ?g = "((fst g)[0 := v ! 0], (snd g)[0 := ?t])"
  have "\<forall>i \<in> set [1..<NPARTS]. i < NPARTS" by simp
  from parts_loop_enc [OF assms(1,2) this, of ?g "[]"] assms(3,4) v0(2)
  have loop: "loop_dec part_entry (NPARTS - 1) ?g (dec ?rest) =
      (Some (fold (\<lambda>i g. ((fst g)[i := v ! i], (snd g)[i := ?t])) [1..<NPARTS] ?g), dec [])"
    by (simp add: grid_ok_update)
  have "fold (\<lambda>i g. ((fst g)[i := v ! i], (snd g)[i := ?t])) [1..<NPARTS] ?g =
      fold (\<lambda>i g. ((fst g)[i := v ! i], (snd g)[i := ?t])) [0..<NPARTS] g"
    unfolding upt by simp
  also have "\<dots> = (v, replicate NPARTS ?t)"
    using fold_pair [of "\<lambda>i g. g[i := v ! i]" "\<lambda>i g. g[i := ?t]" "[0..<NPARTS]" g] lv
    by (simp add: fold_list_update map_replicate_const) (metis map_nth)
  finally show ?thesis
    using m peek first loop part_of_key_nat [OF v0(3)]
    by (simp add: refdev_parse_params_blob_def) (simp add: NPARTS_def)
qed

end
