(* ===== verification/Harp_Recall.thy ===== *)
theory Harp_Recall
  imports Harp_State
begin

text \<open>
  Total recall: what \<^verbatim>\<open>engine_snapshot_objects\<close> stores is what \<^verbatim>\<open>engine_load_snapshot\<close> restores.  The proof goes
  through the parameter blob, the tree and the snapshot object, the content-addressed store in between, and the
  committed grid.  The store is content-addressed by SHA-256, so the statements are up to a collision between an
  object just written and an object of the store, which is exhibited when there is one.
\<close>

section \<open>Buffers with room\<close>

lemma emits_fits:
  assumes "emits f xs" and "cbuf_wf b" and "\<not> cb_oom b" and "length (cb_buf b) + length xs \<le> m"
    and "max 256 (2 * m) \<le> cb_avail b"
  shows "cb_buf (f b) = cb_buf b @ xs" and "\<not> cb_oom (f b)" and "cb_avail (f b) = cb_avail b"
proof -
  note put = harp_cbuf_put_fits [OF assms(3-5)]
  from assms(1,2) put(1) have "f b = harp_cbuf_put b xs" by (auto simp: emits_def cb_eq_def)
  with put show "cb_buf (f b) = cb_buf b @ xs" "\<not> cb_oom (f b)" "cb_avail (f b) = cb_avail b"
    by (auto simp: harp_cbuf_put_def ensure_def Let_def split: if_splits)
qed

section \<open>Objects in a working store\<close>

text \<open>A consistent store whose object files can be read and whose object names are not taken by directories.\<close>

definition store_healthy :: "harp_store \<Rightarrow> bool" where
  "store_healthy s \<longleftrightarrow> store_consistent s \<and> (\<forall>p. \<not> flt_fopen (sto_flt s) p \<and> \<not> flt_ferror (sto_flt s) p) \<and>
     (\<forall>h. length h = 33 \<longrightarrow> map_of (sto_fs s) (obj_path s h) \<noteq> Some Dir)"

lemma obj_file_iff: "store_healthy s \<Longrightarrow> obj_file s h = Some x \<longleftrightarrow> map_of (sto_fs s) (obj_path s h) = Some (File x)"
  by (auto simp: obj_file_def fopen_rb_def store_healthy_def split: option.splits fnode.splits)

lemma obj_file_hash: "store_healthy s \<Longrightarrow> length h = 33 \<Longrightarrow> obj_file s h = Some x \<Longrightarrow> harp_hash_compute x = h"
  by (auto simp: obj_file_iff) (auto simp: store_healthy_def store_consistent_def)

lemma put_healthy:
  assumes "store_healthy s" and "harp_store_put s enc = (True, h, s')"
  shows "h = harp_hash_compute enc" and "store_healthy s'" and "\<exists>x. obj_file s' h = Some x"
    and "length h' = 33 \<Longrightarrow> obj_file s h' = Some y \<Longrightarrow> obj_file s' h' = Some y"
proof -
  have con: "store_consistent s" and d: "dir_ok s" using assms(1) by (auto simp: store_healthy_def store_consistent_def)
  show h: "h = harp_hash_compute enc" using assms(2)
    by (auto simp: harp_store_put_def Let_def split: if_splits prod.splits)
  let ?p = "obj_path s h"
  have put: "s' = s\<lparr>sto_fs := sto_fs s'\<rparr> \<and>
    (if path_readable (sto_fs s) ?p then s' = s
     else map_of (sto_fs s') = (map_of (sto_fs s))(tmp_path s ?p := None, ?p \<mapsto> File enc))"
    using assms(2) write_atomic_cases(1,2) [OF _ obj_path_short, of s s h enc True s'] h
    by (auto simp: harp_store_put_def Let_def split: if_splits prod.splits)
  have same: "obj_path s' k = obj_path s k" for k using put same_dir(1) by metis
  have flt: "sto_flt s' = sto_flt s" using put by (metis harp_store.select_convs(4) harp_store.surjective harp_store.update_convs(2))
  have keep: "map_of (sto_fs s') (obj_path s k) =
      (if obj_path s k = ?p \<and> \<not> path_readable (sto_fs s) ?p then Some (File enc) else map_of (sto_fs s) (obj_path s k))" for k
    using conjunct2 [OF put] tmp_not_obj [OF d, of k h] by (cases "path_readable (sto_fs s) ?p") auto
  have "store_consistent s'" using put_consistent [OF con, of enc] assms(2) by simp
  then show healthy: "store_healthy s'"
    using assms(1) keep same flt by (auto simp: store_healthy_def)
  have ne: "?p \<noteq> []" using length_obj_path [OF d, of h] by auto
  have "length h = 33" using h by simp
  then have "map_of (sto_fs s) ?p \<noteq> Some Dir" using assms(1) by (auto simp: store_healthy_def)
  then have "\<exists>x. map_of (sto_fs s') ?p = Some (File x)"
    using keep [of h] ne by (cases "map_of (sto_fs s) ?p") (auto simp: path_readable_def split: if_splits, metis fnode.exhaust)
  then show "\<exists>x. obj_file s' h = Some x" using healthy same by (simp add: obj_file_iff)
  assume "length h' = 33" and "obj_file s h' = Some y"
  then have "map_of (sto_fs s) (obj_path s h') = Some (File y)" using assms(1) by (simp add: obj_file_iff)
  then have "map_of (sto_fs s') (obj_path s h') = Some (File y)" using keep [of h'] ne by (auto simp: path_readable_def)
  then show "obj_file s' h' = Some y" using healthy same by (simp add: obj_file_iff)
qed

lemma get_obj_file:
  assumes "store_healthy s" and "obj_file s h = Some x" and "length x \<le> m" and "max 256 (2 * m) \<le> cb_avail b"
  shows "\<exists>b'. harp_store_get s h (harp_cbuf_init b) = (True, b') \<and> cb_buf b' = x"
proof -
  have i: "cb_buf (harp_cbuf_init b) = []" "\<not> cb_oom (harp_cbuf_init b)" "cb_avail (harp_cbuf_init b) = cb_avail b"
    by (simp_all add: harp_cbuf_init_def)
  have "cb_buf (fread_loop (harp_cbuf_init b) x) = x" "\<not> cb_oom (fread_loop (harp_cbuf_init b) x)"
    using emits_fits(1,2) [OF emits_fread_loop [of x], of "harp_cbuf_init b" m] assms i by auto
  with assms(1,2) show ?thesis
    by (auto simp: harp_store_get_def obj_file_def Let_def store_healthy_def)
qed

section \<open>The parameter grid\<close>

lemma param_index_id: "i < NPARAMS \<Longrightarrow> param_index (dp_id (g_params ! i)) = Some i"
proof -
  have "\<forall>i \<in> set [0..<NPARAMS]. param_index (dp_id (g_params ! i)) = Some i"
    by (simp add: NPARAMS_def upt_conv_Cons g_params_def param_def_def param_index_def)
  then show "i < NPARAMS \<Longrightarrow> ?thesis" by simp
qed

lemma engine_grid_eq:
  assumes "engine_wf g"
  shows "engine_grid (en_parts g) = map pt_pval (en_parts g)" and "grid_ok (map pt_pval (en_parts g))"
proof -
  have len: "length (en_parts g) = NPARTS" "\<And>i. i < NPARTS \<Longrightarrow> length (pt_pval (en_parts g ! i)) = NPARAMS"
    using assms by (auto simp: engine_wf_def part_wf_def list_all_length)
  then show "grid_ok (map pt_pval (en_parts g))" by (auto simp: grid_ok_def in_set_conv_nth)
  show "engine_grid (en_parts g) = map pt_pval (en_parts g)"
  proof (rule nth_equalityI)
    fix i assume "i < length (engine_grid (en_parts g))"
    then have i: "i < NPARTS" by (simp add: engine_grid_def)
    then have "map (\<lambda>j. engine_part_param_get (en_parts g) (int i) (dp_id (g_params ! j))) [0..<NPARAMS] = pt_pval (en_parts g ! i)"
      using len by (intro nth_equalityI) (auto simp: engine_part_param_get_def part_pget_def param_index_id)
    with i len show "engine_grid (en_parts g) ! i = map pt_pval (en_parts g) ! i" by (simp add: engine_grid_def)
  qed (simp add: engine_grid_def len)
qed

lemma commit_row:
  assumes "pi < NPARTS" and "pi < length ps" and "n \<le> NPARAMS"
  shows "foldl (\<lambda>ps i. engine_part_param_put ps (int pi) (dp_id (g_params ! i)) (r ! i)) ps [0..<n] =
    ps[pi := (ps ! pi)\<lparr>pt_pval := fold (\<lambda>i xs. xs[i := r ! i]) [0..<n] (pt_pval (ps ! pi))\<rparr>]"
  using assms(3)
proof (induction n)
  case (Suc n)
  then have "param_index (dp_id (g_params ! n)) = Some n" by (simp add: param_index_id)
  with Suc assms(1,2) show ?case by (simp add: engine_part_param_put_def part_pput_def)
qed simp

lemma commit_rows:
  assumes "length ps = NPARTS" and "\<forall>p \<in> set ps. length (pt_pval p) = NPARAMS" and "grid_ok g" and "k \<le> NPARTS"
  shows "foldl (\<lambda>ps pi. foldl (\<lambda>ps i. engine_part_param_put ps (int pi) (dp_id (g_params ! i)) (g ! pi ! i)) ps
           [0..<NPARAMS]) ps [0..<k] = map (\<lambda>i. (ps ! i)\<lparr>pt_pval := g ! i\<rparr>) [0..<k] @ drop k ps"
  using assms(4)
proof (induction k)
  case (Suc k)
  let ?r = "map (\<lambda>i. (ps ! i)\<lparr>pt_pval := g ! i\<rparr>) [0..<k] @ drop k ps"
  have k: "k < NPARTS" "k < length ?r" "k < length ps" using Suc.prems assms(1) by auto
  have gk: "length (g ! k) = NPARAMS" "length (pt_pval (ps ! k)) = NPARAMS"
    using k assms by (auto simp: grid_ok_def)
  have at: "?r ! k = ps ! k" using k by (simp add: nth_append)
  have "fold (\<lambda>i xs. xs[i := g ! k ! i]) [0..<NPARAMS] (pt_pval (ps ! k)) = g ! k"
    using gk by (simp add: fold_list_update) (metis map_nth)
  with commit_row [OF k(1,2), of NPARAMS "g ! k"] at
  have "foldl (\<lambda>ps i. engine_part_param_put ps (int k) (dp_id (g_params ! i)) (g ! k ! i)) ?r [0..<NPARAMS] =
      ?r[k := (ps ! k)\<lparr>pt_pval := g ! k\<rparr>]" by simp
  also have "\<dots> = map (\<lambda>i. (ps ! i)\<lparr>pt_pval := g ! i\<rparr>) [0..<Suc k] @ drop (Suc k) ps"
    using k by (simp add: list_update_append Cons_nth_drop_Suc [symmetric])
  finally show ?case using Suc by simp
qed simp

lemma commit_grid_eq:
  assumes "engine_wf g" and "grid_ok v"
  shows "commit_grid v (en_parts g) = map2 (\<lambda>p r. p\<lparr>pt_pval := r\<rparr>) (en_parts g) v"
proof -
  have "length (en_parts g) = NPARTS" "\<forall>p \<in> set (en_parts g). length (pt_pval p) = NPARAMS"
    using assms by (auto simp: engine_wf_def part_wf_def list_all_iff)
  with commit_rows [OF this assms(2), of NPARTS]
  have "commit_grid v (en_parts g) = map (\<lambda>i. (en_parts g ! i)\<lparr>pt_pval := v ! i\<rparr>) [0..<NPARTS]"
    by (simp add: commit_grid_def)
  moreover have "length v = NPARTS" "length (en_parts g) = NPARTS"
    using assms by (auto simp: grid_ok_def engine_wf_def)
  ultimately show ?thesis by (simp add: list_eq_iff_nth_eq)
qed

lemma overlay_all:
  assumes "grid_ok v"
  shows "overlay (v, replicate NPARTS (replicate NPARAMS True)) staged = v"
proof (rule nth_equalityI)
  fix i assume "i < length (overlay (v, replicate NPARTS (replicate NPARAMS True)) staged)"
  then have i: "i < NPARTS" by (simp add: overlay_def)
  with assms have "length (v ! i) = NPARAMS" by (auto simp: grid_ok_def)
  with i show "overlay (v, replicate NPARTS (replicate NPARAMS True)) staged ! i = v ! i"
    by (simp add: overlay_def list_eq_iff_nth_eq)
qed (use assms in \<open>simp add: overlay_def grid_ok_def\<close>)

section \<open>The three objects of a snapshot\<close>

definition blob_obj :: "grid \<Rightarrow> bytes" where
  "blob_obj v = obj_enc (blob_item PARAMS_MEDIA (blob_bytes v))"

definition tree_obj :: "grid \<Rightarrow> bytes" where
  "tree_obj v = obj_enc (tree_item [\<lparr>te_name = str ''params'', te_hash = harp_hash_compute (blob_obj v),
     te_kind = ucast HARP_OBJ_BLOB\<rparr>])"

definition snap_obj :: "grid \<Rightarrow> harp_hash option \<Rightarrow> bytes option \<Rightarrow> u64 \<Rightarrow> bytes" where
  "snap_obj v par msg t = obj_enc (snapshot_item (harp_hash_compute (tree_obj v))
     (case par of None \<Rightarrow> [] | Some p \<Rightarrow> [p]) t (str ''device'') ENGINE_VERSION msg)"

definition msg_len :: "bytes option \<Rightarrow> nat" where
  "msg_len msg = (case msg of None \<Rightarrow> 0 | Some m \<Rightarrow> length m)"

lemma length_float_bytes: "length (float_bytes v) \<le> 9"
  by (simp add: float_bytes_def Let_def split: option.split)

lemma length_concat_map_le: "(\<And>x. x \<in> set xs \<Longrightarrow> length (f x) \<le> k) \<Longrightarrow> length (concat (map f xs)) \<le> k * length xs"
  by (induction xs) (auto simp: add_mono)

lemma length_blob_bytes: "length (blob_bytes v) \<le> 3753"
proof -
  have "length (param_bytes vs i) \<le> 18" for vs i
    using length_head_bytes(1) [of 0 "ucast (dp_id (g_params ! i))"] length_float_bytes [of "f64_of_f32 (vs ! i)"]
    by (simp add: param_bytes_def)
  then have row: "length (concat (map (param_bytes vs) [0..<NPARAMS])) \<le> 18 * 12" for vs
    using length_concat_map_le [of "[0..<NPARAMS]" "param_bytes vs" 18] by (simp add: NPARAMS_def)
  have "length (part_bytes v pi) \<le> 234" for pi
    using length_head_bytes(1) [of 0 "of_nat pi"] length_head_bytes(1) [of 5 "of_nat NPARAMS"] row [of "v ! pi"]
    unfolding part_bytes_def length_append by linarith
  then have "length (concat (map (part_bytes v) [0..<NPARTS])) \<le> 234 * 16"
    using length_concat_map_le [of "[0..<NPARTS]" "part_bytes v" 234] by (simp add: NPARTS_def)
  then show ?thesis
    using length_head_bytes(1) [of 5 "of_nat NPARTS"] unfolding blob_bytes_def length_append by linarith
qed

lemma length_blob_obj: "length (blob_obj v) \<le> 4096"
proof -
  have "length (blob_obj v) \<le> 9 * 7 + 32 + length (blob_bytes v)"
    using length_head_bytes(1) [of 5 3] length_head_bytes(1) [of 0 0] length_head_bytes(1) [of 0 1]
      length_head_bytes(1) [of 0 2] length_head_bytes(1) [of 3 "of_nat (length PARAMS_MEDIA)"]
      length_head_bytes(1) [of 2 "of_nat (length (blob_bytes v))"]
    by (simp add: blob_obj_def obj_enc_eq blob_item_def) (simp add: PARAMS_MEDIA_def str_def)
  with length_blob_bytes [of v] show ?thesis by simp
qed

lemma length_tree_obj: "length (tree_obj v) \<le> 4096"
  using length_head_bytes(1) [of 5 2] length_head_bytes(1) [of 0 0] length_head_bytes(1) [of 0 2]
    length_head_bytes(1) [of 0 1] length_head_bytes(1) [of 5 1] length_head_bytes(1) [of 4 2]
    length_head_bytes(1) [of 3 6] length_head_bytes(1) [of 2 33]
  by (simp add: tree_obj_def obj_enc_eq tree_item_def entry_item_def str_def HARP_OBJ_BLOB_def)

lemma length_snap_obj:
  assumes "par = None \<or> hash_ok (the par)"
  shows "length (snap_obj v par msg t) \<le> 4096 + msg_len msg"
proof -
  let ?pars = "case par of None \<Rightarrow> [] | Some p \<Rightarrow> [p]" and ?root = "harp_hash_compute (tree_obj v)"
  have heads: "length (head_bytes m x) \<le> 9" for m x by (rule length_head_bytes(1))
  have "length (concat (map (\<lambda>h. enc_item (CBytes h)) ?pars)) \<le> 42"
    using assms heads [of 2 33] by (auto simp: hash_ok_def HARP_HASH_LEN_def split: option.split)
  moreover have "length (concat (map (\<lambda>(k, v). enc_uint k @ enc_item v)
      (case msg of None \<Rightarrow> [] | Some m \<Rightarrow> [(6, CText m)]))) \<le> 18 + msg_len msg"
    using heads [of 0 6] heads [of 3 "of_nat (msg_len msg)"] by (cases msg) (simp_all add: msg_len_def)
  ultimately show ?thesis
    using heads [of 5 "of_nat (length (snapshot_item ?root ?pars t (str ''device'') ENGINE_VERSION msg))"]
      heads [of 0 0] heads [of 0 3] heads [of 0 1] heads [of 2 33] heads [of 0 2] heads [of 4 "of_nat (length ?pars)"]
      heads [of 0 t] heads [of 0 4] heads [of 3 6] heads [of 0 5] heads [of 3 5]
    unfolding snap_obj_def obj_enc_eq
    by (simp add: snapshot_item_def comp_def) (simp add: str_def ENGINE_VERSION_def)
qed

text \<open>Allocations of twice the size of the largest of the three objects succeed.\<close>

definition roomy :: "bytes option \<Rightarrow> 's device \<Rightarrow> bool" where
  "roomy msg d \<longleftrightarrow> 2 * (4096 + msg_len msg) \<le> cb_avail (wd_alloc (dv_world d)) \<and> 4096 + msg_len msg < 2 ^ 64"

lemma new_cbuf_simps [simp]:
  "cb_buf (new_cbuf d) = []" "\<not> cb_oom (new_cbuf d)" "cb_avail (new_cbuf d) = cb_avail (wd_alloc (dv_world d))"
  "cbuf_wf (new_cbuf d)"
  by (simp_all add: harp_cbuf_init_def cbuf_wf_def)

lemma encode_params_obj:
  assumes "roomy msg d"
  shows "cb_buf (engine_encode_params_blob d (new_cbuf d)) = blob_obj (engine_grid (en_parts (dv_engine d)))"
    and "cb_avail (engine_encode_params_blob d (new_cbuf d)) = cb_avail (wd_alloc (dv_world d))"
proof -
  let ?v = "engine_grid (en_parts (dv_engine d))"
  have "cb_buf (refdev_encode_params_blob ?v (new_cbuf d)) = blob_bytes ?v"
    using emits_fits(1) [OF emits_params_blob, of "new_cbuf d" ?v 4096] assms length_blob_bytes [of ?v]
    by (simp add: roomy_def)
  moreover have "emits (\<lambda>b. harp_obj_encode_blob b PARAMS_MEDIA (blob_bytes ?v)) (blob_obj ?v)"
    unfolding blob_obj_def by (rule emits_encode_blob)
  note fits = emits_fits [OF this, of "new_cbuf d" 4096]
  ultimately show "cb_buf (engine_encode_params_blob d (new_cbuf d)) = blob_obj ?v"
    "cb_avail (engine_encode_params_blob d (new_cbuf d)) = cb_avail (wd_alloc (dv_world d))"
    using assms fits length_blob_obj [of ?v] by (simp_all add: engine_encode_params_blob_def roomy_def)
qed

lemma reset_simps [simp]: "cb_buf (harp_cbuf_reset b) = []" "\<not> cb_oom (harp_cbuf_reset b)"
  "cb_avail (harp_cbuf_reset b) = cb_avail b"
  by (simp_all add: harp_cbuf_reset_def)

lemma put_result: "harp_store_put s enc = (ok, h, s') \<Longrightarrow> h = harp_hash_compute enc"
  by (auto simp: harp_store_put_def Let_def split: if_splits prod.splits)

lemma snapshot_puts:
  assumes "engine_snapshot_objects par msg d = (Some snap, d1)" and "roomy msg d" and "par = None \<or> hash_ok (the par)"
  defines "v \<equiv> engine_grid (en_parts (dv_engine d))"
  shows "\<exists>s1 s2 s3 h1 h2. harp_store_put (dv_store d) (blob_obj v) = (True, h1, s1) \<and>
    harp_store_put s1 (tree_obj v) = (True, h2, s2) \<and>
    harp_store_put s2 (snap_obj v par msg (wd_time (dv_world d))) = (True, snap, s3) \<and> d1 = d\<lparr>dv_store := s3\<rparr>"
proof -
  define e1 where "e1 = engine_encode_params_blob d (new_cbuf d)"
  have e1: "cb_buf e1 = blob_obj v" "cb_avail e1 = cb_avail (wd_alloc (dv_world d))"
    using encode_params_obj [OF assms(2)] by (simp_all add: e1_def v_def)
  obtain ok1 h1 s1 where p1: "harp_store_put (dv_store d) (blob_obj v) = (ok1, h1, s1)" by (metis surj_pair)
  define es where "es = [\<lparr>te_name = str ''params'', te_hash = h1, te_kind = ucast HARP_OBJ_BLOB\<rparr>]"
  define e2 where "e2 = harp_obj_encode_tree (harp_cbuf_reset e1) es"
  have "tree_obj v = obj_enc (tree_item (qsort entry_cmp es))"
    using put_result [OF p1] by (simp add: tree_obj_def es_def qsort_def)
  with emits_encode_tree [of es] have "emits (\<lambda>b. harp_obj_encode_tree b es) (tree_obj v)" by (simp add: es_def)
  from emits_fits(1,3) [OF this cbuf_wf_reset, of e1 4096] assms(2) length_tree_obj [of v] e1(2)
  have e2: "cb_buf e2 = tree_obj v" "cb_avail e2 = cb_avail (wd_alloc (dv_world d))"
    by (simp_all add: e2_def roomy_def)
  obtain ok2 h2 s2 where p2: "harp_store_put s1 (tree_obj v) = (ok2, h2, s2)" by (metis surj_pair)
  define e3 where "e3 = harp_obj_encode_snapshot (harp_cbuf_reset e2) h2 (case par of None \<Rightarrow> [] | Some p \<Rightarrow> [p])
    (wd_time (dv_world d)) (str ''device'') ENGINE_VERSION msg"
  have "emits (\<lambda>b. harp_obj_encode_snapshot b h2 (case par of None \<Rightarrow> [] | Some p \<Rightarrow> [p])
    (wd_time (dv_world d)) (str ''device'') ENGINE_VERSION msg) (snap_obj v par msg (wd_time (dv_world d)))"
    unfolding snap_obj_def using put_result [OF p2] emits_encode_snapshot by metis
  from emits_fits(1) [OF this cbuf_wf_reset, of e2 "4096 + msg_len msg"] assms(2) e2(2)
    length_snap_obj [OF assms(3), of v msg "wd_time (dv_world d)"]
  have e3: "cb_buf e3 = snap_obj v par msg (wd_time (dv_world d))" by (simp add: e3_def roomy_def)
  have "engine_snapshot_objects par msg d =
      (if \<not> ok1 then (None, d\<lparr>dv_store := s1\<rparr>) else if \<not> ok2 then (None, d\<lparr>dv_store := s2\<rparr>)
       else case harp_store_put s2 (cb_buf e3) of
              (False, snap, st) \<Rightarrow> (None, d\<lparr>dv_store := st\<rparr>) | (True, snap, st) \<Rightarrow> (Some snap, d\<lparr>dv_store := st\<rparr>))"
    unfolding engine_snapshot_objects_def Let_def e1_def [symmetric] e1(1) p1
    by (simp only: prod.case es_def [symmetric] e2_def [symmetric] e2(1) p2 e3_def [symmetric]) (simp split: bool.split)
  with assms(1) p1 p2 e3 show ?thesis by (auto split: if_splits prod.splits bool.splits)
qed

section \<open>Recall\<close>

text \<open>Two different objects with the same hash, one of them just written, the other one in the store.\<close>

definition collision :: "harp_store \<Rightarrow> bytes list \<Rightarrow> bool" where
  "collision s encs \<longleftrightarrow>
     (\<exists>x \<in> set encs. \<exists>y. x \<noteq> y \<and> harp_hash_compute x = harp_hash_compute y \<and>
        obj_file s (harp_hash_compute x) = Some y)"

lemma hash_ok_compute [simp]: "hash_ok (harp_hash_compute x)"
  by (simp add: hash_ok_def HARP_HASH_LEN_def) (simp add: harp_hash_compute_def)

lemma three_puts:
  assumes "store_healthy s" and "harp_store_put s a = (True, h1, s1)" and "harp_store_put s1 b = (True, h2, s2)"
    and "harp_store_put s2 c = (True, h3, s3)" and "\<not> collision s3 [a, b, c]"
  shows "store_healthy s3" and "h3 = harp_hash_compute c" and
    "\<forall>x \<in> {a, b, c}. obj_file s3 (harp_hash_compute x) = Some x"
proof -
  note p1 = put_healthy [OF assms(1,2)]
  note p2 = put_healthy [OF p1(2) assms(3)]
  note p3 = put_healthy [OF p2(2) assms(4)]
  show "store_healthy s3" "h3 = harp_hash_compute c" using p3(1,2) by blast+
  have "\<exists>y. obj_file s3 (harp_hash_compute x) = Some y" if "x \<in> {a, b, c}" for x
    using that p1(1,3) p2(1,3,4) p3(1,3,4) by (metis harp_hash_compute_length insert_iff singletonD)
  with p3(2) assms(5) show "\<forall>x \<in> {a, b, c}. obj_file s3 (harp_hash_compute x) = Some x"
    by (auto simp: collision_def) (metis harp_hash_compute_length obj_file_hash)+
qed

lemma load_params:
  assumes "store_healthy s" and "obj_file s (harp_hash_compute (blob_obj v)) = Some (blob_obj v)"
    and "2 * 4096 \<le> cb_avail b" and "grid_ok v" and "\<forall>r \<in> set v. \<forall>x \<in> set r. \<not> f32_isnan x"
  shows "load_tree_entry (harp_cbuf_init b) s (str ''params'') (harp_hash_compute (blob_obj v)) (ucast HARP_OBJ_BLOB)
    (staged, ok) = (True, v, ok)"
proof -
  obtain b' where "harp_store_get s (harp_hash_compute (blob_obj v)) (harp_cbuf_init b) = (True, b')" "cb_buf b' = blob_obj v"
    using get_obj_file [OF assms(1,2) length_blob_obj] assms(3) by auto
  moreover have "harp_obj_parse_blob (blob_obj v) = Some (Some PARAMS_MEDIA, blob_bytes v)"
    using length_blob_bytes [of v] unfolding blob_obj_def by (intro parse_blob_enc) (simp_all add: PARAMS_MEDIA_def str_def)
  moreover have "refdev_parse_params_blob (blob_bytes v)
      (replicate NPARTS (replicate NPARAMS 0), replicate NPARTS (replicate NPARAMS False)) =
    Some (v, replicate NPARTS (replicate NPARAMS True))"
    by (rule parse_blob_bytes [OF assms(4,5)]) (simp_all add: grid_ok_def)
  ultimately show ?thesis by (simp add: load_tree_entry_def overlay_all [OF assms(4)])
qed

lemma load_stored:
  assumes "store_healthy (dv_store d)" and "roomy msg d" and "engine_wf (dv_engine d)" and "par = None \<or> hash_ok (the par)"
    and "grid_ok v" and "\<forall>r \<in> set v. \<forall>x \<in> set r. \<not> f32_isnan x"
    and "\<forall>x \<in> {blob_obj v, tree_obj v, snap_obj v par msg t}. obj_file (dv_store d) (harp_hash_compute x) = Some x"
  shows "engine_load_snapshot (harp_hash_compute (snap_obj v par msg t)) d =
    (True, d\<lparr>dv_engine := (dv_engine d)\<lparr>en_parts := map2 (\<lambda>p r. p\<lparr>pt_pval := r\<rparr>) (en_parts (dv_engine d)) v\<rparr>\<rparr>)"
proof -
  have room: "max 256 (2 * (4096 + msg_len msg)) \<le> cb_avail (wd_alloc (dv_world d))" "max 256 (2 * 4096) \<le> cb_avail (wd_alloc (dv_world d))"
    using assms(2) by (simp_all add: roomy_def)
  have f: "obj_file (dv_store d) (harp_hash_compute (snap_obj v par msg t)) = Some (snap_obj v par msg t)"
    "obj_file (dv_store d) (harp_hash_compute (tree_obj v)) = Some (tree_obj v)" using assms(7) by simp_all
  obtain b1 where b1: "harp_store_get (dv_store d) (harp_hash_compute (snap_obj v par msg t)) (new_cbuf d) = (True, b1)"
    "cb_buf b1 = snap_obj v par msg t"
    using get_obj_file [OF assms(1) f(1) length_snap_obj [OF assms(4)] room(1)] by blast
  obtain b2 where b2: "harp_store_get (dv_store d) (harp_hash_compute (tree_obj v)) (new_cbuf d) = (True, b2)"
    "cb_buf b2 = tree_obj v"
    using get_obj_file [OF assms(1) f(2) length_tree_obj room(2)] by blast
  have "snapshot_ok (harp_hash_compute (tree_obj v)) (case par of None \<Rightarrow> [] | Some p \<Rightarrow> [p]) (str ''device'') ENGINE_VERSION msg"
    using assms(2,4) by (auto simp: snapshot_ok_def ENGINE_VERSION_def str_def roomy_def msg_len_def split: option.split)
  then have root: "harp_obj_parse_snapshot_root (snap_obj v par msg t) = Some (harp_hash_compute (tree_obj v))"
    unfolding harp_obj_parse_snapshot_root_def snap_obj_def by (simp add: parse_snapshot_enc)
  have tree: "harp_obj_tree_foreach (tree_obj v) (load_tree_entry (new_cbuf d) (dv_store d)) (g, True) = (True, v, True)" for g
  proof -
    have "tree_ok [\<lparr>te_name = str ''params'', te_hash = harp_hash_compute (blob_obj v), te_kind = ucast HARP_OBJ_BLOB\<rparr>]"
      by (simp add: tree_ok_def str_def)
    from tree_foreach_enc [OF this]
    have "harp_obj_tree_foreach (tree_obj v) (load_tree_entry (new_cbuf d) (dv_store d)) (g, True) =
        (True, visit_entries (load_tree_entry (new_cbuf d) (dv_store d)) [\<lparr>te_name = str ''params'',
           te_hash = harp_hash_compute (blob_obj v), te_kind = ucast HARP_OBJ_BLOB\<rparr>] (g, True))"
      unfolding tree_obj_def .
    with load_params [OF assms(1) _ _ assms(5,6), of "wd_alloc (dv_world d)" g True] assms(7) room(2)
    show ?thesis by simp
  qed
  show ?thesis
    unfolding engine_load_snapshot_def b1(1) prod.case bool.case b1(2) root option.case b2(1) b2(2) tree
    by (simp add: commit_grid_eq [OF assms(3,5)])
qed

text \<open>
  C1: Total recall.  A snapshot that \<^verbatim>\<open>engine_snapshot_objects\<close> reports as stored restores the patch: loading it later,
  into any engine state on the same store, succeeds and puts back every parameter of every part bit for bit,
  touching nothing else of the engine (voices, arpeggiators, ramps and the event queue go on).  This needs memory
  for the objects, a readable store and parameter values that are numbers; and it is up to a collision of
  SHA-256: otherwise an object just written and a different object of the store have the same hash.
\<close>

theorem recall_restores_patch:
  assumes "engine_snapshot_objects par msg d = (Some snap, d1)"
    and "store_healthy (dv_store d)" and "roomy msg d" and "par = None \<or> hash_ok (the par)"
    and "engine_wf (dv_engine d)" and "\<forall>p \<in> set (en_parts (dv_engine d)). \<forall>x \<in> set (pt_pval p). \<not> f32_isnan x"
    and "dv_store d2 = dv_store d1" and "roomy msg d2" and "engine_wf (dv_engine d2)"
  shows "(let v = map pt_pval (en_parts (dv_engine d))
          in collision (dv_store d1) [blob_obj v, tree_obj v, snap_obj v par msg (wd_time (dv_world d))] \<or>
             engine_load_snapshot snap d2 =
               (True, d2\<lparr>dv_engine := (dv_engine d2)\<lparr>en_parts :=
                  map2 (\<lambda>p r. p\<lparr>pt_pval := r\<rparr>) (en_parts (dv_engine d2)) v\<rparr>\<rparr>))"
proof -
  define v where "v = map pt_pval (en_parts (dv_engine d))"
  note grid = engine_grid_eq [OF assms(5), folded v_def]
  have nan: "\<forall>r \<in> set v. \<forall>x \<in> set r. \<not> f32_isnan x" using assms(6) by (simp add: v_def)
  from snapshot_puts [OF assms(1,3,4)] obtain s1 s2 s3 h1 h2
    where p: "harp_store_put (dv_store d) (blob_obj v) = (True, h1, s1)" "harp_store_put s1 (tree_obj v) = (True, h2, s2)"
      "harp_store_put s2 (snap_obj v par msg (wd_time (dv_world d))) = (True, snap, s3)" and d1: "d1 = d\<lparr>dv_store := s3\<rparr>"
    unfolding grid(1) by blast
  show ?thesis
  proof (cases "collision s3 [blob_obj v, tree_obj v, snap_obj v par msg (wd_time (dv_world d))]")
    case False
    note t = three_puts [OF assms(2) p False]
    have "dv_store d2 = s3" using assms(7) d1 by simp
    with load_stored [OF _ assms(8,9,4) grid(2) nan, of "wd_time (dv_world d)"] t show ?thesis by (simp add: v_def Let_def)
  qed (simp add: d1 v_def)
qed

text \<open>A small store that takes every object.\<close>

definition put_ready :: "harp_store \<Rightarrow> bool" where
  "put_ready s \<longleftrightarrow> sto_dir s = str ''d'' \<and> sto_pid s = str ''7'' \<and> sto_flt s = no_faults \<and> \<not> sto_skip_rename s \<and>
     map_of (sto_fs s) (str ''d/objects'') = Some Dir \<and> (\<forall>q. length q > 10 \<longrightarrow> map_of (sto_fs s) q \<noteq> Some Dir)"

lemma put_ready_put:
  assumes "put_ready s"
  shows "\<exists>s'. harp_store_put s enc = (True, harp_hash_compute enc, s') \<and> put_ready s'"
proof -
  let ?h = "harp_hash_compute enc"
  let ?p = "obj_path s ?h"
  have d: "dir_ok s" using assms by (simp add: dir_ok_def put_ready_def str_def)
  have p: "?p = str ''d/objects'' @ slash # harp_hash_hex ?h"
    using assms by (simp add: obj_path_eq [OF d] put_ready_def) (simp add: str_def)
  then have t: "tmp_path s ?p = str ''d/objects'' @ slash # (harp_hash_hex ?h @ str ''.tmp.7'')"
    using assms by (simp add: tmp_path_def snprintf_def put_ready_def str_def)
  have "parent (tmp_path s ?p) = str ''d/objects''"
    unfolding t by (rule parent_append) (use harp_hash_hex_plain in \<open>auto simp: str_def\<close>)
  moreover have len: "length ?p > 10" "length (tmp_path s ?p) > 10" using p t by simp_all
  ultimately have ok: "fst (write_atomic s ?p enc)"
    using assms by (intro write_atomic_succeeds) (auto simp: obj_path_short [simplified] put_ready_def is_dir_def)
  then obtain s' where w: "write_atomic s ?p enc = (True, s')" by (metis prod.collapse)
  note c = write_atomic_cases [OF w obj_path_short]
  obtain m where s': "s' = s\<lparr>sto_fs := m\<rparr>" using c(1) by metis
  have "length (str ''d/objects'') = 9" by (simp add: str_def)
  with len have "str ''d/objects'' \<noteq> ?p" "str ''d/objects'' \<noteq> tmp_path s ?p" by fastforce+
  with assms c(2) s' have "put_ready s'" by (simp add: put_ready_def)
  with assms w show ?thesis by (simp add: harp_store_put_def Let_def)
qed

lemma ex_store_healthy: "store_healthy ex_store" "put_ready ex_store"
proof -
  have none: "map_of (sto_fs ex_store) q = None" if "length q > 10" for q
    using that by (auto simp: ex_store_def str_def)
  then have "map_of (sto_fs ex_store) (obj_path ex_store h) = None" for h
    using length_obj_path [of ex_store h] by (simp add: dir_ok_def ex_store_def)
  then show "store_healthy ex_store"
    by (simp add: store_healthy_def store_consistent_def) (simp add: dir_ok_def ex_store_def no_faults_def)
  show "put_ready ex_store"
    using none by (auto simp: put_ready_def) (simp_all add: ex_store_def str_def)
qed

lemma ex_snapshot: "\<exists>snap d1. engine_snapshot_objects None None ex_device = (Some snap, d1)"
proof -
  let ?e1 = "engine_encode_params_blob ex_device (new_cbuf ex_device)"
  have step: "\<exists>h s'. harp_store_put s x = (True, h, s') \<and> put_ready s'" if "put_ready s" for s x
    using put_ready_put [OF that, of x] by blast
  have "put_ready (dv_store ex_device)" using ex_store_healthy(2) by (simp add: ex_device_def)
  from step [OF this] obtain h1 s1 where s1: "harp_store_put (dv_store ex_device) (cb_buf ?e1) = (True, h1, s1)" "put_ready s1"
    by blast
  define e2 where "e2 = harp_obj_encode_tree (harp_cbuf_reset ?e1)
    [\<lparr>te_name = str ''params'', te_hash = h1, te_kind = ucast HARP_OBJ_BLOB\<rparr>]"
  from step [OF s1(2)] obtain h2 s2 where s2: "harp_store_put s1 (cb_buf e2) = (True, h2, s2)" "put_ready s2" by blast
  define e3 where "e3 = harp_obj_encode_snapshot (harp_cbuf_reset e2) h2 (case None of None \<Rightarrow> [] | Some p \<Rightarrow> [p])
    (wd_time (dv_world ex_device)) (str ''device'') ENGINE_VERSION None"
  from step [OF s2(2)] obtain h3 s3 where s3: "harp_store_put s2 (cb_buf e3) = (True, h3, s3)" by blast
  show ?thesis
    unfolding engine_snapshot_objects_def Let_def s1(1) prod.case bool.case e2_def [symmetric] s2(1) e3_def [symmetric] s3
    by blast
qed

lemma recall_restores_patch_witness:
  "\<exists>snap d1. engine_snapshot_objects None None ex_device = (Some snap, d1) \<and>
     (let v = map pt_pval (en_parts (dv_engine ex_device))
      in collision (dv_store d1) [blob_obj v, tree_obj v, snap_obj v None None (wd_time (dv_world ex_device))] \<or>
         engine_load_snapshot snap d1 = (True, d1\<lparr>dv_engine := (dv_engine d1)\<lparr>en_parts :=
            map2 (\<lambda>p r. p\<lparr>pt_pval := r\<rparr>) (en_parts (dv_engine d1)) v\<rparr>\<rparr>))"
proof -
  obtain snap d1 where s: "engine_snapshot_objects None None ex_device = (Some snap, d1)" using ex_snapshot by blast
  then obtain st where d1: "d1 = ex_device\<lparr>dv_store := st\<rparr>"
    by (auto simp: engine_snapshot_objects_def Let_def split: prod.splits bool.splits)
  have "roomy None ex_device" by (simp add: roomy_def ex_device_def ex_world_def msg_len_def)
  moreover have "engine_wf (dv_engine ex_device)" using engine_wf_boot by (simp add: ex_device_def)
  moreover have "\<forall>p \<in> set (en_parts (dv_engine ex_device)). \<forall>x \<in> set (pt_pval p). \<not> f32_isnan x"
    by (simp add: ex_device_def engine_boot_def part_boot_def PVAL_DEFAULTS_def f32_isnan_def f32_exp_def f32_man_def
        f32_half_def f32_0_6_def)
  moreover have "store_healthy (dv_store ex_device)" using ex_store_healthy(1) by (simp add: ex_device_def)
  ultimately show ?thesis
    using recall_restores_patch [OF s, of d1] s d1 by (intro exI conjI) (auto simp: roomy_def)
qed

end
