(* ===== verification/Harp_Events.thy ===== *)
theory Harp_Events
  imports Harp_State
begin

text \<open>
  The event stream of \<^verbatim>\<open>device/session.c\<close>: the staging buffer in front of the event queue, event transactions, the
  decoding and dispatch of one event message (\<^verbatim>\<open>handle_evt_msg\<close>) and the branch of the session loop that consumes
  it.  The locals of a decoding loop are a record that the loop threads; an early \<^verbatim>\<open>return\<close> is \<open>None\<close>.
\<close>

unbundle bit_operations_syntax

section \<open>Staging\<close>

definition evt_stage_flush :: "'s device \<Rightarrow> 's device" where
  "evt_stage_flush d =
     (if dv_evt_stage d = [] then d
      else let g = evq_push_run (dv_engine d) (dv_evt_stage d)
           in d\<lparr>dv_engine := g\<lparr>en_evt_consumed := en_evt_consumed g + of_nat (length (dv_evt_stage d))\<rparr>,
                dv_evt_stage := []\<rparr>)"

definition evt_stage_add :: "dev_event \<Rightarrow> 's device \<Rightarrow> 's device" where
  "evt_stage_add ev d =
     (let d = (if length (dv_evt_stage d) \<ge> EVT_STAGE_CAP then evt_stage_flush d else d)
      in d\<lparr>dv_evt_stage := dv_evt_stage d @ [ev], dv_evt_staged := True\<rparr>)"

section \<open>Transactions\<close>

text \<open>\<^verbatim>\<open>txn_find\<close> returns a pointer into \<^verbatim>\<open>d->txn\<close>; here it is the index.\<close>

definition txn_find :: "dev_txn list \<Rightarrow> u64 \<Rightarrow> nat option" where
  "txn_find ts i = find (\<lambda>k. tx_open (ts ! k) \<and> tx_id (ts ! k) = i) [0..<DEV_TXN_MAX]"

definition txn_free :: "dev_txn list \<Rightarrow> nat option" where
  "txn_free ts = find (\<lambda>k. \<not> tx_open (ts ! k)) [0..<DEV_TXN_MAX]"

definition ctr_txn_rejected :: "'s device \<Rightarrow> 's device" where
  "ctr_txn_rejected d = d\<lparr>dv_ctr := (dv_ctr d)\<lparr>ct_evt_txn_rejected := ct_evt_txn_rejected (dv_ctr d) + 1\<rparr>\<rparr>"

definition ctr_txn_unknown :: "'s device \<Rightarrow> 's device" where
  "ctr_txn_unknown d = d\<lparr>dv_ctr := (dv_ctr d)\<lparr>ct_evt_txn_unknown := ct_evt_txn_unknown (dv_ctr d) + 1\<rparr>\<rparr>"

definition ctr_txn_overflow :: "'s device \<Rightarrow> 's device" where
  "ctr_txn_overflow d = d\<lparr>dv_ctr := (dv_ctr d)\<lparr>ct_evt_txn_overflow := ct_evt_txn_overflow (dv_ctr d) + 1\<rparr>\<rparr>"

definition ctr_stale_epoch :: "'s device \<Rightarrow> 's device" where
  "ctr_stale_epoch d = d\<lparr>dv_ctr := (dv_ctr d)\<lparr>ct_evt_stale_epoch := ct_evt_stale_epoch (dv_ctr d) + 1\<rparr>\<rparr>"

definition ctr_frame_error :: "'s device \<Rightarrow> 's device" where
  "ctr_frame_error d = d\<lparr>dv_ctr := (dv_ctr d)\<lparr>ct_frame_errors := ct_frame_errors (dv_ctr d) + 1\<rparr>\<rparr>"

definition txn_begin :: "u64 \<Rightarrow> 's device \<Rightarrow> 's device" where
  "txn_begin i d =
     (if i = 0 then ctr_txn_rejected d
      else if txn_find (dv_txn d) i \<noteq> None then ctr_txn_rejected d
      else case txn_free (dv_txn d) of
             Some k \<Rightarrow> d\<lparr>dv_txn := (dv_txn d)[k := \<lparr>tx_open = True, tx_id = i, tx_ev = []\<rparr>]\<rparr>
           | None \<Rightarrow> ctr_txn_rejected d)"

definition txn_submit :: "u64 \<Rightarrow> dev_event \<Rightarrow> 's device \<Rightarrow> 's device" where
  "txn_submit i ev d =
     (if i = 0 then evt_stage_add ev d
      else case txn_find (dv_txn d) i of
             None \<Rightarrow> ctr_txn_unknown d
           | Some k \<Rightarrow>
               let t = dv_txn d ! k
               in if length (tx_ev t) \<ge> DEV_TXN_EVENTS_MAX then ctr_txn_overflow d
                  else d\<lparr>dv_txn := (dv_txn d)[k := t\<lparr>tx_ev := tx_ev t @ [ev]\<rparr>]\<rparr>)"

text \<open>A committed batch, and whether it moves a stored value.\<close>

definition restamp :: "u64 \<Rightarrow> dev_event list \<Rightarrow> dev_event list" where
  "restamp commit_msc evs = map (\<lambda>ev. ev\<lparr>ev_ts := commit_msc\<rparr>) evs"

definition batch_dirty :: "dev_event list \<Rightarrow> bool" where
  "batch_dirty evs \<longleftrightarrow>
     list_ex (\<lambda>ev. (ev_kind ev = DEV_EV_PARAM_SET \<or> ev_kind ev = DEV_EV_RAMP) \<and> ev_voice ev = 0) evs"

definition txn_commit :: "u64 \<Rightarrow> u64 \<Rightarrow> 's device \<Rightarrow> bool \<times> 's device" where
  "txn_commit i commit_msc d =
     (case txn_find (dv_txn d) i of
        None \<Rightarrow> (False, ctr_txn_unknown d)
      | Some k \<Rightarrow>
          let t = dv_txn d ! k;
              evs = restamp commit_msc (tx_ev t);
              d = evt_stage_flush d;
              (pushed, g) = (if evs = [] then (True, dv_engine d) else evq_push_batch (dv_engine d) evs)
          in (batch_dirty evs \<and> pushed,
              d\<lparr>dv_engine := g, dv_txn := (dv_txn d)[k := t\<lparr>tx_open := False, tx_ev := evs\<rparr>]\<rparr>))"

definition txn_abort :: "u64 \<Rightarrow> 's device \<Rightarrow> 's device" where
  "txn_abort i d =
     (case txn_find (dv_txn d) i of
        None \<Rightarrow> ctr_txn_unknown d
      | Some k \<Rightarrow> d\<lparr>dv_txn := (dv_txn d)[k := (dv_txn d ! k)\<lparr>tx_open := False\<rparr>]\<rparr>)"

section \<open>Decoding an event body\<close>

record evt_body =
  bd_id :: "u64 option"
  bd_val :: "f64 option"
  bd_end :: "(u64 \<times> u64) option"
  bd_voice :: u64
  bd_txn :: "u64 option"
  bd_channel :: u64
  bd_flags :: u64
  bd_ppq :: f64

definition body_zero :: evt_body where
  "body_zero = \<lparr>bd_id = None, bd_val = None, bd_end = None, bd_voice = 0, bd_txn = None, bd_channel = 0, bd_flags = 0,
     bd_ppq = 0\<rparr>"

text \<open>\<^verbatim>\<open>if (!harp_cdec_...(&dec, &x)) return;\<close> followed by the stores.\<close>

definition get_uint :: "(u64 \<Rightarrow> 'b \<Rightarrow> 'b) \<Rightarrow> 'b \<Rightarrow> harp_cdec \<Rightarrow> 'b option \<times> harp_cdec" where
  "get_uint f b c = (case harp_cdec_uint c of (None, c) \<Rightarrow> (None, c) | (Some x, c) \<Rightarrow> (Some (f x b), c))"

definition get_float :: "(f64 \<Rightarrow> 'b \<Rightarrow> 'b) \<Rightarrow> 'b \<Rightarrow> harp_cdec \<Rightarrow> 'b option \<times> harp_cdec" where
  "get_float f b c = (case harp_cdec_float c of (None, c) \<Rightarrow> (None, c) | (Some x, c) \<Rightarrow> (Some (f x b), c))"

definition get_skip :: "'b \<Rightarrow> harp_cdec \<Rightarrow> 'b option \<times> harp_cdec" where
  "get_skip b c = (case harp_cdec_skip c of (None, c) \<Rightarrow> (None, c) | (Some x, c) \<Rightarrow> (Some b, c))"

definition get_tstamp :: "(u64 \<times> u64 \<Rightarrow> 'b \<Rightarrow> 'b) \<Rightarrow> 'b \<Rightarrow> harp_cdec \<Rightarrow> 'b option \<times> harp_cdec" where
  "get_tstamp f b c =
     (case harp_cdec_array c of
        (None, c) \<Rightarrow> (None, c)
      | (Some tn, c) \<Rightarrow>
          if tn \<noteq> 2 then (None, c)
          else case harp_cdec_uint c of
                 (None, c) \<Rightarrow> (None, c)
               | (Some ep, c) \<Rightarrow> get_uint (\<lambda>ts. f (ep, ts)) b c)"

definition get_key :: "(u64 \<Rightarrow> 'b \<Rightarrow> harp_cdec \<Rightarrow> 'b option \<times> harp_cdec) \<Rightarrow> 'b \<Rightarrow> harp_cdec \<Rightarrow> 'b option \<times> harp_cdec" where
  "get_key f b c = (case harp_cdec_uint c of (None, c) \<Rightarrow> (None, c) | (Some key, c) \<Rightarrow> f key b c)"

definition ramp_field :: "u64 \<Rightarrow> evt_body \<Rightarrow> harp_cdec \<Rightarrow> evt_body option \<times> harp_cdec" where
  "ramp_field key b c =
     (if key = 0 then get_uint (\<lambda>x. bd_id_update (\<lambda>_. Some x)) b c
      else if key = 1 then get_float (\<lambda>x. bd_val_update (\<lambda>_. Some x)) b c
      else if key = 2 then get_tstamp (\<lambda>x. bd_end_update (\<lambda>_. Some x)) b c
      else if key = 3 then get_uint (\<lambda>x. bd_voice_update (\<lambda>_. x)) b c
      else if key = 4 then get_uint (\<lambda>x. bd_txn_update (\<lambda>_. Some x)) b c
      else if key = 5 then get_uint (\<lambda>x. bd_channel_update (\<lambda>_. x)) b c
      else get_skip b c)"

definition transport_field :: "u64 \<Rightarrow> evt_body \<Rightarrow> harp_cdec \<Rightarrow> evt_body option \<times> harp_cdec" where
  "transport_field key b c =
     (if key = 0 then get_uint (\<lambda>x. bd_flags_update (\<lambda>_. x)) b c
      else if key = 1 then get_float (\<lambda>x. bd_val_update (\<lambda>_. Some x)) b c
      else if key = 4 then get_float (\<lambda>x. bd_ppq_update (\<lambda>_. x)) b c
      else get_skip b c)"

definition mod_field :: "u64 \<Rightarrow> evt_body \<Rightarrow> harp_cdec \<Rightarrow> evt_body option \<times> harp_cdec" where
  "mod_field key b c =
     (if key = 0 then get_uint (\<lambda>x. bd_id_update (\<lambda>_. Some x)) b c
      else if key = 1 then get_float (\<lambda>x. bd_val_update (\<lambda>_. Some x)) b c
      else if key = 3 then get_uint (\<lambda>x. bd_voice_update (\<lambda>_. x)) b c
      else if key = 4 then get_uint (\<lambda>x. bd_txn_update (\<lambda>_. Some x)) b c
      else if key = 5 then get_uint (\<lambda>x. bd_channel_update (\<lambda>_. x)) b c
      else get_skip b c)"

definition txn_field :: "u64 \<Rightarrow> evt_body \<Rightarrow> harp_cdec \<Rightarrow> evt_body option \<times> harp_cdec" where
  "txn_field key b c =
     (if key = 0 then get_uint (\<lambda>x. bd_id_update (\<lambda>_. Some x)) b c else get_skip b c)"

definition commit_field :: "u64 \<Rightarrow> evt_body \<Rightarrow> harp_cdec \<Rightarrow> evt_body option \<times> harp_cdec" where
  "commit_field key b c =
     (if key = 0 then get_uint (\<lambda>x. bd_id_update (\<lambda>_. Some x)) b c
      else if key = 1 then get_tstamp (\<lambda>x. bd_end_update (\<lambda>_. Some x)) b c
      else get_skip b c)"

definition param_field :: "u64 \<Rightarrow> evt_body \<Rightarrow> harp_cdec \<Rightarrow> evt_body option \<times> harp_cdec" where
  "param_field key b c =
     (if key = 0 then get_uint (\<lambda>x. bd_id_update (\<lambda>_. Some x)) b c
      else if key = 1 then get_float (\<lambda>x. bd_val_update (\<lambda>_. Some x)) b c
      else if key = 3 then get_uint (\<lambda>x. bd_voice_update (\<lambda>_. x)) b c
      else if key = 4 then get_uint (\<lambda>x. bd_txn_update (\<lambda>_. Some x)) b c
      else if key = 5 then get_uint (\<lambda>x. bd_channel_update (\<lambda>_. x)) b c
      else get_skip b c)"

text \<open>The body map: a bad header is counted (\<open>Inl True\<close>), a bad pair is not (\<open>Inl False\<close>).\<close>

definition read_body ::
  "(u64 \<Rightarrow> evt_body \<Rightarrow> harp_cdec \<Rightarrow> evt_body option \<times> harp_cdec) \<Rightarrow> harp_cdec \<Rightarrow> bool + evt_body" where
  "read_body field c =
     (case harp_cdec_map c of
        (None, c) \<Rightarrow> Inl True
      | (Some n, c) \<Rightarrow>
          (case fst (loop_dec (get_key field) (unat n) body_zero c) of None \<Rightarrow> Inl False | Some b \<Rightarrow> Inr b))"

section \<open>Event messages\<close>

definition mk_event :: "u64 \<Rightarrow> dev_kind \<Rightarrow> evt_body \<Rightarrow> f64 \<Rightarrow> u64 \<Rightarrow> dev_event" where
  "mk_event msc kind b v ets =
     \<lparr>ev_ts = msc, ev_kind = kind, ev_a = ucast (the (bd_id b)), ev_v = f32_of_f64 v, ev_end = ets, ev_ppq = 0,
      ev_channel = ucast (bd_channel b AND 0xf), ev_voice = ucast (bd_voice b)\<rparr>"

definition tag_of :: "evt_body \<Rightarrow> u64" where
  "tag_of b = (case bd_txn b of None \<Rightarrow> 0 | Some t \<Rightarrow> t)"

definition on_engine :: "(engine \<Rightarrow> engine) \<Rightarrow> 's device \<Rightarrow> 's device" where
  "on_engine f d = d\<lparr>dv_engine := f (dv_engine d)\<rparr>"

text \<open>The kind of a MIDI 1.0 channel voice message, and its velocity; other messages are ignored.\<close>

definition ump_kind :: "u32 \<Rightarrow> u32 \<Rightarrow> u32 \<Rightarrow> dev_kind option" where
  "ump_kind status note vel =
     (if status = 0x9 \<and> vel > 0 then Some DEV_EV_NOTE_ON
      else if status = 0x8 \<or> (status = 0x9 \<and> vel = 0) then Some DEV_EV_NOTE_OFF
      else if status = 0xb \<and> (note = 120 \<or> note = 123) then Some DEV_EV_ALL_OFF
      else None)"

definition all_off :: "engine \<Rightarrow> engine" where
  "all_off g = g\<lparr>en_parts := engine_all_notes_off (en_parts g)\<rparr>"

definition ump_event :: "dev_event \<Rightarrow> engine \<Rightarrow> engine" where
  "ump_event ev g =
     (let g = (if ev_kind ev = DEV_EV_ALL_OFF then all_off g else g)
      in if ev_kind ev \<noteq> DEV_EV_NOTE_ON \<and> evq_full g then
           (if ev_kind ev = DEV_EV_ALL_OFF then all_off g
            else g\<lparr>en_parts := engine_note_off_if (ev_a ev) (en_parts g)\<rparr>)
         else evq_push g ev)"

definition ump_word :: "bytes \<Rightarrow> u32" where
  "ump_word p = push_bit 24 (ucast (p ! 0)) OR push_bit 16 (ucast (p ! 1)) OR push_bit 8 (ucast (p ! 2)) OR ucast (p ! 3)"

definition ump_decode :: "u64 \<Rightarrow> u32 \<Rightarrow> dev_event option" where
  "ump_decode msc w =
     (let status = drop_bit 20 w AND 0xf; note = drop_bit 8 w AND 0x7f; vel = w AND 0x7f
      in map_option
           (\<lambda>kind. \<lparr>ev_ts = msc, ev_kind = kind, ev_a = note,
                     ev_v = (if kind = DEV_EV_NOTE_ON then f32_div (f32_of_nat (unat vel)) (f32_of_nat 127) else 0),
                     ev_end = 0, ev_ppq = 0, ev_channel = ucast (drop_bit 16 w AND 0xf), ev_voice = 0\<rparr>)
           (ump_kind status note vel))"

definition evt_ump :: "u64 \<Rightarrow> harp_cdec \<Rightarrow> 's device \<Rightarrow> 's device" where
  "evt_ump msc c d =
     (case fst (harp_cdec_bytes c) of
        None \<Rightarrow> d
      | Some p \<Rightarrow>
          if length p < 4 then d
          else if drop_bit 28 (ump_word p) \<noteq> 2 then d
          else
            let d = evt_stage_flush d
            in case ump_decode msc (ump_word p) of None \<Rightarrow> d | Some ev \<Rightarrow> on_engine (ump_event ev) d)"

definition body_error :: "bool \<Rightarrow> 's device \<Rightarrow> 's device" where
  "body_error header d = (if header then ctr_frame_error d else d)"

definition evt_ramp :: "u64 \<Rightarrow> harp_cdec \<Rightarrow> 's device \<Rightarrow> 's device" where
  "evt_ramp msc c d =
     (case read_body ramp_field c of
        Inl e \<Rightarrow> body_error e d
      | Inr b \<Rightarrow>
          if bd_id b = None \<or> bd_val b = None \<or> bd_end b = None then d
          else if harp_evt_epoch_stale (fst (the (bd_end b))) (au_epoch (dv_audio d)) then ctr_stale_epoch d
          else
            let ev = mk_event msc DEV_EV_RAMP b (f64_clamp01 (the (bd_val b))) (snd (the (bd_end b)));
                d = txn_submit (tag_of b) ev d
            in if harp_evt_dirties_live 5 (ucast (bd_voice b)) (bd_txn b \<noteq> None) then live_ref_touch True d else d)"

definition evt_transport :: "u64 \<Rightarrow> harp_cdec \<Rightarrow> 's device \<Rightarrow> 's device" where
  "evt_transport msc c d =
     (case read_body transport_field c of
        Inl e \<Rightarrow> body_error e d
      | Inr b \<Rightarrow>
          let ev = \<lparr>ev_ts = msc, ev_kind = DEV_EV_TRANSPORT, ev_a = ucast (bd_flags b),
                    ev_v = f32_of_f64 (case bd_val b of None \<Rightarrow> 0 | Some t \<Rightarrow> t), ev_end = 0, ev_ppq = bd_ppq b,
                    ev_channel = 0, ev_voice = 0\<rparr>
          in on_engine (\<lambda>g. evq_push g ev) (evt_stage_flush d))"

definition evt_mod :: "u64 \<Rightarrow> harp_cdec \<Rightarrow> 's device \<Rightarrow> 's device" where
  "evt_mod msc c d =
     (case read_body mod_field c of
        Inl e \<Rightarrow> body_error e d
      | Inr b \<Rightarrow>
          if bd_id b = None \<or> bd_val b = None then d
          else txn_submit (tag_of b) (mk_event msc DEV_EV_MOD b (the (bd_val b)) 0) d)"

definition evt_txn_begin :: "harp_cdec \<Rightarrow> 's device \<Rightarrow> 's device" where
  "evt_txn_begin c d =
     (case read_body txn_field c of
        Inl e \<Rightarrow> body_error e d
      | Inr b \<Rightarrow> (case bd_id b of None \<Rightarrow> d | Some i \<Rightarrow> txn_begin i d))"

definition commit_then :: "u64 \<Rightarrow> u64 \<Rightarrow> 's device \<Rightarrow> 's device" where
  "commit_then i t d = (case txn_commit i t d of (dirty, d) \<Rightarrow> if dirty then live_ref_touch True d else d)"

definition evt_txn_commit :: "u64 \<Rightarrow> harp_cdec \<Rightarrow> 's device \<Rightarrow> 's device" where
  "evt_txn_commit msc c d =
     (case read_body commit_field c of
        Inl e \<Rightarrow> body_error e d
      | Inr b \<Rightarrow>
          (case bd_id b of
             None \<Rightarrow> d
           | Some i \<Rightarrow>
               (case bd_end b of
                  Some (cep, cts) \<Rightarrow>
                    if harp_evt_epoch_stale cep (au_epoch (dv_audio d)) then txn_abort i (ctr_stale_epoch d)
                    else commit_then i cts d
                | None \<Rightarrow> commit_then i msc d)))"

definition evt_txn_abort :: "harp_cdec \<Rightarrow> 's device \<Rightarrow> 's device" where
  "evt_txn_abort c d =
     (case read_body txn_field c of
        Inl e \<Rightarrow> body_error e d
      | Inr b \<Rightarrow> (case bd_id b of None \<Rightarrow> d | Some i \<Rightarrow> txn_abort i d))"

definition evt_param :: "u64 \<Rightarrow> harp_cdec \<Rightarrow> 's device \<Rightarrow> 's device" where
  "evt_param msc c d =
     (case read_body param_field c of
        Inl e \<Rightarrow> body_error e d
      | Inr b \<Rightarrow>
          if bd_id b = None \<or> bd_val b = None then d
          else
            let ev = mk_event msc DEV_EV_PARAM_SET b (f64_clamp01 (the (bd_val b))) 0;
                d = txn_submit (tag_of b) ev d
            in if harp_evt_dirties_live 1 (ucast (bd_voice b)) (bd_txn b \<noteq> None) then live_ref_touch True d else d)"

text \<open>The head of the message: epoch, time, event type.\<close>

definition read_evt_head :: "bytes \<Rightarrow> (u64 \<times> u64 \<times> u64 \<times> harp_cdec) option" where
  "read_evt_head buf =
     (case harp_cdec_array (harp_cdec_init buf) of
        (None, c) \<Rightarrow> None
      | (Some alen, c) \<Rightarrow>
          if alen < 3 then None
          else case harp_cdec_array c of
                 (None, c) \<Rightarrow> None
               | (Some tn, c) \<Rightarrow>
                   if tn \<noteq> 2 then None
                   else case harp_cdec_uint c of
                          (None, c) \<Rightarrow> None
                        | (Some ep, c) \<Rightarrow>
                            (case harp_cdec_uint c of
                               (None, c) \<Rightarrow> None
                             | (Some msc, c) \<Rightarrow>
                                 (case harp_cdec_uint c of
                                    (None, c) \<Rightarrow> None
                                  | (Some etype, c) \<Rightarrow> Some (ep, msc, etype, c))))"

definition handle_evt_msg :: "bytes \<Rightarrow> 's device \<Rightarrow> 's device" where
  "handle_evt_msg buf d =
     (case read_evt_head buf of
        None \<Rightarrow> ctr_frame_error d
      | Some (ep, msc, etype, c) \<Rightarrow>
          if harp_evt_epoch_stale ep (au_epoch (dv_audio d)) then ctr_stale_epoch d
          else if etype = 0 then evt_ump msc c d
          else if etype = 5 then evt_ramp msc c d
          else if etype = 7 then evt_transport msc c d
          else if etype = 6 then evt_mod msc c d
          else if etype = 2 then evt_txn_begin c d
          else if etype = 3 then evt_txn_commit msc c d
          else if etype = 4 then evt_txn_abort c d
          else if etype \<noteq> 1 then d
          else evt_param msc c d)"

text \<open>The event branch of the session loop.\<close>

definition count_consumed :: "engine \<Rightarrow> engine" where
  "count_consumed g = g\<lparr>en_evt_consumed := en_evt_consumed g + 1\<rparr>"

definition consume_evt :: "bytes \<Rightarrow> 's device \<Rightarrow> 's device" where
  "consume_evt buf d =
     (let d = handle_evt_msg buf (d\<lparr>dv_evt_staged := False\<rparr>)
      in if dv_evt_staged d then d else on_engine count_consumed (evt_stage_flush d))"

section \<open>What leaves the queue and its staging buffer alone\<close>

definition put_q :: "engine \<Rightarrow> dev_event list \<Rightarrow> 's device \<Rightarrow> 's device" where
  "put_q g st d = d\<lparr>dv_engine := g, dv_evt_stage := st\<rparr>"

definition frames :: "('s device \<Rightarrow> 's device) \<Rightarrow> bool" where
  "frames F \<longleftrightarrow> (\<forall>d. dv_engine (F d) = dv_engine d \<and> dv_evt_stage (F d) = dv_evt_stage d \<and>
     dv_evt_staged (F d) = dv_evt_staged d \<and> (\<forall>g st. F (put_q g st d) = put_q g st (F d)))"

named_theorems frame_intros \<open>operations that leave the event queue and its staging buffer alone\<close>

lemma frames_id [frame_intros]: "frames (\<lambda>d. d)"
  by (simp add: frames_def)

lemma frames_comp: "frames F \<Longrightarrow> frames G \<Longrightarrow> frames (\<lambda>d. F (G d))"
  by (simp add: frames_def)

lemma frames_counters [frame_intros]:
  "frames ctr_txn_rejected" "frames ctr_txn_unknown" "frames ctr_txn_overflow" "frames ctr_stale_epoch"
  "frames ctr_frame_error" "frames (body_error e)"
  by (simp_all add: frames_def put_q_def ctr_txn_rejected_def ctr_txn_unknown_def ctr_txn_overflow_def
      ctr_stale_epoch_def ctr_frame_error_def body_error_def)

lemma frames_txn [frame_intros]: "frames (txn_begin i)" "frames (txn_abort i)" "i \<noteq> 0 \<Longrightarrow> frames (txn_submit i ev)"
  by (auto simp: frames_def put_q_def txn_begin_def txn_abort_def txn_submit_def Let_def ctr_txn_rejected_def
      ctr_txn_unknown_def ctr_txn_overflow_def split: option.split)

lemma frames_dev_send [frame_intros]: "frames (\<lambda>d. snd (dev_send stream msg d))"
  by (simp add: frames_def put_q_def dev_send_def split: option.split prod.split)

lemma frames_send_ctl [frame_intros]: "frames (\<lambda>d. send_ctl (f (new_cbuf d)) d)"
  by (simp add: frames_def put_q_def send_ctl_def dev_send_def split: option.split prod.split)

lemma frames_ntf [frame_intros]: "frames (ntf_state_changed r)"
  using frames_send_ctl [of "\<lambda>b. state_changed_msg b r"] by (auto simp: frames_def ntf_state_changed_def put_q_def)

text \<open>\<open>F\<close> agrees with a framing operation that may depend on what \<open>put_q\<close> does not touch.\<close>

lemma framesI:
  assumes "\<And>d. frames (G d)" and "\<And>d. F d = G d d" and "\<And>d g st. F (put_q g st d) = G d (put_q g st d)"
  shows "frames F"
  using assms by (auto simp: frames_def)

lemma frames_upd [frame_intros]: "frames (dv_live_cache_update f)" "frames (dv_last_live_ntf_ms_update t)"
  "frames (dv_store_update u)" "frames (dv_live_cache_valid_update v)"
  by (simp_all add: frames_def put_q_def)

lemma frames_live_store_edge: "frames (live_store_edge r tr)"
  by (simp add: frames_def live_store_edge_def put_q_def)

lemma frames_live_notify: "frames (live_notify r tr)"
proof (rule framesI)
  fix d :: "'s device"
  let ?now = "wd_now_ms (dv_world d)"
  let ?G = "\<lambda>x. if tr \<or> ?now - dv_last_live_ntf_ms d \<ge> 250
    then ntf_state_changed r (dv_last_live_ntf_ms_update (\<lambda>_. ?now) x) else x"
  show "frames ?G"
    by (cases "tr \<or> ?now - dv_last_live_ntf_ms d \<ge> 250") (simp_all add: frames_comp [OF frames_ntf frames_upd(2)] frames_id)
  show "live_notify r tr d = ?G d" by (simp add: live_notify_def Let_def)
  show "live_notify r tr (put_q g st d) = ?G (put_q g st d)" for g st by (simp add: live_notify_def Let_def put_q_def)
qed

lemma frames_live_bump: "frames (live_bump dirty)"
proof (rule framesI)
  fix d :: "'s device"
  define tr where "tr = (dirty \<and> \<not> rf_dirty (dv_live_cache d))"
  define r where "r = (dv_live_cache d)\<lparr>rf_generation := rf_generation (dv_live_cache d) + 1, rf_dirty := dirty\<rparr>"
  let ?G = "\<lambda>x. live_notify r tr (live_store_edge r tr (dv_live_cache_update (\<lambda>_. r) x))"
  show "frames ?G" by (rule frames_comp [OF frames_live_notify frames_comp [OF frames_live_store_edge frames_upd(1)]])
  show "live_bump dirty d = ?G d" by (simp only: live_bump_def Let_def tr_def r_def)
  show "live_bump dirty (put_q g st d) = ?G (put_q g st d)" for g st
  proof -
    have "dv_live_cache (put_q g st d) = dv_live_cache d" by (simp add: put_q_def)
    then show ?thesis by (simp only: live_bump_def Let_def tr_def r_def)
  qed
qed

lemma frames_live_ref_touch [frame_intros]: "frames (live_ref_touch dirty)"
proof (rule framesI)
  fix d :: "'s device"
  let ?G = "\<lambda>x. case harp_store_ref_read (dv_store d) LIVE_REF of
      None \<Rightarrow> if dv_live_cache_valid d then live_bump dirty x else x
    | Some r \<Rightarrow> if dv_live_cache_valid d then live_bump dirty x
               else live_bump dirty (dv_live_cache_valid_update (\<lambda>_. True) (dv_live_cache_update (\<lambda>_. r) x))"
  show "frames ?G"
    by (cases "harp_store_ref_read (dv_store d) LIVE_REF"; cases "dv_live_cache_valid d")
      (simp_all add: frames_live_bump frames_id frames_comp [OF frames_live_bump frames_comp [OF frames_upd(4) frames_upd(1)]])
  show "live_ref_touch dirty d = ?G d"
    by (simp add: live_ref_touch_def live_cache_load_def split: option.split)
  fix g st
  show "live_ref_touch dirty (put_q g st d) = ?G (put_q g st d)"
    by (simp add: live_ref_touch_def live_cache_load_def put_q_def split: option.split)
qed

section \<open>Staging is invisible\<close>

definition stage_pub :: "dev_event list \<Rightarrow> engine \<Rightarrow> engine" where
  "stage_pub st g = (let g = evq_push_run g st in g\<lparr>en_evt_consumed := en_evt_consumed g + of_nat (length st)\<rparr>)"

lemma push_run_append: "evq_push_run g (xs @ ys) = evq_push_run (evq_push_run g xs) ys"
proof -
  have "push_run_loop q n (xs @ ys) = (case push_run_loop q n xs of (q, n) \<Rightarrow> push_run_loop q n ys)" for q n
    by (induction q n xs rule: push_run_loop.induct) auto
  then show ?thesis by (simp add: evq_push_run_def split: prod.split)
qed

lemma push_run_consumed [simp]:
  "en_evt_consumed (evq_push_run g st) = en_evt_consumed g"
  "evq_push_run (g\<lparr>en_evt_consumed := c\<rparr>) st = (evq_push_run g st)\<lparr>en_evt_consumed := c\<rparr>"
  by (simp_all add: evq_push_run_def split: prod.split)

lemma push_run_Nil [simp]: "evq_push_run g [] = g"
  by (simp add: evq_push_run_def)

lemma stage_pub_Nil [simp]: "stage_pub [] g = g"
  by (simp add: stage_pub_def evq_push_run_def)

lemma stage_pub_append: "stage_pub (xs @ ys) g = stage_pub ys (stage_pub xs g)"
  by (simp add: stage_pub_def Let_def push_run_append add.assoc)

lemma flush_eq: "evt_stage_flush d = put_q (stage_pub (dv_evt_stage d) (dv_engine d)) [] d"
  by (simp add: evt_stage_flush_def put_q_def stage_pub_def Let_def)

lemma put_q_simps [simp]:
  "dv_engine (put_q g st d) = g" "dv_evt_stage (put_q g st d) = st" "put_q g st (put_q g' st' d) = put_q g st d"
  "dv_evt_staged (put_q g st d) = dv_evt_staged d" "dv_txn (put_q g st d) = dv_txn d" "dv_audio (put_q g st d) = dv_audio d"
  by (simp_all add: put_q_def)

lemma flush_simps [simp]: "dv_txn (evt_stage_flush d) = dv_txn d" "put_q g st (evt_stage_flush d) = put_q g st d"
  by (simp_all add: flush_eq)

lemma flush_flush [simp]: "evt_stage_flush (evt_stage_flush d) = evt_stage_flush d"
  by (simp add: flush_eq)

lemma frames_flush: "frames F \<Longrightarrow> F (evt_stage_flush d) = evt_stage_flush (F d)"
  by (simp add: frames_def flush_eq)

lemma flush_add: "evt_stage_flush (evt_stage_add ev d) =
    (put_q (stage_pub [ev] (dv_engine (evt_stage_flush d))) [] d)\<lparr>dv_evt_staged := True\<rparr>"
  by (simp add: evt_stage_add_def Let_def flush_eq stage_pub_append) (simp add: put_q_def)

text \<open>
  What a step owes to the batching: flushing before it changes nothing once the buffer is flushed after it, it
  decides alike whether it stages, and it adds one event to what is published or staged exactly if it stages.
\<close>

definition pub_count :: "'s device \<Rightarrow> u32" where
  "pub_count d = en_evt_consumed (dv_engine d) + of_nat (length (dv_evt_stage d))"

definition batch_ok :: "('s device \<Rightarrow> 's device) \<Rightarrow> bool" where
  "batch_ok F \<longleftrightarrow> (\<forall>d. evt_stage_flush (F (evt_stage_flush d)) = evt_stage_flush (F d) \<and>
     dv_evt_staged (F (evt_stage_flush d)) = dv_evt_staged (F d) \<and>
     (\<not> dv_evt_staged d \<longrightarrow> pub_count (F d) = pub_count d + (if dv_evt_staged (F d) then 1 else 0)))"

named_theorems batch_intros \<open>steps that the batching does not affect\<close>

lemma pub_count_flush [simp]: "pub_count (evt_stage_flush d) = pub_count d"
  by (simp add: pub_count_def flush_eq stage_pub_def Let_def)

lemma staged_flush [simp]: "dv_evt_staged (evt_stage_flush d) = dv_evt_staged d"
  by (simp add: flush_eq)

lemma frames_batch: "frames F \<Longrightarrow> batch_ok F"
  using frames_flush [of F] by (auto simp: batch_ok_def) (auto simp: frames_def pub_count_def)

text \<open>A step that flushes first and then works on the engine, without counting.\<close>

lemma flush_first_batch:
  assumes "\<And>d. F d = on_engine f (evt_stage_flush d)" and "\<And>g. en_evt_consumed (f g) = en_evt_consumed g"
  shows "batch_ok F"
  using assms by (simp add: batch_ok_def flush_eq on_engine_def pub_count_def stage_pub_def Let_def put_q_def)

lemma batch_add: "batch_ok (evt_stage_add ev :: 's device \<Rightarrow> 's device)"
proof -
  have "evt_stage_flush (evt_stage_add ev (evt_stage_flush d)) = evt_stage_flush (evt_stage_add ev d)" for d :: "'s device"
    by (simp add: flush_add)
  moreover have "dv_evt_staged (evt_stage_add ev d)" for d :: "'s device" by (simp add: evt_stage_add_def Let_def)
  moreover have "pub_count (evt_stage_add ev d) = pub_count d + 1" for d :: "'s device"
    by (simp add: evt_stage_add_def Let_def) (simp add: pub_count_def flush_eq stage_pub_def Let_def)
  ultimately show ?thesis by (simp add: batch_ok_def)
qed

lemma batch_submit: "batch_ok (txn_submit i ev)"
proof (cases "i = 0")
  case True
  then have "txn_submit i ev = (evt_stage_add ev :: 'a device \<Rightarrow> 'a device)" by (auto simp: txn_submit_def)
  then show ?thesis by (simp add: batch_add)
qed (simp add: frames_batch frames_txn)

lemma batch_then:
  assumes "batch_ok F" and "frames G"
  shows "batch_ok (\<lambda>d. G (F d))"
proof -
  have "evt_stage_flush (G x) = G (evt_stage_flush x)" for x using frames_flush [OF assms(2)] by simp
  moreover have "pub_count (G x) = pub_count x" "dv_evt_staged (G x) = dv_evt_staged x" for x
    using assms(2) by (simp_all add: frames_def pub_count_def)
  ultimately show ?thesis using assms(1) by (simp add: batch_ok_def)
qed

lemma batch_if: "batch_ok F \<Longrightarrow> batch_ok G \<Longrightarrow> (\<And>d. P (evt_stage_flush d) = P d) \<Longrightarrow> batch_ok (\<lambda>d. if P d then F d else G d)"
  by (simp add: batch_ok_def)

lemma epoch_flush [simp]: "dv_audio (evt_stage_flush d) = dv_audio d"
  by (simp add: flush_eq)

text \<open>The queue after a commit: what was staged, then the batch if there is room for all of it.\<close>

definition push_all :: "dev_event list \<Rightarrow> engine \<Rightarrow> bool \<times> engine" where
  "push_all evs g = (if evs = [] then (True, g) else evq_push_batch g evs)"

lemma push_all_consumed [simp]: "en_evt_consumed (snd (push_all evs g)) = en_evt_consumed g"
  by (simp add: push_all_def evq_push_batch_def)

lemma txn_commit_Some:
  fixes t :: u64
  assumes "txn_find (dv_txn d) i = Some k"
  defines "evs \<equiv> restamp t (tx_ev (dv_txn d ! k))"
  shows "txn_commit i t d = (batch_dirty evs \<and> fst (push_all evs (dv_engine (evt_stage_flush d))),
    (put_q (snd (push_all evs (dv_engine (evt_stage_flush d)))) [] d)
      \<lparr>dv_txn := (dv_txn d)[k := (dv_txn d ! k)\<lparr>tx_open := False, tx_ev := evs\<rparr>]\<rparr>)"
  using assms by (simp add: txn_commit_def Let_def flush_eq push_all_def split: prod.split) (simp add: put_q_def)

lemma batch_commit: "batch_ok (commit_then i t :: 's device \<Rightarrow> 's device)"
proof -
  have "evt_stage_flush (commit_then i t (evt_stage_flush d)) = evt_stage_flush (commit_then i t d) \<and>
     dv_evt_staged (commit_then i t (evt_stage_flush d)) = dv_evt_staged (commit_then i t d) \<and>
     (\<not> dv_evt_staged d \<longrightarrow> pub_count (commit_then i t d) = pub_count d + (if dv_evt_staged (commit_then i t d) then 1 else 0))"
    for d :: "'s device"
  proof (cases "txn_find (dv_txn d) i")
    case None
    then have *: "commit_then i t d = ctr_txn_unknown d" "commit_then i t (evt_stage_flush d) = ctr_txn_unknown (evt_stage_flush d)"
      by (simp_all add: commit_then_def txn_commit_def flush_eq)
    have "batch_ok (ctr_txn_unknown :: 's device \<Rightarrow> _)" by (rule frames_batch [OF frames_counters(2)])
    then show ?thesis unfolding * by (simp add: batch_ok_def)
  next
    case (Some k)
    then have same: "commit_then i t (evt_stage_flush d) = commit_then i t d"
      by (simp add: commit_then_def txn_commit_Some)
    obtain dirty d1 where c: "txn_commit i t d = (dirty, d1)" by (metis surj_pair)
    with txn_commit_Some [OF Some, of t] have
      d1: "d1 = (put_q (snd (push_all (restamp t (tx_ev (dv_txn d ! k))) (dv_engine (evt_stage_flush d)))) [] d)
        \<lparr>dv_txn := (dv_txn d)[k := (dv_txn d ! k)\<lparr>tx_open := False, tx_ev := restamp t (tx_ev (dv_txn d ! k))\<rparr>]\<rparr>"
      by simp
    then have e: "dv_evt_staged d1 = dv_evt_staged d" "pub_count d1 = pub_count d"
      by (simp_all add: pub_count_def flush_eq stage_pub_def Let_def)
    have "frames (live_ref_touch True :: 's device \<Rightarrow> 's device)" by (rule frames_live_ref_touch)
    with c e have "dv_evt_staged (commit_then i t d) = dv_evt_staged d" "pub_count (commit_then i t d) = pub_count d"
      by (simp_all add: commit_then_def frames_def pub_count_def)
    with same show ?thesis by simp
  qed
  then show ?thesis by (simp add: batch_ok_def)
qed

lemma ump_event_consumed: "en_evt_consumed (ump_event ev g) = en_evt_consumed g"
  by (simp add: ump_event_def all_off_def evq_push_def Let_def)

lemma batch_dirty_touch: "batch_ok F \<Longrightarrow> batch_ok (\<lambda>d. if p then live_ref_touch True (F d) else F d)"
  by (cases p) (simp_all add: batch_then frames_live_ref_touch)

lemma batch_frame_ops: "batch_ok (\<lambda>d. d)" "batch_ok (body_error e)" "batch_ok ctr_stale_epoch" "batch_ok ctr_frame_error"
  "batch_ok (txn_begin i)" "batch_ok (txn_abort i)" "batch_ok (\<lambda>d. txn_abort i (ctr_stale_epoch d))"
  by (rule frames_batch, rule frame_intros frames_comp [OF frames_txn(2) frames_counters(4)])+

lemma batch_flush: "batch_ok evt_stage_flush"
  by (simp add: batch_ok_def)

lemma batch_push: "(\<And>g. en_evt_consumed (f g) = en_evt_consumed g) \<Longrightarrow> batch_ok (\<lambda>d. on_engine f (evt_stage_flush d))"
  by (rule flush_first_batch [OF refl])

lemma batch_ump: "batch_ok (evt_ump msc c)"
proof (cases "fst (harp_cdec_bytes c)")
  case None
  then have "evt_ump msc c = (\<lambda>d :: 'a device. d)" by (simp add: fun_eq_iff evt_ump_def)
  then show ?thesis by (simp add: batch_frame_ops)
next
  case (Some p)
  then have "evt_ump msc c = (\<lambda>d :: 'a device. if length p < 4 \<or> drop_bit 28 (ump_word p) \<noteq> 2 then d
      else case ump_decode msc (ump_word p) of None \<Rightarrow> evt_stage_flush d | Some ev \<Rightarrow> on_engine (ump_event ev) (evt_stage_flush d))"
    by (simp add: fun_eq_iff evt_ump_def Let_def)
  then show ?thesis
    by (cases "ump_decode msc (ump_word p)")
      (simp_all add: batch_if batch_frame_ops batch_flush batch_push ump_event_consumed)
qed

lemma batch_body:
  assumes "\<And>b. batch_ok (F b)"
  shows "batch_ok (\<lambda>d. case read_body fld c of Inl e \<Rightarrow> body_error e d | Inr b \<Rightarrow> F b d)"
  using assms by (cases "read_body fld c") (simp_all add: batch_frame_ops)

lemma batch_evt_ops:
  "batch_ok (evt_ramp msc c)" "batch_ok (evt_transport msc c)" "batch_ok (evt_mod msc c)" "batch_ok (evt_txn_begin c)"
  "batch_ok (evt_txn_commit msc c)" "batch_ok (evt_txn_abort c)" "batch_ok (evt_param msc c)"
proof -
  show "batch_ok (evt_ramp msc c)"
    unfolding evt_ramp_def [abs_def] Let_def
    by (intro batch_body batch_if batch_frame_ops batch_dirty_touch batch_submit) simp_all
  show "batch_ok (evt_transport msc c)"
    unfolding evt_transport_def [abs_def] Let_def
    by (intro batch_body batch_push) (simp add: evq_push_def)
  show "batch_ok (evt_mod msc c)"
    unfolding evt_mod_def [abs_def] by (intro batch_body batch_if batch_frame_ops batch_submit) simp
  have opt: "batch_ok (\<lambda>d. case x of None \<Rightarrow> d | Some i \<Rightarrow> F i d)" if "\<And>i. batch_ok (F i)" for x :: "u64 option" and F
    using that by (cases x) (simp_all add: batch_frame_ops)
  show "batch_ok (evt_txn_begin c)"
    unfolding evt_txn_begin_def [abs_def] by (intro batch_body opt batch_frame_ops)
  show "batch_ok (evt_txn_abort c)"
    unfolding evt_txn_abort_def [abs_def] by (intro batch_body opt batch_frame_ops)
  show "batch_ok (evt_param msc c)"
    unfolding evt_param_def [abs_def] Let_def
    by (intro batch_body batch_if batch_frame_ops batch_dirty_touch batch_submit) simp_all
  have "batch_ok (\<lambda>d. case bd_id b of None \<Rightarrow> d | Some i \<Rightarrow> (case bd_end b of
      Some (cep, cts) \<Rightarrow> if harp_evt_epoch_stale cep (au_epoch (dv_audio d)) then txn_abort i (ctr_stale_epoch d) else commit_then i cts d
    | None \<Rightarrow> commit_then i msc d))" for b
    by (cases "bd_id b"; cases "bd_end b")
      (auto simp: batch_frame_ops split_def intro!: batch_if batch_frame_ops batch_commit)
  then show "batch_ok (evt_txn_commit msc c)"
    unfolding evt_txn_commit_def [abs_def] by (rule batch_body)
qed

lemma batch_handle: "batch_ok (handle_evt_msg buf)"
proof (cases "read_evt_head buf")
  case None
  then have "handle_evt_msg buf = (ctr_frame_error :: 'a device \<Rightarrow> 'a device)" by (simp add: fun_eq_iff handle_evt_msg_def)
  then show ?thesis by (simp add: batch_frame_ops)
next
  case (Some h)
  then show ?thesis
    unfolding handle_evt_msg_def [abs_def]
    by (cases h) (auto intro!: batch_if batch_frame_ops batch_evt_ops batch_ump)
qed

text \<open>
  One turn of the session loop on an event message: the run is flushed as soon as the transport has no more input.
\<close>

definition evt_turn :: "bytes \<times> bool \<Rightarrow> 's device \<Rightarrow> 's device" where
  "evt_turn m d =
     (let d = consume_evt (fst m) d
      in if dv_evt_stage d \<noteq> [] \<and> \<not> snd m then evt_stage_flush d else d)"

lemma flush_turn: "evt_stage_flush (evt_turn m d) = evt_stage_flush (consume_evt (fst m) d)"
  by (simp add: evt_turn_def Let_def)

lemma staged_reset_flush: "(evt_stage_flush d)\<lparr>dv_evt_staged := b\<rparr> = evt_stage_flush (d\<lparr>dv_evt_staged := b\<rparr>)"
  by (simp add: flush_eq put_q_def)

lemma consume_flush: "evt_stage_flush (consume_evt buf (evt_stage_flush d)) = evt_stage_flush (consume_evt buf d)"
proof -
  have "batch_ok (handle_evt_msg buf :: 'a device \<Rightarrow> 'a device)" by (rule batch_handle)
  then have "evt_stage_flush (handle_evt_msg buf (evt_stage_flush x)) = evt_stage_flush (handle_evt_msg buf x)"
    "dv_evt_staged (handle_evt_msg buf (evt_stage_flush x)) = dv_evt_staged (handle_evt_msg buf x)" for x :: "'a device"
    by (simp_all add: batch_ok_def)
  then show ?thesis by (simp add: consume_evt_def Let_def staged_reset_flush)
qed

lemma consume_count: "pub_count (consume_evt buf d) = pub_count d + 1"
proof -
  have count: "pub_count (on_engine count_consumed (evt_stage_flush x)) = pub_count x + 1" for x :: "'a device"
    by (simp add: on_engine_def count_consumed_def flush_eq pub_count_def stage_pub_def Let_def)
  have "batch_ok (handle_evt_msg buf :: 'a device \<Rightarrow> 'a device)" by (rule batch_handle)
  moreover have "pub_count (d\<lparr>dv_evt_staged := False\<rparr>) = pub_count d" by (simp add: pub_count_def)
  ultimately have "pub_count (handle_evt_msg buf (d\<lparr>dv_evt_staged := False\<rparr>)) = pub_count d +
      (if dv_evt_staged (handle_evt_msg buf (d\<lparr>dv_evt_staged := False\<rparr>)) then 1 else 0)"
    by (simp add: batch_ok_def)
  then show ?thesis by (simp add: consume_evt_def Let_def count)
qed

lemma flushed_count: "en_evt_consumed (dv_engine (evt_stage_flush d)) = pub_count d"
  by (simp add: pub_count_def flush_eq stage_pub_def Let_def)

lemma turn_count: "pub_count (evt_turn m d) = pub_count d + 1"
  by (simp add: evt_turn_def Let_def consume_count)

lemma turns_count: "pub_count (fold evt_turn msgs d) = pub_count d + of_nat (length msgs)"
  by (induction msgs arbitrary: d) (simp_all add: turn_count)

text \<open>
  C24: Batching is invisible.  Whatever event messages arrive, of whatever kind and however malformed, and whenever
  the transport reports more input, the session ends up (once the staged run is drained) in exactly the state
  that handling each message and flushing at once would give: same queue in the same order, same drops, same
  transactions, same counters, same notifications.
\<close>

theorem evt_batching_invisible:
  "evt_stage_flush (fold evt_turn msgs d) =
     evt_stage_flush (fold (\<lambda>m d. evt_stage_flush (consume_evt (fst m) d)) msgs d)"
proof -
  have "evt_stage_flush x = evt_stage_flush y \<Longrightarrow>
    evt_stage_flush (fold evt_turn msgs x) = evt_stage_flush (fold (\<lambda>m d. evt_stage_flush (consume_evt (fst m) d)) msgs y)" for x y
  proof (induction msgs arbitrary: x y)
    case (Cons m msgs)
    have "evt_stage_flush (evt_turn m x) = evt_stage_flush (evt_stage_flush (consume_evt (fst m) y))"
      using Cons.prems consume_flush [of "fst m" x] consume_flush [of "fst m" y] by (simp add: flush_turn)
    from Cons.IH [OF this] show ?case by simp
  qed simp
  then show ?thesis by blast
qed

lemma sint_neg_of_nat: "j < 2 ^ 31 \<Longrightarrow> sint (- of_nat j :: u32) \<le> 0"
proof -
  assume j: "j < 2 ^ 31"
  have "- of_nat j = (word_of_int (- int j) :: u32)" by simp
  moreover have "sint (word_of_int (- int j) :: u32) = - int j"
    using j by (simp add: signed_take_bit_int_eq_self sint_word_ariths signed_of_int del: of_int_minus)
  ultimately show ?thesis by simp
qed

text \<open>
  C34: The event fence opens.  A pacing frame may wait until the first \<open>n\<close> event messages of the stream have been
  consumed.  After any \<open>n\<close> or more messages (fewer than \<open>2 ^ 31\<close> more, the range of the signed difference), rejected
  and malformed ones included, and once the run is drained, the render thread no longer waits, whether the stream is
  offline with its unbounded barrier or not; so no message can wedge the stream by not being counted.
\<close>

theorem fence_opens:
  assumes "n \<le> length msgs" and "length msgs < n + 2 ^ 31"
  shows "\<not> harp_fence_keep_waiting
     (sint (pub_count d + of_nat n - en_evt_consumed (dv_engine (evt_stage_flush (fold evt_turn msgs d)))))
     running offline now_ns deadline_ns"
proof -
  obtain j where j: "length msgs = n + j" "j < 2 ^ 31" using assms by (metis add_less_cancel_left le_iff_add)
  have "pub_count d + of_nat n - en_evt_consumed (dv_engine (evt_stage_flush (fold evt_turn msgs d))) = (- of_nat j :: u32)"
    unfolding flushed_count turns_count j(1) by simp
  with sint_neg_of_nat [OF j(2)] show ?thesis by (simp add: harp_fence_keep_waiting_def)
qed

lemma fence_opens_witness:
  "\<not> harp_fence_keep_waiting
     (sint (pub_count ex_device + of_nat 2 -
        en_evt_consumed (dv_engine (evt_stage_flush (fold evt_turn [([], True), ([0], False), ([], False)] ex_device)))))
     True True 0 0"
  using fence_opens [of 2 "[([], True), ([0], False), ([], False)]" ex_device True True 0 0] by simp

section \<open>Transactions as a finite map\<close>

text \<open>The abstract table: the open transactions and their buffered events.\<close>

definition txn_map :: "dev_txn list \<Rightarrow> u64 \<Rightarrow> dev_event list option" where
  "txn_map ts i = map_option (\<lambda>k. tx_ev (ts ! k)) (txn_find ts i)"

definition txn_inv :: "dev_txn list \<Rightarrow> bool" where
  "txn_inv ts \<longleftrightarrow> length ts = DEV_TXN_MAX \<and>
     (\<forall>k < DEV_TXN_MAX. tx_open (ts ! k) \<longrightarrow> tx_id (ts ! k) \<noteq> 0 \<and> length (tx_ev (ts ! k)) \<le> DEV_TXN_EVENTS_MAX) \<and>
     inj_on (\<lambda>k. tx_id (ts ! k)) {k. k < DEV_TXN_MAX \<and> tx_open (ts ! k)}"

lemma find_upt_Some: "find P [0..<n] = Some k \<Longrightarrow> k < n \<and> P k"
  by (auto simp: find_Some_iff)

lemma find_upt_None: "find P [0..<n] = None \<longleftrightarrow> (\<forall>k < n. \<not> P k)"
  by (auto simp: find_None_iff)

lemma txn_find_Some: "txn_find ts i = Some k \<Longrightarrow> k < DEV_TXN_MAX \<and> tx_open (ts ! k) \<and> tx_id (ts ! k) = i"
  using find_upt_Some [of "\<lambda>k. tx_open (ts ! k) \<and> tx_id (ts ! k) = i" DEV_TXN_MAX k] by (simp add: txn_find_def)

lemma txn_find_None: "txn_find ts i = None \<longleftrightarrow> (\<forall>k < DEV_TXN_MAX. \<not> (tx_open (ts ! k) \<and> tx_id (ts ! k) = i))"
  unfolding txn_find_def by (rule find_upt_None)

lemma txn_find_iff:
  assumes "txn_inv ts"
  shows "txn_find ts i = Some k \<longleftrightarrow> k < DEV_TXN_MAX \<and> tx_open (ts ! k) \<and> tx_id (ts ! k) = i"
proof
  assume k: "k < DEV_TXN_MAX \<and> tx_open (ts ! k) \<and> tx_id (ts ! k) = i"
  then obtain j where j: "txn_find ts i = Some j" using txn_find_None [of ts i] by blast
  with txn_find_Some [OF j] k assms have "j = k" by (auto simp: txn_inv_def inj_on_def)
  with j show "txn_find ts i = Some k" by simp
qed (rule txn_find_Some)

lemma txn_map_iff:
  "txn_inv ts \<Longrightarrow> txn_map ts i = Some evs \<longleftrightarrow>
     (\<exists>k < DEV_TXN_MAX. tx_open (ts ! k) \<and> tx_id (ts ! k) = i \<and> tx_ev (ts ! k) = evs)"
  by (auto simp: txn_map_def txn_find_iff)

lemma txn_map_dom: "txn_inv ts \<Longrightarrow> dom (txn_map ts) = (\<lambda>k. tx_id (ts ! k)) ` {k. k < DEV_TXN_MAX \<and> tx_open (ts ! k)}"
  by (auto simp: dom_def txn_map_iff)

lemma txn_free_iff:
  assumes "txn_inv ts"
  shows "(\<exists>k. txn_free ts = Some k) \<longleftrightarrow> card (dom (txn_map ts)) < DEV_TXN_MAX"
proof -
  let ?A = "{k. k < DEV_TXN_MAX \<and> tx_open (ts ! k)}"
  have "card (dom (txn_map ts)) = card ?A"
    using assms by (simp add: txn_map_dom card_image txn_inv_def)
  moreover have "card ?A < DEV_TXN_MAX \<longleftrightarrow> ?A \<noteq> {..<DEV_TXN_MAX}"
    using card_seteq [of "{..<DEV_TXN_MAX}" ?A] psubset_card_mono [of "{..<DEV_TXN_MAX}" ?A] by fastforce
  moreover have "(\<exists>k. txn_free ts = Some k) \<longleftrightarrow> ?A \<noteq> {..<DEV_TXN_MAX}"
    using find_upt_None [of "\<lambda>k. \<not> tx_open (ts ! k)" DEV_TXN_MAX] by (auto simp: txn_free_def)
  ultimately show ?thesis by simp
qed

lemma option_eqI: "(\<And>x. a = Some x \<longleftrightarrow> b = Some x) \<Longrightarrow> a = b"
  by (cases a; cases b) auto

text \<open>The invariant and the map after one slot was rewritten.\<close>

lemma txn_slot:
  assumes "txn_inv ts" and "k < DEV_TXN_MAX"
    and "tx_open t \<Longrightarrow> tx_id t \<noteq> 0 \<and> length (tx_ev t) \<le> DEV_TXN_EVENTS_MAX"
    and "tx_open t \<Longrightarrow> (\<exists>evs. txn_map ts (tx_id t) = Some evs) \<Longrightarrow> tx_open (ts ! k) \<and> tx_id (ts ! k) = tx_id t"
  shows "txn_inv (ts[k := t])"
    and "txn_map (ts[k := t]) =
      (let m = (if tx_open (ts ! k) then (txn_map ts)(tx_id (ts ! k) := None) else txn_map ts)
       in if tx_open t then m(tx_id t \<mapsto> tx_ev t) else m)"
proof -
  define rest where "rest i evs \<longleftrightarrow> (\<exists>j < DEV_TXN_MAX. j \<noteq> k \<and> tx_open (ts ! j) \<and> tx_id (ts ! j) = i \<and> tx_ev (ts ! j) = evs)"
    for i evs
  have len: "length ts = DEV_TXN_MAX" and inj: "inj_on (\<lambda>k. tx_id (ts ! k)) {k. k < DEV_TXN_MAX \<and> tx_open (ts ! k)}"
    using assms(1) by (auto simp: txn_inv_def)
  have R: "txn_map ts i = Some evs \<longleftrightarrow> rest i evs \<or> (tx_open (ts ! k) \<and> tx_id (ts ! k) = i \<and> tx_ev (ts ! k) = evs)" for i evs
    unfolding txn_map_iff [OF assms(1)] rest_def using assms(2) by blast
  have U: "\<not> rest (tx_id (ts ! k)) evs" if "tx_open (ts ! k)" for evs
    using inj assms(2) that unfolding rest_def inj_on_def by blast
  have T: "\<not> rest (tx_id t) evs" if "tx_open t" for evs
    using assms(4) that R U by metis
  have other: "tx_id (ts ! j) \<noteq> tx_id t" if "tx_open t" "j < DEV_TXN_MAX" "tx_open (ts ! j)" "j \<noteq> k" for j
    using T [OF that(1), of "tx_ev (ts ! j)"] that unfolding rest_def by blast
  have at: "j < DEV_TXN_MAX \<Longrightarrow> ts[k := t] ! j = (if j = k then t else ts ! j)" for j
    using len by (simp add: nth_list_update)
  show inv: "txn_inv (ts[k := t])"
    unfolding txn_inv_def
  proof (intro conjI allI impI)
    show "length (ts[k := t]) = DEV_TXN_MAX" using len by simp
    fix j assume j: "j < DEV_TXN_MAX" and o: "tx_open (ts[k := t] ! j)"
    then show "tx_id (ts[k := t] ! j) \<noteq> 0" "length (tx_ev (ts[k := t] ! j)) \<le> DEV_TXN_EVENTS_MAX"
      using assms(1,3) by (auto simp: at txn_inv_def split: if_splits)
  next
    show "inj_on (\<lambda>k'. tx_id (ts[k := t] ! k')) {k'. k' < DEV_TXN_MAX \<and> tx_open (ts[k := t] ! k')}"
    proof (rule inj_onI, clarify)
      fix x y assume xy: "x < DEV_TXN_MAX" "y < DEV_TXN_MAX" "tx_open (ts[k := t] ! x)" "tx_open (ts[k := t] ! y)"
        "tx_id (ts[k := t] ! x) = tx_id (ts[k := t] ! y)"
      have "\<not> (x \<noteq> k \<and> y = k)" "\<not> (x = k \<and> y \<noteq> k)"
        using xy other [of x] other [of y] by (auto simp: at split: if_splits)
      then show "x = y" using xy inj by (auto simp: at inj_on_def split: if_splits)
    qed
  qed
  have L: "txn_map (ts[k := t]) i = Some evs \<longleftrightarrow> rest i evs \<or> (tx_open t \<and> tx_id t = i \<and> tx_ev t = evs)" for i evs
  proof -
    have "(\<exists>j < DEV_TXN_MAX. P (ts[k := t] ! j)) \<longleftrightarrow> (\<exists>j < DEV_TXN_MAX. j \<noteq> k \<and> P (ts ! j)) \<or> P t" for P
      using assms(2) at by metis
    from this [of "\<lambda>x. tx_open x \<and> tx_id x = i \<and> tx_ev x = evs"] show ?thesis
      unfolding txn_map_iff [OF inv] rest_def .
  qed
  have "txn_map (ts[k := t]) i = (let m = (if tx_open (ts ! k) then (txn_map ts)(tx_id (ts ! k) := None) else txn_map ts)
       in if tx_open t then m(tx_id t \<mapsto> tx_ev t) else m) i" for i
  proof (rule option_eqI)
    fix evs
    show "txn_map (ts[k := t]) i = Some evs \<longleftrightarrow>
      (let m = (if tx_open (ts ! k) then (txn_map ts)(tx_id (ts ! k) := None) else txn_map ts)
       in if tx_open t then m(tx_id t \<mapsto> tx_ev t) else m) i = Some evs"
      unfolding L Let_def using R [of i evs] U [of evs] T [of evs] by auto
  qed
  then show "txn_map (ts[k := t]) =
      (let m = (if tx_open (ts ! k) then (txn_map ts)(tx_id (ts ! k) := None) else txn_map ts)
       in if tx_open t then m(tx_id t \<mapsto> tx_ev t) else m)" by (rule ext)
qed

lemma txn_begin_map:
  assumes "txn_inv (dv_txn d)"
  defines "m \<equiv> txn_map (dv_txn d)"
  shows "txn_inv (dv_txn (txn_begin i d))"
    and "txn_map (dv_txn (txn_begin i d)) =
      (if i \<noteq> 0 \<and> m i = None \<and> card (dom m) < DEV_TXN_MAX then m(i \<mapsto> []) else m)"
proof -
  have none: "txn_find (dv_txn d) i = None \<longleftrightarrow> m i = None" by (simp add: m_def txn_map_def)
  have free: "(\<exists>k. txn_free (dv_txn d) = Some k) \<longleftrightarrow> card (dom m) < DEV_TXN_MAX"
    unfolding m_def by (rule txn_free_iff [OF assms(1)])
  have "txn_inv (dv_txn (txn_begin i d)) \<and> txn_map (dv_txn (txn_begin i d)) =
      (if i \<noteq> 0 \<and> m i = None \<and> card (dom m) < DEV_TXN_MAX then m(i \<mapsto> []) else m)"
  proof (cases "i \<noteq> 0 \<and> m i = None \<and> card (dom m) < DEV_TXN_MAX")
    case True
    then obtain k where k: "txn_free (dv_txn d) = Some k" using free by blast
    then have kc: "k < DEV_TXN_MAX" "\<not> tx_open (dv_txn d ! k)"
      using find_upt_Some [of "\<lambda>k. \<not> tx_open (dv_txn d ! k)" DEV_TXN_MAX k] by (simp_all add: txn_free_def)
    note slot = txn_slot [OF assms(1) kc(1), of "\<lparr>tx_open = True, tx_id = i, tx_ev = []\<rparr>"]
    have "dv_txn (txn_begin i d) = (dv_txn d)[k := \<lparr>tx_open = True, tx_id = i, tx_ev = []\<rparr>]"
      using True none k by (simp add: txn_begin_def)
    with slot True kc show ?thesis by (simp add: m_def)
  next
    case False
    then have "dv_txn (txn_begin i d) = dv_txn d"
      using none free by (auto simp: txn_begin_def ctr_txn_rejected_def split: option.split)
    with False assms(1) show ?thesis unfolding m_def by auto
  qed
  then show "txn_inv (dv_txn (txn_begin i d))" "txn_map (dv_txn (txn_begin i d)) =
      (if i \<noteq> 0 \<and> m i = None \<and> card (dom m) < DEV_TXN_MAX then m(i \<mapsto> []) else m)" by blast+
qed

lemma txn_upd_same: "m i = Some x \<Longrightarrow> m(i := None, i \<mapsto> y) = m(i \<mapsto> y)"
  by simp

lemma txn_submit_map:
  assumes "txn_inv (dv_txn d)" and "i \<noteq> 0"
  defines "m \<equiv> txn_map (dv_txn d)"
  shows "txn_inv (dv_txn (txn_submit i ev d))"
    and "txn_map (dv_txn (txn_submit i ev d)) =
      (case m i of None \<Rightarrow> m | Some evs \<Rightarrow> if length evs < DEV_TXN_EVENTS_MAX then m(i \<mapsto> evs @ [ev]) else m)"
proof -
  have "txn_inv (dv_txn (txn_submit i ev d)) \<and> txn_map (dv_txn (txn_submit i ev d)) =
      (case m i of None \<Rightarrow> m | Some evs \<Rightarrow> if length evs < DEV_TXN_EVENTS_MAX then m(i \<mapsto> evs @ [ev]) else m)"
  proof (cases "txn_find (dv_txn d) i")
    case None
    then show ?thesis using assms by (simp add: txn_submit_def ctr_txn_unknown_def txn_map_def)
  next
    case (Some k)
    let ?t = "dv_txn d ! k"
    have k: "k < DEV_TXN_MAX" "tx_open ?t" "tx_id ?t = i" using txn_find_Some [OF Some] by blast+
    have mi: "m i = Some (tx_ev ?t)" using Some by (simp add: m_def txn_map_def)
    show ?thesis
    proof (cases "length (tx_ev ?t) < DEV_TXN_EVENTS_MAX")
      case True
      have "dv_txn (txn_submit i ev d) = (dv_txn d)[k := ?t\<lparr>tx_ev := tx_ev ?t @ [ev]\<rparr>]"
        using assms(2) Some True by (simp add: txn_submit_def Let_def)
      with txn_slot [OF assms(1) k(1), of "?t\<lparr>tx_ev := tx_ev ?t @ [ev]\<rparr>"] True k assms(2) mi show ?thesis
        by (simp add: m_def)
    next
      case False
      then show ?thesis using assms Some mi by (simp add: txn_submit_def Let_def ctr_txn_overflow_def)
    qed
  qed
  then show "txn_inv (dv_txn (txn_submit i ev d))" "txn_map (dv_txn (txn_submit i ev d)) =
      (case m i of None \<Rightarrow> m | Some evs \<Rightarrow> if length evs < DEV_TXN_EVENTS_MAX then m(i \<mapsto> evs @ [ev]) else m)" by blast+
qed

lemma txn_close_map:
  assumes "txn_inv (dv_txn d)" and "d' = txn_abort i d \<or> d' = snd (txn_commit i t d)"
  shows "txn_inv (dv_txn d')" and "txn_map (dv_txn d') = (txn_map (dv_txn d))(i := None)"
proof -
  have "txn_inv (dv_txn d') \<and> txn_map (dv_txn d') = (txn_map (dv_txn d))(i := None)"
  proof (cases "txn_find (dv_txn d) i")
    case None
    then have "dv_txn d' = dv_txn d" using assms(2) by (auto simp: txn_abort_def txn_commit_def ctr_txn_unknown_def)
    moreover have "txn_map (dv_txn d) i = None" using None by (simp add: txn_map_def)
    ultimately show ?thesis using assms(1) by (simp add: fun_upd_idem)
  next
    case (Some k)
    have k: "k < DEV_TXN_MAX" "tx_open (dv_txn d ! k)" "tx_id (dv_txn d ! k) = i" using txn_find_Some [OF Some] by blast+
    obtain evs where d': "dv_txn d' = (dv_txn d)[k := (dv_txn d ! k)\<lparr>tx_open := False, tx_ev := evs\<rparr>]"
    proof (cases "d' = txn_abort i d")
      case True
      with Some have "dv_txn d' = (dv_txn d)[k := (dv_txn d ! k)\<lparr>tx_open := False, tx_ev := tx_ev (dv_txn d ! k)\<rparr>]"
        by (simp add: txn_abort_def)
      then show ?thesis using that by blast
    next
      case False
      with assms(2) txn_commit_Some [OF Some, of t] show ?thesis using that by simp
    qed
    show ?thesis
      unfolding d' using txn_slot [OF assms(1) k(1), of "(dv_txn d ! k)\<lparr>tx_open := False, tx_ev := evs\<rparr>"] k by simp
  qed
  then show "txn_inv (dv_txn d')" "txn_map (dv_txn d') = (txn_map (dv_txn d))(i := None)" by blast+
qed

text \<open>
  C35: The transaction table is a bounded finite map.  Seen as a map from the ids of the open transactions to their
  buffered events, \<^verbatim>\<open>txn_begin\<close> adds an empty entry unless the id is 0, taken or the table is full; a tagged event is
  appended to its own entry only, up to 256 events; commit and abort remove the entry.  The invariant (four
  slots, distinct non-zero ids, bounded buffers) is kept by all four.
\<close>

theorem txn_table_refines_map:
  assumes "txn_inv (dv_txn d)"
  shows "txn_inv (dv_txn (txn_begin i d)) \<and> txn_inv (dv_txn (txn_abort i d)) \<and> txn_inv (dv_txn (snd (txn_commit i t d))) \<and>
    (i \<noteq> 0 \<longrightarrow> txn_inv (dv_txn (txn_submit i ev d))) \<and>
    (let m = txn_map (dv_txn d)
     in txn_map (dv_txn (txn_begin i d)) =
          (if i \<noteq> 0 \<and> m i = None \<and> card (dom m) < DEV_TXN_MAX then m(i \<mapsto> []) else m) \<and>
        (i \<noteq> 0 \<longrightarrow> txn_map (dv_txn (txn_submit i ev d)) =
          (case m i of None \<Rightarrow> m | Some evs \<Rightarrow> if length evs < DEV_TXN_EVENTS_MAX then m(i \<mapsto> evs @ [ev]) else m)) \<and>
        txn_map (dv_txn (snd (txn_commit i t d))) = m(i := None) \<and>
        txn_map (dv_txn (txn_abort i d)) = m(i := None))"
  using txn_begin_map [OF assms, of i] txn_submit_map [OF assms, of i ev] txn_close_map [OF assms, of _ i t]
  by (simp add: Let_def)

lemma ex_device_txn: "txn_inv (dv_txn ex_device)" "txn_map (dv_txn ex_device) = (\<lambda>i. None)"
proof -
  have closed: "k < DEV_TXN_MAX \<Longrightarrow> \<not> tx_open (dv_txn ex_device ! k)" for k by (simp add: ex_device_def txn_zero_def)
  moreover have len: "length (dv_txn ex_device) = DEV_TXN_MAX" by (simp add: ex_device_def)
  ultimately show inv: "txn_inv (dv_txn ex_device)" by (auto simp: txn_inv_def inj_on_def)
  show "txn_map (dv_txn ex_device) = (\<lambda>i. None)"
    using closed by (auto simp: fun_eq_iff txn_map_def txn_find_None)
qed

lemma txn_table_refines_map_witness: "txn_map (dv_txn (txn_begin 7 ex_device)) 7 = Some []"
  using txn_table_refines_map [OF ex_device_txn(1), of 7] by (simp add: ex_device_txn(2) DEV_TXN_MAX_def Let_def)

section \<open>Atomicity\<close>

lemma submits_map:
  assumes "txn_inv (dv_txn d)" and "i \<noteq> 0" and "txn_map (dv_txn d) i = Some xs" and "length xs \<le> DEV_TXN_EVENTS_MAX"
  shows "txn_inv (dv_txn (fold (txn_submit i) evs d)) \<and>
    txn_map (dv_txn (fold (txn_submit i) evs d)) i = Some (take DEV_TXN_EVENTS_MAX (xs @ evs)) \<and>
    dv_engine (fold (txn_submit i) evs d) = dv_engine d \<and> dv_evt_stage (fold (txn_submit i) evs d) = dv_evt_stage d"
  using assms
proof (induction evs arbitrary: d xs)
  case (Cons ev evs)
  have fr: "dv_engine (txn_submit i ev d) = dv_engine d" "dv_evt_stage (txn_submit i ev d) = dv_evt_stage d"
    using frames_txn(3) [OF Cons.prems(2), of ev] by (auto simp: frames_def)
  note sub = txn_submit_map [OF Cons.prems(1,2), of ev]
  show ?case
  proof (cases "length xs < DEV_TXN_EVENTS_MAX")
    case True
    with sub(2) Cons.prems(3) have "txn_map (dv_txn (txn_submit i ev d)) i = Some (xs @ [ev])" by simp
    from Cons.IH [OF sub(1) Cons.prems(2) this] True fr show ?thesis by simp
  next
    case False
    with sub(2) Cons.prems(3) have "txn_map (dv_txn (txn_submit i ev d)) i = Some xs" by simp
    from Cons.IH [OF sub(1) Cons.prems(2) this Cons.prems(4)] False Cons.prems(4) fr show ?thesis by simp
  qed
qed simp

text \<open>
  C21: Transactions are atomic.  Between \<^verbatim>\<open>txn_begin\<close> and \<^verbatim>\<open>txn_commit\<close> nothing of the tagged events reaches the queue or
  the staging buffer.  The commit first publishes what was staged before it and then adds the whole buffer (the first
  256 tagged events), stamped with the commit time and contiguous in their order, or, if the queue cannot hold all of
  them, none of them.
\<close>

theorem txn_atomic:
  assumes "txn_inv (dv_txn d)" and "i \<noteq> 0" and "txn_map (dv_txn d) i = None"
    and "card (dom (txn_map (dv_txn d))) < DEV_TXN_MAX"
  shows "(let d1 = fold (txn_submit i) evs (txn_begin i d);
              q = en_evq (dv_engine (evt_stage_flush d));
              batch = restamp t (take DEV_TXN_EVENTS_MAX evs)
          in dv_engine d1 = dv_engine d \<and> dv_evt_stage d1 = dv_evt_stage d \<and>
             en_evq (dv_engine (snd (txn_commit i t d1))) =
               (if length q + length batch \<le> DEV_EVQ_CAP \<or> batch = [] then q @ batch else q))"
proof -
  define d0 where "d0 = txn_begin i d"
  define d1 where "d1 = fold (txn_submit i) evs d0"
  note b = txn_begin_map [OF assms(1), of i, folded d0_def]
  have fr: "dv_engine d0 = dv_engine d" "dv_evt_stage d0 = dv_evt_stage d"
    using frames_txn(1) [of i] by (auto simp: frames_def d0_def)
  have "txn_map (dv_txn d0) i = Some []" using b(2) assms by simp
  from submits_map [OF b(1) assms(2) this, of evs, folded d1_def] fr
  have s: "txn_map (dv_txn d1) i = Some (take DEV_TXN_EVENTS_MAX evs)" "dv_engine d1 = dv_engine d"
    "dv_evt_stage d1 = dv_evt_stage d" by simp_all
  then obtain k where k: "txn_find (dv_txn d1) i = Some k" "tx_ev (dv_txn d1 ! k) = take DEV_TXN_EVENTS_MAX evs"
    by (auto simp: txn_map_def)
  have "en_evq (dv_engine (snd (txn_commit i t d1))) =
      en_evq (snd (push_all (restamp t (take DEV_TXN_EVENTS_MAX evs)) (dv_engine (evt_stage_flush d))))"
    using txn_commit_Some [OF k(1), of t] k(2) s by (simp add: flush_eq)
  then show ?thesis
    using s unfolding d0_def [symmetric] d1_def [symmetric] Let_def
    by (simp add: push_all_def evq_push_batch_def)
qed

definition ex_event :: dev_event where
  "ex_event = \<lparr>ev_ts = 0, ev_kind = DEV_EV_PARAM_SET, ev_a = 3, ev_v = f32_half, ev_end = 0, ev_ppq = 0, ev_channel = 2,
     ev_voice = 0\<rparr>"

lemma txn_atomic_witness:
  "(let d1 = fold (txn_submit 7) [ex_event] (txn_begin 7 ex_device);
        q = en_evq (dv_engine (evt_stage_flush ex_device)); batch = restamp 5 (take DEV_TXN_EVENTS_MAX [ex_event])
    in dv_engine d1 = dv_engine ex_device \<and> dv_evt_stage d1 = dv_evt_stage ex_device \<and>
       en_evq (dv_engine (snd (txn_commit 7 5 d1))) =
         (if length q + length batch \<le> DEV_EVQ_CAP \<or> batch = [] then q @ batch else q))"
  by (rule txn_atomic) (simp_all add: ex_device_txn DEV_TXN_MAX_def)

text \<open>An event tagged with transaction 0 is staged like an untagged one, but does not mark the live ref as dirty.\<close>

lemma tag_zero_not_dirty:
  assumes "read_body param_field c = Inr b" and "bd_txn b = Some 0" and "bd_id b \<noteq> None" and "bd_val b \<noteq> None"
  shows "evt_param msc c d =
    evt_stage_add (mk_event msc DEV_EV_PARAM_SET b (f64_clamp01 (the (bd_val b))) 0) d"
  using assms by (auto simp: evt_param_def tag_of_def txn_submit_def harp_evt_dirties_live_def)

end
