(* ===== verification/Harp_Session.thy ===== *)
theory Harp_Session
  imports Harp_Events "HOL-Library.List_Lexorder"
begin

text \<open>
  The control handlers of \<^verbatim>\<open>device/session.c\<close> for the session and the state plane: hello and identity, the ref list,
  snapshots, object transfer, retention and garbage collection, and the compare-and-swap of a ref.  A run of encoder
  calls is a list of \<open>call\<close>s, in the order of the source.  The decoding loops of the handlers go on or break; their
  locals are a record.  C strings are byte lists without a zero byte.
\<close>

unbundle bit_operations_syntax

section \<open>Runs of encoder calls\<close>

datatype call = U u64 | I u64 | T bytes | B bytes | Arr u64 | Map u64 | Bo bool | Nul | Fl f64

fun put_call :: "harp_cbuf \<Rightarrow> call \<Rightarrow> harp_cbuf" where
  "put_call m (U x) = harp_cbor_uint m x"
| "put_call m (I x) = harp_cbor_int m x"
| "put_call m (T x) = harp_cbor_text m x"
| "put_call m (B x) = harp_cbor_bytes m x"
| "put_call m (Arr x) = harp_cbor_array m x"
| "put_call m (Map x) = harp_cbor_map m x"
| "put_call m (Bo x) = harp_cbor_bool m x"
| "put_call m Nul = harp_cbor_null m"
| "put_call m (Fl x) = harp_cbor_float m x"

definition put_calls :: "harp_cbuf \<Rightarrow> call list \<Rightarrow> harp_cbuf" where
  "put_calls m cs = foldl put_call m cs"

section \<open>Decoding loops\<close>

fun loop_brk :: "('b \<Rightarrow> harp_cdec \<Rightarrow> bool \<times> 'b \<times> harp_cdec) \<Rightarrow> nat \<Rightarrow> 'b \<Rightarrow> harp_cdec \<Rightarrow> 'b \<times> harp_cdec" where
  "loop_brk f n b c =
     (if n = 0 then (b, c)
      else case f b c of (False, b, c) \<Rightarrow> (b, c) | (True, b, c) \<Rightarrow> loop_brk f (n - 1) b c)"

declare loop_brk.simps [simp del]

text \<open>\<^verbatim>\<open>if (!harp_cdec_uint(&b, &key)) break;\<close>\<close>

definition with_key ::
  "(u64 \<Rightarrow> 'b \<Rightarrow> harp_cdec \<Rightarrow> bool \<times> 'b \<times> harp_cdec) \<Rightarrow> 'b \<Rightarrow> harp_cdec \<Rightarrow> bool \<times> 'b \<times> harp_cdec" where
  "with_key f b c = (case harp_cdec_uint c of (None, c) \<Rightarrow> (False, b, c) | (Some key, c) \<Rightarrow> f key b c)"

text \<open>
  One read with its store.  \<open>go\<close> says whether the loop goes on after a failed read; an integer read may store on
  failure (see \<open>harp_cdec_uint_into\<close>).
\<close>

definition rd_uint :: "bool \<Rightarrow> ('b \<Rightarrow> u64) \<Rightarrow> (u64 \<Rightarrow> 'b \<Rightarrow> 'b) \<Rightarrow> 'b \<Rightarrow> harp_cdec \<Rightarrow> bool \<times> 'b \<times> harp_cdec" where
  "rd_uint go get put b c = (case harp_cdec_uint_into c (get b) of (ok, v, c) \<Rightarrow> (ok \<or> go, put v b, c))"

definition rd_opt :: "bool \<Rightarrow> (harp_cdec \<Rightarrow> 'v option \<times> harp_cdec) \<Rightarrow> ('v \<Rightarrow> 'b \<Rightarrow> 'b) \<Rightarrow> 'b \<Rightarrow> harp_cdec
    \<Rightarrow> bool \<times> 'b \<times> harp_cdec" where
  "rd_opt go rd put b c = (case rd c of (None, c) \<Rightarrow> (go, b, c) | (Some v, c) \<Rightarrow> (True, put v b, c))"

abbreviation rd_skip :: "bool \<Rightarrow> 'b \<Rightarrow> harp_cdec \<Rightarrow> bool \<times> 'b \<times> harp_cdec" where
  "rd_skip go \<equiv> rd_opt go harp_cdec_skip (\<lambda>u b. b)"

text \<open>The C string in the buffer after a successful call; too long a string leaves the buffer as it was.\<close>

definition decode_text_into :: "nat \<Rightarrow> harp_cdec \<Rightarrow> bytes option \<times> harp_cdec" where
  "decode_text_into cap c =
     (case harp_cdec_text c of
        (None, c) \<Rightarrow> (None, c)
      | (Some s, c) \<Rightarrow> (if length s \<ge> cap then None else Some (cstr s), c))"

definition body_loop ::
  "(u64 \<Rightarrow> 'b \<Rightarrow> harp_cdec \<Rightarrow> bool \<times> 'b \<times> harp_cdec) \<Rightarrow> 'b \<Rightarrow> harp_env \<Rightarrow> 'b" where
  "body_loop f b e =
     (if \<not> e_has_body e then b
      else case harp_cdec_map (harp_cdec_init (e_body e)) of
             (None, c) \<Rightarrow> b
           | (Some n, c) \<Rightarrow> fst (loop_brk (with_key f) (unat n) b c))"

section \<open>Replies\<close>

definition reply :: "harp_env \<Rightarrow> call list \<Rightarrow> 's device \<Rightarrow> 's device" where
  "reply e cs d = send_ctl (put_calls (rsp_head (new_cbuf d) (e_rid e) (e_method e) True) cs) d"

definition reply_empty :: "harp_env \<Rightarrow> 's device \<Rightarrow> 's device" where
  "reply_empty e d = send_ctl (rsp_head (new_cbuf d) (e_rid e) (e_method e) False) d"

definition err :: "harp_env \<Rightarrow> string \<Rightarrow> bytes option \<Rightarrow> 's device \<Rightarrow> 's device" where
  "err e code msg d = send_error (e_rid e) (e_method e) (str code) msg d"

definition err_details :: "harp_env \<Rightarrow> call list \<Rightarrow> 's device \<Rightarrow> 's device" where
  "err_details e cs d =
     send_ctl (put_calls (harp_env_head (new_cbuf d) HARP_MSG_ERROR (e_rid e) (e_method e) True) cs) d"

section \<open>Identity\<close>

definition has_rt :: "dev_config \<Rightarrow> bool" where
  "has_rt cf \<longleftrightarrow> cf_rt_floor cf \<noteq> 0 \<or> cf_rt_nsamples cf \<noteq> 0"

definition engine_is_fx :: bool where "engine_is_fx = False"

definition dflt :: "bytes option \<Rightarrow> bytes \<Rightarrow> bytes" where
  "dflt x y = (case x of None \<Rightarrow> y | Some x \<Rightarrow> x)"

definition capabilities :: "dev_config \<Rightarrow> call list" where
  "capabilities cf =
     [Arr ((if cf_no_rate_lock cf then 18 else 19) + (if has_rt cf then 1 else 0) + (if engine_is_fx then 1 else 0))] @
     map (\<lambda>s. T (str s)) [''harp-core'', ''harp-recall'', ''harp-stream'', ''harp-perf'', ''audio.host-paced'',
       ''audio.deterministic'', ''audio.offline-rate''] @
     (if engine_is_fx then [T (str ''audio.fx'')] else []) @
     (if cf_no_rate_lock cf then [] else [T (str ''audio.rate-lock'')]) @
     map (\<lambda>s. T (str s)) [''evt.param'', ''evt.param.echo'', ''evt.param.mod'', ''evt.transport'', ''evt.ump'',
       ''evt.txn'', ''evt.multitimbral'', ''evt.param.meter'', ''diag.bundle'', ''diag.loopback.digital'',
       ''x.harp-refdev.sim''] @
     (if has_rt cf then [T (str ''audio.rt-floor'')] else [])"

definition channel_entry :: "nat \<Rightarrow> call list" where
  "channel_entry slot =
     (let pair = slot div 2;
          side = (if odd slot then str ''R'' else str ''L'');
          name = snprintf 16 (if pair = 0 then str ''Main '' @ side else str ''Part '' @ decimal pair @ str '' '' @ side);
          group = snprintf 16 (if pair = 0 then str ''Mix'' else str ''Part '' @ decimal pair);
          path = snprintf 16 (if pair = 0 then str ''main'' else str ''part'' @ decimal pair)
      in [Map 6, U 0, U (of_nat slot), U 1, U 0, U 2, T name, U 3, T group, U 4, T path, U 5, Bo True])"

definition identity_calls :: "'s device \<Rightarrow> call list" where
  "identity_calls d =
     (let cf = dv_config d
      in [Map (if has_rt cf then 15 else 14),
          U 0, Map 2, U 0, U 0x1209, U 1, T (str ''HARP Reference Project''),
          U 1, Map 2, U 0, U 1, U 1, T (dflt (cf_product cf) (str ''harp-refdev'')),
          U 2, T (cf_serial cf),
          U 3, T FW_VERSION,
          U 4, Map 3, U 0, T (dflt (cf_engine_name cf) ENGINE_ID), U 1, T (dflt (cf_engine_ver cf) ENGINE_VERSION),
            U 2, B (dv_param_map_hash d),
          U 5, Arr 2, U PROTO_MAJOR, U PROTO_MINOR,
          U 6] @ capabilities cf @
         [U 7, Arr 34] @ concat (map channel_entry [0..<34]) @
         [U 8, Arr 1, Map 4, U 0, U 48000, U 1, U (ucast (cf_in_lat cf)), U 2, U (ucast (cf_out_lat cf)), U 3, U 256,
          U 9, T (str ''refdev sim '' @ wd_date (dv_world d)),
          U 10, U (cf_boot_count cf),
          U 11, Arr 1, Map 2, U 0, U 0, U 1, T (str ''notes''),
          U 12, U (of_nat NPARTS),
          U 13, Map 2, U 0, U (of_nat DEV_TXN_MAX), U 1, U (of_nat DEV_TXN_EVENTS_MAX)] @
         (if has_rt cf then
            [U 14, Map ((if cf_rt_floor cf \<noteq> 0 then 1 else 0) + (if cf_rt_nsamples cf \<noteq> 0 then 1 else 0))] @
            (if cf_rt_floor cf \<noteq> 0 then [U 0, U (ucast (cf_rt_floor cf))] else []) @
            (if cf_rt_nsamples cf \<noteq> 0 then [U 1, U (ucast (cf_rt_nsamples cf))] else [])
          else []))"

definition encode_identity :: "'s device \<Rightarrow> harp_cbuf \<Rightarrow> harp_cbuf" where
  "encode_identity d m = put_calls m (identity_calls d)"

section \<open>Streams\<close>

text \<open>\<^verbatim>\<open>engine_voices_quiet\<close>, the meter pump's flags and \<^verbatim>\<open>audio_stop\<close> (the threads are joined, sockets closed).\<close>

definition engine_voices_quiet :: "engine \<Rightarrow> engine" where
  "engine_voices_quiet g = g\<lparr>en_parts := map (\<lambda>p. (voices_idle p)\<lparr>pt_panic_note := PANIC_NONE\<rparr>) (en_parts g)\<rparr>"

definition meter_pump_start :: "'s device \<Rightarrow> 's device" where
  "meter_pump_start d =
     (if au_meter_live (dv_audio d) then d
      else
        let d = d\<lparr>dv_engine := engine_meters_reset (dv_engine d)\<rparr>
        in if wd_thread_ok (dv_world d) then d\<lparr>dv_audio := (dv_audio d)\<lparr>au_meter_live := True\<rparr>\<rparr> else d)"

definition meter_pump_stop :: "'s device \<Rightarrow> 's device" where
  "meter_pump_stop d =
     (if \<not> au_meter_live (dv_audio d) then d else d\<lparr>dv_audio := (dv_audio d)\<lparr>au_meter_live := False\<rparr>\<rparr>)"

definition audio_rtp_close :: "audio_state \<Rightarrow> audio_state" where
  "audio_rtp_close a = (if au_rtp_fd a \<ge> 0 then a\<lparr>au_rtp_fd := - 1\<rparr> else a)"

definition HARP_LOG_INFO :: int where "HARP_LOG_INFO = 1"
definition HARP_LOG_WARN :: int where "HARP_LOG_WARN = 2"

definition log_line :: "int \<Rightarrow> string \<Rightarrow> bytes \<Rightarrow> 's device \<Rightarrow> 's device" where
  "log_line level tag line d = d\<lparr>dv_log := harp_devlog (dv_log d) level (str tag) line\<rparr>"

definition audio_stop :: "'s device \<Rightarrow> 's device" where
  "audio_stop d =
     (let d = meter_pump_stop d
      in if \<not> au_thread_live (dv_audio d) then d
         else
           let a = (dv_audio d)\<lparr>au_running := False, au_thread_live := False\<rparr>;
               a = audio_rtp_close a;
               a = (if au_host_paced_sock a \<ge> 0 then a\<lparr>au_host_paced_sock := - 1\<rparr> else a);
               a = a\<lparr>au_host_paced_port := 0\<rparr>;
               d = d\<lparr>dv_audio := a, dv_engine := engine_voices_quiet (dv_engine d)\<rparr>
           in log_line HARP_LOG_INFO ''audio''
                (str ''harp-deviced: audio stream stopped ('' @ decimal (unat (au_reanchors a)) @ str '' reanchors)'' @ [10]) d)"

section \<open>Hello\<close>

text \<open>The peer's major version, read from key 0.\<close>

definition hello_field :: "u64 \<Rightarrow> u64 \<Rightarrow> harp_cdec \<Rightarrow> bool \<times> u64 \<times> harp_cdec" where
  "hello_field key peer_major c =
     (if key = 0 then
        (case harp_cdec_array c of
           (None, c) \<Rightarrow> (True, peer_major, c)
         | (Some alen, c) \<Rightarrow>
             if alen \<noteq> 2 then (True, peer_major, c)
             else case harp_cdec_uint c of
                    (None, c) \<Rightarrow> (True, peer_major, c)
                  | (Some mj, c) \<Rightarrow>
                      (case harp_cdec_uint c of
                         (None, c) \<Rightarrow> (True, peer_major, c)
                       | (Some mi, c) \<Rightarrow> (True, mj, c)))
      else rd_skip True peer_major c)"

definition reset_session :: "'s device \<Rightarrow> 's device" where
  "reset_session d =
     d\<lparr>dv_peer_credit := 0, dv_granted := 0, dv_sendq_head := 0, dv_sendq_tail := 0, dv_sendq_count := 0,
       dv_txn := replicate DEV_TXN_MAX txn_zero,
       dv_rl_snapshot := \<lparr>ob_allowance_ns = 0, ob_last_ns = 0\<rparr>, dv_rl_bundle := \<lparr>ob_allowance_ns = 0, ob_last_ns = 0\<rparr>\<rparr>"

definition handle_hello :: "harp_env \<Rightarrow> 's device \<Rightarrow> 's device" where
  "handle_hello e d =
     (if body_loop hello_field 0 e \<noteq> PROTO_MAJOR then
        err_details e [Map 3, U 0, T (str ''incompatible''), U 1, T (str ''device supports protocol 1.x only''),
          U 2, Map 2, U 0, U PROTO_MAJOR, U 1, U PROTO_MAJOR] d
      else
        let d = reset_session ((audio_stop d)\<lparr>dv_hello_done := True\<rparr>);
            d = reply e ([Map 2, U 0, Arr 2, U PROTO_MAJOR, U PROTO_MINOR, U 1] @ identity_calls d) d
        in grant_credit d)"

section \<open>Refs and snapshots\<close>

definition refs_cb :: "harp_ref \<Rightarrow> harp_cbuf \<times> nat \<Rightarrow> harp_cbuf \<times> nat" where
  "refs_cb r acc = (harp_ref_encode (fst acc) r, snd acc + 1)"

text \<open>The optional name filter; the empty string is no filter.\<close>

definition refs_filter :: "harp_env \<Rightarrow> bytes" where
  "refs_filter e =
     (if \<not> e_has_body e then []
      else case harp_cdec_map (harp_cdec_init (e_body e)) of
             (None, c) \<Rightarrow> []
           | (Some n, c) \<Rightarrow>
               if n < 1 then []
               else case harp_cdec_uint c of
                      (None, c) \<Rightarrow> []
                    | (Some key, c) \<Rightarrow>
                        if key \<noteq> 0 then []
                        else (case fst (decode_text_into HARP_REF_NAME_MAX c) of None \<Rightarrow> [] | Some f \<Rightarrow> f))"

definition handle_state_refs :: "harp_env \<Rightarrow> 's device \<Rightarrow> 's device" where
  "handle_state_refs e d =
     (let d = live_cache_flush d;
          filter = refs_filter e;
          m = put_calls (rsp_head (new_cbuf d) (e_rid e) (e_method e) True) [Map 1, U 0]
      in if filter \<noteq> [] then
           (case harp_store_ref_read (dv_store d) filter of
              Some r \<Rightarrow>
                if \<not> rf_unborn r then send_ctl (harp_ref_encode (harp_cbor_array m 1) r) d
                else send_ctl (harp_cbor_array m 0) d
            | None \<Rightarrow> send_ctl (harp_cbor_array m 0) d)
         else
           (case snd (harp_store_ref_list (dv_store d) refs_cb (new_cbuf d, 0)) of
              (items, cnt) \<Rightarrow> send_ctl (harp_cbuf_put (harp_cbor_array m (of_nat cnt)) (cb_buf items)) d))"

definition RL_COST_NS :: u64 where "RL_COST_NS = 100000000"
definition RL_BURST_NS :: u64 where "RL_BURST_NS = 500000000"

definition expensive_op_shed ::
  "harp_env \<Rightarrow> ('s device \<Rightarrow> harp_op_bucket) \<Rightarrow> (harp_op_bucket \<Rightarrow> 's device \<Rightarrow> 's device) \<Rightarrow> 's device
     \<Rightarrow> bool \<times> 's device" where
  "expensive_op_shed e get put d =
     (case harp_op_admit (get d) (wd_now_ns (dv_world d)) RL_COST_NS RL_BURST_NS of
        (True, b) \<Rightarrow> (False, put b d)
      | (False, b) \<Rightarrow>
          let d = put b d;
              d = d\<lparr>dv_ctr := (dv_ctr d)\<lparr>ct_rate_limited := ct_rate_limited (dv_ctr d) + 1\<rparr>\<rparr>
          in (True, err e ''busy'' (Some (str ''rate-limited ('' @ [0xc2, 0xa7] @ str ''16); retry shortly'')) d))"

record snapshot_req =
  sq_ref :: bytes
  sq_msg :: bytes

definition snapshot_field :: "u64 \<Rightarrow> snapshot_req \<Rightarrow> harp_cdec \<Rightarrow> bool \<times> snapshot_req \<times> harp_cdec" where
  "snapshot_field key q c =
     (if key = 0 then rd_opt True (decode_text_into HARP_REF_NAME_MAX) (\<lambda>s. sq_ref_update (\<lambda>_. s)) q c
      else if key = 1 then rd_opt True (decode_text_into 256) (\<lambda>s. sq_msg_update (\<lambda>_. s)) q c
      else rd_skip True q c)"

definition handle_state_snapshot :: "harp_env \<Rightarrow> 's device \<Rightarrow> 's device" where
  "handle_state_snapshot e d =
     (case expensive_op_shed e dv_rl_snapshot (\<lambda>b. dv_rl_snapshot_update (\<lambda>_. b)) d of
        (True, d) \<Rightarrow> d
      | (False, d) \<Rightarrow>
          let q = body_loop snapshot_field \<lparr>sq_ref = [], sq_msg = []\<rparr> e
          in if sq_ref q \<noteq> LIVE_REF then err e ''unsupported'' (Some (str ''refdev snapshots live/project only'')) d
             else case do_snapshot (if sq_msg q \<noteq> [] then Some (sq_msg q) else None) d of
                    (None, d) \<Rightarrow> err e ''storage'' None d
                  | (Some (snap, gen), d) \<Rightarrow> reply e [Map 2, U 0, B snap, U 1, U gen] d)"

section \<open>Object transfer\<close>

text \<open>The array of hashes in key 0 of \<^verbatim>\<open>state.have\<close> and \<^verbatim>\<open>state.want\<close>, up to the first that does not decode.\<close>

definition hash_step :: "harp_hash list \<Rightarrow> harp_cdec \<Rightarrow> bool \<times> harp_hash list \<times> harp_cdec" where
  "hash_step hs c = rd_opt False harp_hash_read (\<lambda>h hs. hs @ [h]) hs c"

definition body_hashes :: "harp_env \<Rightarrow> harp_hash list" where
  "body_hashes e =
     (if \<not> e_has_body e then []
      else case harp_cdec_map (harp_cdec_init (e_body e)) of
             (None, c) \<Rightarrow> []
           | (Some n, c) \<Rightarrow>
               if n < 1 then []
               else case harp_cdec_uint c of
                      (None, c) \<Rightarrow> []
                    | (Some key, c) \<Rightarrow>
                        if key \<noteq> 0 then []
                        else case harp_cdec_array c of
                               (None, c) \<Rightarrow> []
                             | (Some alen, c) \<Rightarrow> fst (loop_brk hash_step (unat alen) [] c))"

definition handle_state_have :: "harp_env \<Rightarrow> 's device \<Rightarrow> 's device" where
  "handle_state_have e d =
     (let hs = body_hashes e;
          bools = foldl (\<lambda>b h. harp_cbor_bool b (harp_store_have (dv_store d) h)) (new_cbuf d) hs;
          m = put_calls (rsp_head (new_cbuf d) (e_rid e) (e_method e) True) [Map 1, U 0, Arr (of_nat (length hs))]
      in send_ctl (harp_cbuf_put m (cb_buf bools)) d)"

definition want_queue :: "harp_store \<Rightarrow> harp_hash list \<Rightarrow> harp_hash list" where
  "want_queue st hs =
     foldl (\<lambda>q h. if length q < 256 then (if harp_store_have st h then q @ [h] else q) else q) [] hs"

definition handle_state_want :: "harp_env \<Rightarrow> 's device \<Rightarrow> 's device" where
  "handle_state_want e d =
     (let queue = want_queue (dv_store d) (body_hashes e);
          d = reply e [Map 1, U 0, U (of_nat (length queue))] d
      in sendq_flush (foldl sendq_push d queue))"

definition send_field :: "u64 \<Rightarrow> u64 \<Rightarrow> harp_cdec \<Rightarrow> bool \<times> u64 \<times> harp_cdec" where
  "send_field key tot c =
     (if key = 1 then rd_uint False (\<lambda>x. x) (\<lambda>v x. v) tot c else rd_skip True tot c)"

definition handle_state_send :: "harp_env \<Rightarrow> 's device \<Rightarrow> 's device" where
  "handle_state_send e d =
     (let tot = body_loop send_field 0 e
      in case wd_statvfs (dv_world d) of
           Some (vol, freeb) \<Rightarrow>
             if tot > freeb then err e ''storage'' (Some (str ''insufficient free space'')) d else reply_empty e d
         | None \<Rightarrow> reply_empty e d)"

definition handle_obj :: "bytes \<Rightarrow> 's device \<Rightarrow> 's device" where
  "handle_obj buf d =
     (let d = (if harp_obj_kind buf < 0 then ctr_frame_error d
               else case harp_store_put (dv_store d) buf of
                      (ok, h, st) \<Rightarrow> if ok then d\<lparr>dv_store := st\<rparr> else ctr_frame_error (d\<lparr>dv_store := st\<rparr>));
          d = (if unat (dv_granted d) \<ge> length buf then d\<lparr>dv_granted := dv_granted d - of_nat (length buf)\<rparr>
               else d\<lparr>dv_granted := 0\<rparr>)
      in if dv_granted d < CREDIT_GRANT div 2 then grant_credit d else d)"

section \<open>Retention and garbage collection\<close>

definition HARP_ARCHIVE_KEEP :: nat where "HARP_ARCHIVE_KEEP = 32"
definition HARP_GC_INTERVAL :: u64 where "HARP_GC_INTERVAL = 32"
definition HARP_GC_MAX_SWEEP :: nat where "HARP_GC_MAX_SWEEP = 4096"

text \<open>\<^verbatim>\<open>strcmp\<close> on names is the lexicographic order of their bytes; \<^verbatim>\<open>strncmp\<close> with the prefix's length tests for it.\<close>

record prune_keep =
  pk_names :: "bytes list"
  pk_total :: nat

definition prune_grow :: "bytes \<Rightarrow> bytes list \<Rightarrow> bytes list" where
  "prune_grow name names =
     (let larger = rev (takeWhile (\<lambda>x. x > name) (rev names))
      in take (length names - length larger) names @ [name] @ larger)"

definition prune_shift :: "bytes \<Rightarrow> bytes list \<Rightarrow> bytes list" where
  "prune_shift name names =
     (let smaller = takeWhile (\<lambda>x. x < name) (tl names)
      in smaller @ [name] @ drop (length smaller) (tl names))"

definition has_prefix :: "bytes \<Rightarrow> bytes \<Rightarrow> bool" where
  "has_prefix pre name \<longleftrightarrow> take (length pre) name = pre"

definition prune_scan_cb :: "bytes \<Rightarrow> harp_ref \<Rightarrow> prune_keep \<Rightarrow> prune_keep" where
  "prune_scan_cb pre r k =
     (if \<not> has_prefix pre (rf_name r) then k
      else
        let k = k\<lparr>pk_total := pk_total k + 1\<rparr>
        in if length (pk_names k) < HARP_ARCHIVE_KEEP then k\<lparr>pk_names := prune_grow (rf_name r) (pk_names k)\<rparr>
           else if rf_name r > hd (pk_names k) then k\<lparr>pk_names := prune_shift (rf_name r) (pk_names k)\<rparr>
           else k)"

definition prune_del_cb :: "bytes \<Rightarrow> bytes \<Rightarrow> harp_ref \<Rightarrow> harp_store \<times> nat \<Rightarrow> harp_store \<times> nat" where
  "prune_del_cb pre threshold r p =
     (if \<not> has_prefix pre (rf_name r) then p
      else if rf_name r < threshold then
        (case harp_store_ref_delete (fst p) (rf_name r) of (ok, st) \<Rightarrow> (st, if ok then snd p + 1 else snd p))
      else p)"

definition prune_namespace :: "harp_store \<Rightarrow> bytes \<Rightarrow> nat \<times> harp_store" where
  "prune_namespace s pre =
     (let k = snd (harp_store_ref_list s (prune_scan_cb pre) \<lparr>pk_names = [], pk_total = 0\<rparr>)
      in if pk_total k \<le> HARP_ARCHIVE_KEEP then (0, s)
         else case snd (harp_store_ref_list s (prune_del_cb pre (hd (pk_names k))) (s, 0)) of (s, n) \<Rightarrow> (n, s))"

definition gc_prefix :: "bytes \<Rightarrow> bytes option" where
  "gc_prefix refname =
     (if has_prefix (str ''archive/'') refname then Some (str ''archive/'')
      else if has_prefix (str ''duplicate/'') refname then Some (str ''duplicate/'')
      else None)"

definition maybe_gc :: "bytes \<Rightarrow> 's device \<Rightarrow> 's device" where
  "maybe_gc refname d =
     (case gc_prefix refname of
        None \<Rightarrow> d
      | Some pre \<Rightarrow>
          (case prune_namespace (dv_store d) pre of
             (pruned, st) \<Rightarrow>
               let d = d\<lparr>dv_store := st, dv_archives_since_gc := dv_archives_since_gc d + 1\<rparr>
               in if dv_archives_since_gc d \<ge> HARP_GC_INTERVAL then
                    let d = d\<lparr>dv_archives_since_gc := 0\<rparr>;
                        gc = str ''harp-deviced: '' @ [0xc2, 0xa7] @ str ''10.3 GC ''
                    in case harp_store_gc (wd_alloc (dv_world d)) (dv_store d) HARP_GC_MAX_SWEEP of
                         None \<Rightarrow> d\<lparr>dv_halted := True\<rparr>
                       | Some (False, reclaimed, st) \<Rightarrow>
                           log_line HARP_LOG_WARN ''session''
                             (gc @ str ''aborted (pruned '' @ decimal pruned @ str '' '' @ pre @ str ''refs) '' @
                              [0xe2, 0x80, 0x94] @ str '' store not swept'' @ [10]) (d\<lparr>dv_store := st\<rparr>)
                       | Some (True, reclaimed, st) \<Rightarrow>
                           log_line HARP_LOG_INFO ''session''
                             (gc @ str ''pruned '' @ decimal pruned @ str '' '' @ pre @ str ''refs, reclaimed '' @
                              decimal reclaimed @ str '' objects'' @ [10]) (d\<lparr>dv_store := st\<rparr>)
                  else d))"

section \<open>Setting a ref\<close>

record refset_req =
  rq_name :: bytes
  rq_expect_null :: bool
  rq_have_expect :: bool
  rq_have_new :: bool
  rq_expect :: harp_hash
  rq_new :: harp_hash
  rq_flags :: u64

definition refset_zero :: refset_req where
  "refset_zero = \<lparr>rq_name = [], rq_expect_null = False, rq_have_expect = False, rq_have_new = False, rq_expect = [],
     rq_new = [], rq_flags = 0\<rparr>"

definition refset_field :: "u64 \<Rightarrow> refset_req \<Rightarrow> harp_cdec \<Rightarrow> bool \<times> refset_req \<times> harp_cdec" where
  "refset_field key q c =
     (if key = 0 then rd_opt True (decode_text_into HARP_REF_NAME_MAX) (\<lambda>s. rq_name_update (\<lambda>_. s)) q c
      else if key = 1 then
        (if harp_cdec_peek_null c
         then (True, q\<lparr>rq_expect_null := True, rq_have_expect := True\<rparr>, snd (harp_cdec_null c))
         else rd_opt True harp_hash_read (\<lambda>h q. q\<lparr>rq_expect := h, rq_have_expect := True\<rparr>) q c)
      else if key = 2 then rd_opt True harp_hash_read (\<lambda>h q. q\<lparr>rq_new := h, rq_have_new := True\<rparr>) q c
      else if key = 3 then rd_uint True rq_flags (\<lambda>v. rq_flags_update (\<lambda>_. v)) q c
      else rd_skip True q c)"

text \<open>\<^verbatim>\<open>sscanf(s, "%d.%d", &a, &b)\<close> into variables that hold 0.\<close>

definition scan_digits :: "bytes \<Rightarrow> int \<Rightarrow> int \<times> bytes" where
  "scan_digits s acc =
     (let ds = takeWhile (\<lambda>c. 48 \<le> c \<and> c \<le> 57) s
      in (foldl (\<lambda>v c. 10 * v + (uint c - 48)) acc ds, drop (length ds) s))"

definition scan_d :: "bytes \<Rightarrow> (int \<times> bytes) option" where
  "scan_d s =
     (let s = dropWhile (\<lambda>c. c = 32 \<or> (9 \<le> c \<and> c \<le> 13)) s;
          neg = (take 1 s = [45]);
          s = (if take 1 s = [45] \<or> take 1 s = [43] then drop 1 s else s)
      in case s of
           [] \<Rightarrow> None
         | c # cs \<Rightarrow>
             if 48 \<le> c \<and> c \<le> 57 then
               (case scan_digits s 0 of (v, rest) \<Rightarrow> Some (if neg then - v else v, rest))
             else None)"

definition scan_version :: "bytes \<Rightarrow> int \<times> int" where
  "scan_version s =
     (case scan_d s of
        None \<Rightarrow> (0, 0)
      | Some (a, rest) \<Rightarrow>
          if take 1 rest = [46] then (case scan_d (drop 1 rest) of None \<Rightarrow> (a, 0) | Some (b, rest) \<Rightarrow> (a, b))
          else (a, 0))"

text \<open>The engine version of a snapshot, if there is one, and whether the device may load it without consent.\<close>

definition snapshot_engine :: "harp_hash \<Rightarrow> 's device \<Rightarrow> bytes option" where
  "snapshot_engine newh d =
     (case harp_store_get (dv_store d) newh (new_cbuf d) of
        (False, se) \<Rightarrow> None
      | (True, se) \<Rightarrow> harp_obj_parse_snapshot_engine (cb_buf se) 24)"

definition engine_compatible :: "bytes option \<Rightarrow> bytes \<Rightarrow> bool" where
  "engine_compatible snap_eng dev_eng =
     (case snap_eng of None \<Rightarrow> False | Some s \<Rightarrow> scan_version s = scan_version dev_eng)"

definition expect_ok :: "refset_req \<Rightarrow> harp_ref \<Rightarrow> bool" where
  "expect_ok q r =
     (if rf_unborn r then rq_expect_null q \<or> bit (rq_flags q) 0
      else \<not> rq_expect_null q \<and> harp_hash_eq (rf_hash r) (rq_expect q))"

definition refset_conflict :: "harp_env \<Rightarrow> harp_ref \<Rightarrow> 's device \<Rightarrow> 's device" where
  "refset_conflict e r d =
     err_details e
       ([Map 3, U 0, T (str ''conflict''), U 1,
         T (if rf_dirty r then str ''ref is dirty'' else str ''expect mismatch''), U 2, Map 3, U 0] @
        [if rf_unborn r then Nul else B (rf_hash r)] @ [U 1, U (rf_generation r), U 2, Bo (rf_dirty r)]) d"

definition refset_incompatible :: "harp_env \<Rightarrow> bytes option \<Rightarrow> bytes \<Rightarrow> 's device \<Rightarrow> 's device" where
  "refset_incompatible e snap_eng dev_eng d =
     err_details e
       [Map 3, U 0, T (str ''incompatible''), U 1,
        T (if snap_eng \<noteq> None then str ''snapshot engine version differs; set consent flag 0x4 to override''
           else str ''snapshot has no engine field; set consent flag 0x4 to override''),
        U 2, Map 2, U 0, T (dflt snap_eng []), U 1, T dev_eng] d"

text \<open>From the checks on: the new ref value is written, acknowledged and announced.\<close>

definition refset_commit :: "harp_env \<Rightarrow> refset_req \<Rightarrow> harp_ref \<Rightarrow> 's device \<Rightarrow> 's device" where
  "refset_commit e q r d =
     (let r = r\<lparr>rf_unborn := False, rf_hash := rq_new q, rf_generation := rf_generation r + 1, rf_dirty := False\<rparr>
      in case harp_store_ref_write (wd_alloc (dv_world d)) (dv_store d) r of
           (False, st) \<Rightarrow> err e ''storage'' None (d\<lparr>dv_store := st\<rparr>)
         | (True, st) \<Rightarrow>
             maybe_gc (rq_name q)
               (ntf_state_changed r (reply e [Map 1, U 0, U (rf_generation r)] (d\<lparr>dv_store := st\<rparr>))))"

definition refset_live :: "harp_env \<Rightarrow> refset_req \<Rightarrow> harp_ref \<Rightarrow> 's device \<Rightarrow> 's device" where
  "refset_live e q r d =
     (let snap_eng = snapshot_engine (rq_new q) d;
          dev_eng = dflt (cf_engine_ver (dv_config d)) ENGINE_VERSION
      in if \<not> bit (rq_flags q) 2 \<and> \<not> engine_compatible snap_eng dev_eng then refset_incompatible e snap_eng dev_eng d
         else case engine_load_snapshot (rq_new q) d of
                (False, d) \<Rightarrow> err e ''malformed'' (Some (str ''target is not a loadable snapshot'')) d
              | (True, d) \<Rightarrow> refset_commit e q r d)"

definition handle_state_refset :: "harp_env \<Rightarrow> 's device \<Rightarrow> 's device" where
  "handle_state_refset e d =
     (let q = body_loop refset_field refset_zero e
      in if rq_name q = [] \<or> \<not> rq_have_expect q \<or> \<not> rq_have_new q then err e ''malformed'' None d
         else
           let d = (if rq_name q = LIVE_REF then live_cache_flush d else d)
           in case harp_store_ref_read (dv_store d) (rq_name q) of
                None \<Rightarrow> err e ''malformed'' (Some (str ''bad ref name'')) d
              | Some r \<Rightarrow>
                  if \<not> bit (rq_flags q) 1 \<and> (\<not> expect_ok q r \<or> rf_dirty r) then refset_conflict e r d
                  else if \<not> closure_complete d (rq_new q) then
                    err e ''not-found'' (Some (str ''object closure incomplete'')) d
                  else if rq_name q = LIVE_REF then refset_live e q r d
                  else refset_commit e q r d)"

end
