(* ===== verification/Harp_Retention.thy ===== *)
theory Harp_Retention
  imports Harp_Session
begin

text \<open>
  Retention: the pruning of a ref namespace (\<^verbatim>\<open>prune_namespace\<close> of \<^verbatim>\<open>device/session.c\<close>) keeps the 32 largest names.
  The scan holds its window of names sorted, so it is compared with sorting all the names.
\<close>

section \<open>The window of names\<close>

definition newest :: "'a::linorder list \<Rightarrow> 'a list" where
  "newest ns = drop (length ns - HARP_ARCHIVE_KEEP) (sort ns)"

lemma sorted_takeWhile_rev:
  "sorted xs \<Longrightarrow> takeWhile (\<lambda>y. y > x) (rev xs) = rev (filter (\<lambda>y. y > x) xs)" for x :: "'a::linorder"
proof (induction xs)
  case (Cons a xs)
  show ?case
  proof (cases "a > x")
    case True
    with Cons have "\<forall>y \<in> set xs. y > x" by auto
    with True Cons show ?thesis by (simp add: takeWhile_append)
  next
    case False
    with Cons show ?thesis by (simp add: takeWhile_append)
  qed
qed simp

lemma sorted_filter_split:
  "sorted xs \<Longrightarrow> xs = filter (\<lambda>y. \<not> y > x) xs @ filter (\<lambda>y. y > x) xs" for x :: "'a::linorder"
proof (induction xs)
  case (Cons a xs)
  then show ?case
  proof (cases "a > x")
    case True
    with Cons have "\<forall>y \<in> set xs. y > x" by auto
    with True show ?thesis by simp
  qed auto
qed simp

lemma sort_unique: "sorted ys \<Longrightarrow> mset ys = mset xs \<Longrightarrow> sort xs = ys" for xs :: "'a::linorder list"
  by (rule properties_for_sort)

lemma prune_grow_sorted:
  assumes "sorted xs"
  shows "prune_grow x xs = sort (x # xs)"
proof -
  let ?lo = "filter (\<lambda>y. \<not> y > x) xs" and ?hi = "filter (\<lambda>y. y > x) xs"
  note split = sorted_filter_split [OF assms, of x]
  have "take (length xs - length ?hi) xs = ?lo"
    using arg_cong [OF split, of "take (length ?lo)"] arg_cong [OF split, of length] by simp
  then have eq: "prune_grow x xs = ?lo @ [x] @ ?hi"
    by (simp add: prune_grow_def Let_def sorted_takeWhile_rev [OF assms])
  have "sorted (?lo @ [x] @ ?hi)"
    using assms by (auto simp: sorted_append sorted_wrt_filter not_less)
  moreover have "mset (?lo @ [x] @ ?hi) = mset (x # xs)" by (simp add: multiset_partition [of "mset xs"])
  ultimately show ?thesis using eq sort_unique by metis
qed

lemma prune_shift_sorted:
  assumes "sorted xs" and "xs \<noteq> []"
  shows "prune_shift x xs = sort (x # tl xs)"
proof -
  let ?t = "tl xs" and ?lo = "takeWhile (\<lambda>y. y < x) (tl xs)" and ?hi = "dropWhile (\<lambda>y. y < x) (tl xs)"
  have t: "sorted ?t" using assms by (simp add: sorted_tl)
  have eq: "prune_shift x xs = ?lo @ [x] @ ?hi"
    by (simp add: prune_shift_def Let_def dropWhile_eq_drop)
  have hi: "y \<ge> x" if "y \<in> set ?hi" for y
  proof -
    have "sorted ?hi" using t by (metis sorted_append takeWhile_dropWhile_id)
    with that show ?thesis using hd_dropWhile [of "\<lambda>y. y < x" ?t] by (cases ?hi) auto
  qed
  have lo: "y < x" if "y \<in> set ?lo" for y using set_takeWhileD [OF that] by blast
  have "sorted (?lo @ ?hi)" using t by simp
  then have "sorted (?lo @ [x] @ ?hi)"
    using hi lo by (fastforce simp: sorted_append)
  moreover have "mset (?lo @ [x] @ ?hi) = mset (x # ?t)"
    using mset_append [of ?lo ?hi] by simp
  ultimately show ?thesis using eq sort_unique by metis
qed

lemma newest_sorted: "sorted (newest ns)"
  by (simp add: newest_def sorted_wrt_drop)

lemma length_newest: "length (newest ns) = min HARP_ARCHIVE_KEEP (length ns)"
  by (simp add: newest_def)

text \<open>How the window moves when a name arrives.\<close>

lemma newest_snoc_small:
  "length ns < HARP_ARCHIVE_KEEP \<Longrightarrow> newest (ns @ [x]) = sort (x # newest ns)"
proof -
  assume "length ns < HARP_ARCHIVE_KEEP"
  moreover have "sort (ns @ [x]) = sort (x # sort ns)" by (rule sort_unique) (simp_all only: sorted_sort mset_sort, simp)
  ultimately show ?thesis by (simp add: newest_def del: sort_key_simps)
qed

lemma newest_snoc:
  fixes x :: "'a::linorder"
  assumes "\<not> length ns < HARP_ARCHIVE_KEEP"
  shows "newest (ns @ [x]) = (if x > hd (newest ns) then sort (x # tl (newest ns)) else newest ns)"
proof -
  let ?k = "length ns - HARP_ARCHIVE_KEEP" and ?w = "newest ns"
  let ?old = "take ?k (sort ns)"
  have w: "sort ns = ?old @ ?w" by (simp add: newest_def)
  have len: "length ?w = HARP_ARCHIVE_KEEP" using assms by (simp add: length_newest)
  then obtain h t where ht: "?w = h # t" by (cases ?w) (auto simp: HARP_ARCHIVE_KEEP_def)
  have sorted: "sorted (?old @ h # t)" using w ht by (metis sorted_sort)
  have mset: "mset ns = mset ?old + mset (h # t)" using w ht by (metis mset_append mset_sort)
  have lo: "length ?old = ?k" by simp
  have k: "length (ns @ [x]) - HARP_ARCHIVE_KEEP = Suc ?k" using assms by simp
  show ?thesis
  proof (cases "x > h")
    case True
    have "sorted (?old @ [h] @ sort (x # t))"
      using sorted True by (auto simp: sorted_append sorted_insort set_insort_key)
    then have "sort (ns @ [x]) = (?old @ [h]) @ sort (x # t)"
      by (intro sort_unique) (simp_all add: mset)
    then have "newest (ns @ [x]) = sort (x # t)" unfolding newest_def k by (simp del: sort_key_simps)
    then show ?thesis using True ht by simp
  next
    case False
    have "sorted (sort (x # ?old) @ h # t)"
      using sorted False by (auto simp: sorted_append sorted_insort set_insort_key)
    then have "sort (ns @ [x]) = sort (x # ?old) @ h # t"
      by (intro sort_unique) (simp_all add: mset)
    then have "newest (ns @ [x]) = h # t" unfolding newest_def k by (simp del: sort_key_simps)
    then show ?thesis using False ht by simp
  qed
qed

section \<open>The scan\<close>

definition in_namespace :: "bytes \<Rightarrow> harp_ref list \<Rightarrow> bytes list" where
  "in_namespace pre rs = filter (has_prefix pre) (map rf_name rs)"

lemma scan_snoc:
  assumes "pk_names k = newest ns" and "pk_total k = length ns"
  shows "pk_names (prune_scan_cb pre r k) = newest (ns @ in_namespace pre [r])"
    and "pk_total (prune_scan_cb pre r k) = length (ns @ in_namespace pre [r])"
proof -
  let ?w = "newest ns" and ?x = "rf_name r"
  have "?w \<noteq> []" if "\<not> length ns < HARP_ARCHIVE_KEEP"
    using that length_newest [of ns] by (auto simp: HARP_ARCHIVE_KEEP_def)
  then show "pk_names (prune_scan_cb pre r k) = newest (ns @ in_namespace pre [r])"
    using newest_snoc_small [of ns ?x] newest_snoc [of ns ?x] newest_sorted [of ns] length_newest [of ns]
    by (auto simp: prune_scan_cb_def in_namespace_def assms Let_def prune_grow_sorted prune_shift_sorted simp del: sort_key_simps)
  show "pk_total (prune_scan_cb pre r k) = length (ns @ in_namespace pre [r])"
    by (simp add: prune_scan_cb_def in_namespace_def assms Let_def)
qed

lemma scan_fold:
  "pk_names k = newest ns \<Longrightarrow> pk_total k = length ns \<Longrightarrow>
     pk_names (fold (prune_scan_cb pre) rs k) = newest (ns @ in_namespace pre rs) \<and>
     pk_total (fold (prune_scan_cb pre) rs k) = length (ns @ in_namespace pre rs)"
proof (induction rs arbitrary: k ns)
  case (Cons r rs)
  have "in_namespace pre (r # rs) = in_namespace pre [r] @ in_namespace pre rs" by (simp add: in_namespace_def)
  with Cons.IH [OF scan_snoc [OF Cons.prems]] show ?case by simp
qed (simp add: in_namespace_def)


lemma newest_iff:
  assumes "m \<in> set ns" and "\<not> length ns \<le> HARP_ARCHIVE_KEEP"
  shows "m < hd (newest ns) \<longleftrightarrow> m \<notin> set (newest ns)"
proof -
  let ?old = "take (length ns - HARP_ARCHIVE_KEEP) (sort ns)"
  have w: "sort ns = ?old @ newest ns" by (simp add: newest_def)
  obtain h t where ht: "newest ns = h # t"
    using length_newest [of ns] assms(2) by (cases "newest ns") (auto simp: HARP_ARCHIVE_KEEP_def)
  have "sorted (?old @ h # t)" using w ht by (metis sorted_sort)
  moreover have "set ns = set (?old @ h # t)" using w ht by (metis set_sort)
  ultimately show ?thesis using assms(1) ht by (auto simp: sorted_append)
qed

section \<open>The deletions\<close>

text \<open>
  \<open>s'\<close> is \<open>s\<close> with files deleted, each of them the file of a ref with a name in \<open>gone\<close>; no such file is left.
\<close>

definition refs_dropped :: "bytes set \<Rightarrow> harp_store \<Rightarrow> harp_store \<Rightarrow> bool" where
  "refs_dropped gone s s' \<longleftrightarrow> s' = s\<lparr>sto_fs := sto_fs s'\<rparr> \<and>
     (\<forall>p. if \<exists>m \<in> gone. ref_path s m HARP_STORE_PATH_MAX = Some p
          then \<forall>x. map_of (sto_fs s') p \<noteq> Some (File x)
          else map_of (sto_fs s') p = map_of (sto_fs s) p)"

lemma refs_dropped_delete:
  assumes "refs_dropped gone s s1" and "flt_remove (sto_flt s) = (\<lambda>p. False)"
  shows "refs_dropped (insert m gone) s (snd (harp_store_ref_delete s1 m))"
proof -
  have s1: "s1 = s\<lparr>sto_fs := sto_fs s1\<rparr>" using assms(1) by (simp add: refs_dropped_def)
  have flt: "sto_flt s1 = sto_flt s" by (subst s1) simp
  have rp: "ref_path s1 m k = ref_path s m k" for k by (subst s1) (rule ref_path_fs)
  show ?thesis
  proof (cases "ref_path s m HARP_STORE_PATH_MAX")
    case None
    then have "snd (harp_store_ref_delete s1 m) = s1" by (simp add: harp_store_ref_delete_def rp)
    with assms(1) None show ?thesis by (simp add: refs_dropped_def)
  next
    case (Some p)
    let ?fs = "snd (fs_remove (sto_flt s) p (sto_fs s1))"
    have "s1\<lparr>sto_fs := ?fs\<rparr> = s\<lparr>sto_fs := ?fs\<rparr>" by (subst s1) simp
    then have s2: "snd (harp_store_ref_delete s1 m) = s\<lparr>sto_fs := ?fs\<rparr>"
      using Some by (simp add: harp_store_ref_delete_def rp flt)
    have same: "map_of ?fs q = map_of (sto_fs s1) q" if "q \<noteq> p" for q
      using that by (auto simp: fs_remove_def split: option.splits fnode.splits)
    have gone: "map_of ?fs p \<noteq> Some (File x)" for x
      using assms(2) by (auto simp: fs_remove_def split: option.splits fnode.splits)
    have "if \<exists>m' \<in> insert m gone. ref_path s m' HARP_STORE_PATH_MAX = Some q
        then \<forall>x. map_of ?fs q \<noteq> Some (File x) else map_of ?fs q = map_of (sto_fs s) q" for q
      using assms(1) Some same [of q] gone by (cases "q = p") (auto simp: refs_dropped_def)
    then show ?thesis unfolding s2 by (simp add: refs_dropped_def)
  qed
qed

lemma del_fold:
  assumes "flt_remove (sto_flt s) = (\<lambda>p. False)"
  shows "refs_dropped gone s (fst p) \<Longrightarrow>
    refs_dropped (gone \<union> {m \<in> set (in_namespace pre rs). m < thr}) s (fst (fold (prune_del_cb pre thr) rs p))"
proof (induction rs arbitrary: gone p)
  case (Cons r rs)
  let ?g = "\<lambda>rs. {m \<in> set (in_namespace pre rs). m < thr}"
  have g: "?g [r] = (if has_prefix pre (rf_name r) \<and> rf_name r < thr then {rf_name r} else {})"
    by (auto simp: in_namespace_def)
  have "refs_dropped (gone \<union> ?g [r]) s (fst (prune_del_cb pre thr r p))"
    unfolding g using Cons.prems refs_dropped_delete [OF Cons.prems assms, of "rf_name r"]
    by (simp add: prune_del_cb_def split_beta)
  moreover have "gone \<union> ?g [r] \<union> ?g rs = gone \<union> ?g (r # rs)" by (auto simp: in_namespace_def)
  ultimately show ?case using Cons.IH [of "gone \<union> ?g [r]"] by simp
qed (simp add: in_namespace_def)


lemma refs_dropped_refl: "refs_dropped {} s s"
  by (simp add: refs_dropped_def)

text \<open>
  C26: Retention keeps the newest names and nothing else is lost.  If files can be removed, pruning a namespace
  of refs with at most 32 names changes nothing; with more, the refs whose names are the 32 largest (the names end
  in a sortable time stamp) stay, the files of all the others are gone, and no other file of the store changes.
\<close>

theorem prune_keeps_newest:
  assumes "flt_remove (sto_flt s) = (\<lambda>p. False)" and "names = in_namespace pre (store_refs s)"
  shows "refs_dropped (set names - set (newest names)) s (snd (prune_namespace s pre))"
proof -
  define k where "k = fold (prune_scan_cb pre) (store_refs s) \<lparr>pk_names = [], pk_total = 0\<rparr>"
  have k: "pk_names k = newest names" "pk_total k = length names"
    using scan_fold [of "\<lparr>pk_names = [], pk_total = 0\<rparr>" "[]" pre "store_refs s"]
    by (simp_all add: k_def assms(2) newest_def)
  show ?thesis
  proof (cases "length names \<le> HARP_ARCHIVE_KEEP")
    case True
    then show ?thesis
      using k by (simp add: prune_namespace_def ref_list_fold k_def [symmetric] newest_def refs_dropped_refl)
  next
    case False
    have "set names - set (newest names) = {m \<in> set names. m < hd (newest names)}"
      using newest_iff [OF _ False] by blast
    with del_fold [OF assms(1) , of "{}" "(s, 0)" pre "store_refs s" "hd (newest names)"] False k refs_dropped_refl
    show ?thesis
      by (simp add: prune_namespace_def ref_list_fold k_def [symmetric] assms(2) split_beta)
  qed
qed


section \<open>A full archive\<close>

text \<open>A store with 33 archived refs, named by one digit or letter each.\<close>

definition ex_letters :: bytes where "ex_letters = map of_nat ([48..<58] @ [97..<120])"

definition ex_ref :: "u8 \<Rightarrow> harp_ref" where "ex_ref c = ref_zero\<lparr>rf_name := str ''archive/'' @ [c]\<rparr>"

definition ex_archive :: harp_store where
  "ex_archive = ex_store\<lparr>sto_fs := (sto_fs ex_store @ [(str ''d/refs/archive'', Dir)]) @
     map (\<lambda>c. (str ''d/refs/archive/'' @ [c], File (ref_bytes (ex_ref c)))) ex_letters\<rparr>"

lemma map_of_files:
  "map_of xs (f c) = None \<Longrightarrow> inj f \<Longrightarrow> c \<in> set cs \<Longrightarrow> map_of (xs @ map (\<lambda>c. (f c, g c)) cs) (f c) = Some (g c)"
  by (induction cs) (auto simp: map_add_def inj_def split: option.splits)

lemma ex_letters_ok: "c \<in> set ex_letters \<Longrightarrow>
    ref_name_ok (str ''archive/'' @ [c]) \<and> c \<noteq> 46 \<and> c \<noteq> 0 \<and> \<not> strstr [c] (str ''.tmp.'')"
proof -
  have "list_all (\<lambda>c. ref_name_ok (str ''archive/'' @ [c]) \<and> c \<noteq> 46 \<and> c \<noteq> 0 \<and> \<not> strstr [c] (str ''.tmp.'')) ex_letters"
    by code_simp
  then show "c \<in> set ex_letters \<Longrightarrow> ?thesis" by (simp add: list_all_iff)
qed

lemma ex_archive_file:
  assumes "c \<in> set ex_letters"
  shows "ref_path ex_archive (str ''archive/'' @ [c]) HARP_STORE_PATH_MAX = Some (str ''d/refs/archive/'' @ [c])"
    and "map_of (sto_fs ex_archive) (str ''d/refs/archive/'' @ [c]) = Some (File (ref_bytes (ex_ref c)))"
proof -
  show "ref_path ex_archive (str ''archive/'' @ [c]) HARP_STORE_PATH_MAX = Some (str ''d/refs/archive/'' @ [c])"
    using ex_letters_ok [OF assms] by (simp add: ref_path_def fs_from_ref_def ex_archive_def ex_store_def) (simp add: str_def)
  have "map_of (sto_fs ex_store @ [(str ''d/refs/archive'', Dir)]) (str ''d/refs/archive/'' @ [c]) = None"
    by (simp add: ex_store_def str_def)
  from map_of_files [where f = "\<lambda>c. str ''d/refs/archive/'' @ [c]", OF this _ assms, of "\<lambda>c. File (ref_bytes (ex_ref c))"]
  show "map_of (sto_fs ex_archive) (str ''d/refs/archive/'' @ [c]) = Some (File (ref_bytes (ex_ref c)))"
    by (simp add: ex_archive_def inj_def)
qed

lemma ex_archive_read: "c \<in> set ex_letters \<Longrightarrow> harp_store_ref_read ex_archive (str ''archive/'' @ [c]) = Some (ex_ref c)"
proof -
  assume c: "c \<in> set ex_letters"
  have "0 \<notin> set (str ''archive/'')" by code_simp
  with ex_letters_ok [OF c] have ok: "ref_ok (ex_ref c)"
    by (simp add: ref_ok_def ex_ref_def ref_zero_def ref_name_ok_def)
  have "flt_fopen (sto_flt ex_archive) = (\<lambda>p. False)" by (simp add: ex_archive_def ex_store_def no_faults_def)
  with ex_archive_file [OF c] ref_decode_bytes [OF ok, of "[]"] ref_bytes_length [OF ok] show ?thesis
    by (simp add: harp_store_ref_read_def fopen_rb_def)
qed

lemma ex_archive_entry: "c \<in> set ex_letters \<Longrightarrow>
    walk_entry ex_archive (str ''archive'') [c] = Some (str ''archive/'' @ [c], False)"
  using ex_archive_file [of c] ex_letters_ok [of c]
  by (simp add: walk_entry_def ref_from_fs_def fs_from_ref_def path_kind_def ref_name_ok_def) (simp add: str_def path_kind_def)

lemma ex_archive_list:
  "set cs \<subseteq> set ex_letters \<Longrightarrow> list_refs ex_archive (str ''archive'') (map (\<lambda>c. [c]) cs) = map ex_ref cs"
  by (induction cs) (simp_all add: ex_archive_entry ex_archive_read)

lemma ex_archive_names: "in_namespace (str ''archive/'') (store_refs ex_archive) = map (\<lambda>c. str ''archive/'' @ [c]) ex_letters"
proof -
  have root: "opendir_refs ex_archive [] = Some [str ''archive'']" by code_simp
  have sub: "opendir_refs ex_archive (str ''archive'') = Some (map (\<lambda>c. [c]) ex_letters)" by code_simp
  have dir: "walk_entry ex_archive [] (str ''archive'') = Some (str ''archive'', True)" by code_simp
  have "store_refs ex_archive = map ex_ref ex_letters"
    using sub dir ex_archive_list [of ex_letters] by (simp add: store_refs_def root) (simp add: str_def)
  moreover have "has_prefix (str ''archive/'') (str ''archive/'' @ [c])" for c by (simp add: has_prefix_def)
  ultimately show ?thesis by (simp add: in_namespace_def ex_ref_def o_def)
qed


lemma prune_keeps_newest_witness:
  "refs_dropped {str ''archive/0''} ex_archive (snd (prune_namespace ex_archive (str ''archive/'')))"
proof -
  let ?names = "map (\<lambda>c. str ''archive/'' @ [c]) ex_letters"
  have "sorted ?names" by code_simp
  moreover have "length ex_letters - HARP_ARCHIVE_KEEP = 1" by code_simp
  ultimately have "newest ?names = tl ?names"
    by (simp add: newest_def sorted_sort_id drop_Suc)
  moreover have "set ?names - set (tl ?names) = {str ''archive/0''}" by code_simp
  moreover have "flt_remove (sto_flt ex_archive) = (\<lambda>p. False)" by (simp add: ex_archive_def ex_store_def no_faults_def)
  ultimately show ?thesis using prune_keeps_newest [OF _ ex_archive_names [symmetric]] by metis
qed

end
