(* ===== verification/Harp_Client.thy ===== *)
theory Harp_Client
  imports Harp_Session
begin

text \<open>
  \<^verbatim>\<open>host/client.c\<close>: the host's side of the protocol.  A client holds its transport, the local store, the credit of both
  directions and the queue of objects it still has to send.  The results of \<^verbatim>\<open>harp_link_recv\<close> on its connection are the
  list \<open>cl_in\<close>; an empty list is a link that fails.  Every request therefore returns, and the theorems hold for all that a
  device may answer.  The callback \<^verbatim>\<open>on_ntf\<close> is represented by the list of envelopes it was called with, and the two
  environment variables that the code reads are fields.
\<close>

unbundle bit_operations_syntax

section \<open>Readers that fail\<close>

text \<open>\<^verbatim>\<open>if (!f(b, &x)) return false;\<close> and the rest; a loop over the keys of a map with the same exits.\<close>

type_synonym 'a reader = "harp_cdec \<Rightarrow> 'a option \<times> harp_cdec"

definition and_then :: "'a reader \<Rightarrow> ('a \<Rightarrow> 'b reader) \<Rightarrow> 'b reader" where
  "and_then f k c = (case f c of (None, c) \<Rightarrow> (None, c) | (Some x, c) \<Rightarrow> k x c)"

definition ret :: "'a \<Rightarrow> 'a reader" where
  "ret x c = (Some x, c)"

definition each_key :: "(u64 \<Rightarrow> 's \<Rightarrow> 's reader) \<Rightarrow> 's \<Rightarrow> 's reader" where
  "each_key f s = and_then harp_cdec_map (\<lambda>n. loop_dec (\<lambda>s. and_then harp_cdec_uint (\<lambda>key. f key s)) (unat n) s)"

definition each_item :: "('s \<Rightarrow> 's reader) \<Rightarrow> 's \<Rightarrow> 's reader" where
  "each_item f s = and_then harp_cdec_array (\<lambda>n. loop_dec f (unat n) s)"

definition skip_key :: "'s \<Rightarrow> 's reader" where
  "skip_key s = and_then harp_cdec_skip (\<lambda>u. ret s)"

text \<open>A text that must fit a buffer of \<open>cap\<close> bytes with its terminator.\<close>

definition text_below :: "nat \<Rightarrow> bytes reader" where
  "text_below cap = and_then harp_cdec_text (\<lambda>s c. if length s \<ge> cap then (None, c) else (Some (cstr s), c))"

text \<open>\<^verbatim>\<open>harp_cdec_map(&b, &n) && n >= 1 && harp_cdec_uint(&b, &key) && key == 0\<close>\<close>

definition first_key0 :: "unit reader" where
  "first_key0 = and_then harp_cdec_map (\<lambda>n c. if n \<ge> 1 then
     and_then harp_cdec_uint (\<lambda>key c. (if key = 0 then Some () else None, c)) c else (None, c))"

definition body_read :: "harp_env \<Rightarrow> 'a reader \<Rightarrow> 'a option" where
  "body_read e f = (if e_has_body e then fst (f (harp_cdec_init (e_body e))) else None)"

section \<open>The client\<close>

definition HARP_CLIENT_EIO :: int where "HARP_CLIENT_EIO = - 1"
definition HARP_CLIENT_EDEV :: int where "HARP_CLIENT_EDEV = - 2"
definition HARP_CLIENT_EINCOMPAT :: int where "HARP_CLIENT_EINCOMPAT = - 3"
definition HARP_CLIENT_MAX_CLOSURE :: nat where "HARP_CLIENT_MAX_CLOSURE = 512"
definition HARP_CLIENT_SENDQ_CAP :: nat where "HARP_CLIENT_SENDQ_CAP = 1024"
definition HARP_CLIENT_MAX_CAPS :: nat where "HARP_CLIENT_MAX_CAPS = 32"
definition HARP_CLIENT_MAX_LAT :: nat where "HARP_CLIENT_MAX_LAT = 8"

record 's harp_client =
  cl_io :: "'s dev_io"
  cl_in :: "(u8 \<times> bytes) list"
  cl_store :: "harp_store option"
  cl_msg :: bytes
  cl_next_rid :: u64
  cl_peer_credit :: u64
  cl_granted :: u64
  cl_sendq :: "harp_hash list"
  cl_sendq_head :: nat
  cl_sendq_tail :: nat
  cl_sendq_count :: nat
  cl_obj_drops :: u64
  cl_on_ntf :: bool
  cl_err_method :: bytes
  cl_err_code :: bytes
  cl_err_msg :: bytes
  cl_incompat_major_min :: u32
  cl_incompat_major_max :: u32
  cl_last_changed_topic :: bytes
  cl_changed_pending :: bool
  cl_alloc :: harp_cbuf
  cl_force_credit :: u64
  cl_force_major :: "u64 option"
  cl_ntfs :: "harp_env list"
  cl_sent :: "(u8 \<times> bytes) list"

definition harp_client_init :: "'s dev_io \<Rightarrow> (u8 \<times> bytes) list \<Rightarrow> harp_store option \<Rightarrow> bool \<Rightarrow> harp_cbuf \<Rightarrow> u64 \<Rightarrow> u64 option
    \<Rightarrow> 's harp_client" where
  "harp_client_init io inp store on_ntf alloc fc fm =
     \<lparr>cl_io = io, cl_in = inp, cl_store = store, cl_msg = [], cl_next_rid = 0, cl_peer_credit = 0, cl_granted = 0,
      cl_sendq = replicate HARP_CLIENT_SENDQ_CAP (replicate HARP_HASH_LEN 0), cl_sendq_head = 0, cl_sendq_tail = 0,
      cl_sendq_count = 0, cl_obj_drops = 0, cl_on_ntf = on_ntf, cl_err_method = [], cl_err_code = [], cl_err_msg = [],
      cl_incompat_major_min = 0, cl_incompat_major_max = 0, cl_last_changed_topic = [], cl_changed_pending = False,
      cl_alloc = alloc, cl_force_credit = fc, cl_force_major = fm, cl_ntfs = [], cl_sent = []\<rparr>"

abbreviation cl_cbuf :: "'s harp_client \<Rightarrow> harp_cbuf" where
  "cl_cbuf c \<equiv> harp_cbuf_init (cl_alloc c)"

text \<open>\<^verbatim>\<open>harp_link_send\<close> on the client's transport; 0 is \<open>True\<close>.\<close>

definition client_link_send :: "u8 \<Rightarrow> bytes \<Rightarrow> 's harp_client \<Rightarrow> bool \<times> 's harp_client" where
  "client_link_send stream msg c =
     (let io = cl_io c
      in case harp_link_send (dio_write io) (dio_pct io) stream (dio_cf io) msg (dio_state io) of
           (rc, cf, s) \<Rightarrow>
             (rc = 0, c\<lparr>cl_io := io\<lparr>dio_cf := cf, dio_state := s\<rparr>, cl_sent := cl_sent c @ [(stream, msg)]\<rparr>))"

definition call_on_ntf :: "harp_env \<Rightarrow> 's harp_client \<Rightarrow> 's harp_client" where
  "call_on_ntf e c = (if cl_on_ntf c then c\<lparr>cl_ntfs := cl_ntfs c @ [e]\<rparr> else c)"

definition handle_ntf :: "harp_env \<Rightarrow> 's harp_client \<Rightarrow> 's harp_client" where
  "handle_ntf e c =
     (if e_method e = str ''core.credit'' \<and> e_has_body e then
        (case body_read e (and_then first_key0 (\<lambda>u. harp_cdec_uint)) of
           None \<Rightarrow> c
         | Some v \<Rightarrow> c\<lparr>cl_peer_credit := cl_peer_credit c + v\<rparr>)
      else if e_method e = str ''core.changed'' \<and> e_has_body e then
        call_on_ntf e
          (case body_read e (and_then first_key0 (\<lambda>u. harp_cdec_text)) of
             None \<Rightarrow> c
           | Some s \<Rightarrow> c\<lparr>cl_last_changed_topic := cstr (take 31 s), cl_changed_pending := True\<rparr>)
      else call_on_ntf e c)"

definition client_grant :: "'s harp_client \<Rightarrow> bool \<times> 's harp_client" where
  "client_grant c =
     (let amt = (if cl_force_credit c \<noteq> 0 then cl_force_credit c else CREDIT_GRANT);
          m = put_calls (harp_env_head (cl_cbuf c) HARP_MSG_NOTIFICATION 0 (str ''core.credit'') True) [Map 1, U 0, U amt]
      in case client_link_send HARP_STREAM_CTL (cb_buf m) c of
           (True, c) \<Rightarrow> (True, c\<lparr>cl_granted := cl_granted c + amt\<rparr>)
         | (False, c) \<Rightarrow> (False, c))"

text \<open>
  One message.  The first component is false if the transport failed or a control message could not be parsed; the
  second is the control message that is no notification, if it was one.
\<close>

definition pump_obj :: "bytes \<Rightarrow> 's harp_client \<Rightarrow> 's harp_client" where
  "pump_obj msg c =
     (let c = (case cl_store c of
                 None \<Rightarrow> c
               | Some st \<Rightarrow> if harp_obj_kind msg \<ge> 0 then c\<lparr>cl_store := Some (snd (snd (harp_store_put st msg)))\<rparr> else c);
          got = of_nat (length msg);
          c = (if cl_granted c \<ge> got then c\<lparr>cl_granted := cl_granted c - got\<rparr> else c\<lparr>cl_granted := 0\<rparr>)
      in if cl_granted c < CREDIT_GRANT div 2 then snd (client_grant c) else c)"

definition pump_one :: "'s harp_client \<Rightarrow> bool \<times> harp_env option \<times> 's harp_client" where
  "pump_one c =
     (case cl_in c of
        [] \<Rightarrow> (False, None, c)
      | (stream, msg) # rest \<Rightarrow>
          let c = c\<lparr>cl_in := rest, cl_msg := msg\<rparr>
          in if stream = HARP_STREAM_OBJ then (True, None, pump_obj msg c)
             else if stream \<noteq> HARP_STREAM_CTL then (True, None, c)
             else case harp_env_parse msg of
                    None \<Rightarrow> (False, None, c)
                  | Some e \<Rightarrow>
                      if e_msgtype e = HARP_MSG_NOTIFICATION then (True, None, handle_ntf e c) else (True, Some e, c))"

section \<open>The object queue\<close>

definition csendq_push :: "'s harp_client \<Rightarrow> harp_hash \<Rightarrow> 's harp_client" where
  "csendq_push c h =
     (if cl_sendq_count c = HARP_CLIENT_SENDQ_CAP then c\<lparr>cl_obj_drops := cl_obj_drops c + 1\<rparr>
      else c\<lparr>cl_sendq := (cl_sendq c)[cl_sendq_tail c := h],
             cl_sendq_tail := (cl_sendq_tail c + 1) mod HARP_CLIENT_SENDQ_CAP,
             cl_sendq_count := cl_sendq_count c + 1\<rparr>)"

definition csendq_pop :: "'s harp_client \<Rightarrow> 's harp_client" where
  "csendq_pop c =
     c\<lparr>cl_sendq_head := (cl_sendq_head c + 1) mod HARP_CLIENT_SENDQ_CAP, cl_sendq_count := cl_sendq_count c - 1\<rparr>"

lemma handle_ntf_frame [simp]:
  "cl_sendq_count (handle_ntf e c) = cl_sendq_count c" "cl_sendq_head (handle_ntf e c) = cl_sendq_head c"
  "cl_sendq_tail (handle_ntf e c) = cl_sendq_tail c" "cl_sendq (handle_ntf e c) = cl_sendq c"
  "cl_in (handle_ntf e c) = cl_in c" "cl_store (handle_ntf e c) = cl_store c" "cl_sent (handle_ntf e c) = cl_sent c"
  "cl_alloc (handle_ntf e c) = cl_alloc c" "cl_next_rid (handle_ntf e c) = cl_next_rid c"
  by (auto simp: handle_ntf_def call_on_ntf_def split: option.split)

lemma client_link_send_frame [simp]:
  "cl_sendq_count (snd (client_link_send st m c)) = cl_sendq_count c"
  "cl_sendq_head (snd (client_link_send st m c)) = cl_sendq_head c"
  "cl_sendq_tail (snd (client_link_send st m c)) = cl_sendq_tail c"
  "cl_sendq (snd (client_link_send st m c)) = cl_sendq c" "cl_in (snd (client_link_send st m c)) = cl_in c"
  "cl_store (snd (client_link_send st m c)) = cl_store c" "cl_alloc (snd (client_link_send st m c)) = cl_alloc c"
  "cl_peer_credit (snd (client_link_send st m c)) = cl_peer_credit c"
  "cl_next_rid (snd (client_link_send st m c)) = cl_next_rid c"
  by (simp_all add: client_link_send_def Let_def split: prod.split)

lemma client_grant_frame [simp]:
  "cl_sendq_count (snd (client_grant c)) = cl_sendq_count c" "cl_sendq_head (snd (client_grant c)) = cl_sendq_head c"
  "cl_sendq_tail (snd (client_grant c)) = cl_sendq_tail c" "cl_sendq (snd (client_grant c)) = cl_sendq c"
  "cl_in (snd (client_grant c)) = cl_in c" "cl_store (snd (client_grant c)) = cl_store c"
  "cl_alloc (snd (client_grant c)) = cl_alloc c" "cl_peer_credit (snd (client_grant c)) = cl_peer_credit c"
  "cl_next_rid (snd (client_grant c)) = cl_next_rid c"
proof -
  define m where "m = cb_buf (put_calls (harp_env_head (cl_cbuf c) HARP_MSG_NOTIFICATION 0 (str ''core.credit'') True)
    [Map 1, U 0, U (if cl_force_credit c \<noteq> 0 then cl_force_credit c else CREDIT_GRANT)])"
  obtain rc c' where s: "client_link_send HARP_STREAM_CTL m c = (rc, c')" by fastforce
  note f = client_link_send_frame [of HARP_STREAM_CTL m c]
  show "cl_sendq_count (snd (client_grant c)) = cl_sendq_count c" "cl_sendq_head (snd (client_grant c)) = cl_sendq_head c"
    "cl_sendq_tail (snd (client_grant c)) = cl_sendq_tail c" "cl_sendq (snd (client_grant c)) = cl_sendq c"
    "cl_in (snd (client_grant c)) = cl_in c" "cl_store (snd (client_grant c)) = cl_store c"
    "cl_alloc (snd (client_grant c)) = cl_alloc c" "cl_peer_credit (snd (client_grant c)) = cl_peer_credit c"
    "cl_next_rid (snd (client_grant c)) = cl_next_rid c"
    using s f by (simp_all add: client_grant_def m_def Let_def split: bool.split)
qed

lemma pump_obj_frame [simp]:
  "cl_sendq_count (pump_obj m c) = cl_sendq_count c" "cl_sendq_head (pump_obj m c) = cl_sendq_head c"
  "cl_sendq_tail (pump_obj m c) = cl_sendq_tail c" "cl_sendq (pump_obj m c) = cl_sendq c"
  "cl_in (pump_obj m c) = cl_in c" "cl_alloc (pump_obj m c) = cl_alloc c"
  "cl_peer_credit (pump_obj m c) = cl_peer_credit c" "cl_next_rid (pump_obj m c) = cl_next_rid c"
  by (simp_all add: pump_obj_def Let_def split: option.split)

lemma pump_one_frame [simp]:
  "cl_sendq_count (snd (snd (pump_one c))) = cl_sendq_count c" "cl_sendq_head (snd (snd (pump_one c))) = cl_sendq_head c"
  "cl_sendq_tail (snd (snd (pump_one c))) = cl_sendq_tail c" "cl_sendq (snd (snd (pump_one c))) = cl_sendq c"
  "cl_alloc (snd (snd (pump_one c))) = cl_alloc c" "cl_next_rid (snd (snd (pump_one c))) = cl_next_rid c"
  "cl_in (snd (snd (pump_one c))) = tl (cl_in c)" "fst (pump_one c) \<Longrightarrow> cl_in c \<noteq> []"
  by (auto simp: pump_one_def Let_def split: list.split option.split prod.split)

lemma pump_one_less: "fst (pump_one c) \<Longrightarrow> length (cl_in c) - Suc 0 < length (cl_in c)"
  using pump_one_frame(8) [of c] by (cases "cl_in c") simp_all

text \<open>\<^verbatim>\<open>while (enc.len > c->peer_credit)\<close>: wait for a grant, at most 100000 messages over all objects of a flush.\<close>

function csendq_wait :: "nat \<Rightarrow> nat \<Rightarrow> 's harp_client \<Rightarrow> bool \<times> nat \<times> 's harp_client" where
  "csendq_wait len spins c =
     (if \<not> len > unat (cl_peer_credit c) then (True, spins, c)
      else if spins + 1 > 100000 then (False, spins + 1, c)
      else case pump_one c of
             (False, ctl, c) \<Rightarrow> (False, spins + 1, c)
           | (True, ctl, c) \<Rightarrow> csendq_wait len (spins + 1) c)"
  by pat_completeness auto
termination
  by (relation "measure (\<lambda>(len, spins, c). 100000 - spins)") auto

declare csendq_wait.simps [simp del]

lemma csendq_wait_frame [simp]:
  "cl_sendq_count (snd (snd (csendq_wait len spins c))) = cl_sendq_count c \<and>
   cl_sendq_head (snd (snd (csendq_wait len spins c))) = cl_sendq_head c \<and>
   cl_sendq_tail (snd (snd (csendq_wait len spins c))) = cl_sendq_tail c \<and>
   cl_sendq (snd (snd (csendq_wait len spins c))) = cl_sendq c"
proof (induction len spins c rule: csendq_wait.induct)
  case (1 len spins c)
  obtain ok ctl c' where p: "pump_one c = (ok, ctl, c')" by (metis prod_cases3)
  note f = pump_one_frame [of c, unfolded p, simplified]
  show ?case using 1 p f by (subst (1 2 3 4) csendq_wait.simps) (cases ok; simp)
qed

text \<open>\<^verbatim>\<open>while (c->sendq_count)\<close>\<close>

function csendq_drain :: "harp_cbuf \<Rightarrow> nat \<Rightarrow> 's harp_client \<Rightarrow> bool \<times> 's harp_client" where
  "csendq_drain enc spins c =
     (if cl_sendq_count c = 0 then (True, c)
      else case cl_store c of
             None \<Rightarrow> (False, c)
           | Some st \<Rightarrow>
               (case harp_store_get st (cl_sendq c ! cl_sendq_head c) (harp_cbuf_reset enc) of
                  (False, enc) \<Rightarrow> (False, c)
                | (True, enc) \<Rightarrow>
                    let w = csendq_wait (length (cb_buf enc)) spins c
                    in if \<not> fst w then (False, snd (snd w))
                       else let c = snd (snd w);
                                c = c\<lparr>cl_peer_credit := cl_peer_credit c - of_nat (length (cb_buf enc))\<rparr>;
                                s = client_link_send HARP_STREAM_OBJ (cb_buf enc) c
                            in if \<not> fst s then (False, snd s)
                               else csendq_drain enc (fst (snd w)) (csendq_pop (snd s))))"
  by pat_completeness auto
termination
  by (relation "measure (\<lambda>(enc, spins, c). cl_sendq_count c)") (auto simp: csendq_pop_def)

declare csendq_drain.simps [simp del]

definition csendq_flush :: "'s harp_client \<Rightarrow> int \<times> 's harp_client" where
  "csendq_flush c =
     (case csendq_drain (cl_cbuf c) 0 c of
        (True, c) \<Rightarrow> (0, c)
      | (False, c) \<Rightarrow> (HARP_CLIENT_EIO, c\<lparr>cl_sendq_head := 0, cl_sendq_tail := 0, cl_sendq_count := 0\<rparr>))"

section \<open>Requests\<close>

definition harp_client_req_head :: "bytes \<Rightarrow> bool \<Rightarrow> harp_cbuf \<Rightarrow> 's harp_client \<Rightarrow> harp_cbuf \<times> 's harp_client" where
  "harp_client_req_head method has_body out c =
     (let out = harp_cbuf_reset out; c = c\<lparr>cl_next_rid := cl_next_rid c + 1\<rparr>
      in (harp_env_head out HARP_MSG_REQUEST (cl_next_rid c) method has_body, c))"

definition harp_client_send :: "harp_cbuf \<Rightarrow> 's harp_client \<Rightarrow> int \<times> 's harp_client" where
  "harp_client_send req c =
     (let c = c\<lparr>cl_err_code := [], cl_err_msg := []\<rparr>
      in case client_link_send HARP_STREAM_CTL (cb_buf req) c of
           (ok, c) \<Rightarrow> (if ok then 0 else HARP_CLIENT_EIO, c))"

text \<open>The body of an error reply.\<close>

definition major_field :: "'s harp_client \<Rightarrow> harp_cdec \<Rightarrow> bool \<times> 's harp_client \<times> harp_cdec" where
  "major_field c b =
     (case and_then harp_cdec_uint (\<lambda>dk. and_then harp_cdec_uint (\<lambda>dv. ret (dk, dv))) b of
        (None, b) \<Rightarrow> (False, c, b)
      | (Some (dk, dv), b) \<Rightarrow>
          (True, if dk = 0 then c\<lparr>cl_incompat_major_min := ucast dv\<rparr>
                 else if dk = 1 then c\<lparr>cl_incompat_major_max := ucast dv\<rparr> else c, b))"

definition error_field :: "u64 \<Rightarrow> 's harp_client \<Rightarrow> harp_cdec \<Rightarrow> bool \<times> 's harp_client \<times> harp_cdec" where
  "error_field key c b =
     (if key = 0 then rd_opt True (text_below 64) (\<lambda>s. cl_err_code_update (\<lambda>_. s)) c b
      else if key = 1 then rd_opt True (text_below 128) (\<lambda>s. cl_err_msg_update (\<lambda>_. s)) c b
      else if key = 2 \<and> cl_err_code c = str ''incompatible'' then
        (case harp_cdec_map b of
           (None, b) \<Rightarrow> (True, c, b)
         | (Some dn, b) \<Rightarrow> (True, loop_brk major_field (unat dn) c b))
      else rd_skip False c b)"

definition take_error :: "harp_env \<Rightarrow> 's harp_client \<Rightarrow> 's harp_client" where
  "take_error pe c =
     body_loop error_field (c\<lparr>cl_err_method := snprintf 64 (e_method pe), cl_err_code := str ''?''\<rparr>) pe"

function harp_client_wait :: "u64 \<Rightarrow> harp_cbuf \<Rightarrow> 's harp_client \<Rightarrow> int \<times> harp_env option \<times> harp_cbuf \<times> 's harp_client" where
  "harp_client_wait rid rsp c =
     (let p = pump_one c; c' = snd (snd p)
      in if \<not> fst p then (HARP_CLIENT_EIO, None, rsp, c')
         else case fst (snd p) of
                None \<Rightarrow> harp_client_wait rid rsp c'
              | Some pe \<Rightarrow>
                  if e_rid pe \<noteq> rid then harp_client_wait rid rsp c'
                  else if e_msgtype pe = HARP_MSG_ERROR then (HARP_CLIENT_EDEV, None, rsp, take_error pe c')
                  else let rsp = harp_cbuf_put (harp_cbuf_reset rsp) (cl_msg c')
                       in case harp_env_parse (cb_buf rsp) of
                            None \<Rightarrow> (HARP_CLIENT_EIO, None, rsp, c')
                          | Some e \<Rightarrow> (0, Some e, rsp, c'))"
  by pat_completeness auto
termination
  by (relation "measure (\<lambda>(rid, rsp, c). length (cl_in c))") (simp_all add: pump_one_less)

declare harp_client_wait.simps [simp del]

definition harp_client_request :: "harp_cbuf \<Rightarrow> harp_cbuf \<Rightarrow> 's harp_client
    \<Rightarrow> int \<times> harp_env option \<times> harp_cbuf \<times> 's harp_client" where
  "harp_client_request req rsp c =
     (let rid = cl_next_rid c
      in case harp_client_send req c of
           (rc, c) \<Rightarrow> if rc \<noteq> 0 then (rc, None, rsp, c) else harp_client_wait rid rsp c)"

text \<open>A request built by encoder calls, with fresh buffers.\<close>

definition client_call :: "bytes \<Rightarrow> call list option \<Rightarrow> 's harp_client \<Rightarrow> int \<times> harp_env option \<times> 's harp_client" where
  "client_call method body c =
     (case harp_client_req_head method (body \<noteq> None) (cl_cbuf c) c of
        (m, c) \<Rightarrow>
          (case harp_client_request (case body of None \<Rightarrow> m | Some cs \<Rightarrow> put_calls m cs) (cl_cbuf c) c of
             (rc, e, rsp, c) \<Rightarrow> (rc, e, c)))"

section \<open>Hello and identity\<close>

record lat_profile =
  lp_rate :: u32
  lp_in_lat :: u32
  lp_out_lat :: u32
  lp_buf_depth :: u32

record harp_client_identity =
  ci_vendor :: bytes
  ci_product :: bytes
  ci_vendor_id :: u32
  ci_product_id :: u32
  ci_serial :: bytes
  ci_fw :: bytes
  ci_engine_id :: bytes
  ci_engine_ver :: bytes
  ci_param_map_hash :: harp_hash
  ci_boot_count :: u64
  ci_txn_max :: u64
  ci_txn_events :: u64
  ci_eth_target_floor :: u32
  ci_eth_nsamples :: u32
  ci_caps :: "bytes list"
  ci_lat :: "lat_profile list"

definition identity_zero :: harp_client_identity where
  "identity_zero = \<lparr>ci_vendor = [], ci_product = [], ci_vendor_id = 0, ci_product_id = 0, ci_serial = [], ci_fw = [],
     ci_engine_id = [], ci_engine_ver = [], ci_param_map_hash = replicate HARP_HASH_LEN 0, ci_boot_count = 0,
     ci_txn_max = 0, ci_txn_events = 0, ci_eth_target_floor = 0, ci_eth_nsamples = 0, ci_caps = [], ci_lat = []\<rparr>"

text \<open>Vendor and product: the id in the local \<open>uid\<close>, and the name unless it is too long for its buffer.\<close>

definition named_field :: "u64 \<Rightarrow> u64 \<times> bytes \<Rightarrow> (u64 \<times> bytes) reader" where
  "named_field mkey s =
     (if mkey = 0 then and_then harp_cdec_uint (\<lambda>uid. ret (uid, snd s))
      else if mkey = 1 then and_then harp_cdec_text (\<lambda>t. ret (fst s, if length t < 64 then cstr t else snd s))
      else skip_key s)"

definition engine_field :: "u64 \<Rightarrow> harp_client_identity \<Rightarrow> harp_client_identity reader" where
  "engine_field mkey i =
     (if mkey = 0 then and_then (text_below 64) (\<lambda>t. ret (i\<lparr>ci_engine_id := t\<rparr>))
      else if mkey = 1 then and_then (text_below 32) (\<lambda>t. ret (i\<lparr>ci_engine_ver := t\<rparr>))
      else if mkey = 2 then and_then harp_hash_read (\<lambda>h. ret (i\<lparr>ci_param_map_hash := h\<rparr>))
      else skip_key i)"

definition cap_item :: "bytes list \<Rightarrow> bytes list reader" where
  "cap_item caps =
     and_then harp_cdec_text
       (\<lambda>t. ret (if length caps < HARP_CLIENT_MAX_CAPS \<and> length t < 32 then caps @ [cstr t] else caps))"

definition lat_field :: "u64 \<Rightarrow> lat_profile \<Rightarrow> lat_profile reader" where
  "lat_field mkey l =
     (if mkey = 0 then and_then harp_cdec_uint (\<lambda>v. ret (l\<lparr>lp_rate := ucast v\<rparr>))
      else if mkey = 1 then and_then harp_cdec_uint (\<lambda>v. ret (l\<lparr>lp_in_lat := ucast v\<rparr>))
      else if mkey = 2 then and_then harp_cdec_uint (\<lambda>v. ret (l\<lparr>lp_out_lat := ucast v\<rparr>))
      else if mkey = 3 then and_then harp_cdec_uint (\<lambda>v. ret (l\<lparr>lp_buf_depth := ucast v\<rparr>))
      else skip_key l)"

definition lat_item :: "lat_profile list \<Rightarrow> lat_profile list reader" where
  "lat_item ls =
     and_then (each_key lat_field \<lparr>lp_rate = 0, lp_in_lat = 0, lp_out_lat = 0, lp_buf_depth = 0\<rparr>)
       (\<lambda>l. ret (if length ls < HARP_CLIENT_MAX_LAT then ls @ [l] else ls))"

definition txn_limit_field :: "u64 \<Rightarrow> harp_client_identity \<Rightarrow> harp_client_identity reader" where
  "txn_limit_field k i =
     (if k = 0 then and_then harp_cdec_uint (\<lambda>v. ret (i\<lparr>ci_txn_max := v\<rparr>))
      else if k = 1 then and_then harp_cdec_uint (\<lambda>v. ret (i\<lparr>ci_txn_events := v\<rparr>))
      else skip_key i)"

definition rt_field :: "u64 \<Rightarrow> harp_client_identity \<Rightarrow> harp_client_identity reader" where
  "rt_field k i =
     (if k = 0 then and_then harp_cdec_uint (\<lambda>v. ret (i\<lparr>ci_eth_target_floor := ucast v\<rparr>))
      else if k = 1 then and_then harp_cdec_uint (\<lambda>v. ret (i\<lparr>ci_eth_nsamples := ucast v\<rparr>))
      else skip_key i)"

definition identity_field :: "u64 \<Rightarrow> harp_client_identity \<Rightarrow> harp_client_identity reader" where
  "identity_field key i =
     (if key = 0 then
        and_then (each_key named_field (0, ci_vendor i)) (\<lambda>s. ret (i\<lparr>ci_vendor := snd s, ci_vendor_id := ucast (fst s)\<rparr>))
      else if key = 1 then
        and_then (each_key named_field (0, ci_product i)) (\<lambda>s. ret (i\<lparr>ci_product := snd s, ci_product_id := ucast (fst s)\<rparr>))
      else if key = 2 then and_then (text_below 64) (\<lambda>t. ret (i\<lparr>ci_serial := t\<rparr>))
      else if key = 3 then and_then (text_below 32) (\<lambda>t. ret (i\<lparr>ci_fw := t\<rparr>))
      else if key = 4 then each_key engine_field i
      else if key = 6 then and_then (each_item cap_item (ci_caps i)) (\<lambda>cs. ret (i\<lparr>ci_caps := cs\<rparr>))
      else if key = 8 then and_then (each_item lat_item (ci_lat i)) (\<lambda>ls. ret (i\<lparr>ci_lat := ls\<rparr>))
      else if key = 10 then and_then harp_cdec_uint (\<lambda>v. ret (i\<lparr>ci_boot_count := v\<rparr>))
      else if key = 13 then each_key txn_limit_field i
      else if key = 14 then each_key rt_field i
      else skip_key i)"

definition parse_identity :: "harp_client_identity reader" where
  "parse_identity = each_key identity_field identity_zero"

definition harp_client_has_cap :: "harp_client_identity \<Rightarrow> bytes \<Rightarrow> bool" where
  "harp_client_has_cap i cap \<longleftrightarrow> cap \<in> set (ci_caps i)"

text \<open>The reply to hello wraps the identity under key 1; the loop also ends on a decoding error.\<close>

definition hello_reply_field :: "harp_client_identity option \<Rightarrow> harp_cdec \<Rightarrow> bool \<times> harp_client_identity option \<times> harp_cdec" where
  "hello_reply_field i b =
     (if cd_err b then (False, i, b)
      else with_key (\<lambda>key i b. if key = 1 then (case parse_identity b of (i, b) \<Rightarrow> (True, i, b)) else rd_skip True i b) i b)"

definition hello_reply :: "harp_env \<Rightarrow> harp_client_identity option" where
  "hello_reply e =
     (if \<not> e_has_body e then None
      else case harp_cdec_map (harp_cdec_init (e_body e)) of
             (None, b) \<Rightarrow> None
           | (Some n, b) \<Rightarrow> fst (loop_brk hello_reply_field (unat n) None b))"

definition hello_calls :: "u64 \<Rightarrow> bytes \<Rightarrow> call list" where
  "hello_calls major agent = [Map 2, U 0, Arr 2, U major, U 0, U 1, T agent]"

definition harp_client_hello :: "bytes \<Rightarrow> 's harp_client \<Rightarrow> int \<times> harp_client_identity option \<times> 's harp_client" where
  "harp_client_hello agent c =
     (case client_call (str ''core.hello'')
             (Some (hello_calls (case cl_force_major c of None \<Rightarrow> 1 | Some v \<Rightarrow> v) agent)) c of
        (rc, e, c) \<Rightarrow>
          let out = (if rc = 0 then Option.bind e hello_reply else None)
          in if rc \<noteq> 0 then
               (if rc = HARP_CLIENT_EDEV \<and> cl_err_code c = str ''incompatible'' then HARP_CLIENT_EINCOMPAT else rc, None, c)
             else if out = None then (HARP_CLIENT_EIO, None, c)
             else case client_grant (c\<lparr>cl_granted := 0\<rparr>) of
                    (True, c) \<Rightarrow> (0, out, c)
                  | (False, c) \<Rightarrow> (HARP_CLIENT_EIO, out, c))"

definition harp_client_identify :: "'s harp_client \<Rightarrow> int \<times> harp_client_identity option \<times> 's harp_client" where
  "harp_client_identify c =
     (case client_call (str ''core.identify'') None c of
        (rc, e, c) \<Rightarrow>
          let out = (if rc = 0 then Option.bind e (\<lambda>e. body_read e parse_identity) else None)
          in (if rc \<noteq> 0 then rc else if out \<noteq> None then 0 else HARP_CLIENT_EIO, out, c))"

definition ping_nonce :: "u64 \<Rightarrow> bytes" where
  "ping_nonce r = [ucast r, ucast (drop_bit 8 r), ucast (drop_bit 16 r), ucast (drop_bit 24 r)]"

definition harp_client_ping :: "'s harp_client \<Rightarrow> int \<times> 's harp_client" where
  "harp_client_ping c =
     (let nonce = ping_nonce (cl_next_rid c + 1)
      in case client_call (str ''core.ping'') (Some [B nonce]) c of
           (rc, e, c) \<Rightarrow>
             (if rc \<noteq> 0 then rc
              else if Option.bind e (\<lambda>e. body_read e harp_cdec_bytes) = Some nonce then 0 else HARP_CLIENT_EIO, c))"

definition harp_client_bye :: "'s harp_client \<Rightarrow> int \<times> 's harp_client" where
  "harp_client_bye c = (case client_call (str ''core.bye'') None c of (rc, e, c) \<Rightarrow> (rc, c))"

section \<open>Refs and snapshots\<close>

definition collect_ref :: "nat \<Rightarrow> harp_ref list \<Rightarrow> harp_cdec \<Rightarrow> bool \<times> harp_ref list \<times> harp_cdec" where
  "collect_ref cap rs b =
     (if \<not> length rs < cap then (False, rs, b)
      else case harp_ref_decode b of (None, b) \<Rightarrow> (False, rs, b) | (Some r, b) \<Rightarrow> (True, rs @ [r], b))"

definition harp_client_refs :: "nat \<Rightarrow> 's harp_client \<Rightarrow> int \<times> harp_ref list \<times> 's harp_client" where
  "harp_client_refs cap c =
     (case client_call (str ''state.refs'') None c of
        (rc, e, c) \<Rightarrow>
          (rc,
           if rc \<noteq> 0 then []
           else case Option.bind e (\<lambda>e. body_read e
                       (and_then first_key0 (\<lambda>u. and_then harp_cdec_array
                          (\<lambda>alen b. case loop_brk (collect_ref cap) (unat alen) [] b of (rs, b) \<Rightarrow> (Some rs, b))))) of
                  None \<Rightarrow> [] | Some rs \<Rightarrow> rs,
           c))"

definition seek_ref :: "bytes \<Rightarrow> harp_ref option \<Rightarrow> harp_cdec \<Rightarrow> bool \<times> harp_ref option \<times> harp_cdec" where
  "seek_ref name found b =
     (case harp_ref_decode b of
        (None, b) \<Rightarrow> (False, found, b)
      | (Some r, b) \<Rightarrow> if rf_name r = name then (False, Some r, b) else (True, found, b))"

definition harp_client_find_ref :: "bytes \<Rightarrow> 's harp_client \<Rightarrow> int \<times> harp_ref option \<times> 's harp_client" where
  "harp_client_find_ref name c =
     (case client_call (str ''state.refs'') (Some [Map 1, U 0, T name]) c of
        (rc, e, c) \<Rightarrow>
          let out = (if rc = 0 then
                 Option.bind e (\<lambda>e. body_read e
                   (and_then first_key0 (\<lambda>u. and_then harp_cdec_array (\<lambda>alen. loop_brk (seek_ref name) (unat alen) None))))
               else None)
          in (if rc \<noteq> 0 then rc else if out \<noteq> None then 0 else HARP_CLIENT_EIO, out, c))"

definition harp_client_snapshot :: "bytes \<Rightarrow> bytes option \<Rightarrow> 's harp_client \<Rightarrow> int \<times> harp_hash option \<times> 's harp_client" where
  "harp_client_snapshot refname msg c =
     (case client_call (str ''state.snapshot'')
             (Some ([Map (if msg \<noteq> None then 2 else 1), U 0, T refname] @
                    (case msg of None \<Rightarrow> [] | Some m \<Rightarrow> [U 1, T m]))) c of
        (rc, e, c) \<Rightarrow>
          let out = (if rc = 0 then Option.bind e (\<lambda>e. body_read e (and_then first_key0 (\<lambda>u. harp_hash_read))) else None)
          in (if rc \<noteq> 0 then rc else if out \<noteq> None then 0 else HARP_CLIENT_EIO, out, c))"

section \<open>Closure transfer\<close>

definition list_collect :: "harp_hash list harp_hash_cb" where
  "list_collect h l =
     (True, if \<not> list_ex (\<lambda>x. harp_hash_eq x h) l \<and> length l < HARP_CLIENT_MAX_CLOSURE then l @ [h] else l)"

text \<open>The children of an object that can be read; parents are history and not followed.\<close>

definition expand_child :: "harp_cbuf \<Rightarrow> harp_store \<Rightarrow> harp_hash \<Rightarrow> harp_hash list \<Rightarrow> bool \<times> harp_hash list" where
  "expand_child b0 st h l =
     (case harp_store_get st h b0 of
        (False, enc) \<Rightarrow> (False, l)
      | (True, enc) \<Rightarrow> (True, snd (harp_obj_foreach_child (cb_buf enc) False list_collect l)))"

definition expand_from :: "harp_cbuf \<Rightarrow> harp_store \<Rightarrow> nat \<Rightarrow> harp_hash list \<Rightarrow> harp_hash list" where
  "expand_from b0 st cursor l = fold (\<lambda>i l. snd (expand_child b0 st (l ! i) l)) [cursor..<length l] l"

text \<open>Waiting for the wanted objects, at most 4096 messages.\<close>

function fetch_wait :: "harp_hash list \<Rightarrow> nat \<Rightarrow> 's harp_client \<Rightarrow> bool \<times> 's harp_client" where
  "fetch_wait want spins c =
     (if case cl_store c of None \<Rightarrow> False | Some st \<Rightarrow> list_all (harp_store_have st) want then (True, c)
      else if spins + 1 > 4096 then (False, c)
      else case pump_one c of
             (False, ctl, c) \<Rightarrow> (False, c)
           | (True, ctl, c) \<Rightarrow> fetch_wait want (spins + 1) c)"
  by pat_completeness auto
termination
  by (relation "measure (\<lambda>(want, spins, c). 4096 - spins)") auto

declare fetch_wait.simps [simp del]

text \<open>The batch that is asked for: of the hashes not yet looked at, the first 64 that are missing.\<close>

definition fetch_want :: "harp_store \<Rightarrow> harp_hash list \<Rightarrow> nat \<Rightarrow> harp_hash list" where
  "fetch_want st pending cursor = take 64 (filter (\<lambda>h. \<not> harp_store_have st h) (drop cursor pending))"

definition fetch_batch :: "harp_hash list \<Rightarrow> 's harp_client \<Rightarrow> int \<times> 's harp_client" where
  "fetch_batch want c =
     (if want = [] then (0, c)
      else case client_call (str ''state.want'') (Some ([Map 1, U 0, Arr (of_nat (length want))] @ map B want)) c of
             (rc, e, c) \<Rightarrow>
               if rc \<noteq> 0 then (rc, c)
               else case fetch_wait want 0 c of (ok, c) \<Rightarrow> (if ok then 0 else HARP_CLIENT_EIO, c))"

lemma list_collect_length: "length (snd (list_collect h l)) \<le> max HARP_CLIENT_MAX_CLOSURE (length l)"
  "length l \<le> length (snd (list_collect h l))"
  by (simp_all add: list_collect_def)

lemma run_collect_length: "length (run_cb list_collect hs l) \<le> max HARP_CLIENT_MAX_CLOSURE (length l)"
  "length l \<le> length (run_cb list_collect hs l)"
proof (induction hs arbitrary: l)
  case (Cons h hs)
  { case 1 show ?case using Cons.IH(1) [of "snd (list_collect h l)"] list_collect_length [where h = h and l = l] by simp }
  { case 2 show ?case using Cons.IH(2) [where l = "snd (list_collect h l)"] list_collect_length [where h = h and l = l] by simp }
qed simp_all

lemma list_collect_sticky: "sticky_cb list_collect"
  by (simp add: sticky_cb_def list_collect_def)

lemma expand_child_eq:
  "expand_child b0 st h l =
     (fst (harp_store_get st h b0),
      if fst (harp_store_get st h b0)
      then run_cb list_collect (snd (obj_children (cb_buf (snd (harp_store_get st h b0))))) l else l)"
  by (cases "harp_store_get st h b0"; cases "fst (harp_store_get st h b0)")
    (simp_all add: expand_child_def foreach_child_fold(1) [OF list_collect_sticky])

lemma expand_length: "length (snd (expand_child b0 st h l)) \<le> max HARP_CLIENT_MAX_CLOSURE (length l)"
  "length l \<le> length (snd (expand_child b0 st h l))"
  using run_collect_length by (simp_all add: expand_child_eq)

lemma expand_from_length: "length (expand_from b0 st cursor l) \<le> max HARP_CLIENT_MAX_CLOSURE (length l)"
  "length l \<le> length (expand_from b0 st cursor l)"
proof -
  have "length (fold (\<lambda>i l. snd (expand_child b0 st (l ! i) l)) is l) \<le> max HARP_CLIENT_MAX_CLOSURE (length l) \<and>
      length l \<le> length (fold (\<lambda>i l. snd (expand_child b0 st (l ! i) l)) is l)" for "is"
  proof (induction "is" arbitrary: l)
    case (Cons i "is")
    from Cons [of "snd (expand_child b0 st (l ! i) l)"] expand_length [where h = "l ! i" and l = l and st = st and ?b0.0 = b0] show ?case by fastforce
  qed simp
  then show "length (expand_from b0 st cursor l) \<le> max HARP_CLIENT_MAX_CLOSURE (length l)"
    "length l \<le> length (expand_from b0 st cursor l)" by (simp_all add: expand_from_def)
qed

function fetch_loop :: "nat \<Rightarrow> harp_hash list \<Rightarrow> nat \<Rightarrow> 's harp_client \<Rightarrow> int \<times> nat \<times> 's harp_client" where
  "fetch_loop cursor pending got c =
     (if \<not> cursor < length pending then (0, got, c)
      else case cl_store c of
             None \<Rightarrow> (HARP_CLIENT_EIO, got, c)
           | Some st \<Rightarrow>
               let want = fetch_want st pending cursor; r = fetch_batch want c
               in if fst r \<noteq> 0 then (fst r, got, snd r)
                  else case cl_store (snd r) of
                         None \<Rightarrow> (HARP_CLIENT_EIO, got, snd r)
                       | Some st \<Rightarrow>
                           fetch_loop (length pending) (expand_from (cl_cbuf (snd r)) st cursor pending)
                             (got + length want) (snd r))"
  by pat_completeness auto
termination
proof (relation "measure (\<lambda>(cursor, pending, got, c). max HARP_CLIENT_MAX_CLOSURE (length pending) - cursor)")
  fix cursor :: nat and pending :: "harp_hash list" and got and c :: "'s harp_client" and x2 x2a want r
  assume "\<not> \<not> cursor < length pending"
  then show "((length pending, expand_from (cl_cbuf (snd r)) x2a cursor pending, got + length want, snd r),
      cursor, pending, got, c) \<in> measure (\<lambda>(cursor, pending, got, c). max HARP_CLIENT_MAX_CLOSURE (length pending) - cursor)"
    using expand_from_length [where ?b0.0 = "cl_cbuf (snd r)" and st = x2a and cursor = cursor and l = pending] by auto
qed simp

declare fetch_loop.simps [simp del]

text \<open>The result with the number of objects transferred, which the source reports on success.\<close>

definition harp_client_fetch_closure :: "harp_hash \<Rightarrow> 's harp_client \<Rightarrow> int \<times> nat \<times> 's harp_client" where
  "harp_client_fetch_closure root c =
     (if cl_store c = None then (HARP_CLIENT_EIO, 0, c) else fetch_loop 0 (snd (list_collect root [])) 0 c)"

text \<open>The local closure, which must be complete.\<close>

function push_collect :: "harp_cbuf \<Rightarrow> harp_store \<Rightarrow> nat \<Rightarrow> harp_hash list \<Rightarrow> harp_hash list option" where
  "push_collect b0 st cur clo =
     (if \<not> cur < length clo then Some clo
      else case expand_child b0 st (clo ! cur) clo of
             (False, l) \<Rightarrow> None
           | (True, l) \<Rightarrow> push_collect b0 st (cur + 1) l)"
  by pat_completeness auto
termination
proof (relation "measure (\<lambda>(b0, st, cur, clo). max HARP_CLIENT_MAX_CLOSURE (length clo) - cur)")
  fix b0 st cur and clo l :: "harp_hash list" and x y
  assume a: "\<not> \<not> cur < length clo" "(x, y) = expand_child b0 st (clo ! cur) clo" "x = True"
  then have "length clo \<le> length y" "length y \<le> max HARP_CLIENT_MAX_CLOSURE (length clo)"
    using expand_length [where h = "clo ! cur" and l = clo and st = st and ?b0.0 = b0] by (metis snd_conv)+
  with a show "((b0, st, cur + 1, y), b0, st, cur, clo) \<in>
      measure (\<lambda>(b0, st, cur, clo). max HARP_CLIENT_MAX_CLOSURE (length clo) - cur)" by auto
qed simp

declare push_collect.simps [simp del]

text \<open>The answers to \<^verbatim>\<open>state.have\<close>: which of the \<open>n\<close> objects are missing.  A failed read ends the loop.\<close>

fun have_missing :: "nat \<Rightarrow> harp_cdec \<Rightarrow> bool list" where
  "have_missing 0 b = []"
| "have_missing (Suc n) b =
     (case harp_cdec_bool b of
        (None, b) \<Rightarrow> replicate (Suc n) False
      | (Some have, b) \<Rightarrow> (\<not> have) # have_missing n b)"

definition missing_of :: "harp_hash list \<Rightarrow> harp_env option \<Rightarrow> harp_hash list" where
  "missing_of clo e =
     (case Option.bind e (\<lambda>e. body_read e (and_then first_key0 (\<lambda>u. and_then harp_cdec_array
             (\<lambda>alen b. (if unat alen = length clo then Some (have_missing (length clo) b) else None, b))))) of
        None \<Rightarrow> []
      | Some ms \<Rightarrow> map fst (filter snd (zip clo ms)))"

text \<open>The sizes of the objects that can be read, each in the buffer \<open>enc\<close>.\<close>

definition total_size :: "harp_cbuf \<Rightarrow> harp_store \<Rightarrow> harp_hash list \<Rightarrow> u64" where
  "total_size b0 st hs =
     snd (fold (\<lambda>h (enc, total). case harp_store_get st h (harp_cbuf_reset enc) of
                                   (ok, enc) \<Rightarrow> (enc, if ok then total + of_nat (length (cb_buf enc)) else total)) hs (b0, 0))"

text \<open>
  The request and reply buffers of the two calls are the same; the second starts with a reset, and so they are modelled
  as fresh ones.
\<close>

definition harp_client_push_closure :: "harp_hash \<Rightarrow> 's harp_client \<Rightarrow> int \<times> (nat \<times> nat) option \<times> 's harp_client" where
  "harp_client_push_closure root c =
     (case cl_store c of
        None \<Rightarrow> (HARP_CLIENT_EIO, None, c)
      | Some st \<Rightarrow>
          (case push_collect (cl_cbuf c) st 0 (snd (list_collect root [])) of
             None \<Rightarrow> (HARP_CLIENT_EIO, None, c)
           | Some clo \<Rightarrow>
               (case client_call (str ''state.have'') (Some ([Map 1, U 0, Arr (of_nat (length clo))] @ map B clo)) c of
                  (rc, e, c) \<Rightarrow>
                    if rc \<noteq> 0 then (rc, None, c)
                    else
                      let missing = missing_of clo e; res = Some (length missing, length clo - length missing)
                      in if missing = [] then (0, res, c)
                         else case cl_store c of
                                None \<Rightarrow> (HARP_CLIENT_EIO, None, c)
                              | Some st \<Rightarrow>
                                  (case client_call (str ''state.send'')
                                          (Some ([Map 2, U 0, Arr (of_nat (length missing))] @ map B missing @
                                                 [U 1, U (total_size (cl_cbuf c) st missing)])) c of
                                     (rc, e, c) \<Rightarrow>
                                       if rc \<noteq> 0 then (rc, None, c)
                                       else case csendq_flush (foldl csendq_push c missing) of
                                              (rc, c) \<Rightarrow> (rc, if rc = 0 then res else None, c)))))"

section \<open>Moving a ref, and the panel\<close>

definition refset_flags :: "bool \<Rightarrow> bool \<Rightarrow> bool \<Rightarrow> u64" where
  "refset_flags create force consent = (if create then 1 else 0) OR (if force then 2 else 0) OR (if consent then 4 else 0)"

definition refset_calls :: "bytes \<Rightarrow> harp_hash option \<Rightarrow> harp_hash \<Rightarrow> u64 \<Rightarrow> call list" where
  "refset_calls name expect target flags =
     [Map (if flags \<noteq> 0 then 4 else 3), U 0, T name, U 1, case expect of Some h \<Rightarrow> B h | None \<Rightarrow> Nul, U 2, B target] @
     (if flags \<noteq> 0 then [U 3, U flags] else [])"

definition harp_client_refset ::
  "bytes \<Rightarrow> harp_hash option \<Rightarrow> harp_hash \<Rightarrow> bool \<Rightarrow> bool \<Rightarrow> bool \<Rightarrow> 's harp_client \<Rightarrow> int \<times> u64 option \<times> 's harp_client" where
  "harp_client_refset name expect target create force consent c =
     (case client_call (str ''state.refset'') (Some (refset_calls name expect target (refset_flags create force consent))) c of
        (rc, e, c) \<Rightarrow>
          (rc,
           if rc \<noteq> 0 then None
           else Some (case Option.bind e (\<lambda>e. body_read e (and_then first_key0
                              (\<lambda>u b. case harp_cdec_uint_into b 0 of (ok, v, b) \<Rightarrow> (Some v, b)))) of
                        None \<Rightarrow> 0 | Some v \<Rightarrow> v),
           c))"

definition harp_client_reconcile_offer :: "bytes option \<Rightarrow> bytes option \<Rightarrow> bool \<Rightarrow> 's harp_client \<Rightarrow> int \<times> 's harp_client" where
  "harp_client_reconcile_offer expect live dirty c =
     (case client_call (str ''x.harp.reconcile.offer'')
             (Some [Map 3, U 0, T (dflt expect []), U 1, T (dflt live []), U 2, U (if dirty then 1 else 0)]) c of
        (rc, e, c) \<Rightarrow> (rc, c))"

text \<open>The caller's \<^verbatim>\<open>*pending\<close> and \<^verbatim>\<open>*choice\<close>; the number is truncated to an \<^verbatim>\<open>int\<close>.\<close>

definition poll_field :: "u64 \<Rightarrow> bool \<times> int \<Rightarrow> harp_cdec \<Rightarrow> bool \<times> (bool \<times> int) \<times> harp_cdec" where
  "poll_field key s b =
     (if key = 0 then (case harp_cdec_bool b of (v, b) \<Rightarrow> (True, (v = Some True, snd s), b))
      else if key = 1 then
        (case harp_cdec_int b of
           (v, b) \<Rightarrow> (True, (fst s, case v of None \<Rightarrow> - 1 | Some v \<Rightarrow> sint (ucast v :: u32)), b))
      else rd_skip True s b)"

definition harp_client_reconcile_poll :: "bool \<times> int \<Rightarrow> 's harp_client \<Rightarrow> int \<times> (bool \<times> int) \<times> 's harp_client" where
  "harp_client_reconcile_poll s0 c =
     (case client_call (str ''x.harp.reconcile.poll'') None c of
        (rc, e, c) \<Rightarrow> (rc, case e of Some e \<Rightarrow> if rc = 0 then body_loop poll_field s0 e else s0 | None \<Rightarrow> s0, c))"

end
