(* ===== verification/Harp_Control.thy ===== *)
theory Harp_Control
  imports Harp_Session "HOL-Library.Monad_Syntax"
begin

text \<open>
  The other control handlers of \<^verbatim>\<open>device/session.c\<close> (diagnostics, audio streams, parameter queries, vendor methods),
  the method table, \<^verbatim>\<open>handle_ctl\<close> and the session loop.  A turn of the loop takes what \<^verbatim>\<open>harp_link_recv\<close> returned, so a
  session is a fold over such results; the link itself is the subject of \<open>Harp_Link\<close>.
\<close>

unbundle bit_operations_syntax

section \<open>Diagnostics\<close>

definition counter_calls :: "'s device \<Rightarrow> call list" where
  "counter_calls d =
     (let g = dv_engine d; ct = dv_ctr d;
          (vol, freeb) = (case wd_statvfs (dv_world d) of None \<Rightarrow> (0, 0) | Some x \<Rightarrow> x)
      in [Map 17,
          T (str ''x.harp-refdev.fence_waits''), U (en_fence_waits g),
          T (str ''x.harp-refdev.fence_timeouts''), U (en_fence_timeouts g),
          T (str ''x.harp-refdev.rate_limited''), U (ct_rate_limited ct),
          T (str ''usb_errors''), U (wd_usb_errors (dv_world d)),
          T (str ''frame_errors''), U (ct_frame_errors ct),
          T (str ''audio_underruns''), U 0,
          T (str ''audio_overruns''), U (ct_audio_overruns ct),
          T (str ''audio_late_frames''), U (ct_audio_late_frames ct),
          T (str ''msc_discontinuities''), U 0,
          T (str ''clock_drift_ppb''), I 0,
          T (str ''evt_late''), U (en_evt_late g),
          T (str ''evt_stale_epoch''), U (ct_evt_stale_epoch ct),
          T (str ''x.harp-refdev.evq_drops''), U (en_evq_drops g),
          T (str ''x.harp-refdev.ramp_late''), U (en_ramp_late g),
          T (str ''session_resets''), U (ct_session_resets ct),
          T (str ''storage_bytes_total''), U vol,
          T (str ''storage_bytes_free''), U freeb])"

definition handle_diag_counters :: "harp_env \<Rightarrow> 's device \<Rightarrow> 's device" where
  "handle_diag_counters e d = reply e (counter_calls d) d"

definition bundle_section :: "'s device \<Rightarrow> harp_cbuf \<Rightarrow> harp_cbuf" where
  "bundle_section d m =
     harp_devlog_emit_cbor (dv_log d)
       (put_calls m ([Map 3, U 0] @ identity_calls d @ [U 1] @ counter_calls d @ [U 2])) HARP_LOGRING_BUNDLE_MAX"

definition handle_diag_bundle :: "harp_env \<Rightarrow> 's device \<Rightarrow> 's device" where
  "handle_diag_bundle e d =
     (case expensive_op_shed e dv_rl_bundle (\<lambda>b. dv_rl_bundle_update (\<lambda>_. b)) d of
        (True, d) \<Rightarrow> d
      | (False, d) \<Rightarrow> send_ctl (bundle_section d (rsp_head (new_cbuf d) (e_rid e) (e_method e) True)) d)"

record loopback_req =
  lq_in :: u64
  lq_out :: u64
  lq_mode :: "bytes option"
  lq_rate :: u64

definition loopback_field :: "u64 \<Rightarrow> loopback_req \<Rightarrow> harp_cdec \<Rightarrow> bool \<times> loopback_req \<times> harp_cdec" where
  "loopback_field key q c =
     (if key = 0 then rd_uint False lq_in (\<lambda>v. lq_in_update (\<lambda>_. v)) q c
      else if key = 1 then rd_uint False lq_out (\<lambda>v. lq_out_update (\<lambda>_. v)) q c
      else if key = 2 then rd_opt False harp_cdec_text (\<lambda>s. lq_mode_update (\<lambda>_. Some (cstr (take 15 s)))) q c
      else if key = 3 then rd_uint False lq_rate (\<lambda>v. lq_rate_update (\<lambda>_. v)) q c
      else rd_skip False q c)"

definition handle_diag_loopback_start :: "harp_env \<Rightarrow> 's device \<Rightarrow> 's device" where
  "handle_diag_loopback_start e d =
     (let q = body_loop loopback_field \<lparr>lq_in = 0, lq_out = 0, lq_mode = None, lq_rate = 0\<rparr> e
      in if lq_mode q \<noteq> Some (str ''digital'') then
           err e ''unsupported'' (Some (str ''refdev supports diag.loopback.digital only'')) d
         else if lq_in q > 33 \<or> lq_out q > 33 then
           err e ''bad-slot'' (Some (str ''in/out slot outside the channel map'')) d
         else if \<not> au_thread_live (dv_audio d) \<or> au_mode (dv_audio d) \<noteq> 1 then
           err e ''state'' (Some (str ''diag.loopback.digital requires a live host-paced stream'')) d
         else
           let d = d\<lparr>dv_audio := (dv_audio d)\<lparr>au_loopback_in_slot := ucast (lq_in q),
                       au_loopback_out_slot := ucast (lq_out q), au_loopback_on := True\<rparr>\<rparr>
           in reply e [Map 6, U 0, Bo True, U 1, T (str ''digital''), U 2, U (lq_in q), U 3, U (lq_out q),
                U 4, U (ucast (au_rate (dv_audio d))), U 5, U 0] d)"

definition handle_diag_loopback_stop :: "harp_env \<Rightarrow> 's device \<Rightarrow> 's device" where
  "handle_diag_loopback_stop e d =
     reply e [Map 1, U 0, Bo True] (d\<lparr>dv_audio := (dv_audio d)\<lparr>au_loopback_on := False\<rparr>\<rparr>)"

section \<open>Audio streams\<close>

definition AUDIO_MAX_NSAMPLES :: u64 where "AUDIO_MAX_NSAMPLES = 1024"

record start_req =
  st_rate :: u64
  st_nsamples :: u64
  st_mode :: u64
  st_rtp_port :: u64
  st_prebuf :: u64
  st_hp_port :: u64
  st_out :: "u8 list"
  st_in :: "u8 list"

definition start_zero :: start_req where
  "start_zero = \<lparr>st_rate = 48000, st_nsamples = 256, st_mode = 0, st_rtp_port = 0, st_prebuf = 0, st_hp_port = 0,
     st_out = [], st_in = []\<rparr>"

text \<open>One element of a slot array, clamped to the channel map; at most 34 are kept.\<close>

definition slot_step :: "u8 list \<Rightarrow> harp_cdec \<Rightarrow> bool \<times> u8 list \<times> harp_cdec" where
  "slot_step sl c =
     rd_opt False harp_cdec_uint
       (\<lambda>slot sl. if length sl < 34 then sl @ [ucast (if slot > 33 then 33 else slot)] else sl) sl c"

definition slot_array ::
  "(start_req \<Rightarrow> u8 list) \<Rightarrow> (u8 list \<Rightarrow> start_req \<Rightarrow> start_req) \<Rightarrow> start_req \<Rightarrow> harp_cdec
     \<Rightarrow> bool \<times> start_req \<times> harp_cdec" where
  "slot_array get put q c =
     (case harp_cdec_array c of
        (None, c) \<Rightarrow> (False, q, c)
      | (Some alen, c) \<Rightarrow> (case loop_brk slot_step (unat alen) (get q) c of (sl, c) \<Rightarrow> (True, put sl q, c)))"

definition start_field :: "u64 \<Rightarrow> start_req \<Rightarrow> harp_cdec \<Rightarrow> bool \<times> start_req \<times> harp_cdec" where
  "start_field key q c =
     (if key = 0 then rd_uint False st_rate (\<lambda>v. st_rate_update (\<lambda>_. v)) q c
      else if key = 1 then rd_uint False st_nsamples (\<lambda>v. st_nsamples_update (\<lambda>_. v)) q c
      else if key = 3 then slot_array st_in (\<lambda>sl. st_in_update (\<lambda>_. sl)) q c
      else if key = 4 then slot_array st_out (\<lambda>sl. st_out_update (\<lambda>_. sl)) q c
      else if key = 5 then rd_uint False st_mode (\<lambda>v. st_mode_update (\<lambda>_. v)) q c
      else if key = 6 then rd_uint False st_rtp_port (\<lambda>v. st_rtp_port_update (\<lambda>_. v)) q c
      else if key = 2 then rd_uint False st_prebuf (\<lambda>v. st_prebuf_update (\<lambda>_. v)) q c
      else if key = 7 then rd_uint False st_hp_port (\<lambda>v. st_hp_port_update (\<lambda>_. v)) q c
      else rd_skip False q c)"

text \<open>The checks, in the order of the source; \<open>None\<close> means that the stream may start.\<close>

definition start_refusal :: "start_req \<Rightarrow> 's device \<Rightarrow> (string \<times> string) option" where
  "start_refusal q d =
     (let usb = (st_rtp_port q = 0 \<and> st_hp_port q = 0);
          (fd, out_fd) = (if usb then wd_usb_fds (dv_world d) else (- 1, - 1))
      in if st_mode q > 1 then Some (''unsupported'', ''unknown clock mode'')
         else if st_rate q \<noteq> 44100 \<and> st_rate q \<noteq> 48000 \<and> st_rate q \<noteq> 96000 then Some (''unsupported'', ''rate'')
         else if st_nsamples q < 32 \<or> st_nsamples q > AUDIO_MAX_NSAMPLES then Some (''unsupported'', ''nsamples'')
         else if st_rtp_port q \<noteq> 0 \<and> st_mode q \<noteq> 0 then Some (''unsupported'', ''RTP audio is free-running only'')
         else if st_hp_port q \<noteq> 0 \<and> (st_mode q \<noteq> 1 \<or> st_rtp_port q \<noteq> 0) then
           Some (''unsupported'', ''host-paced TCP audio requires clock mode 1 and no RTP port'')
         else if usb \<and> (fd < 0 \<or> (st_mode q = 1 \<and> out_fd < 0)) then
           Some (''unsupported'', ''HARP stream requires the USB transport'')
         else if au_thread_live (dv_audio d) then Some (''busy'', ''stream already running'')
         else if st_rtp_port q \<noteq> 0 \<and> wd_rtp_open (dv_world d) (st_rtp_port q) < 0 then
           Some (''unsupported'', ''cannot open RTP destination'')
         else None)"

definition epoch_msg :: "harp_cbuf \<Rightarrow> u32 \<Rightarrow> u64 \<Rightarrow> u32 \<Rightarrow> u64 \<Rightarrow> harp_cbuf" where
  "epoch_msg m new_epoch rate old_epoch msc_final =
     put_calls (harp_env_head m HARP_MSG_NOTIFICATION 0 (str ''time.epoch'') True)
       [Map 4, U 0, U (ucast new_epoch), U 1, U rate, U 2, U (ucast old_epoch), U 3, U msc_final]"

definition start_transport :: "start_req \<Rightarrow> 's device \<Rightarrow> audio_state" where
  "start_transport q d =
     (let usb = (st_rtp_port q = 0 \<and> st_hp_port q = 0);
          (fd, out_fd) = (if usb then wd_usb_fds (dv_world d) else (- 1, - 1));
          rtp_fd = (if st_rtp_port q \<noteq> 0 then wd_rtp_open (dv_world d) (st_rtp_port q) else - 1);
          a = (dv_audio d)\<lparr>au_fd := fd, au_out_fd := out_fd, au_rtp_fd := rtp_fd,
                au_host_paced_port := sint (ucast (st_hp_port q) :: u32), au_host_paced_sock := - 1,
                au_offline := st_hp_port q > 0 \<and> \<not> wd_force_rt (dv_world d)\<rparr>;
          a = (if rtp_fd \<ge> 0 then a\<lparr>au_rtp_ssrc := 0x48415250, au_rtp_seq := 0\<rparr> else a)
      in a\<lparr>au_rtp_prebuffer := if rtp_fd \<ge> 0 then ucast (st_prebuf q) else 0\<rparr>)"

text \<open>
  The start of a stream: the queue and the transactions are reset and the transport is recorded, a free-running
  stream at a new rate announces a new epoch, the parameters are stored, and the threads are started.
\<close>

definition stream_prepare :: "start_req \<Rightarrow> 's device \<Rightarrow> 's device" where
  "stream_prepare q d =
     d\<lparr>dv_engine := evq_reset_for_new_stream (dv_engine d), dv_txn := replicate DEV_TXN_MAX txn_zero,
       dv_audio := start_transport q d\<rparr>"

definition epoch_moves :: "start_req \<Rightarrow> audio_state \<Rightarrow> bool" where
  "epoch_moves q a \<longleftrightarrow> st_mode q = 0 \<and> au_rate a \<noteq> 0 \<and> ucast (st_rate q) \<noteq> au_rate a"

definition announce_epoch :: "start_req \<Rightarrow> 's device \<Rightarrow> 's device" where
  "announce_epoch q d =
     (let a = dv_audio d
      in if epoch_moves q a then
           send_ctl (epoch_msg (new_cbuf d) (au_epoch a + 1) (st_rate q) (au_epoch a) (au_msc_final a))
             (d\<lparr>dv_audio := a\<lparr>au_epoch := au_epoch a + 1\<rparr>\<rparr>)
         else d)"

definition stream_params :: "start_req \<Rightarrow> audio_state \<Rightarrow> audio_state" where
  "stream_params q a =
     a\<lparr>au_mode := ucast (st_mode q), au_rate := ucast (st_rate q), au_nsamples := ucast (st_nsamples q),
       au_reanchors := 0, au_out_slots := st_out q, au_in_slots := st_in q, au_loopback_on := False, au_running := True\<rparr>"

definition stream_failed :: "start_req \<Rightarrow> audio_state \<Rightarrow> audio_state \<Rightarrow> audio_state" where
  "stream_failed q old a =
     (let a = audio_rtp_close (a\<lparr>au_running := False\<rparr>)
      in if epoch_moves q old then a\<lparr>au_epoch := au_epoch old, au_rate := au_rate old\<rparr> else a)"

definition started_line :: "start_req \<Rightarrow> audio_state \<Rightarrow> bytes" where
  "started_line q a =
     str ''harp-deviced: audio stream started ('' @ decimal (unat (au_rate a)) @ str '' Hz, '' @
     decimal (unat (au_nsamples a)) @ str ''-sample blocks, '' @
     (if st_mode q \<noteq> 0 then str ''host-paced'' else str ''free-running'') @
     (if au_rtp_fd a \<ge> 0 then str '', RTP/UDP'' else []) @ str '')'' @ [10]"

definition stream_up :: "harp_env \<Rightarrow> start_req \<Rightarrow> 's device \<Rightarrow> 's device" where
  "stream_up e q d =
     (let d = meter_pump_start (d\<lparr>dv_audio := (dv_audio d)\<lparr>au_thread_live := True\<rparr>\<rparr>);
          a = dv_audio d
      in reply e [Map 2, U 0, U (st_mode q), U 1, U (ucast (if st_mode q \<noteq> 0 then au_pipeline a else au_nsamples a))]
           (log_line HARP_LOG_INFO ''session'' (started_line q a) d))"

definition start_stream :: "harp_env \<Rightarrow> start_req \<Rightarrow> 's device \<Rightarrow> 's device" where
  "start_stream e q d =
     (let d = stream_prepare q d;
          old = dv_audio d;
          d = announce_epoch q d;
          d = d\<lparr>dv_audio := stream_params q (dv_audio d)\<rparr>
      in if wd_thread_ok (dv_world d) then stream_up e q d
         else err e ''internal'' (Some (str ''thread'')) (d\<lparr>dv_audio := stream_failed q old (dv_audio d)\<rparr>))"

definition handle_audio_start :: "harp_env \<Rightarrow> 's device \<Rightarrow> 's device" where
  "handle_audio_start e d =
     (let q = body_loop start_field start_zero e;
          q = (if st_out q = [] then q\<lparr>st_out := [0, 1]\<rparr> else q)
      in case start_refusal q d of
           Some (code, msg) \<Rightarrow> err e code (Some (str msg)) d
         | None \<Rightarrow> start_stream e q d)"

definition handle_audio_stop :: "harp_env \<Rightarrow> 's device \<Rightarrow> 's device" where
  "handle_audio_stop e d = reply_empty e ((audio_stop d)\<lparr>dv_txn := replicate DEV_TXN_MAX txn_zero\<rparr>)"

text \<open>200000.0 as a double, and the truncation of a double to \<^verbatim>\<open>int\<close> (for values in range).\<close>

definition f64_200k :: f64 where "f64_200k = 0x41086a0000000000"

definition f64_neg :: "f64 \<Rightarrow> f64" where
  "f64_neg v = v XOR 0x8000000000000000"

definition f64_to_int :: "f64 \<Rightarrow> int" where
  "f64_to_int v =
     (let ex = uint (drop_bit 52 v AND 0x7ff); man = uint (v AND 0xfffffffffffff);
          m = (if ex = 0 then man else man + 2 ^ 52); sh = (if ex = 0 then 1 else ex) - 1075;
          mag = (if sh \<ge> 0 then m * 2 ^ nat sh else m div 2 ^ nat (- sh))
      in if bit v 63 then - mag else mag)"

definition trim_field :: "u64 \<Rightarrow> f64 \<Rightarrow> harp_cdec \<Rightarrow> bool \<times> f64 \<times> harp_cdec" where
  "trim_field key v c =
     (if key = 0 then rd_opt False harp_cdec_float (\<lambda>x v. x) v c else rd_skip False v c)"

definition clamp_trim :: "f64 \<Rightarrow> f64" where
  "clamp_trim v =
     (if f64_lt f64_200k v then f64_200k else if f64_lt v (f64_neg f64_200k) then f64_neg f64_200k else v)"

definition handle_audio_trim :: "harp_env \<Rightarrow> 's device \<Rightarrow> 's device" where
  "handle_audio_trim e d =
     (if \<not> e_has_body e then d
      else if fst (harp_cdec_map (harp_cdec_init (e_body e))) = None then d
      else d\<lparr>dv_audio := (dv_audio d)\<lparr>au_rate_trim_ppb := f64_to_int (clamp_trim (body_loop trim_field f64_zero e))\<rparr>\<rparr>)"

section \<open>Parameter queries\<close>

definition handle_evt_params :: "harp_env \<Rightarrow> 's device \<Rightarrow> 's device" where
  "handle_evt_params e d =
     (let m = put_calls (rsp_head (new_cbuf d) (e_rid e) (e_method e) True) [Map 4, U 0, B (dv_param_map_hash d), U 1];
          m = encode_param_array m
      in send_ctl (put_calls m [U 2, U 1000, U 3, U 4000]) d)"

record value_req =
  vq_id :: u64
  vq_val :: f64
  vq_str :: bytes

definition value_zero :: value_req where
  "value_zero = \<lparr>vq_id = 0, vq_val = f64_zero, vq_str = []\<rparr>"

definition format_field :: "u64 \<Rightarrow> value_req \<Rightarrow> harp_cdec \<Rightarrow> bool \<times> value_req \<times> harp_cdec" where
  "format_field key q c =
     (if key = 0 then rd_uint False vq_id (\<lambda>v. vq_id_update (\<lambda>_. v)) q c
      else if key = 1 then rd_opt False harp_cdec_float (\<lambda>v. vq_val_update (\<lambda>_. v)) q c
      else rd_skip False q c)"

definition stepped :: "dev_param \<Rightarrow> bool" where
  "stepped p \<longleftrightarrow> dp_steps p > 1 \<and> dp_labels p \<noteq> []"

definition format_value :: "(f64 \<Rightarrow> bytes) \<Rightarrow> dev_param \<Rightarrow> f64 \<Rightarrow> bytes" where
  "format_value print3 p val =
     (if stepped p then
        let si = f32_to_int (f32_mul (f32_of_f64 val) (f32_of_nat (unat (dp_steps p))));
            si = (if si < 0 then 0 else si);
            si = (if si \<ge> int (unat (dp_steps p)) then int (unat (dp_steps p)) - 1 else si)
        in snprintf 64 (dp_labels p ! nat si)
      else snprintf 64 (print3 val))"

definition handle_evt_format :: "harp_env \<Rightarrow> 's device \<Rightarrow> 's device" where
  "handle_evt_format e d =
     (let q = body_loop format_field value_zero e
      in case param_index (ucast (vq_id q)) of
           None \<Rightarrow> err e ''not-found'' (Some (str ''unknown param'')) d
         | Some idx \<Rightarrow>
             reply e [Map 1, U 0, T (format_value (wd_print3 (dv_world d)) (g_params ! idx) (vq_val q))] d)"

definition parse_field :: "u64 \<Rightarrow> value_req \<Rightarrow> harp_cdec \<Rightarrow> bool \<times> value_req \<times> harp_cdec" where
  "parse_field key q c =
     (if key = 0 then rd_uint False vq_id (\<lambda>v. vq_id_update (\<lambda>_. v)) q c
      else if key = 1 then rd_opt False harp_cdec_text (\<lambda>s. vq_str_update (\<lambda>_. cstr (take 63 s))) q c
      else rd_skip False q c)"

definition parse_value :: "(bytes \<Rightarrow> f32 option) \<Rightarrow> dev_param \<Rightarrow> bytes \<Rightarrow> f32 option" where
  "parse_value scan p s =
     (if stepped p then
        map_option (\<lambda>si. f32_div (f32_add (f32_of_nat si) f32_half) (f32_of_nat (unat (dp_steps p))))
          (find (\<lambda>si. s = dp_labels p ! si) [0..<unat (dp_steps p)])
      else scan s)"

definition handle_evt_parse :: "harp_env \<Rightarrow> 's device \<Rightarrow> 's device" where
  "handle_evt_parse e d =
     (let q = body_loop parse_field value_zero e
      in case param_index (ucast (vq_id q)) of
           None \<Rightarrow> err e ''not-found'' (Some (str ''unknown param'')) d
         | Some idx \<Rightarrow>
             (case parse_value (wd_scan_float (dv_world d)) (g_params ! idx) (vq_str q) of
                None \<Rightarrow> err e ''malformed'' (Some (str ''cannot parse value'')) d
              | Some val \<Rightarrow> reply e [Map 1, U 0, Fl (f64_of_f32 val)] d))"

section \<open>Vendor methods\<close>

text \<open>A body map with at least \<open>k\<close> pairs, after its head; and a read that must give the wanted key.\<close>

definition body_map :: "u64 \<Rightarrow> harp_env \<Rightarrow> (u64 \<times> harp_cdec) option" where
  "body_map k e =
     (if \<not> e_has_body e then None
      else case harp_cdec_map (harp_cdec_init (e_body e)) of
             (None, c) \<Rightarrow> None
           | (Some n, c) \<Rightarrow> if n \<ge> k then Some (n, c) else None)"

definition expect_key :: "u64 \<Rightarrow> harp_cdec \<Rightarrow> harp_cdec option" where
  "expect_key k c =
     (case harp_cdec_uint c of (None, c) \<Rightarrow> None | (Some key, c) \<Rightarrow> if key = k then Some c else None)"

definition knob_body :: "harp_env \<Rightarrow> (u64 \<times> f64) option" where
  "knob_body e =
     do { (n, c) \<leftarrow> body_map 2 e;
          c \<leftarrow> expect_key 0 c;
          (case harp_cdec_uint c of
             (None, c) \<Rightarrow> None
           | (Some i, c) \<Rightarrow>
               do { c \<leftarrow> expect_key 1 c;
                    v \<leftarrow> fst (harp_cdec_float c);
                    Some (i, v) }) }"

definition handle_knob :: "harp_env \<Rightarrow> 's device \<Rightarrow> 's device" where
  "handle_knob e d =
     (case knob_body e of
        None \<Rightarrow> err e ''malformed'' None d
      | Some (i, v) \<Rightarrow>
          (case front_panel_set (ucast i) v d of
             (False, d) \<Rightarrow> err e ''not-found'' (Some (str ''no such param'')) d
           | (True, d) \<Rightarrow> reply_empty e d))"

definition reconcile_post_offer :: "bytes \<Rightarrow> bytes \<Rightarrow> bool \<Rightarrow> reconcile \<Rightarrow> reconcile" where
  "reconcile_post_offer expect live dirty r =
     r\<lparr>rc_expect := snprintf 16 expect, rc_live := snprintf 16 live, rc_dirty := dirty, rc_choice := - 1,
       rc_pending := True\<rparr>"

definition reconcile_set_choice :: "int \<Rightarrow> reconcile \<Rightarrow> bool \<times> reconcile" where
  "reconcile_set_choice n r =
     (if n < 0 \<or> n > 4 then (False, r) else (True, r\<lparr>rc_choice := n, rc_pending := False\<rparr>))"

text \<open>The optional third pair; the value of a failed read may be stored (see \<open>harp_cdec_uint_into\<close>).\<close>

definition offer_dirty :: "u64 \<Rightarrow> harp_cdec \<Rightarrow> u64" where
  "offer_dirty n c =
     (if n \<ge> 3 then (case expect_key 2 c of None \<Rightarrow> 0 | Some c \<Rightarrow> fst (snd (harp_cdec_uint_into c 0))) else 0)"

definition offer_body :: "harp_env \<Rightarrow> (bytes \<times> bytes \<times> u64) option" where
  "offer_body e =
     do { (n, c) \<leftarrow> body_map 2 e;
          c \<leftarrow> expect_key 0 c;
          (case harp_cdec_text c of
             (None, c) \<Rightarrow> None
           | (Some expect, c) \<Rightarrow>
               do { c \<leftarrow> expect_key 1 c;
                    (case harp_cdec_text c of
                       (None, c) \<Rightarrow> None
                     | (Some live, c) \<Rightarrow> Some (cstr (take 15 expect), cstr (take 15 live), offer_dirty n c)) }) }"

definition handle_reconcile_offer :: "harp_env \<Rightarrow> 's device \<Rightarrow> 's device" where
  "handle_reconcile_offer e d =
     (case offer_body e of
        None \<Rightarrow> err e ''malformed'' None d
      | Some (expect, live, dirty) \<Rightarrow>
          reply_empty e (d\<lparr>dv_reconcile := reconcile_post_offer expect live ((ucast dirty :: u32) \<noteq> 0) (dv_reconcile d)\<rparr>))"

definition handle_reconcile_poll :: "harp_env \<Rightarrow> 's device \<Rightarrow> 's device" where
  "handle_reconcile_poll e d =
     reply e [Map 2, U 0, Bo (rc_pending (dv_reconcile d)), U 1, I (word_of_int (rc_choice (dv_reconcile d)))] d"

definition handle_dev_params :: "harp_env \<Rightarrow> 's device \<Rightarrow> 's device" where
  "handle_dev_params e d =
     reply e ([Map 1, U 0, Arr (of_nat NPARAMS)] @
       concat (map (\<lambda>p. [Arr 3, U (ucast (dp_id p)), T (dp_name p),
                         Fl (f64_of_f32 (engine_part_param_get (en_parts (dv_engine d)) 0 (dp_id p)))]) g_params)) d"

definition handle_dev_meters :: "harp_env \<Rightarrow> 's device \<Rightarrow> 's device" where
  "handle_dev_meters e d =
     reply e ([Map 1, U 0, Arr (of_nat METER_NSLOTS)] @
       concat (map (\<lambda>s. [Arr 3, U (of_nat s), Fl (f64_of_f32 (en_meter_peak (dv_engine d) ! s)),
                         Fl (f64_of_f32 (en_meter_rms (dv_engine d) ! s))]) [0..<METER_NSLOTS])) d"

definition handle_dev_txn :: "harp_env \<Rightarrow> 's device \<Rightarrow> 's device" where
  "handle_dev_txn e d =
     reply e [Map 3, U 0, U (ct_evt_txn_rejected (dv_ctr d)), U 1, U (ct_evt_txn_overflow (dv_ctr d)),
       U 2, U (ct_evt_txn_unknown (dv_ctr d))] d"

definition handle_dev_gc :: "harp_env \<Rightarrow> 's device \<Rightarrow> 's device" where
  "handle_dev_gc e d =
     (let st = snd (prune_namespace (dv_store d) (str ''archive/''));
          st = snd (prune_namespace st (str ''duplicate/''))
      in case harp_store_gc (wd_alloc (dv_world d)) st 0 of
           None \<Rightarrow> d\<lparr>dv_store := st, dv_halted := True\<rparr>
         | Some (ok, reclaimed, st) \<Rightarrow>
             reply e [Map 2, U 0, U (of_nat reclaimed), U 1, U (of_nat (harp_store_obj_count st))]
               (d\<lparr>dv_store := st, dv_archives_since_gc := 0\<rparr>))"

section \<open>Dispatch\<close>

definition handle_identify :: "harp_env \<Rightarrow> 's device \<Rightarrow> 's device" where
  "handle_identify e d = send_ctl (encode_identity d (rsp_head (new_cbuf d) (e_rid e) (e_method e) True)) d"

definition handle_ping :: "harp_env \<Rightarrow> 's device \<Rightarrow> 's device" where
  "handle_ping e d =
     (let m = rsp_head (new_cbuf d) (e_rid e) (e_method e) (e_has_body e)
      in send_ctl (if e_has_body e then harp_cbuf_put m (e_body e) else m) d)"

definition handle_bye :: "harp_env \<Rightarrow> 's device \<Rightarrow> 's device" where
  "handle_bye e d = (reply_empty e d)\<lparr>dv_closing := True\<rparr>"

definition handle_time_ping :: "harp_env \<Rightarrow> 's device \<Rightarrow> 's device" where
  "handle_time_ping e d =
     (case wd_now_us (dv_world d) of
        (recv_us, send_us) \<Rightarrow>
          let epoch = ucast (au_epoch (dv_audio d))
          in reply e [Map 2, U 0, Arr 2, U epoch, U recv_us, U 1, Arr 2, U epoch, U send_us] d)"

definition changed_topic :: "harp_env \<Rightarrow> bytes" where
  "changed_topic e =
     (case do { (n, c) \<leftarrow> body_map 1 e; c \<leftarrow> expect_key 0 c; fst (harp_cdec_text c) } of
        None \<Rightarrow> str ''identity''
      | Some s \<Rightarrow> cstr (take 31 s))"

definition handle_notify_changed :: "harp_env \<Rightarrow> 's device \<Rightarrow> 's device" where
  "handle_notify_changed e d = reply_empty e (ntf_core_changed (changed_topic e) d)"

definition handle_restart :: "harp_env \<Rightarrow> 's device \<Rightarrow> 's device" where
  "handle_restart e d =
     (let d = reply_empty e d;
          d = log_line HARP_LOG_INFO ''session'' (str ''harp-deviced: restart requested; exiting for respawn'' @ [10]) d
      in (audio_stop d)\<lparr>dv_halted := True\<rparr>)"

definition CTL_HANDLERS :: "(string \<times> (harp_env \<Rightarrow> 's device \<Rightarrow> 's device)) list" where
  "CTL_HANDLERS =
     [(''core.hello'', handle_hello), (''core.identify'', handle_identify), (''core.ping'', handle_ping),
      (''core.bye'', handle_bye), (''time.ping'', handle_time_ping), (''state.refs'', handle_state_refs),
      (''state.snapshot'', handle_state_snapshot), (''state.have'', handle_state_have),
      (''state.want'', handle_state_want), (''state.send'', handle_state_send),
      (''state.refset'', handle_state_refset), (''evt.params'', handle_evt_params),
      (''evt.format'', handle_evt_format), (''evt.parse'', handle_evt_parse),
      (''audio.start'', handle_audio_start), (''audio.stop'', handle_audio_stop),
      (''audio.trim'', handle_audio_trim), (''diag.counters'', handle_diag_counters),
      (''diag.bundle'', handle_diag_bundle), (''diag.loopback.start'', handle_diag_loopback_start),
      (''diag.loopback.stop'', handle_diag_loopback_stop), (''x.harp-refdev.knob'', handle_knob),
      (''x.harp.reconcile.offer'', handle_reconcile_offer), (''x.harp.reconcile.poll'', handle_reconcile_poll),
      (''x.harp-refdev.params'', handle_dev_params), (''x.harp-refdev.meters'', handle_dev_meters),
      (''x.harp-refdev.txn'', handle_dev_txn), (''x.harp-refdev.gc'', handle_dev_gc),
      (''x.harp-refdev.notify-changed'', handle_notify_changed), (''x.harp-refdev.restart'', handle_restart)]"

definition take_touch :: "'s device \<Rightarrow> 's device" where
  "take_touch d =
     (if en_touch_pending (dv_engine d) then live_ref_touch True (on_engine (en_touch_pending_update (\<lambda>_. False)) d)
      else d)"

definition credit_body :: "harp_env \<Rightarrow> u64 option" where
  "credit_body e = do { (n, c) \<leftarrow> body_map 1 e; c \<leftarrow> expect_key 0 c; fst (harp_cdec_uint c) }"

definition handle_notification :: "harp_env \<Rightarrow> 's device \<Rightarrow> 's device" where
  "handle_notification e d =
     (if e_method e = str ''core.credit'' then
        (case credit_body e of
           None \<Rightarrow> d
         | Some v \<Rightarrow> sendq_flush (d\<lparr>dv_peer_credit := dv_peer_credit d + v\<rparr>))
      else d)"

definition handle_request :: "harp_env \<Rightarrow> 's device \<Rightarrow> 's device" where
  "handle_request e d =
     (if \<not> dv_hello_done d \<and> e_method e \<noteq> str ''core.hello'' then
        err e ''denied'' (Some (str ''core.hello required first'')) d
      else case find (\<lambda>h. e_method e = str (fst h)) CTL_HANDLERS of
             Some h \<Rightarrow> snd h e d
           | None \<Rightarrow> err e ''unsupported'' None d)"

definition handle_ctl :: "bytes \<Rightarrow> 's device \<Rightarrow> 's device" where
  "handle_ctl buf d =
     (let d = take_touch d
      in case harp_env_parse buf of
           None \<Rightarrow> ctr_frame_error d
         | Some e \<Rightarrow>
             if e_msgtype e = HARP_MSG_NOTIFICATION then handle_notification e d
             else if e_msgtype e \<noteq> HARP_MSG_REQUEST then d
             else handle_request e d)"

section \<open>The session\<close>

text \<open>
  What a turn of the loop meets: the result of \<^verbatim>\<open>harp_link_recv\<close> with the stream and the message, whether the transport
  has more input, the surroundings at that time, and the spans of samples for which the audio thread has taken
  events from the queue since the turn before (its only shared work with this thread).
\<close>

record turn_in =
  ti_rc :: int
  ti_stream :: u8
  ti_msg :: bytes
  ti_readable :: bool
  ti_world :: dev_world
  ti_due :: "(u64 \<times> u64) list"

definition render_work :: "(u64 \<times> u64) list \<Rightarrow> 's device \<Rightarrow> 's device" where
  "render_work spans d = on_engine (fold (\<lambda>(pos, n) g. snd (evq_apply_due pos n g)) spans) d"

definition session_begin :: "'s dev_io \<Rightarrow> 's device \<Rightarrow> 's device" where
  "session_begin io d =
     reset_session (d\<lparr>dv_io := Some io, dv_hello_done := False, dv_closing := False, dv_evt_stage := [],
       dv_evt_staged := False\<rparr>)"

text \<open>The engine's parameter table does not change in this build.\<close>

definition engine_param_map_dirty_take :: bool where "engine_param_map_dirty_take = False"

definition reannounce :: "'s device \<Rightarrow> 's device" where
  "reannounce d =
     (if engine_param_map_dirty_take then
        let d = ntf_core_changed (str ''identity'') (snd (refresh_param_map_hash d))
        in foldl (\<lambda>d p. evt_echo_param (dp_id p) (engine_part_param_get (en_parts (dv_engine d)) 0 (dp_id p)) 0 d) d g_params
      else d)"

definition dispatch :: "u8 \<Rightarrow> bytes \<Rightarrow> 's device \<Rightarrow> 's device" where
  "dispatch stream msg d =
     (if stream = HARP_STREAM_CTL then handle_ctl msg (evt_stage_flush d)
      else if \<not> dv_hello_done d then ctr_frame_error d
      else if stream = HARP_STREAM_OBJ then handle_obj msg (evt_stage_flush d)
      else if stream = HARP_STREAM_EVT then consume_evt msg d
      else d)"

text \<open>One turn; \<open>True\<close> says that the loop is left.\<close>

definition session_turn :: "u64 \<Rightarrow> turn_in \<Rightarrow> 's device \<Rightarrow> bool \<times> 's device" where
  "session_turn t_start t d =
     (let d = render_work (ti_due t) (d\<lparr>dv_world := ti_world t\<rparr>)
      in if ti_rc t = - 1 then (True, d)
         else if ti_rc t = - 2 then
           (True, d\<lparr>dv_ctr := (dv_ctr d)\<lparr>ct_session_resets := ct_session_resets (dv_ctr d) + 1\<rparr>\<rparr>)
         else if \<not> dv_hello_done d \<and> wd_now_ns (dv_world d) - t_start > 10000000000 then (True, d)
         else
           let d = dispatch (ti_stream t) (ti_msg t) d;
               d = (if dv_halted d then d else reannounce d)
           in if dv_halted d \<or> dv_closing d then (True, d)
              else (False, if dv_evt_stage d \<noteq> [] \<and> \<not> ti_readable t then evt_stage_flush d else d))"

fun session_loop :: "u64 \<Rightarrow> turn_in list \<Rightarrow> 's device \<Rightarrow> 's device" where
  "session_loop t_start [] d = d"
| "session_loop t_start (t # ts) d =
     (case session_turn t_start t d of (stop, d) \<Rightarrow> if stop then d else session_loop t_start ts d)"

definition session_end :: "'s device \<Rightarrow> 's device" where
  "session_end d =
     (if dv_halted d then d else (live_cache_flush (audio_stop (evt_stage_flush d)))\<lparr>dv_io := None\<rparr>)"

text \<open>A session in which the peer is gone after the given turns, if the loop is not left before.\<close>

definition harp_deviced_run_session :: "'s dev_io \<Rightarrow> turn_in list \<Rightarrow> 's device \<Rightarrow> 's device" where
  "harp_deviced_run_session io ts d =
     (let d = session_begin io d in session_end (session_loop (wd_now_ns (dv_world d)) ts d))"

end
