(* ===== verification/Harp_Invariant.thy ===== *)
theory Harp_Invariant
  imports Harp_Control
begin

text \<open>
  The bounds of the device's tables throughout a session of \<^verbatim>\<open>device/session.c\<close>, whatever the host sends.  \<open>core\<close>
  collects the parts of the state that the bounds are about, \<open>flow\<close> those that the credit window and the hello gate
  are about (see \<open>Harp_Gate\<close>); most of what the handlers do (replies, notifications, counters, the store) touches
  neither.
\<close>

section \<open>What the helpers leave alone\<close>

definition core where
  "core d = ((dv_sendq d, dv_sendq_head d, dv_sendq_tail d, dv_sendq_count d), dv_txn d, dv_engine d, dv_evt_stage d,
             dv_audio d, dv_reconcile d)"

definition flow where
  "flow d = (dv_granted d, dv_hello_done d, dv_world d)"

lemma dev_send_frame [simp]: "core (snd (dev_send st m d)) = core d" "flow (snd (dev_send st m d)) = flow d"
  by (simp_all add: dev_send_def core_def flow_def split: option.split prod.split)

lemma send_ctl_frame [simp]: "core (send_ctl m d) = core d" "flow (send_ctl m d) = flow d"
  by (simp_all add: send_ctl_def)

lemma reply_frame [simp]: "core (reply e cs d) = core d" "flow (reply e cs d) = flow d"
  "core (reply_empty e d) = core d" "flow (reply_empty e d) = flow d"
  "core (err e c m d) = core d" "flow (err e c m d) = flow d"
  "core (err_details e cs d) = core d" "flow (err_details e cs d) = flow d"
  by (simp_all add: reply_def reply_empty_def err_def send_error_def err_details_def)

lemma notify_frame [simp]: "core (ntf_core_changed t d) = core d" "flow (ntf_core_changed t d) = flow d"
  "core (ntf_state_changed r d) = core d" "flow (ntf_state_changed r d) = flow d"
  "core (evt_echo_param i v c d) = core d" "flow (evt_echo_param i v c d) = flow d"
  by (simp_all add: ntf_core_changed_def ntf_state_changed_def evt_echo_param_def Let_def)

lemma update_frame [simp]:
  "core (dv_ctr_update f d) = core d" "flow (dv_ctr_update f d) = flow d"
  "core (dv_store_update f2 d) = core d" "flow (dv_store_update f2 d) = flow d"
  "core (dv_log_update f3 d) = core d" "flow (dv_log_update f3 d) = flow d"
  "core (dv_live_cache_update f4 d) = core d" "flow (dv_live_cache_update f4 d) = flow d"
  "core (dv_live_cache_valid_update f5 d) = core d" "flow (dv_live_cache_valid_update f5 d) = flow d"
  "core (dv_last_live_ntf_ms_update f6 d) = core d" "flow (dv_last_live_ntf_ms_update f6 d) = flow d"
  "core (dv_archives_since_gc_update f7 d) = core d" "flow (dv_archives_since_gc_update f7 d) = flow d"
  "core (dv_halted_update f8 d) = core d" "flow (dv_halted_update f8 d) = flow d"
  "core (dv_closing_update f8 d) = core d" "flow (dv_closing_update f8 d) = flow d"
  "core (dv_rl_snapshot_update f9 d) = core d" "flow (dv_rl_snapshot_update f9 d) = flow d"
  "core (dv_rl_bundle_update f9 d) = core d" "flow (dv_rl_bundle_update f9 d) = flow d"
  "core (dv_evt_staged_update f8 d) = core d" "flow (dv_evt_staged_update f8 d) = flow d"
  "core (dv_io_update f10 d) = core d" "flow (dv_io_update f10 d) = flow d"
  "core (dv_peer_credit_update f11 d) = core d" "flow (dv_peer_credit_update f11 d) = flow d"
  "core (dv_granted_update f11 d) = core d" "core (dv_hello_done_update f8 d) = core d"
  "core (dv_world_update f12 d) = core d"
  by (simp_all add: core_def flow_def)

lemma flow_update [simp]:
  "flow (dv_engine_update f d) = flow d" "flow (dv_txn_update f2 d) = flow d" "flow (dv_evt_stage_update f3 d) = flow d"
  "flow (dv_audio_update f4 d) = flow d" "flow (dv_reconcile_update f5 d) = flow d" "flow (dv_sendq_update f6 d) = flow d"
  "flow (dv_sendq_head_update f7 d) = flow d" "flow (dv_sendq_tail_update f7 d) = flow d"
  "flow (dv_sendq_count_update f7 d) = flow d"
  by (simp_all add: flow_def)

lemma counter_frame [simp]: "core (ctr_txn_rejected d) = core d" "flow (ctr_txn_rejected d) = flow d"
  "core (ctr_txn_unknown d) = core d" "flow (ctr_txn_unknown d) = flow d"
  "core (ctr_txn_overflow d) = core d" "flow (ctr_txn_overflow d) = flow d"
  "core (ctr_stale_epoch d) = core d" "flow (ctr_stale_epoch d) = flow d"
  "core (ctr_frame_error d) = core d" "flow (ctr_frame_error d) = flow d"
  "core (ctr_obj_drop d) = core d" "flow (ctr_obj_drop d) = flow d"
  "core (body_error b d) = core d" "flow (body_error b d) = flow d"
  "core (log_line l t s d) = core d" "flow (log_line l t s d) = flow d"
  by (simp_all add: ctr_txn_rejected_def ctr_txn_unknown_def ctr_txn_overflow_def ctr_stale_epoch_def
      ctr_frame_error_def ctr_obj_drop_def body_error_def log_line_def)

lemma live_bump_frame [simp]: "core (live_bump b d) = core d" "flow (live_bump b d) = flow d"
  by (simp_all add: live_bump_def live_notify_def live_store_edge_def Let_def)

lemma live_load_frame: "case live_cache_load d of None \<Rightarrow> True | Some d1 \<Rightarrow> core d1 = core d \<and> flow d1 = flow d"
proof (cases "dv_live_cache_valid d")
  case True
  then have "live_cache_load d = Some d" by (simp add: live_cache_load_def)
  then show ?thesis by simp
next
  case False
  show ?thesis
  proof (cases "harp_store_ref_read (dv_store d) LIVE_REF")
    case None
    with False have "live_cache_load d = None" by (simp add: live_cache_load_def)
    then show ?thesis by simp
  next
    case (Some r)
    with False have "live_cache_load d = Some (dv_live_cache_valid_update (\<lambda>_. True) (dv_live_cache_update (\<lambda>_. r) d))"
      by (simp add: live_cache_load_def)
    then show ?thesis by simp
  qed
qed

lemma live_frame [simp]: "core (live_ref_touch b d) = core d" "flow (live_ref_touch b d) = flow d"
  "core (live_cache_flush d) = core d" "flow (live_cache_flush d) = flow d"
  using live_load_frame [of d] by (cases "live_cache_load d"; simp add: live_ref_touch_def live_cache_flush_def)+

lemma maybe_gc_frame [simp]: "core (maybe_gc n d) = core d" "flow (maybe_gc n d) = flow d"
  by (simp_all add: maybe_gc_def Let_def split: option.split prod.split bool.split)

lemma shed_frame [simp]:
  "core (snd (expensive_op_shed e dv_rl_bundle (\<lambda>b. dv_rl_bundle_update (\<lambda>_. b)) d)) = core d"
  "flow (snd (expensive_op_shed e dv_rl_bundle (\<lambda>b. dv_rl_bundle_update (\<lambda>_. b)) d)) = flow d"
  "core (snd (expensive_op_shed e dv_rl_snapshot (\<lambda>b. dv_rl_snapshot_update (\<lambda>_. b)) d)) = core d"
  "flow (snd (expensive_op_shed e dv_rl_snapshot (\<lambda>b. dv_rl_snapshot_update (\<lambda>_. b)) d)) = flow d"
  by (simp_all add: expensive_op_shed_def Let_def split: prod.split bool.split)

lemma snapshot_frame [simp]: "core (snd (engine_snapshot_objects p m d)) = core d" "flow (snd (engine_snapshot_objects p m d)) = flow d"
  by (simp_all add: engine_snapshot_objects_def Let_def split: option.split prod.split bool.split)

lemma do_snapshot_frame [simp]: "core (snd (do_snapshot m d)) = core d" "flow (snd (do_snapshot m d)) = flow d"
proof -
  define d1 where "d1 = live_cache_flush d"
  have "core (snd (do_snapshot m d)) = core d \<and> flow (snd (do_snapshot m d)) = flow d"
  proof (cases "harp_store_ref_read (dv_store d1) LIVE_REF")
    case None
    then show ?thesis by (simp add: do_snapshot_def d1_def [symmetric]) (simp add: d1_def)
  next
    case (Some r)
    obtain x d2 where x: "engine_snapshot_objects (if rf_unborn r then None else Some (rf_hash r)) m d1 = (x, d2)"
      by (cases "engine_snapshot_objects (if rf_unborn r then None else Some (rf_hash r)) m d1")
    have d2: "core d2 = core d" "flow d2 = flow d" 
      using snapshot_frame [of "if rf_unborn r then None else Some (rf_hash r)" m d1, unfolded x snd_conv]
      by (simp_all add: d1_def)
    show ?thesis
    proof (cases x)
      case None
      with Some x d2 show ?thesis by (simp add: do_snapshot_def d1_def [symmetric])
    next
      case (Some snap)
      with \<open>harp_store_ref_read (dv_store d1) LIVE_REF = Some r\<close> x d2 show ?thesis
        by (simp add: do_snapshot_def d1_def [symmetric] Let_def split: prod.split bool.split)
    qed
  qed
  then show "core (snd (do_snapshot m d)) = core d" "flow (snd (do_snapshot m d)) = flow d" by blast+
qed

lemma load_snapshot_frame [simp]: "flow (snd (engine_load_snapshot h d)) = flow d"
  by (simp add: engine_load_snapshot_def split: prod.split bool.split option.split)


section \<open>The bounds\<close>

definition audio_wf :: "audio_state \<Rightarrow> bool" where
  "audio_wf a \<longleftrightarrow>
     length (au_out_slots a) \<le> 34 \<and> list_all (\<lambda>s. s \<le> 33) (au_out_slots a) \<and>
     length (au_in_slots a) \<le> 34 \<and> list_all (\<lambda>s. s \<le> 33) (au_in_slots a) \<and>
     au_loopback_in_slot a \<le> 33 \<and> au_loopback_out_slot a \<le> 33 \<and>
     au_mode a \<le> 1 \<and> au_nsamples a \<le> 1024 \<and> au_rate a \<in> {0, 44100, 48000, 96000}"

definition reconcile_wf :: "reconcile \<Rightarrow> bool" where
  "reconcile_wf r \<longleftrightarrow> length (rc_expect r) \<le> 15 \<and> length (rc_live r) \<le> 15 \<and> - 1 \<le> rc_choice r \<and> rc_choice r \<le> 4"

definition device_wf :: "'s device \<Rightarrow> bool" where
  "device_wf d \<longleftrightarrow>
     sendq_ok d \<and> txn_inv (dv_txn d) \<and> engine_wf (dv_engine d) \<and> length (dv_evt_stage d) \<le> EVT_STAGE_CAP \<and>
     audio_wf (dv_audio d) \<and> reconcile_wf (dv_reconcile d)"

lemma wf_core: "core d' = core d \<Longrightarrow> device_wf d' = device_wf d"
  using sendq_cong [of d' d] by (simp add: core_def device_wf_def)

definition core_wf where
  "core_wf c \<longleftrightarrow> (case c of ((q, h, t, n), txn, g, st, a, r) \<Rightarrow>
     length q = HARP_SENDQ_CAP \<and> h < HARP_SENDQ_CAP \<and> n \<le> HARP_SENDQ_CAP \<and> t = (h + n) mod HARP_SENDQ_CAP \<and>
     txn_inv txn \<and> engine_wf g \<and> length st \<le> EVT_STAGE_CAP \<and> audio_wf a \<and> reconcile_wf r)"

lemma device_wf_core: "device_wf d = core_wf (core d)"
  by (auto simp: device_wf_def core_wf_def core_def sendq_ok_def)

named_theorems wf_intros \<open>operations that keep the device well-formed\<close>

lemma wf_update [wf_intros]:
  "device_wf d \<Longrightarrow> engine_wf g \<Longrightarrow> device_wf (d\<lparr>dv_engine := g\<rparr>)"
  "device_wf d \<Longrightarrow> txn_inv t \<Longrightarrow> device_wf (d\<lparr>dv_txn := t\<rparr>)"
  "device_wf d \<Longrightarrow> audio_wf a \<Longrightarrow> device_wf (d\<lparr>dv_audio := a\<rparr>)"
  "device_wf d \<Longrightarrow> reconcile_wf r \<Longrightarrow> device_wf (d\<lparr>dv_reconcile := r\<rparr>)"
  "device_wf d \<Longrightarrow> length st \<le> EVT_STAGE_CAP \<Longrightarrow> device_wf (d\<lparr>dv_evt_stage := st\<rparr>)"
  by (simp_all add: device_wf_def sendq_ok_def)

lemma wf_parts: "device_wf d \<Longrightarrow> sendq_ok d" "device_wf d \<Longrightarrow> txn_inv (dv_txn d)" "device_wf d \<Longrightarrow> engine_wf (dv_engine d)"
  "device_wf d \<Longrightarrow> length (dv_evt_stage d) \<le> EVT_STAGE_CAP" "device_wf d \<Longrightarrow> audio_wf (dv_audio d)"
  "device_wf d \<Longrightarrow> reconcile_wf (dv_reconcile d)"
  by (simp_all add: device_wf_def)

lemma txn_inv_empty: "txn_inv (replicate DEV_TXN_MAX txn_zero)"
  by (auto simp: txn_inv_def txn_zero_def inj_on_def)

subsection \<open>The send queue\<close>

lemma wf_sendq:
  "core d' = ((q, h, t, n), snd (core d)) \<Longrightarrow> device_wf d \<Longrightarrow> length q = HARP_SENDQ_CAP \<Longrightarrow> h < HARP_SENDQ_CAP \<Longrightarrow>
     n \<le> HARP_SENDQ_CAP \<Longrightarrow> t = (h + n) mod HARP_SENDQ_CAP \<Longrightarrow> device_wf d'"
  by (simp add: device_wf_core core_wf_def core_def)

lemma wf_sendq_ops [wf_intros]:
  "device_wf d \<Longrightarrow> device_wf (sendq_push d x)"
  "device_wf d \<Longrightarrow> dv_sendq_count d \<noteq> 0 \<Longrightarrow> device_wf (sendq_pop d)"
proof -
  assume d: "device_wf d"
  note ok = wf_parts(1) [OF d]
  have "sendq_ok (sendq_push d x)" using sq.push_ok [OF ok] .
  moreover have "snd (core (sendq_push d x)) = snd (core d)" by (simp add: core_def sendq_push_def ctr_obj_drop_def)
  ultimately show "device_wf (sendq_push d x)" using d by (simp add: device_wf_def core_def)
  assume n: "dv_sendq_count d \<noteq> 0"
  then have "sendq_items d \<noteq> []" by (simp add: sendq_items_def)
  from sq.pop_ok [OF ok this] d show "device_wf (sendq_pop d)" by (simp add: device_wf_def sendq_pop_def)
qed

lemma wf_drain [wf_intros]: "device_wf d \<Longrightarrow> device_wf (sendq_drain enc d)"
proof (induction enc d rule: sendq_drain.induct)
  case (1 enc d)
  note eq = sendq_drain.simps [of enc d]
  show ?case
  proof (cases "dv_sendq_count d = 0")
    case False
    let ?h = "dv_sendq d ! dv_sendq_head d"
    obtain ok b where get: "harp_store_get (dv_store d) ?h (harp_cbuf_reset enc) = (ok, b)" by (metis surj_pair)
    define r where "r = dev_send HARP_STREAM_OBJ (cb_buf b) d"
    let ?d = "sendq_pop ((snd r)\<lparr>dv_peer_credit := dv_peer_credit (snd r) - of_nat (length (cb_buf b))\<rparr>)"
    have r: "device_wf (snd r)" "dv_sendq_count (snd r) = dv_sendq_count d"
      using "1.prems" by (simp_all add: device_wf_core r_def)
    then have d1: "device_wf ?d" using False by (intro wf_intros) (simp_all add: device_wf_core)
    have d2: "device_wf (ctr_obj_drop (sendq_pop d))" using wf_sendq_ops(2) [OF "1.prems" False] by (simp add: device_wf_core)
    show ?thesis
    proof (cases ok)
      case True
      have "device_wf (sendq_drain b ?d)" if "\<not> length (cb_buf b) > unat (dv_peer_credit d)" "fst r"
        using "1.IH"(1) [OF False refl get [symmetric] _ refl _ refl _ refl] True that d1 by (simp add: r_def)
      then show ?thesis using eq False get True "1.prems" r(1) by (simp add: r_def Let_def)
    next
      case bad: False
      have "device_wf (sendq_drain b (ctr_obj_drop (sendq_pop d)))"
        using "1.IH"(2) [OF False refl get [symmetric] _ d2] bad by simp
      then show ?thesis using eq False get bad by simp
    qed
  qed (use "1.prems" eq in simp)
qed

lemma wf_sendq_flush [wf_intros]: "device_wf d \<Longrightarrow> device_wf (sendq_flush d)"
  by (simp add: sendq_flush_def wf_drain)

lemma wf_pushes [wf_intros]: "device_wf d \<Longrightarrow> device_wf (foldl sendq_push d hs)"
  by (induction hs arbitrary: d) (simp_all add: wf_intros)

lemma drain_flow [simp]: "flow (sendq_drain enc d) = flow d"
proof (induction enc d rule: sendq_drain.induct)
  case (1 enc d)
  let ?h = "dv_sendq d ! dv_sendq_head d"
  obtain ok b where get: "harp_store_get (dv_store d) ?h (harp_cbuf_reset enc) = (ok, b)" by (metis surj_pair)
  show ?case
  proof (cases "dv_sendq_count d = 0")
    case False
    then show ?thesis
      using "1.IH"(1) [OF False refl get [symmetric] _ refl _ refl _ refl] "1.IH"(2) [OF False refl get [symmetric]] get
      by (subst sendq_drain.simps) (cases ok; simp add: Let_def sendq_pop_def)
  qed (simp add: sendq_drain.simps)
qed

lemma sendq_flow [simp]: "flow (sendq_flush d) = flow d" "flow (foldl sendq_push d hs) = flow d"
proof -
  have push: "flow (sendq_push d h) = flow d" for h d by (simp add: sendq_push_def)
  show "flow (foldl sendq_push d hs) = flow d" by (induction hs arbitrary: d) (simp_all add: push)
qed (simp add: sendq_flush_def)


subsection \<open>Events\<close>

lemma wf_flush [wf_intros]: "device_wf d \<Longrightarrow> device_wf (evt_stage_flush d)"
  using engine_wf_push_run [of "dv_engine d" "dv_evt_stage d"]
  by (auto simp: evt_stage_flush_def Let_def engine_wf_def sendq_ok_def device_wf_def)

lemma flush_empty [simp]: "dv_evt_stage (evt_stage_flush d) = []" "flow (evt_stage_flush d) = flow d"
  by (simp_all add: evt_stage_flush_def Let_def)

lemma wf_stage_add [wf_intros]: "device_wf d \<Longrightarrow> device_wf (evt_stage_add ev d)"
proof -
  assume d: "device_wf d"
  define d1 where "d1 = (if length (dv_evt_stage d) \<ge> EVT_STAGE_CAP then evt_stage_flush d else d)"
  have "device_wf d1" "length (dv_evt_stage d1) < EVT_STAGE_CAP"
    using d wf_flush [OF d] by (simp_all add: d1_def EVT_STAGE_CAP_def)
  then show ?thesis
    by (simp add: evt_stage_add_def d1_def [symmetric] device_wf_def sendq_ok_def)
qed

lemma wf_txn: "device_wf d \<Longrightarrow> core d' = (fst (core d), dv_txn d', snd (snd (core d))) \<Longrightarrow> txn_inv (dv_txn d') \<Longrightarrow> device_wf d'"
  by (simp add: device_wf_core core_wf_def core_def)

lemma wf_txn_begin [wf_intros]: "device_wf d \<Longrightarrow> device_wf (txn_begin i d)"
  by (rule wf_txn [of d, OF _ _ txn_begin_map(1)])
    (auto simp: wf_parts core_def txn_begin_def ctr_txn_rejected_def split: option.split)

lemma wf_txn_abort [wf_intros]: "device_wf d \<Longrightarrow> device_wf (txn_abort i d)"
  by (rule wf_txn [of d, OF _ _ txn_close_map(1) [OF _ disjI1 [OF refl]]])
    (auto simp: wf_parts core_def txn_abort_def ctr_txn_unknown_def split: option.split)

lemma wf_txn_submit [wf_intros]: "device_wf d \<Longrightarrow> device_wf (txn_submit i ev d)"
proof (cases "i = 0")
  case False
  then show "device_wf d \<Longrightarrow> ?thesis"
    by (intro wf_txn [of d, OF _ _ txn_submit_map(1)])
      (auto simp: wf_parts core_def txn_submit_def Let_def ctr_txn_unknown_def ctr_txn_overflow_def split: option.split)
qed (simp add: txn_submit_def wf_intros)

lemma commit_split:
  "\<exists>g. core (snd (txn_commit i t d)) =
     (let c = core (case txn_find (dv_txn d) i of None \<Rightarrow> d | Some k \<Rightarrow> evt_stage_flush d)
      in (fst c, dv_txn (snd (txn_commit i t d)), g, snd (snd (snd c)))) \<and> (device_wf d \<longrightarrow> engine_wf g)"
proof (cases "txn_find (dv_txn d) i")
  case None
  then show ?thesis
    by (auto simp: txn_commit_def core_def ctr_txn_unknown_def intro!: exI [of _ "dv_engine d"] dest: wf_parts(3))
next
  case (Some k)
  let ?evs = "restamp t (tx_ev (dv_txn d ! k))" and ?g = "dv_engine (evt_stage_flush d)"
  let ?h = "if ?evs = [] then ?g else snd (evq_push_batch ?g ?evs)"
  have "device_wf d \<Longrightarrow> engine_wf ?h" by (simp add: wf_parts(3) wf_flush engine_wf_push_batch)
  with Some show ?thesis
    by (intro exI [of _ ?h]) (simp add: txn_commit_def core_def Let_def split_beta)
qed

lemma wf_commit [wf_intros]: "device_wf d \<Longrightarrow> device_wf (commit_then i t d)"
proof -
  assume d: "device_wf d"
  obtain g where c: "core (snd (txn_commit i t d)) =
     (let c = core (case txn_find (dv_txn d) i of None \<Rightarrow> d | Some k \<Rightarrow> evt_stage_flush d)
      in (fst c, dv_txn (snd (txn_commit i t d)), g, snd (snd (snd c))))" "engine_wf g"
    using commit_split [of i t d] d by blast
  have "device_wf (case txn_find (dv_txn d) i of None \<Rightarrow> d | Some k \<Rightarrow> evt_stage_flush d)"
    using d by (simp add: wf_intros split: option.split)
  moreover have "txn_inv (dv_txn (snd (txn_commit i t d)))"
    by (rule txn_close_map(1) [OF wf_parts(2) [OF d] disjI2 [OF refl]])
  ultimately have "device_wf (snd (txn_commit i t d))"
    using c by (simp add: device_wf_core core_wf_def split_beta Let_def)
  then show ?thesis by (simp add: commit_then_def split_beta device_wf_core)
qed

lemma wf_ump [wf_intros]: "engine_wf g \<Longrightarrow> engine_wf (ump_event ev g)"
proof -
  assume g: "engine_wf g"
  note all = engine_step_wf [OF step_all_off] and off = engine_step_wf [OF step_note_off]
  have "engine_wf (all_off x)" if "engine_wf x" for x using all [OF that] by (simp add: all_off_def)
  with g off show ?thesis by (simp add: ump_event_def Let_def engine_wf_push)
qed

lemma wf_on_engine [wf_intros]: "device_wf d \<Longrightarrow> (\<And>g. engine_wf g \<Longrightarrow> engine_wf (f g)) \<Longrightarrow> device_wf (on_engine f d)"
  by (simp add: on_engine_def wf_intros wf_parts)

lemma wf_if: "P \<Longrightarrow> Q \<Longrightarrow> if b then P else Q" by simp

lemma wf_framed [simp]: "device_wf (live_ref_touch b d) = device_wf d" "device_wf (ctr_stale_epoch d) = device_wf d"
  "device_wf (body_error e d) = device_wf d" "device_wf (ctr_frame_error d) = device_wf d"
  "device_wf (d\<lparr>dv_evt_staged := st\<rparr>) = device_wf d"
  by (simp_all add: device_wf_core)

lemma wf_evt_msg [wf_intros]:
  assumes "device_wf d"
  shows "device_wf (handle_evt_msg buf d)"
proof -
  have "device_wf (evt_ump m c d)" "device_wf (evt_transport m c d)" for m c
    using assms by (simp_all add: evt_ump_def evt_transport_def Let_def wf_intros engine_wf_push split: option.split sum.split)
  moreover have "device_wf (evt_ramp m c d)" "device_wf (evt_mod m c d)" "device_wf (evt_param m c d)" for m c
    using assms by (simp_all add: evt_ramp_def evt_mod_def evt_param_def Let_def wf_intros split: sum.split)
  moreover have "device_wf (evt_txn_begin c d)" "device_wf (evt_txn_commit m c d)" "device_wf (evt_txn_abort c d)" for m c
    using assms by (simp_all add: evt_txn_begin_def evt_txn_commit_def evt_txn_abort_def wf_intros
        split: sum.split option.split prod.split)
  ultimately show ?thesis
    using assms by (simp add: handle_evt_msg_def split: option.split prod.split)
qed

lemma wf_consume [wf_intros]: "device_wf d \<Longrightarrow> device_wf (consume_evt buf d)"
proof -
  have "engine_wf (count_consumed g) = engine_wf g" for g by (simp add: count_consumed_def engine_wf_def)
  then show "device_wf d \<Longrightarrow> ?thesis" by (simp add: consume_evt_def Let_def wf_intros)
qed


subsection \<open>Decoding loops\<close>

lemma loop_brk_inv: "(\<And>b c. P b \<Longrightarrow> P (fst (snd (f b c)))) \<Longrightarrow> P b \<Longrightarrow> P (fst (loop_brk f n b c))"
proof (induction n arbitrary: b c)
  case (Suc n)
  show ?case
  proof (cases "f b c")
    case (fields go b1 c1)
    with Suc.prems have "P b1" by (metis fst_conv snd_conv)
    with Suc fields show ?thesis by (subst loop_brk.simps) (simp split: bool.split)
  qed
qed (simp add: loop_brk.simps)

lemma body_loop_inv: "(\<And>k b c. P b \<Longrightarrow> P (fst (snd (f k b c)))) \<Longrightarrow> P b \<Longrightarrow> P (body_loop f b e)"
proof -
  assume f: "\<And>k b c. P b \<Longrightarrow> P (fst (snd (f k b c)))" and b: "P b"
  have "P (fst (snd (with_key f b c)))" if "P b" for b c
    using f [OF that] that by (cases "harp_cdec_uint c"; cases "fst (harp_cdec_uint c)") (simp_all add: with_key_def)
  from loop_brk_inv [of P "with_key f", OF this b] b show ?thesis
    by (simp add: body_loop_def split_beta split: option.split)
qed

lemma rd_inv: "P b \<Longrightarrow> (\<And>v. P (put v b)) \<Longrightarrow> P (fst (snd (rd_uint go get put b c)))"
  "P b \<Longrightarrow> (\<And>v. P (put2 v b)) \<Longrightarrow> P (fst (snd (rd_opt go rd put2 b c)))"
  by (auto simp: rd_uint_def rd_opt_def split: prod.split option.split)

subsection \<open>Streams\<close>

definition slots_ok :: "u8 list \<Rightarrow> bool" where
  "slots_ok sl \<longleftrightarrow> length sl \<le> 34 \<and> list_all (\<lambda>s. s \<le> 33) sl"

lemma ucast_le: "x \<le> 33 \<Longrightarrow> (ucast (x::u64) :: u8) \<le> 33"
  by (simp add: word_le_nat_alt unsigned_ucast_eq take_bit_eq_mod)

lemma slot_step_ok: "slots_ok sl \<Longrightarrow> slots_ok (fst (snd (slot_step sl c)))"
  unfolding slot_step_def
proof (rule rd_inv(2))
  fix v :: u64
  assume sl: "slots_ok sl"
  have "(ucast (if v > 33 then 33 else v) :: u8) \<le> 33" by (rule ucast_le) (simp add: not_less)
  with sl show "slots_ok (if length sl < 34 then sl @ [ucast (if 33 < v then 33 else v)] else sl)"
    by (simp add: slots_ok_def)
qed

definition start_slots :: "start_req \<Rightarrow> bool" where
  "start_slots q \<longleftrightarrow> slots_ok (st_out q) \<and> slots_ok (st_in q)"

lemma slot_array_ok:
  assumes "start_slots q" and "slots_ok (get q)" and "\<And>sl. slots_ok sl \<Longrightarrow> start_slots (put sl q)"
  shows "start_slots (fst (snd (slot_array get put q c)))"
proof (cases "harp_cdec_array c")
  case (Pair a c1)
  then show ?thesis
    using assms loop_brk_inv [of slots_ok slot_step, OF slot_step_ok assms(2)]
    by (cases a) (simp_all add: slot_array_def split_beta)
qed

lemma start_body_ok: "start_slots (body_loop start_field start_zero e)"
proof (rule body_loop_inv)
  show "start_slots start_zero" by (simp add: start_zero_def start_slots_def slots_ok_def)
  fix k q c
  assume q: "start_slots q"
  then have "start_slots (fst (snd (slot_array st_in (\<lambda>sl. st_in_update (\<lambda>_. sl)) q c)))"
    "start_slots (fst (snd (slot_array st_out (\<lambda>sl. st_out_update (\<lambda>_. sl)) q c)))"
    by (rule slot_array_ok; use q in \<open>simp add: start_slots_def\<close>)+
  moreover have "start_slots (q\<lparr>st_rate := v\<rparr>)" "start_slots (q\<lparr>st_nsamples := v\<rparr>)" "start_slots (q\<lparr>st_mode := v\<rparr>)"
    "start_slots (q\<lparr>st_rtp_port := v\<rparr>)" "start_slots (q\<lparr>st_prebuf := v\<rparr>)" "start_slots (q\<lparr>st_hp_port := v\<rparr>)" for v
    using q by (simp_all add: start_slots_def)
  ultimately show "start_slots (fst (snd (start_field k q c)))"
    using q by (simp add: start_field_def rd_inv [where P = start_slots])
qed

lemma engine_wf_quiet: "engine_wf g \<Longrightarrow> engine_wf (engine_voices_quiet g)"
  unfolding engine_voices_quiet_def by (rule engine_wf_parts) (use part_wf_idle in \<open>auto simp: part_wf_def voices_idle_def\<close>)

lemma wf_meter [wf_intros]: "device_wf d \<Longrightarrow> device_wf (meter_pump_start d)" "device_wf d \<Longrightarrow> device_wf (meter_pump_stop d)"
proof -
  assume d: "device_wf d"
  have a: "audio_wf (a\<lparr>au_meter_live := b\<rparr>) = audio_wf a" for a b by (simp add: audio_wf_def)
  have "engine_wf (engine_meters_reset (dv_engine d))" by (rule engine_step_wf [OF step_meters wf_parts(3) [OF d]])
  with d a show "device_wf (meter_pump_start d)" "device_wf (meter_pump_stop d)"
    using wf_parts(5) [OF d] by (simp_all add: meter_pump_start_def meter_pump_stop_def Let_def wf_update)
qed

lemma wf_log [simp]: "device_wf (log_line l t s d) = device_wf d"
  by (simp add: device_wf_core)

lemma wf_audio_stop [wf_intros]: "device_wf d \<Longrightarrow> device_wf (audio_stop d)"
proof -
  assume d: "device_wf d"
  define d1 where "d1 = meter_pump_stop d"
  have d1: "device_wf d1" using d by (simp add: d1_def wf_intros)
  let ?a = "(dv_audio d1)\<lparr>au_running := False, au_thread_live := False\<rparr>"
  let ?b = "\<lambda>a. if au_host_paced_sock a \<ge> 0 then a\<lparr>au_host_paced_sock := - 1\<rparr> else a"
  have "audio_wf ((?b (audio_rtp_close ?a))\<lparr>au_host_paced_port := 0\<rparr>)"
    using wf_parts(5) [OF d1] by (simp add: audio_wf_def audio_rtp_close_def)
  from wf_update(1) [OF wf_update(3) [OF d1 this] engine_wf_quiet [OF wf_parts(3) [OF d1]]] show ?thesis
    unfolding audio_stop_def d1_def [symmetric] Let_def using d1 by simp
qed


definition params_ok :: "start_req \<Rightarrow> bool" where
  "params_ok q \<longleftrightarrow> st_mode q \<le> 1 \<and> st_rate q \<in> {44100, 48000, 96000} \<and> st_nsamples q \<le> 1024"

lemma start_accepted: "start_refusal q d = None \<Longrightarrow> params_ok q"
  by (auto simp: start_refusal_def params_ok_def AUDIO_MAX_NSAMPLES_def Let_def not_less split: if_splits prod.splits)

lemma params_narrow:
  assumes "params_ok q"
  shows "(ucast (st_mode q) :: u32) \<le> 1" and "(ucast (st_rate q) :: u32) \<in> {0, 44100, 48000, 96000}"
    and "(ucast (st_nsamples q) :: u32) \<le> 1024"
proof -
  have "(ucast x :: u32) \<le> ucast y" if "x \<le> y" "y \<le> 1024" for x y :: u64
    using that by (simp add: word_le_nat_alt unsigned_ucast_eq take_bit_eq_mod)
  from this [of "st_mode q" 1] this [of "st_nsamples q" 1024]
  show "(ucast (st_mode q) :: u32) \<le> 1" "(ucast (st_nsamples q) :: u32) \<le> 1024"
    using assms by (simp_all add: params_ok_def)
  show "(ucast (st_rate q) :: u32) \<in> {0, 44100, 48000, 96000}" using assms by (auto simp: params_ok_def)
qed

lemma audio_wf_transport: "audio_wf (start_transport q d) = audio_wf (dv_audio d)"
  by (simp add: start_transport_def Let_def audio_wf_def split: prod.split)

lemma audio_wf_start: "audio_wf a \<Longrightarrow> params_ok q \<Longrightarrow> start_slots q \<Longrightarrow> audio_wf (stream_params q a)"
  using params_narrow [of q] by (simp add: stream_params_def audio_wf_def start_slots_def slots_ok_def)

lemma audio_wf_failed: "audio_wf a \<Longrightarrow> audio_wf old \<Longrightarrow> audio_wf (stream_failed q old a)"
  by (simp add: stream_failed_def audio_wf_def audio_rtp_close_def Let_def)

lemma wf_same [simp]: "device_wf (send_ctl m d) = device_wf d" "device_wf (err e c t d) = device_wf d"
  "device_wf (reply e cs d) = device_wf d" "device_wf (reply_empty e d) = device_wf d"
  "device_wf (err_details e cs d) = device_wf d" "device_wf (ntf_state_changed r d) = device_wf d"
  "device_wf (ntf_core_changed tp d) = device_wf d" "device_wf (evt_echo_param i v ch d) = device_wf d"
  "device_wf (live_cache_flush d) = device_wf d" "device_wf (maybe_gc n d) = device_wf d"
  "device_wf (d\<lparr>dv_store := s\<rparr>) = device_wf d" "device_wf (d\<lparr>dv_halted := h\<rparr>) = device_wf d"
  "device_wf (d\<lparr>dv_closing := h\<rparr>) = device_wf d" "device_wf (d\<lparr>dv_granted := g\<rparr>) = device_wf d"
  "device_wf (d\<lparr>dv_peer_credit := g\<rparr>) = device_wf d" "device_wf (d\<lparr>dv_hello_done := h\<rparr>) = device_wf d"
  "device_wf (d\<lparr>dv_io := io\<rparr>) = device_wf d" "device_wf (d\<lparr>dv_world := w\<rparr>) = device_wf d"
  "device_wf (d\<lparr>dv_ctr := c1\<rparr>) = device_wf d" "device_wf (d\<lparr>dv_archives_since_gc := n1\<rparr>) = device_wf d"
  by (simp_all add: device_wf_core)

lemma wf_prepare [wf_intros]: "device_wf d \<Longrightarrow> device_wf (stream_prepare q d)"
  using engine_step_wf [OF step_stream wf_parts(3)]
  unfolding stream_prepare_def by (intro wf_update) (simp_all add: txn_inv_empty audio_wf_transport wf_parts)

lemma wf_announce [wf_intros]: "device_wf d \<Longrightarrow> device_wf (announce_epoch q d)"
proof -
  have "audio_wf (a\<lparr>au_epoch := x\<rparr>) = audio_wf a" for a x by (simp add: audio_wf_def)
  then show "device_wf d \<Longrightarrow> ?thesis" by (simp add: announce_epoch_def Let_def wf_update wf_parts)
qed

lemma wf_stream_up [wf_intros]: "device_wf d \<Longrightarrow> device_wf (stream_up e q d)"
proof -
  have "audio_wf (a\<lparr>au_thread_live := b\<rparr>) = audio_wf a" for a b by (simp add: audio_wf_def)
  then show "device_wf d \<Longrightarrow> ?thesis" by (simp add: stream_up_def Let_def wf_meter wf_update wf_parts)
qed

lemma wf_start_stream [wf_intros]:
  assumes "device_wf d" and "params_ok q" and "start_slots q"
  shows "device_wf (start_stream e q d)"
proof -
  define d1 where "d1 = stream_prepare q d"
  define d2 where "d2 = announce_epoch q d1"
  have d1: "device_wf d1" and d2: "device_wf d2" using assms(1) by (simp_all add: d1_def d2_def wf_intros)
  have a: "audio_wf (stream_params q (dv_audio d2))" by (rule audio_wf_start [OF wf_parts(5) [OF d2] assms(2,3)])
  have d3: "device_wf (d2\<lparr>dv_audio := stream_params q (dv_audio d2)\<rparr>)" by (rule wf_update(3) [OF d2 a])
  moreover have "audio_wf (stream_failed q (dv_audio d1) (stream_params q (dv_audio d2)))"
    by (rule audio_wf_failed [OF a wf_parts(5) [OF d1]])
  ultimately show ?thesis
    unfolding start_stream_def Let_def d1_def [symmetric] d2_def [symmetric]
    by (simp add: wf_stream_up wf_update(3) [OF d2])
qed


subsection \<open>The handlers\<close>

lemma wf_grant [wf_intros]: "device_wf d \<Longrightarrow> device_wf (grant_credit d)"
  by (simp add: grant_credit_def Let_def)

lemma wf_reset_session [wf_intros]: "device_wf d \<Longrightarrow> device_wf (reset_session d)"
  by (simp add: device_wf_def reset_session_def sendq_ok_def txn_inv_empty HARP_SENDQ_CAP_def)

lemma wf_hello [wf_intros]: "device_wf d \<Longrightarrow> device_wf (handle_hello e d)"
  by (simp add: handle_hello_def Let_def wf_intros)

lemma wf_state_refs [wf_intros]: "device_wf d \<Longrightarrow> device_wf (handle_state_refs e d)"
  by (simp add: handle_state_refs_def Let_def split: option.split prod.split)

lemma wf_shed [simp]:
  "device_wf (snd (expensive_op_shed e dv_rl_bundle (\<lambda>b. dv_rl_bundle_update (\<lambda>_. b)) d)) = device_wf d"
  "device_wf (snd (expensive_op_shed e dv_rl_snapshot (\<lambda>b. dv_rl_snapshot_update (\<lambda>_. b)) d)) = device_wf d"
  "device_wf (snd (do_snapshot m d)) = device_wf d"
  by (simp_all add: device_wf_core)

lemma wf_state_snapshot [wf_intros]: "device_wf d \<Longrightarrow> device_wf (handle_state_snapshot e d)"
proof -
  assume d: "device_wf d"
  obtain b d1 where s: "expensive_op_shed e dv_rl_snapshot (\<lambda>b. dv_rl_snapshot_update (\<lambda>_. b)) d = (b, d1)"
    by (cases "expensive_op_shed e dv_rl_snapshot (\<lambda>b. dv_rl_snapshot_update (\<lambda>_. b)) d")
  have d1: "device_wf d1" using wf_shed(2) [of e d, unfolded s snd_conv] d by simp
  define m where "m = (let q = body_loop snapshot_field \<lparr>sq_ref = [], sq_msg = []\<rparr> e in if sq_msg q \<noteq> [] then Some (sq_msg q) else None)"
  obtain x d2 where x: "do_snapshot m d1 = (x, d2)" by (cases "do_snapshot m d1")
  have d2: "device_wf d2" using wf_shed(3) [of m d1, unfolded x snd_conv] d1 by simp
  show ?thesis
    using d1 d2 x by (cases b) (simp_all add: handle_state_snapshot_def s m_def Let_def split: option.split prod.split)
qed

lemma wf_transfer [wf_intros]: "device_wf d \<Longrightarrow> device_wf (handle_state_have e d)"
  "device_wf d \<Longrightarrow> device_wf (handle_state_want e d)" "device_wf d \<Longrightarrow> device_wf (handle_state_send e d)"
  by (simp_all add: handle_state_have_def handle_state_want_def handle_state_send_def Let_def wf_intros
      split: option.split prod.split)

lemma wf_obj [wf_intros]: "device_wf d \<Longrightarrow> device_wf (handle_obj buf d)"
  by (simp add: handle_obj_def Let_def wf_intros split: prod.split)

lemma commit_grid_wf: "engine_wf g \<Longrightarrow> engine_wf (g\<lparr>en_parts := commit_grid v (en_parts g)\<rparr>)"
proof -
  have row: "engine_wf (g\<lparr>en_parts := foldl (\<lambda>ps i. engine_part_param_put ps (int pi) (dp_id (g_params ! i)) (v ! pi ! i)) ps is\<rparr>)"
    if "engine_wf (g\<lparr>en_parts := ps\<rparr>)" for ps pi "is"
    using that
  proof (induction "is" arbitrary: ps)
    case (Cons i "is")
    from engine_wf_param_put [OF Cons.prems, of "int pi" "dp_id (g_params ! i)" "v ! pi ! i"] Cons.IH show ?case by simp
  qed simp
  have "engine_wf (g\<lparr>en_parts := foldl (\<lambda>ps pi. foldl (\<lambda>ps i. engine_part_param_put ps (int pi) (dp_id (g_params ! i))
      (v ! pi ! i)) ps [0..<NPARAMS]) ps js\<rparr>)" if "engine_wf (g\<lparr>en_parts := ps\<rparr>)" for ps js
    using that
  proof (induction js arbitrary: ps)
    case (Cons j js)
    from Cons.IH [OF row [OF Cons.prems]] show ?case by simp
  qed simp
  from this [of "en_parts g" "[0..<NPARTS]"] show "engine_wf g \<Longrightarrow> ?thesis" by (simp add: commit_grid_def)
qed

lemma wf_load [wf_intros]: "device_wf d \<Longrightarrow> device_wf (snd (engine_load_snapshot h d))"
  by (simp add: engine_load_snapshot_def wf_update wf_parts commit_grid_wf split: prod.split bool.split option.split)

lemma wf_refset_commit [wf_intros]: "device_wf d \<Longrightarrow> device_wf (refset_commit e q r d)"
  by (simp add: refset_commit_def Let_def split: prod.split bool.split)

lemma wf_refset_live [wf_intros]: "device_wf d \<Longrightarrow> device_wf (refset_live e q r d)"
proof -
  assume d: "device_wf d"
  obtain ok d1 where l: "engine_load_snapshot (rq_new q) d = (ok, d1)" by (cases "engine_load_snapshot (rq_new q) d")
  then have "device_wf d1" using wf_load [OF d, of "rq_new q"] by simp
  then show ?thesis using d
    by (simp add: refset_live_def l Let_def refset_incompatible_def wf_refset_commit split: bool.split)
qed

lemma wf_refset [wf_intros]: "device_wf d \<Longrightarrow> device_wf (handle_state_refset e d)"
  by (simp add: handle_state_refset_def Let_def refset_conflict_def wf_refset_live wf_refset_commit split: option.split)

lemma wf_trim: "audio_wf (a\<lparr>au_rate_trim_ppb := x\<rparr>) = audio_wf a" "audio_wf (a\<lparr>au_loopback_on := b\<rparr>) = audio_wf a"
  by (simp_all add: audio_wf_def)

lemma wf_audio [wf_intros]: "device_wf d \<Longrightarrow> device_wf (handle_audio_start e d)"
  "device_wf d \<Longrightarrow> device_wf (handle_audio_stop e d)" "device_wf d \<Longrightarrow> device_wf (handle_audio_trim e d)"
proof -
  assume d: "device_wf d"
  define q where "q = body_loop start_field start_zero e"
  define q1 where "q1 = (if st_out q = [] then q\<lparr>st_out := [0, 1]\<rparr> else q)"
  have "start_slots q1" using start_body_ok [of e] by (simp add: q1_def q_def start_slots_def slots_ok_def)
  moreover have "handle_audio_start e d = (case start_refusal q1 d of Some (code, msg) \<Rightarrow> err e code (Some (str msg)) d
      | None \<Rightarrow> start_stream e q1 d)" by (simp only: handle_audio_start_def q_def q1_def Let_def)
  ultimately show "device_wf (handle_audio_start e d)"
    using d wf_start_stream [OF d start_accepted [of q1 d]] by (simp split: option.split prod.split)
  show "device_wf (handle_audio_stop e d)"
    using d by (simp add: handle_audio_stop_def wf_intros txn_inv_empty)
  show "device_wf (handle_audio_trim e d)"
    using d by (simp add: handle_audio_trim_def wf_update wf_trim wf_parts)
qed

lemma wf_loopback [wf_intros]: "device_wf d \<Longrightarrow> device_wf (handle_diag_loopback_start e d)"
  "device_wf d \<Longrightarrow> device_wf (handle_diag_loopback_stop e d)"
proof -
  assume d: "device_wf d"
  have "audio_wf (a\<lparr>au_loopback_in_slot := ucast i, au_loopback_out_slot := ucast j, au_loopback_on := True\<rparr>)"
    if "audio_wf a" "\<not> (i :: u64) > 33" "\<not> (j :: u64) > 33" for a i j
    using that ucast_le [of i] ucast_le [of j] by (simp add: audio_wf_def not_less)
  with d show "device_wf (handle_diag_loopback_start e d)"
    by (simp add: handle_diag_loopback_start_def Let_def wf_update wf_parts)
  show "device_wf (handle_diag_loopback_stop e d)"
    using d by (simp add: handle_diag_loopback_stop_def wf_update wf_trim wf_parts)
qed

lemma wf_panel [wf_intros]: "device_wf d \<Longrightarrow> device_wf (snd (front_panel_set i v d))"
  by (simp add: front_panel_set_def front_panel_set_part_def Let_def wf_update wf_parts engine_wf_param_put)

lemma wf_knob [wf_intros]: "device_wf d \<Longrightarrow> device_wf (handle_knob e d)"
proof -
  assume d: "device_wf d"
  have "device_wf d1" if "front_panel_set i v d = (ok, d1)" for i v ok d1
    using wf_panel [OF d, of i v] that by simp
  with d show ?thesis by (auto simp: handle_knob_def split: option.split prod.split bool.split)
qed

lemma wf_offer [wf_intros]: "device_wf d \<Longrightarrow> device_wf (handle_reconcile_offer e d)"
  by (simp add: handle_reconcile_offer_def reconcile_post_offer_def reconcile_wf_def snprintf_def wf_update
      split: option.split prod.split)

lemma wf_bundle [wf_intros]: "device_wf d \<Longrightarrow> device_wf (handle_diag_bundle e d)"
proof -
  assume d: "device_wf d"
  obtain b d1 where s: "expensive_op_shed e dv_rl_bundle (\<lambda>b. dv_rl_bundle_update (\<lambda>_. b)) d = (b, d1)"
    by (cases "expensive_op_shed e dv_rl_bundle (\<lambda>b. dv_rl_bundle_update (\<lambda>_. b)) d")
  have "device_wf d1" using wf_shed(1) [of e d, unfolded s snd_conv] d by simp
  then show ?thesis by (cases b) (simp_all add: handle_diag_bundle_def s)
qed

lemma wf_reads [wf_intros]:
  "device_wf d \<Longrightarrow> device_wf (handle_diag_counters e d)" "device_wf d \<Longrightarrow> device_wf (handle_evt_params e d)"
  "device_wf d \<Longrightarrow> device_wf (handle_evt_format e d)" "device_wf d \<Longrightarrow> device_wf (handle_evt_parse e d)"
  "device_wf d \<Longrightarrow> device_wf (handle_reconcile_poll e d)" "device_wf d \<Longrightarrow> device_wf (handle_dev_params e d)"
  "device_wf d \<Longrightarrow> device_wf (handle_dev_meters e d)" "device_wf d \<Longrightarrow> device_wf (handle_dev_txn e d)"
  "device_wf d \<Longrightarrow> device_wf (handle_dev_gc e d)" "device_wf d \<Longrightarrow> device_wf (handle_identify e d)"
  "device_wf d \<Longrightarrow> device_wf (handle_ping e d)" "device_wf d \<Longrightarrow> device_wf (handle_bye e d)"
  "device_wf d \<Longrightarrow> device_wf (handle_time_ping e d)" "device_wf d \<Longrightarrow> device_wf (handle_notify_changed e d)"
  "device_wf d \<Longrightarrow> device_wf (handle_restart e d)"
  by (simp_all add: handle_diag_counters_def handle_evt_params_def handle_evt_format_def handle_evt_parse_def
      handle_reconcile_poll_def handle_dev_params_def handle_dev_meters_def handle_dev_txn_def handle_dev_gc_def
      handle_identify_def handle_ping_def handle_bye_def handle_time_ping_def handle_notify_changed_def handle_restart_def
      Let_def wf_intros split: option.split prod.split)

lemma wf_handlers: "h \<in> set CTL_HANDLERS \<Longrightarrow> device_wf d \<Longrightarrow> device_wf (snd h e d)"
  by (auto simp: CTL_HANDLERS_def wf_intros)


section \<open>Sessions\<close>

lemma find_in_set: "find P xs = Some x \<Longrightarrow> x \<in> set xs"
  by (auto simp: find_Some_iff)

lemma wf_ctl [wf_intros]: "device_wf d \<Longrightarrow> device_wf (handle_ctl buf d)"
proof -
  have touch: "device_wf (take_touch d)" if "device_wf d" for d :: "'a device"
    using that by (auto simp: take_touch_def engine_wf_def intro!: wf_on_engine)
  have req: "device_wf (handle_request e d)" if "device_wf d" for e and d :: "'a device"
    using that by (simp add: handle_request_def wf_handlers [OF find_in_set] split: option.split)
  have ntf: "device_wf (handle_notification e d)" if "device_wf d" for e and d :: "'a device"
    using that by (simp add: handle_notification_def wf_intros split: option.split)
  show "device_wf d \<Longrightarrow> ?thesis" using touch req ntf by (simp add: handle_ctl_def Let_def split: option.split)
qed

lemma wf_dispatch [wf_intros]: "device_wf d \<Longrightarrow> device_wf (dispatch st msg d)"
  by (simp add: dispatch_def wf_intros)

lemma wf_render [wf_intros]: "device_wf d \<Longrightarrow> device_wf (render_work spans d)"
proof -
  have "engine_wf (fold (\<lambda>(pos, n) g. snd (evq_apply_due pos n g)) spans g)" if "engine_wf g" for g
    using that by (induction spans arbitrary: g) (simp_all add: split_beta engine_wf_apply_due)
  then show "device_wf d \<Longrightarrow> ?thesis" by (simp add: render_work_def wf_on_engine)
qed

lemma reannounce_idle [simp]: "reannounce d = d"
  by (simp add: reannounce_def engine_param_map_dirty_take_def)

lemma wf_turn: "device_wf d \<Longrightarrow> device_wf (snd (session_turn t0 t d))"
proof -
  assume d: "device_wf d"
  define d1 where "d1 = render_work (ti_due t) (d\<lparr>dv_world := ti_world t\<rparr>)"
  define d2 where "d2 = dispatch (ti_stream t) (ti_msg t) d1"
  have "device_wf d1" "device_wf d2" using d by (simp_all add: d1_def d2_def wf_intros)
  then show ?thesis
    unfolding session_turn_def Let_def d1_def [symmetric] d2_def [symmetric] by (simp add: wf_intros)
qed

lemma session_loop_inv:
  assumes "\<And>t d. t \<in> set ts \<Longrightarrow> P d \<Longrightarrow> P (snd (session_turn t0 t d))" and "P d"
  shows "P (session_loop t0 ts d)"
  using assms
proof (induction ts arbitrary: d)
  case (Cons t ts)
  obtain stop d1 where t: "session_turn t0 t d = (stop, d1)" by (cases "session_turn t0 t d")
  with Cons.prems have "P d1" by (metis list.set_intros(1) snd_conv)
  with Cons t show ?case by (cases stop) simp_all
qed simp

lemma wf_session_begin [wf_intros]: "device_wf d \<Longrightarrow> device_wf (session_begin io d)"
  unfolding session_begin_def by (rule wf_reset_session) (simp add: wf_update)

lemma wf_session_end [wf_intros]: "device_wf d \<Longrightarrow> device_wf (session_end d)"
  by (simp add: session_end_def wf_intros)

text \<open>
  C3: The device's tables stay within their bounds throughout a session.  Whatever messages arrive on whatever streams,
  however malformed, whatever the audio thread takes from the queue in between, and whichever system calls fail, a
  well-formed device is well-formed afterwards: the send queue's ring indices are consistent, the four transaction
  slots hold distinct non-zero ids with at most 256 events each, the engine's tables have their sizes, at most 64
  events are staged, every audio slot lies in the channel map of 34, rate and block size are supported ones, and the
  panel's strings fit their buffers.
\<close>

theorem session_keeps_wf:
  assumes "device_wf d"
  shows "device_wf (harp_deviced_run_session io ts d)"
proof -
  have "device_wf (session_begin io d)" using assms by (rule wf_session_begin)
  from session_loop_inv [of ts device_wf, OF _ this] show ?thesis
    by (simp add: harp_deviced_run_session_def Let_def wf_session_end wf_turn)
qed

lemma ex_device_wf: "device_wf ex_device"
  using ex_device_ok(1) engine_wf_boot txn_inv_empty
  by (simp add: device_wf_def ex_device_def audio_wf_def ex_audio_def reconcile_wf_def)

lemma session_keeps_wf_witness:
  "device_wf (harp_deviced_run_session (the (dv_io ex_device))
     [\<lparr>ti_rc = 0, ti_stream = 1, ti_msg = [1, 2], ti_readable = False, ti_world = ex_world, ti_due = [(0, 64)]\<rparr>,
      \<lparr>ti_rc = - 2, ti_stream = 0, ti_msg = [], ti_readable = False, ti_world = ex_world, ti_due = []\<rparr>] ex_device)"
  by (rule session_keeps_wf [OF ex_device_wf])

end
