(* ===== verification/Harp_Gate.thy ===== *)
theory Harp_Gate
  imports Harp_Invariant
begin

text \<open>
  Flow control and admission over a whole session: the credit window stays open, and nothing happens before hello.
\<close>

section \<open>The credit window\<close>

lemma stage_flow [simp]: "flow (evt_stage_add ev d) = flow d" "flow (on_engine f d) = flow d"
  by (simp_all add: evt_stage_add_def on_engine_def Let_def)

lemma txn_flow [simp]: "flow (txn_begin i d) = flow d" "flow (txn_abort i d) = flow d" "flow (txn_submit i ev d) = flow d"
  "flow (commit_then i t d) = flow d"
proof -
  have "flow (snd (txn_commit i t d)) = flow d" by (simp add: txn_commit_def Let_def split_beta split: option.split)
  then show "flow (commit_then i t d) = flow d" by (simp add: commit_then_def split_beta)
qed (simp_all add: txn_begin_def txn_abort_def txn_submit_def Let_def split: option.split)

lemma evt_flow [simp]: "flow (handle_evt_msg buf d) = flow d"
proof -
  have "flow (evt_ump m c d) = flow d" "flow (evt_transport m c d) = flow d" "flow (evt_ramp m c d) = flow d"
    "flow (evt_mod m c d) = flow d" "flow (evt_param m c d) = flow d" "flow (evt_txn_begin c d) = flow d"
    "flow (evt_txn_commit m c d) = flow d" "flow (evt_txn_abort c d) = flow d" for m c
    by (simp_all add: evt_ump_def evt_transport_def evt_ramp_def evt_mod_def evt_param_def evt_txn_begin_def
        evt_txn_commit_def evt_txn_abort_def Let_def split: option.split sum.split prod.split)
  then show ?thesis by (simp add: handle_evt_msg_def split: option.split prod.split)
qed

lemma consume_flow [simp]: "flow (consume_evt buf d) = flow d"
  by (simp add: consume_evt_def Let_def)

lemma audio_flow [simp]: "flow (audio_stop d) = flow d" "flow (start_stream e q d) = flow d"
  by (simp_all add: audio_stop_def start_stream_def stream_up_def announce_epoch_def stream_prepare_def
      meter_pump_stop_def meter_pump_start_def Let_def)

lemma snd_eq: "flow (snd p) = y \<Longrightarrow> p = (a, b) \<Longrightarrow> flow b = y"
  by simp

lemma state_flow [simp]: "flow (handle_state_refs e d) = flow d" "flow (handle_state_have e d) = flow d"
  "flow (handle_state_want e d) = flow d" "flow (handle_state_send e d) = flow d"
  by (simp_all add: handle_state_refs_def handle_state_have_def handle_state_want_def handle_state_send_def Let_def
      split: option.split prod.split)

lemma snapshot_flow [simp]: "flow (handle_state_snapshot e d) = flow d" "flow (handle_diag_bundle e d) = flow d"
proof -
  obtain b d1 where s: "expensive_op_shed e dv_rl_snapshot (\<lambda>b. dv_rl_snapshot_update (\<lambda>_. b)) d = (b, d1)"
    by (cases "expensive_op_shed e dv_rl_snapshot (\<lambda>b. dv_rl_snapshot_update (\<lambda>_. b)) d")
  have d1: "flow d1 = flow d" by (rule snd_eq [OF shed_frame(4) s])
  have "flow d2 = flow d" if "do_snapshot m d1 = (x, d2)" for m x d2
    using snd_eq [OF do_snapshot_frame(2) that] d1 by simp
  then show "flow (handle_state_snapshot e d) = flow d"
    using d1 by (simp add: handle_state_snapshot_def s Let_def split: bool.split option.split prod.split)
  obtain b d1 where s: "expensive_op_shed e dv_rl_bundle (\<lambda>b. dv_rl_bundle_update (\<lambda>_. b)) d = (b, d1)"
    by (cases "expensive_op_shed e dv_rl_bundle (\<lambda>b. dv_rl_bundle_update (\<lambda>_. b)) d")
  have "flow d1 = flow d" by (rule snd_eq [OF shed_frame(2) s])
  then show "flow (handle_diag_bundle e d) = flow d" by (simp add: handle_diag_bundle_def s split: bool.split)
qed

lemma refset_commit_flow [simp]: "flow (refset_commit e q r d) = flow d"
  by (simp add: refset_commit_def Let_def split: prod.split bool.split)

lemma refset_live_flow [simp]: "flow (refset_live e q r d) = flow d"
proof -
  obtain ok d1 where l: "engine_load_snapshot (rq_new q) d = (ok, d1)" by (cases "engine_load_snapshot (rq_new q) d")
  have "flow d1 = flow d" by (rule snd_eq [OF load_snapshot_frame l])
  then show ?thesis by (simp add: refset_live_def l Let_def refset_incompatible_def split: bool.split)
qed

lemma refset_flow [simp]: "flow (handle_state_refset e d) = flow d"
  by (simp add: handle_state_refset_def Let_def refset_conflict_def split: option.split)

lemma knob_flow [simp]: "flow (handle_knob e d) = flow d"
proof -
  have "flow (snd (front_panel_set i v d)) = flow d" for i v
    by (simp add: front_panel_set_def front_panel_set_part_def Let_def)
  from snd_eq [OF this] have "flow d1 = flow d" if "front_panel_set i v d = (ok, d1)" for i v ok d1 using that by blast
  then show ?thesis by (auto simp: handle_knob_def split: option.split prod.split bool.split)
qed

lemma handler_flow: "h \<in> set CTL_HANDLERS \<Longrightarrow> fst h \<noteq> ''core.hello'' \<Longrightarrow> flow (snd h e d) = flow d"
proof -
  have "flow (handle_audio_start e d) = flow d" "flow (handle_audio_stop e d) = flow d" "flow (handle_audio_trim e d) = flow d"
    "flow (handle_diag_loopback_start e d) = flow d" "flow (handle_diag_loopback_stop e d) = flow d"
    "flow (handle_reconcile_offer e d) = flow d"
    by (simp_all add: handle_audio_start_def handle_audio_stop_def handle_audio_trim_def handle_diag_loopback_start_def
        handle_diag_loopback_stop_def handle_reconcile_offer_def Let_def split: option.split prod.split)
  moreover have "flow (handle_diag_counters e d) = flow d" "flow (handle_evt_params e d) = flow d"
    "flow (handle_evt_format e d) = flow d" "flow (handle_evt_parse e d) = flow d" "flow (handle_reconcile_poll e d) = flow d"
    "flow (handle_dev_params e d) = flow d" "flow (handle_dev_meters e d) = flow d" "flow (handle_dev_txn e d) = flow d"
    "flow (handle_dev_gc e d) = flow d" "flow (handle_identify e d) = flow d" "flow (handle_ping e d) = flow d"
    "flow (handle_bye e d) = flow d" "flow (handle_time_ping e d) = flow d" "flow (handle_notify_changed e d) = flow d"
    "flow (handle_restart e d) = flow d"
    by (simp_all add: handle_diag_counters_def handle_evt_params_def handle_evt_format_def handle_evt_parse_def
        handle_reconcile_poll_def handle_dev_params_def handle_dev_meters_def handle_dev_txn_def handle_dev_gc_def
        handle_identify_def handle_ping_def handle_bye_def handle_time_ping_def handle_notify_changed_def handle_restart_def
        Let_def split: option.split prod.split)
  ultimately show "h \<in> set CTL_HANDLERS \<Longrightarrow> fst h \<noteq> ''core.hello'' \<Longrightarrow> ?thesis"
    by (auto simp: CTL_HANDLERS_def)
qed


lemma half_grant: "CREDIT_GRANT div 2 \<le> CREDIT_GRANT" "CREDIT_GRANT \<noteq> 0"
  by (simp_all add: CREDIT_GRANT_def)

text \<open>The window as the device counts it, when the grant is not overridden by the environment.\<close>

definition credit_ok :: "'s device \<Rightarrow> bool" where
  "credit_ok d \<longleftrightarrow> wd_force_credit (dv_world d) = 0 \<and> (dv_hello_done d \<longrightarrow> dv_granted d \<ge> CREDIT_GRANT div 2)"

lemma credit_flow: "flow d' = flow d \<Longrightarrow> credit_ok d' = credit_ok d"
  by (simp add: flow_def credit_ok_def)

lemma credit_frames [simp]: "credit_ok (err_details e cs d) = credit_ok d" "credit_ok (err e c m d) = credit_ok d"
  "credit_ok (evt_stage_flush d) = credit_ok d" "credit_ok (ctr_frame_error d) = credit_ok d"
  "credit_ok (consume_evt buf d) = credit_ok d" "credit_ok (on_engine f d) = credit_ok d"
  by (rule credit_flow; simp)+

lemma add_grant: "g < CREDIT_GRANT div 2 \<Longrightarrow> g + CREDIT_GRANT \<ge> CREDIT_GRANT div 2"
  by (simp add: CREDIT_GRANT_def word_le_nat_alt word_less_nat_alt unat_plus_if')

lemma send_ctl_granted [simp]: "dv_granted (send_ctl m d) = dv_granted d" "dv_hello_done (send_ctl m d) = dv_hello_done d"
  "dv_world (send_ctl m d) = dv_world d"
  using send_ctl_frame(2) [of m d] by (simp_all add: flow_def)

lemma grant_credit_flow: "wd_force_credit (dv_world d) = 0 \<Longrightarrow>
    flow (grant_credit d) = (dv_granted d + CREDIT_GRANT, dv_hello_done d, dv_world d)"
  by (simp add: grant_credit_def Let_def flow_def)

lemma grant_credit_ok: "wd_force_credit (dv_world d) = 0 \<Longrightarrow> dv_granted d < CREDIT_GRANT div 2 \<Longrightarrow> credit_ok (grant_credit d)"
  using grant_credit_flow [of d] add_grant [of "dv_granted d"] by (simp add: flow_def credit_ok_def)

lemma obj_credit: "credit_ok d \<Longrightarrow> credit_ok (handle_obj buf d)"
proof -
  assume d: "credit_ok d"
  define d1 where "d1 = (if harp_obj_kind buf < 0 then ctr_frame_error d
               else case harp_store_put (dv_store d) buf of
                      (ok, h, st) \<Rightarrow> if ok then d\<lparr>dv_store := st\<rparr> else ctr_frame_error (d\<lparr>dv_store := st\<rparr>))"
  define d2 where "d2 = (if unat (dv_granted d1) \<ge> length buf then d1\<lparr>dv_granted := dv_granted d1 - of_nat (length buf)\<rparr>
               else d1\<lparr>dv_granted := 0\<rparr>)"
  have "flow d1 = flow d" by (simp add: d1_def split: prod.split)
  with d have w: "wd_force_credit (dv_world d2) = 0" by (simp add: d2_def flow_def credit_ok_def)
  have "handle_obj buf d = (if dv_granted d2 < CREDIT_GRANT div 2 then grant_credit d2 else d2)"
    by (simp only: handle_obj_def d1_def d2_def Let_def)
  then show ?thesis using w grant_credit_ok [OF w] by (simp add: credit_ok_def not_less)
qed

lemma hello_credit: "credit_ok d \<Longrightarrow> credit_ok (handle_hello e d)"
proof (cases "body_loop hello_field 0 e \<noteq> PROTO_MAJOR")
  case True
  then show "credit_ok d \<Longrightarrow> ?thesis" by (simp add: handle_hello_def)
next
  case False
  assume d: "credit_ok d"
  define d1 where "d1 = reset_session ((audio_stop d)\<lparr>dv_hello_done := True\<rparr>)"
  define d2 where "d2 = reply e ([Map 2, U 0, Arr 2, U PROTO_MAJOR, U PROTO_MINOR, U 1] @ identity_calls d1) d1"
  have "dv_world (audio_stop d) = dv_world d" using audio_flow(1) [of d] by (simp only: flow_def prod.inject)
  then have "flow d2 = (0, True, dv_world d)" by (simp add: d2_def) (simp add: d1_def reset_session_def flow_def)
  moreover have "handle_hello e d = grant_credit d2" using False by (simp add: handle_hello_def d1_def d2_def Let_def)
  ultimately show ?thesis using d grant_credit_ok [of d2] by (simp add: flow_def credit_ok_def CREDIT_GRANT_def)
qed

lemma ctl_credit: "credit_ok d \<Longrightarrow> credit_ok (handle_ctl buf d)"
proof -
  have touch: "credit_ok (take_touch d) = credit_ok d" for d :: "'a device"
    by (rule credit_flow) (simp add: take_touch_def)
  have ntf: "credit_ok (handle_notification e d) = credit_ok d" for e and d :: "'a device"
    by (rule credit_flow) (simp add: handle_notification_def split: option.split)
  have req: "credit_ok (handle_request e d)" if "credit_ok d" for e and d :: "'a device"
  proof -
    have "credit_ok (snd h e d)" if "h \<in> set CTL_HANDLERS" for h
    proof (cases "fst h = ''core.hello''")
      case True
      with that have "snd h = handle_hello" by (auto simp: CTL_HANDLERS_def)
      with hello_credit [OF \<open>credit_ok d\<close>] show ?thesis by simp
    next
      case False
      with credit_flow [OF handler_flow [OF that]] \<open>credit_ok d\<close> show ?thesis by blast
    qed
    then show ?thesis using that by (simp add: handle_request_def find_in_set split: option.split)
  qed
  show "credit_ok d \<Longrightarrow> ?thesis"
    using touch ntf req by (simp add: handle_ctl_def Let_def split: option.split)
qed

lemma turn_credit:
  assumes "credit_ok d" and "wd_force_credit (ti_world t) = 0"
  shows "credit_ok (snd (session_turn t0 t d))"
proof -
  define d1 where "d1 = render_work (ti_due t) (d\<lparr>dv_world := ti_world t\<rparr>)"
  have d1: "credit_ok d1" using assms by (simp add: d1_def render_work_def) (simp add: credit_ok_def)
  have "credit_ok (dispatch (ti_stream t) (ti_msg t) d1)"
    using d1 by (simp add: dispatch_def ctl_credit obj_credit)
  moreover have "credit_ok (d1\<lparr>dv_ctr := c\<rparr>)" for c using d1 by (simp add: credit_ok_def)
  ultimately show ?thesis
    unfolding session_turn_def Let_def d1_def [symmetric] using d1 by simp
qed



text \<open>A hello request for protocol 1.0, and a turn that receives it.\<close>

definition ex_hello :: bytes where
  "ex_hello = [0xa4, 0, 0, 1, 1, 2, 0x6a] @ str ''core.hello'' @ [3, 0xa1, 0, 0x82, 1, 0]"

definition ex_turn :: "u8 \<Rightarrow> bytes \<Rightarrow> turn_in" where
  "ex_turn st msg = \<lparr>ti_rc = 0, ti_stream = st, ti_msg = msg, ti_readable = False, ti_world = ex_world, ti_due = []\<rparr>"

lemma hello_done: "body_loop hello_field 0 e = PROTO_MAJOR \<Longrightarrow> dv_hello_done (handle_hello e d)"
  using reply_frame(2) [of e _ "reset_session ((audio_stop d)\<lparr>dv_hello_done := True\<rparr>)"]
  by (simp add: handle_hello_def Let_def grant_credit_def flow_def reset_session_def)

lemma ex_hello_parse:
  obtains e where "harp_env_parse ex_hello = Some e" and "e_msgtype e = HARP_MSG_REQUEST"
    and "e_method e = str ''core.hello''" and "body_loop hello_field 0 e = PROTO_MAJOR"
proof -
  have "case harp_env_parse ex_hello of None \<Rightarrow> False
    | Some e \<Rightarrow> e_msgtype e = HARP_MSG_REQUEST \<and> e_method e = str ''core.hello'' \<and> body_loop hello_field 0 e = PROTO_MAJOR"
    by code_simp
  with that show thesis by (cases "harp_env_parse ex_hello") auto
qed

lemma ex_hello_done: "dv_hello_done (session_loop 0 [ex_turn 0 ex_hello] (session_begin io ex_device))"
proof -
  from ex_hello_parse obtain e where e: "harp_env_parse ex_hello = Some e" "e_msgtype e = HARP_MSG_REQUEST"
    "e_method e = str ''core.hello''" "body_loop hello_field 0 e = PROTO_MAJOR" .
  define d1 where "d1 = render_work [] ((session_begin io ex_device)\<lparr>dv_world := ex_world\<rparr>)"
  have "handle_ctl ex_hello (evt_stage_flush d1) = handle_hello e (take_touch (evt_stage_flush d1))"
    using e by (simp add: handle_ctl_def handle_request_def CTL_HANDLERS_def Let_def)
  then have "dv_hello_done (dispatch 0 ex_hello d1)" using hello_done [OF e(4)] by (simp add: dispatch_def)
  moreover have "wd_now_ns (dv_world d1) = 0"
    by (simp add: d1_def render_work_def on_engine_def ex_world_def)
  ultimately show ?thesis
    by (simp add: session_turn_def Let_def ex_turn_def d1_def [symmetric]) (simp add: evt_stage_flush_def Let_def)
qed



section \<open>The hello gate\<close>

text \<open>
  \<open>d'\<close> differs from \<open>d\<close> only in the transport's state, the surroundings, the counters, the credit that the peer claims
  to have granted and in control messages sent.
\<close>

definition inert :: "'s device \<Rightarrow> 's device \<Rightarrow> bool" where
  "inert d d' \<longleftrightarrow>
     d' = d\<lparr>dv_io := dv_io d', dv_world := dv_world d', dv_ctr := dv_ctr d', dv_peer_credit := dv_peer_credit d',
            dv_sent := dv_sent d'\<rparr> \<and>
     (\<exists>ms. dv_sent d' = dv_sent d @ map (Pair HARP_STREAM_CTL) ms)"

lemma inert_refl: "inert d d"
  by (simp add: inert_def)

lemma inert_trans:
  assumes "inert d d1" and "inert d1 d2"
  shows "inert d d2"
proof -
  have a: "d1 = d\<lparr>dv_io := dv_io d1, dv_world := dv_world d1, dv_ctr := dv_ctr d1, dv_peer_credit := dv_peer_credit d1,
      dv_sent := dv_sent d1\<rparr>" using assms(1) unfolding inert_def by blast
  have "d2 = d1\<lparr>dv_io := dv_io d2, dv_world := dv_world d2, dv_ctr := dv_ctr d2, dv_peer_credit := dv_peer_credit d2,
      dv_sent := dv_sent d2\<rparr>" using assms(2) unfolding inert_def by blast
  also have "\<dots> = d\<lparr>dv_io := dv_io d2, dv_world := dv_world d2, dv_ctr := dv_ctr d2, dv_peer_credit := dv_peer_credit d2,
      dv_sent := dv_sent d2\<rparr>" by (subst a) simp
  finally have "d2 = \<dots>" .
  moreover obtain ms ns where "dv_sent d1 = dv_sent d @ map (Pair HARP_STREAM_CTL) ms"
    "dv_sent d2 = dv_sent d1 @ map (Pair HARP_STREAM_CTL) ns" using assms unfolding inert_def by blast
  then have "dv_sent d2 = dv_sent d @ map (Pair HARP_STREAM_CTL) (ms @ ns)" by simp
  ultimately show ?thesis unfolding inert_def by blast
qed

lemma inert_ops: "inert d (d\<lparr>dv_ctr := c\<rparr>)" "inert d (d\<lparr>dv_world := w\<rparr>)" "inert d (d\<lparr>dv_peer_credit := p\<rparr>)"
  "inert d (ctr_frame_error d)" "inert d (send_ctl m d)" "inert d (err e code msg d)" "inert d (err_details e cs d)"
proof -
  show ctl: "inert d (send_ctl m d)" for m
  proof (cases "dv_io d")
    case (Some io)
    obtain rc cf s where s: "harp_link_send (dio_write io) (dio_pct io) HARP_STREAM_CTL (dio_cf io) (cb_buf m) (dio_state io) = (rc, cf, s)"
      by (metis prod_cases3)
    then have "send_ctl m d = d\<lparr>dv_io := Some (io\<lparr>dio_cf := cf, dio_state := s\<rparr>), dv_sent := dv_sent d @ [(HARP_STREAM_CTL, cb_buf m)]\<rparr>"
      using Some by (simp add: send_ctl_def dev_send_def del: HARP_STREAM_CTL_def)
    then show ?thesis by (simp add: inert_def del: HARP_STREAM_CTL_def) (rule exI [of _ "[cb_buf m]"], simp)
  qed (simp add: send_ctl_def dev_send_def inert_refl)
  then show "inert d (err e code msg d)" "inert d (err_details e cs d)"
    by (simp_all add: err_def send_error_def err_details_def)
qed (simp_all add: inert_def ctr_frame_error_def)

lemma inert_fields: "inert d d' \<Longrightarrow> dv_engine d' = dv_engine d \<and> dv_evt_stage d' = dv_evt_stage d \<and>
    dv_sendq_count d' = dv_sendq_count d \<and> dv_hello_done d' = dv_hello_done d \<and> dv_store d' = dv_store d"
proof -
  assume "inert d d'"
  then have "d' = d\<lparr>dv_io := dv_io d', dv_world := dv_world d', dv_ctr := dv_ctr d', dv_peer_credit := dv_peer_credit d',
      dv_sent := dv_sent d'\<rparr>" unfolding inert_def by blast
  then show ?thesis by (rule ssubst) simp
qed

lemma gate_request:
  assumes "\<not> dv_hello_done d"
  shows "dv_hello_done (handle_request e d) \<or> inert d (handle_request e d)"
proof (cases "e_method e = str ''core.hello''")
  case True
  then have h: "handle_request e d = handle_hello e d" by (simp add: handle_request_def CTL_HANDLERS_def)
  show ?thesis
  proof (cases "body_loop hello_field 0 e = PROTO_MAJOR")
    case False
    then have "handle_hello e d = err_details e [Map 3, U 0, T (str ''incompatible''), U 1,
      T (str ''device supports protocol 1.x only''), U 2, Map 2, U 0, U PROTO_MAJOR, U 1, U PROTO_MAJOR] d"
      by (simp add: handle_hello_def)
    with h inert_ops(7) show ?thesis by metis
  qed (simp add: h hello_done)
qed (simp add: assms handle_request_def inert_ops(6))

lemma gate_ctl:
  assumes "\<not> dv_hello_done d" and "\<not> en_touch_pending (dv_engine d)" and "dv_sendq_count d = 0"
  shows "dv_hello_done (handle_ctl buf d) \<or> inert d (handle_ctl buf d)"
proof -
  have touch: "take_touch d = d" using assms(2) by (simp add: take_touch_def)
  have "sendq_flush (d\<lparr>dv_peer_credit := p\<rparr>) = d\<lparr>dv_peer_credit := p\<rparr>" for p
    using assms(3) by (simp add: sendq_flush_def sendq_drain.simps)
  then have "inert d (handle_notification e d)" for e
    by (simp add: handle_notification_def inert_refl inert_ops(3) split: option.split)
  then show ?thesis
    using gate_request [OF assms(1)]
    by (simp add: handle_ctl_def touch inert_refl inert_ops(4) split: option.split)
qed

lemma hello_done_stays: "dv_hello_done d \<Longrightarrow> dv_hello_done (snd (session_turn t0 t d))"
proof -
  have f: "flow a = flow b \<Longrightarrow> dv_hello_done a = dv_hello_done b" for a b :: "'a device" by (simp add: flow_def)
  have req: "dv_hello_done (handle_request e d)" if d: "dv_hello_done d" for e and d :: "'a device"
  proof (cases "find (\<lambda>h. e_method e = str (fst h)) CTL_HANDLERS :: (string \<times> (harp_env \<Rightarrow> 'a device \<Rightarrow> 'a device)) option")
    case None
    then show ?thesis using d f [OF reply_frame(6)] by (simp add: handle_request_def)
  next
    case (Some h)
    then have h: "h \<in> set CTL_HANDLERS" "handle_request e d = snd h e d" using d by (auto simp: handle_request_def find_in_set)
    show ?thesis
    proof (cases "fst h = ''core.hello''")
      case True
      with h(1) have "snd h = handle_hello" by (auto simp: CTL_HANDLERS_def)
      then show ?thesis using h(2) hello_done [of e d] d f [OF reply_frame(8)]
        by (cases "body_loop hello_field 0 e = PROTO_MAJOR") (auto simp: handle_hello_def)
    qed (use h d f [OF handler_flow [OF h(1)]] in simp)
  qed
  have ctl: "dv_hello_done (handle_ctl b d)" if d: "dv_hello_done d" for b and d :: "'a device"
  proof -
    have "flow (take_touch d) = flow d" "flow (handle_notification e d') = flow d'" "flow (ctr_frame_error d') = flow d'"
      for e and d' :: "'a device" by (simp_all add: take_touch_def handle_notification_def split: option.split)
    from this [THEN f] req d show ?thesis by (simp add: handle_ctl_def Let_def split: option.split)
  qed
  assume d: "dv_hello_done d"
  define d1 where "d1 = render_work (ti_due t) (d\<lparr>dv_world := ti_world t\<rparr>)"
  have d1: "dv_hello_done d1" using d by (simp add: d1_def render_work_def on_engine_def)
  have flush: "dv_hello_done (evt_stage_flush x) = dv_hello_done x" for x :: "'a device" by (rule f) simp
  have obj: "dv_hello_done (handle_obj b x) = dv_hello_done x" for b and x :: "'a device"
    by (simp add: handle_obj_def Let_def grant_credit_def ctr_frame_error_def split: prod.split)
  have "dv_hello_done (consume_evt b x) = dv_hello_done x" for b and x :: "'a device" by (rule f) simp
  with d1 flush obj ctl have "dv_hello_done (dispatch (ti_stream t) (ti_msg t) d1)" by (simp add: dispatch_def)
  then show ?thesis unfolding session_turn_def Let_def d1_def [symmetric] using d1 flush by simp
qed


lemma gate_turn:
  assumes "inert d0 d" and "\<not> dv_hello_done d0" and "\<not> en_touch_pending (dv_engine d0)" and "dv_sendq_count d0 = 0"
    and "dv_evt_stage d0 = []" and "ti_due t = []"
  shows "dv_hello_done (snd (session_turn t0 t d)) \<or> inert d0 (snd (session_turn t0 t d))"
proof -
  let ?d = "d\<lparr>dv_world := ti_world t\<rparr>"
  note f = inert_fields [OF assms(1)]
  have d1: "render_work (ti_due t) ?d = ?d" using assms(6) by (simp add: render_work_def on_engine_def)
  have stage: "evt_stage_flush x = x" if "dv_evt_stage x = []" for x :: "'a device" using that by (simp add: evt_stage_flush_def)
  have i1: "inert d0 ?d" by (rule inert_trans [OF assms(1) inert_ops(2)])
  have "dv_hello_done (dispatch st m ?d) \<or> inert ?d (dispatch st m ?d)" for st m
    using f assms gate_ctl [of ?d m] stage [of ?d] by (simp add: dispatch_def inert_ops(4))
  then have "dv_hello_done (dispatch st m ?d) \<or> inert d0 (dispatch st m ?d)" for st m using inert_trans [OF i1] by blast
  moreover have "inert d0 (?d\<lparr>dv_ctr := c\<rparr>)" for c by (rule inert_trans [OF i1 inert_ops(1)])
  moreover have "dv_evt_stage x = []" if "inert d0 x" for x using inert_fields [OF that] assms(5) by simp
  moreover have "dv_hello_done (evt_stage_flush x) = dv_hello_done x" for x :: "'a device"
    by (simp add: evt_stage_flush_def Let_def)
  ultimately show ?thesis
    unfolding session_turn_def Let_def d1 using i1 by auto
qed



end
