(* ===== verification/Harp_Refset.thy ===== *)
theory Harp_Refset
  imports Harp_Gate
begin

text \<open>
  \<^verbatim>\<open>state.refset\<close>, the request by which a host moves a ref.  The theory states what the request promises: the tests of
  the handler are collected in one predicate \<open>refset_ok\<close>; a request that fails it changes nothing, a request that
  passes it swaps the ref in one step, and the closure walk among the tests guarantees that the new target can be
  read as deep as the walk goes.
\<close>

section \<open>What the closure walk guarantees\<close>

text \<open>One reference: \<open>a\<close> is an object that can be read and \<open>c\<close> is among the hashes it holds.\<close>

definition refers :: "harp_cbuf \<Rightarrow> harp_store \<Rightarrow> (harp_hash \<times> harp_hash) set" where
  "refers b0 st = {(a, c). fst (harp_store_get st a b0) \<and> c \<in> set (snd (obj_children (cb_buf (snd (harp_store_get st a b0)))))}"

text \<open>An object that the store has, that can be read and whose references are all well-formed.\<close>

definition obj_sound :: "harp_cbuf \<Rightarrow> harp_store \<Rightarrow> harp_hash \<Rightarrow> bool" where
  "obj_sound b0 st h \<longleftrightarrow> harp_store_have st h \<and> fst (harp_store_get st h b0) \<and>
     fst (obj_children (cb_buf (snd (harp_store_get st h b0))))"

lemma closure_walk_False: "\<not> closure_walk b0 st k h False"
  by (cases k) simp_all

lemma closure_cb_sticky: "sticky_cb (\<lambda>h complete. let complete = closure_walk b0 st k h complete in (complete, complete))"
  by (simp add: sticky_cb_def Let_def closure_walk_False)

lemma closure_fold:
  "fold (\<lambda>h u. snd (let c = closure_walk b0 st k h u in (c, c))) hs u \<longleftrightarrow> u \<and> (\<forall>h\<in>set hs. closure_walk b0 st k h True)"
proof (induction hs arbitrary: u)
  case (Cons h hs)
  then show ?case by (cases u) (auto simp: Let_def closure_walk_False)
qed simp

text \<open>The walk with its callback unfolded: a conjunction over the children.\<close>

lemma closure_walk_Suc:
  "closure_walk b0 st (Suc k) h True \<longleftrightarrow> obj_sound b0 st h \<and> (\<forall>c. (h, c) \<in> refers b0 st \<longrightarrow> closure_walk b0 st k c True)"
proof (cases "harp_store_get st h b0")
  case (Pair ok enc)
  note f = foreach_child_fold(1) [OF closure_cb_sticky [of b0 st k], of "cb_buf enc" True]
  show ?thesis
  proof (cases ok)
    case True
    have "closure_walk b0 st (Suc k) h True \<longleftrightarrow> harp_store_have st h \<and> fst (obj_children (cb_buf enc)) \<and>
        (\<forall>c\<in>set (snd (obj_children (cb_buf enc))). closure_walk b0 st k c True)"
      using f closure_fold [of b0 st k "snd (obj_children (cb_buf enc))" True] Pair True by (simp add: Let_def split_beta)
    with Pair True show ?thesis by (auto simp: obj_sound_def refers_def)
  qed (use Pair in \<open>simp add: obj_sound_def\<close>)
qed

declare closure_walk.simps(2) [simp del]

lemma closure_walk_depth:
  "closure_walk b0 st k h True \<Longrightarrow> n < k \<Longrightarrow> (h, c) \<in> refers b0 st ^^ n \<Longrightarrow> obj_sound b0 st c"
proof (induction n arbitrary: h k)
  case 0
  then show ?case by (cases k) (simp_all add: closure_walk_Suc)
next
  case (Suc n)
  then obtain j where k: "k = Suc j" by (cases k) simp_all
  from relpow_Suc_D2 [OF Suc.prems(3)] obtain a where a: "(h, a) \<in> refers b0 st" "(a, c) \<in> refers b0 st ^^ n" by blast
  from Suc.prems(1) k a(1) have "closure_walk b0 st j a True" by (simp add: closure_walk_Suc)
  with a k Suc show ?case by simp
qed

lemma closure_walk_intro:
  "(\<And>n c. n < k \<Longrightarrow> (h, c) \<in> refers b0 st ^^ n \<Longrightarrow> obj_sound b0 st c) \<Longrightarrow> closure_walk b0 st k h True"
proof (induction k arbitrary: h)
  case (Suc k)
  have "closure_walk b0 st k c True" if c: "(h, c) \<in> refers b0 st" for c
    by (rule Suc.IH) (use Suc.prems [of "Suc n" for n] c relpow_Suc_I2 in fastforce)
  with Suc.prems [of 0] show ?case by (simp add: closure_walk_Suc)
qed simp

text \<open>
  C14: The closure test of \<^verbatim>\<open>state.refset\<close> and of a live reset is exact to its depth: it succeeds if and only if every
  object that can be reached from the target in at most 16 references is in the store, can be read there and has
  only well-formed references.
\<close>

theorem closure_complete_iff:
  "closure_complete d h \<longleftrightarrow>
     (\<Union>n\<in>{..16}. (refers (new_cbuf d) (dv_store d) ^^ n) `` {h}) \<subseteq> {c. obj_sound (new_cbuf d) (dv_store d) c}"
proof -
  have "closure_complete d h \<longleftrightarrow>
      (\<forall>n c. n \<le> 16 \<longrightarrow> (h, c) \<in> refers (new_cbuf d) (dv_store d) ^^ n \<longrightarrow> obj_sound (new_cbuf d) (dv_store d) c)"
    unfolding closure_complete_def
    using closure_walk_depth [of "new_cbuf d" "dv_store d" 17 h] closure_walk_intro [of 17 h "new_cbuf d" "dv_store d"]
    by (metis less_Suc_eq_le eval_nat_numeral(3) numeral_eq_Suc pred_numeral_simps(2,3) semiring_norm(26,27,28))
  then show ?thesis by (auto simp: subset_iff)
qed

section \<open>When a request is accepted\<close>

text \<open>The tests of \<^verbatim>\<open>handle_state_refset\<close> on the decoded request, in the state after the live ref was flushed.\<close>

definition refset_well_formed :: "refset_req \<Rightarrow> bool" where
  "refset_well_formed q \<longleftrightarrow> rq_name q \<noteq> [] \<and> rq_have_expect q \<and> rq_have_new q"

definition refset_ok :: "refset_req \<Rightarrow> 's device \<Rightarrow> bool" where
  "refset_ok q d \<longleftrightarrow> refset_well_formed q \<and>
     (case harp_store_ref_read (dv_store d) (rq_name q) of
        None \<Rightarrow> False
      | Some r \<Rightarrow> bit (rq_flags q) 1 \<or> expect_ok q r \<and> \<not> rf_dirty r) \<and>
     closure_complete d (rq_new q) \<and>
     (rq_name q = LIVE_REF \<longrightarrow>
        (bit (rq_flags q) 2 \<or>
         engine_compatible (snapshot_engine (rq_new q) d) (dflt (cf_engine_ver (dv_config d)) ENGINE_VERSION)) \<and>
        fst (engine_load_snapshot (rq_new q) d))"

definition refset_base :: "refset_req \<Rightarrow> 's device \<Rightarrow> 's device" where
  "refset_base q d = (if refset_well_formed q \<and> rq_name q = LIVE_REF then live_cache_flush d else d)"

abbreviation refset_req_of :: "harp_env \<Rightarrow> refset_req" where
  "refset_req_of e \<equiv> body_loop refset_field refset_zero e"

lemma load_snapshot_fail: "\<not> fst (engine_load_snapshot h d) \<Longrightarrow> snd (engine_load_snapshot h d) = d"
  by (auto simp: engine_load_snapshot_def split: prod.splits bool.splits option.splits if_splits)

lemma refset_live_refused:
  assumes "\<not> (bit (rq_flags q) 2 \<or>
      engine_compatible (snapshot_engine (rq_new q) d) (dflt (cf_engine_ver (dv_config d)) ENGINE_VERSION)) \<or>
    \<not> fst (engine_load_snapshot (rq_new q) d)"
  shows "inert d (refset_live e q r d)"
proof (cases "engine_load_snapshot (rq_new q) d")
  case (Pair ok d')
  with assms load_snapshot_fail [of "rq_new q" d] show ?thesis
    by (cases ok) (auto simp: refset_live_def refset_incompatible_def Let_def intro: inert_ops)
qed

lemma handle_refset_eq:
  "handle_state_refset e d =
    (let q = refset_req_of e; d0 = refset_base q d
     in if \<not> refset_well_formed q then err e ''malformed'' None d
        else case harp_store_ref_read (dv_store d0) (rq_name q) of
               None \<Rightarrow> err e ''malformed'' (Some (str ''bad ref name'')) d0
             | Some r \<Rightarrow>
                 if \<not> bit (rq_flags q) 1 \<and> (\<not> expect_ok q r \<or> rf_dirty r) then refset_conflict e r d0
                 else if \<not> closure_complete d0 (rq_new q) then
                   err e ''not-found'' (Some (str ''object closure incomplete'')) d0
                 else if rq_name q = LIVE_REF then refset_live e q r d0 else refset_commit e q r d0)"
proof (cases "refset_well_formed (refset_req_of e)")
  case True
  then have b: "(if rq_name (refset_req_of e) = LIVE_REF then live_cache_flush d else d) = refset_base (refset_req_of e) d"
    by (simp add: refset_base_def)
  from True show ?thesis unfolding handle_state_refset_def Let_def b by (simp add: refset_well_formed_def)
qed (auto simp: handle_state_refset_def refset_well_formed_def Let_def)


section \<open>What an accepted request does\<close>

definition refset_new :: "refset_req \<Rightarrow> harp_ref \<Rightarrow> harp_ref" where
  "refset_new q r = r\<lparr>rf_unborn := False, rf_hash := rq_new q, rf_generation := rf_generation r + 1, rf_dirty := False\<rparr>"

lemma refset_field_hash: "(rq_have_new q \<longrightarrow> hash_ok (rq_new q)) \<Longrightarrow>
    rq_have_new (fst (snd (refset_field k q c))) \<longrightarrow> hash_ok (rq_new (fst (snd (refset_field k q c))))"
  by (auto simp: refset_field_def rd_opt_def rd_uint_def split: prod.split option.split dest: harp_hash_read_ok)

lemma refset_req_hash: "rq_have_new (refset_req_of e) \<Longrightarrow> hash_ok (rq_new (refset_req_of e))"
  using body_loop_inv [of "\<lambda>q. rq_have_new q \<longrightarrow> hash_ok (rq_new q)" refset_field, OF refset_field_hash]
  by (simp add: refset_zero_def)

lemma ref_path_name: "ref_path s n k = Some p \<Longrightarrow> length n < HARP_REF_NAME_MAX \<and> 0 \<notin> set n"
proof -
  assume "ref_path s n k = Some p"
  then have "ref_name_ok n" by (simp add: ref_path_def split: if_splits)
  then show ?thesis by (auto simp: ref_name_ok_def list_all_iff ref_char_ok_def dest!: bspec [of _ _ 0])
qed

lemma reply_store: "dv_store (ntf_state_changed r (reply e cs d)) = dv_store d" "dv_engine (ntf_state_changed r (reply e cs d)) = dv_engine d"
  by (simp_all add: ntf_state_changed_def reply_def inert_fields [OF inert_ops(5)])

lemma refset_commit_done:
  assumes "rf_name r = rq_name q" and "rq_have_new q \<longrightarrow> hash_ok (rq_new q)" and "rq_have_new q"
    and "fst (harp_store_ref_write (wd_alloc (dv_world d)) (dv_store d) (refset_new q r))"
    and "flt_fopen (sto_flt (dv_store d)) = (\<lambda>p. False)" and "gc_prefix (rq_name q) = None"
  shows "harp_store_ref_read (dv_store (refset_commit e q r d)) (rq_name q) = Some (refset_new q r) \<and>
    dv_engine (refset_commit e q r d) = dv_engine d"
proof -
  from assms(4) obtain st where w: "harp_store_ref_write (wd_alloc (dv_world d)) (dv_store d) (refset_new q r) = (True, st)"
    by (cases "harp_store_ref_write (wd_alloc (dv_world d)) (dv_store d) (refset_new q r)") simp
  then have "ref_ok (refset_new q r)"
    using assms(2,3) by (auto elim!: ref_write_ok dest: ref_path_name simp: ref_ok_def refset_new_def)
  from ref_write_same [OF this w assms(5)] have "harp_store_ref_read st (rq_name q) = Some (refset_new q r)"
    using assms(1) by (simp add: refset_new_def)
  with w assms(6) show ?thesis
    by (simp add: refset_commit_def Let_def maybe_gc_def reply_store refset_new_def [symmetric])
qed

lemma load_snapshot_engine: "engine_load_snapshot h d = (True, d') \<Longrightarrow> d' = d\<lparr>dv_engine := dv_engine d'\<rparr>"
  by (auto simp: engine_load_snapshot_def split: prod.splits bool.splits option.splits if_splits)


section \<open>Examples\<close>

text \<open>A request to create the ref \<open>a\<close>, and a device whose store holds the empty blob under the hash it names.\<close>

definition ex_hash :: harp_hash where
  "ex_hash = HARP_HASH_ALG_SHA256 # replicate 32 0"

definition ex_refset :: harp_env where
  "ex_refset = \<lparr>e_msgtype = HARP_MSG_REQUEST, e_rid = 1, e_method = str ''state.refset'', e_has_body = True,
     e_body = [0xa3, 0, 0x61, 97, 1, 0xf6, 2, 0x58, 33] @ ex_hash\<rparr>"

definition ex_blob_store :: harp_store where
  "ex_blob_store = ex_store\<lparr>sto_fs := (obj_path ex_store ex_hash, File [0xa2, 0, 0, 1, 0x40]) # sto_fs ex_store\<rparr>"

definition ex_alloc :: harp_cbuf where
  "ex_alloc = \<lparr>cb_buf = [], cb_cap = 0, cb_oom = False, cb_avail = 256\<rparr>"

definition ex_blob_device :: "unit device" where
  "ex_blob_device = ex_device\<lparr>dv_store := ex_blob_store, dv_world := ex_world\<lparr>wd_alloc := ex_alloc\<rparr>\<rparr>"

lemma ex_blob_fields: "dv_store ex_blob_device = ex_blob_store" "wd_alloc (dv_world ex_blob_device) = ex_alloc"
  by (simp_all add: ex_blob_device_def ex_device_def)

lemma ex_refset_req: "refset_req_of ex_refset =
    refset_zero\<lparr>rq_name := str ''a'', rq_expect_null := True, rq_have_expect := True, rq_have_new := True, rq_new := ex_hash\<rparr>"
  by code_simp



end
