(* ===== verification/Harp_Wire.thy ===== *)
theory Harp_Wire
  imports Harp_Client Harp_Refset
begin

text \<open>
  Host and device understand each other: what \<^verbatim>\<open>host/client.c\<close> encodes is what \<^verbatim>\<open>device/session.c\<close> decodes, and the other way
  round.  The two sides share no code above the envelope, so these theorems compose the encoder calls of one with the
  decoding loops of the other.
\<close>

section \<open>Messages as items\<close>

fun enc_call :: "call \<Rightarrow> bytes" where
  "enc_call (U v) = enc_uint v"
| "enc_call (I v) = (if sint v < 0 then head_bytes 1 (- 1 - v) else head_bytes 0 v)"
| "enc_call (T p) = enc_text p"
| "enc_call (B p) = enc_bytes p"
| "enc_call (Arr n) = head_bytes 4 n"
| "enc_call (Map n) = head_bytes 5 n"
| "enc_call (Bo v) = [if v then 0xf5 else 0xf4]"
| "enc_call Nul = [0xf6]"
| "enc_call (Fl v) = float_bytes v"

abbreviation enc_calls :: "call list \<Rightarrow> bytes" where
  "enc_calls cs \<equiv> concat (map enc_call cs)"

lemma emits_call: "emits (\<lambda>b. put_call b x) (enc_call x)"
proof (cases x)
  case (Bo v)
  then show ?thesis using emits_bool [of v] by simp
next
  case (I v)
  then show ?thesis using emits_int [of v] by simp
qed (auto intro: enc_simps)

lemma emits_calls: "emits (\<lambda>b. put_calls b cs) (enc_calls cs)"
  unfolding put_calls_def by (rule emits_foldl) (rule emits_call)

lemma message_bytes:
  assumes "cb_view (put_calls (harp_env_head (harp_cbuf_reset out) t rid m True) cs) = Some bs"
  shows "bs = env_head_bytes t rid m True @ enc_calls cs"
  using emits_Some [OF emits_comp [OF emits_env_head emits_calls] cbuf_wf_reset assms] by (simp add: harp_cbuf_reset_def)

text \<open>A message whose body is the item \<open>x\<close>, as the receiver's envelope parser sees it.\<close>

lemma message_parse:
  assumes "enc_calls cs = enc_item x" and "item_ok x (HARP_CBOR_MAX_DEPTH + 1)"
    and "unat t \<le> 3" and "length m < HARP_METHOD_MAX" and "0 \<notin> set m"
    and "cb_view (put_calls (harp_env_head (harp_cbuf_reset out) t rid m True) cs) = Some bs"
  shows "harp_env_parse bs = Some \<lparr>e_msgtype = t, e_rid = rid, e_method = m, e_has_body = True, e_body = enc_item x\<rparr>"
  using env_parse_message [of t m "Some x" rid] assms message_bytes [OF assms(6)] by (simp add: env_message_def)

lemma loop_brk_0 [simp]: "loop_brk f 0 b c = (b, c)"
  by (simp add: loop_brk.simps)

lemma loop_brk_numeral [simp]:
  "loop_brk f (numeral k) b c = (case f b c of (False, b, c) \<Rightarrow> (b, c) | (True, b, c) \<Rightarrow> loop_brk f (pred_numeral k) b c)"
  by (subst loop_brk.simps) (auto simp: numeral_eq_Suc split: prod.split bool.split)

lemma loop_brk_Suc [simp]:
  "loop_brk f (Suc n) b c = (case f b c of (False, b, c) \<Rightarrow> (b, c) | (True, b, c) \<Rightarrow> loop_brk f n b c)"
  by (subst loop_brk.simps) (auto split: prod.split bool.split)

lemma harp_hash_read_end [simp]: "hash_ok h \<Longrightarrow> harp_hash_read (dec (head_bytes 2 33 @ h)) = (Some h, dec [])"
  using harp_hash_read_enc33 [of h "[]"] by simp

section \<open>Moving a ref\<close>

text \<open>The body of the request as an item.\<close>

definition refset_item :: "bytes \<Rightarrow> harp_hash option \<Rightarrow> harp_hash \<Rightarrow> u64 \<Rightarrow> cbor" where
  "refset_item name expect target flags =
     CMap ([(CUint 0, CText name), (CUint 1, case expect of Some h \<Rightarrow> CBytes h | None \<Rightarrow> CSimple 22), (CUint 2, CBytes target)] @
           (if flags \<noteq> 0 then [(CUint 3, CUint flags)] else []))"

lemma enc_refset: "enc_calls (refset_calls name expect target flags) = enc_item (refset_item name expect target flags)"
  by (simp add: refset_calls_def refset_item_def split: option.split)

lemma refset_item_read:
  assumes "length name < HARP_REF_NAME_MAX" and "0 \<notin> set name" and "hash_ok target" and "\<And>h. expect = Some h \<Longrightarrow> hash_ok h"
    and "e_has_body e" and "e_body e = enc_item (refset_item name expect target flags)"
  shows "refset_req_of e = \<lparr>rq_name = name, rq_expect_null = (expect = None), rq_have_expect = True, rq_have_new = True,
     rq_expect = (case expect of None \<Rightarrow> [] | Some h \<Rightarrow> h), rq_new = target, rq_flags = flags\<rparr>"
proof -
  have l: "length target = 33" "\<And>h. expect = Some h \<Longrightarrow> length h = 33" using assms(3,4) by (auto simp: hash_ok_def)
  note h = head_bytes_ge1 [of 0 0] head_bytes_ge1 [of 0 1] head_bytes_ge1 [of 0 2] head_bytes_ge1 [of 0 3]
    head_bytes_ge1 [of 3 "of_nat (length name)"] head_bytes_ge1 [of 2 33] head_bytes_ge1 [of 0 flags]
  show ?thesis
  proof (cases expect)
    case None
    with assms l h show ?thesis
      by (cases "flags = 0") (simp_all add: body_loop_def refset_item_def with_key_def refset_field_def rd_opt_def rd_uint_def decode_text_into_def
          refset_zero_def cstr_no_nul)
  next
    case (Some x)
    with assms l h show ?thesis
      by (cases "flags = 0") (simp_all add: body_loop_def refset_item_def with_key_def refset_field_def rd_opt_def rd_uint_def decode_text_into_def
          refset_zero_def cstr_no_nul)
  qed
qed

lemma refset_dispatch: "find (\<lambda>h. str ''state.refset'' = str (fst h)) CTL_HANDLERS = Some (''state.refset'', handle_state_refset)"
  by (simp add: CTL_HANDLERS_def str_def)

lemma request_reaches:
  assumes "harp_env_parse bs = Some e" and "e_msgtype e = HARP_MSG_REQUEST" and "dv_hello_done d"
    and "\<not> en_touch_pending (dv_engine d)" and "find (\<lambda>h. e_method e = str (fst h)) CTL_HANDLERS = Some (n, f)"
  shows "handle_ctl bs d = f e d"
  using assms by (simp add: handle_ctl_def take_touch_def handle_request_def)

text \<open>
  C8: The device understands \<^verbatim>\<open>harp_client_refset\<close>.  The message that the client builds (if its buffer was not exhausted)
  is parsed by the device as a request with the client's request id and dispatched to \<^verbatim>\<open>handle_state_refset\<close>, which decodes
  from it the name, the expected hash or the expectation that the ref is unborn, the new hash and the flags that
  the caller of the client asked for, for every combination of them.
\<close>

theorem refset_understood:
  assumes "harp_client_req_head (str ''state.refset'') True out c = (m, c')"
    and "cb_view (put_calls m (refset_calls name expect target (refset_flags create force consent))) = Some msg"
    and "length name < HARP_REF_NAME_MAX" and "0 \<notin> set name" and "hash_ok target" and "\<And>h. expect = Some h \<Longrightarrow> hash_ok h"
    and "dv_hello_done d" and "\<not> en_touch_pending (dv_engine d)"
  shows "\<exists>e. handle_ctl msg d = handle_state_refset e d \<and> e_rid e = cl_next_rid c' \<and>
    refset_req_of e = \<lparr>rq_name = name, rq_expect_null = (expect = None), rq_have_expect = True, rq_have_new = True,
      rq_expect = (case expect of None \<Rightarrow> [] | Some h \<Rightarrow> h), rq_new = target, rq_flags = refset_flags create force consent\<rparr> \<and>
    (bit (rq_flags (refset_req_of e)) 0 \<longleftrightarrow> create) \<and> (bit (rq_flags (refset_req_of e)) 1 \<longleftrightarrow> force) \<and>
    (bit (rq_flags (refset_req_of e)) 2 \<longleftrightarrow> consent)"
proof -
  let ?f = "refset_flags create force consent" and ?m = "str ''state.refset''"
  let ?x = "refset_item name expect target ?f"
  let ?e = "\<lparr>e_msgtype = HARP_MSG_REQUEST, e_rid = cl_next_rid c', e_method = ?m, e_has_body = True, e_body = enc_item ?x\<rparr>"
  have m: "m = harp_env_head (harp_cbuf_reset out) HARP_MSG_REQUEST (cl_next_rid c') ?m True"
    using assms(1) by (auto simp: harp_client_req_head_def)
  have "item_ok ?x (HARP_CBOR_MAX_DEPTH + 1)"
    using assms(3,5,6) by (auto simp: refset_item_def HARP_CBOR_MAX_DEPTH_def hash_ok_def split: option.split)
  then have p: "harp_env_parse msg = Some ?e"
    using assms(2) unfolding m by (intro message_parse [OF enc_refset]) (simp_all add: str_def)
  have r: "handle_ctl msg d = handle_state_refset ?e d"
    by (rule request_reaches [OF p _ assms(7,8)]) (simp_all add: refset_dispatch)
  have q: "refset_req_of ?e = \<lparr>rq_name = name, rq_expect_null = (expect = None), rq_have_expect = True, rq_have_new = True,
      rq_expect = (case expect of None \<Rightarrow> [] | Some h \<Rightarrow> h), rq_new = target, rq_flags = ?f\<rparr>"
    by (rule refset_item_read [OF assms(3-6)]) simp_all
  have b: "(bit ?f 0 \<longleftrightarrow> create) \<and> (bit ?f 1 \<longleftrightarrow> force) \<and> (bit ?f 2 \<longleftrightarrow> consent)"
    by (cases create; cases force; cases consent) (simp_all add: refset_flags_def bit_simps)
  from r q b show ?thesis by (intro exI [of _ ?e]) simp
qed

lemma refset_understood_witness:
  "\<exists>e. handle_ctl (cb_buf (put_calls (fst (harp_client_req_head (str ''state.refset'') True (harp_cbuf_init ex_alloc)
        (harp_client_init (the (dv_io ex_device)) [] None False ex_alloc 0 None)))
      (refset_calls (str ''a'') None ex_hash (refset_flags False True False)))) (ex_device\<lparr>dv_hello_done := True\<rparr>) =
    handle_state_refset e (ex_device\<lparr>dv_hello_done := True\<rparr>) \<and> rq_name (refset_req_of e) = str ''a''"
proof -
  let ?c = "harp_client_init (the (dv_io ex_device)) [] None False ex_alloc 0 None" and ?d = "ex_device\<lparr>dv_hello_done := True\<rparr>"
  obtain m c' where h: "harp_client_req_head (str ''state.refset'') True (harp_cbuf_init ex_alloc) ?c = (m, c')" by fastforce
  then have m: "m = harp_env_head (harp_cbuf_reset (harp_cbuf_init ex_alloc)) HARP_MSG_REQUEST 1 (str ''state.refset'') True"
    by (auto simp: harp_client_req_head_def harp_client_init_def)
  have "\<not> cb_oom (put_calls (harp_env_head (harp_cbuf_reset (harp_cbuf_init ex_alloc)) HARP_MSG_REQUEST 1 (str ''state.refset'') True)
      (refset_calls (str ''a'') None ex_hash (refset_flags False True False)))" by code_simp
  then have v: "cb_view (put_calls m (refset_calls (str ''a'') None ex_hash (refset_flags False True False))) =
      Some (cb_buf (put_calls m (refset_calls (str ''a'') None ex_hash (refset_flags False True False))))"
    using m by (simp add: cb_view_def)
  have k: "hash_ok ex_hash" by (simp add: hash_ok_def ex_hash_def)
  have "\<not> en_touch_pending (dv_engine ?d)" by (simp add: ex_device_def engine_boot_def)
  from refset_understood [OF h v _ _ k _ _ this] h show ?thesis by (auto simp: str_def)
qed

section \<open>Hello and identity\<close>

text \<open>What the device says of itself, as the client stores it.\<close>

definition cap_names :: "dev_config \<Rightarrow> bytes list" where
  "cap_names cf =
     map str [''harp-core'', ''harp-recall'', ''harp-stream'', ''harp-perf'', ''audio.host-paced'',
       ''audio.deterministic'', ''audio.offline-rate''] @
     (if cf_no_rate_lock cf then [] else [str ''audio.rate-lock'']) @
     map str [''evt.param'', ''evt.param.echo'', ''evt.param.mod'', ''evt.transport'', ''evt.ump'',
       ''evt.txn'', ''evt.multitimbral'', ''evt.param.meter'', ''diag.bundle'', ''diag.loopback.digital'',
       ''x.harp-refdev.sim''] @
     (if has_rt cf then [str ''audio.rt-floor''] else [])"

definition identity_of :: "'s device \<Rightarrow> harp_client_identity" where
  "identity_of d =
     (let cf = dv_config d
      in \<lparr>ci_vendor = str ''HARP Reference Project'', ci_product = dflt (cf_product cf) (str ''harp-refdev''),
         ci_vendor_id = 0x1209, ci_product_id = 1, ci_serial = cf_serial cf, ci_fw = FW_VERSION,
         ci_engine_id = dflt (cf_engine_name cf) ENGINE_ID, ci_engine_ver = dflt (cf_engine_ver cf) ENGINE_VERSION,
         ci_param_map_hash = dv_param_map_hash d, ci_boot_count = cf_boot_count cf, ci_txn_max = of_nat DEV_TXN_MAX,
         ci_txn_events = of_nat DEV_TXN_EVENTS_MAX, ci_eth_target_floor = cf_rt_floor cf, ci_eth_nsamples = cf_rt_nsamples cf,
         ci_caps = cap_names cf,
         ci_lat = [\<lparr>lp_rate = 48000, lp_in_lat = cf_in_lat cf, lp_out_lat = cf_out_lat cf, lp_buf_depth = 256\<rparr>]\<rparr>)"

text \<open>The reply's parts as items.\<close>

definition channel_item :: "nat \<Rightarrow> cbor" where
  "channel_item slot =
     (let pair = slot div 2;
          side = (if odd slot then str ''R'' else str ''L'');
          name = snprintf 16 (if pair = 0 then str ''Main '' @ side else str ''Part '' @ decimal pair @ str '' '' @ side);
          group = snprintf 16 (if pair = 0 then str ''Mix'' else str ''Part '' @ decimal pair);
          path = snprintf 16 (if pair = 0 then str ''main'' else str ''part'' @ decimal pair)
      in CMap [(CUint 0, CUint (of_nat slot)), (CUint 1, CUint 0), (CUint 2, CText name), (CUint 3, CText group),
               (CUint 4, CText path), (CUint 5, CSimple 21)])"

definition rt_items :: "dev_config \<Rightarrow> (cbor \<times> cbor) list" where
  "rt_items cf = (if cf_rt_floor cf \<noteq> 0 then [(CUint 0, CUint (ucast (cf_rt_floor cf)))] else []) @
     (if cf_rt_nsamples cf \<noteq> 0 then [(CUint 1, CUint (ucast (cf_rt_nsamples cf)))] else [])"

definition named_item :: "u64 \<Rightarrow> bytes \<Rightarrow> cbor" where
  "named_item n t = CMap [(CUint 0, CUint n), (CUint 1, CText t)]"

definition engine_item :: "bytes \<Rightarrow> bytes \<Rightarrow> harp_hash \<Rightarrow> cbor" where
  "engine_item n v h = CMap [(CUint 0, CText n), (CUint 1, CText v), (CUint 2, CBytes h)]"

definition lat_profile_item :: "u64 \<Rightarrow> u64 \<Rightarrow> cbor" where
  "lat_profile_item i j = CArray [CMap [(CUint 0, CUint 48000), (CUint 1, CUint i), (CUint 2, CUint j), (CUint 3, CUint 256)]]"

definition txn_item :: cbor where
  "txn_item = CMap [(CUint 0, CUint (of_nat DEV_TXN_MAX)), (CUint 1, CUint (of_nat DEV_TXN_EVENTS_MAX))]"

definition identity_fields :: "'s device \<Rightarrow> (u64 \<times> cbor) list" where
  "identity_fields d =
     (let cf = dv_config d
      in [(0, named_item 0x1209 (str ''HARP Reference Project'')),
          (1, named_item 1 (dflt (cf_product cf) (str ''harp-refdev''))),
          (2, CText (cf_serial cf)), (3, CText FW_VERSION),
          (4, engine_item (dflt (cf_engine_name cf) ENGINE_ID) (dflt (cf_engine_ver cf) ENGINE_VERSION) (dv_param_map_hash d)),
          (5, CArray [CUint PROTO_MAJOR, CUint PROTO_MINOR]),
          (6, CArray (map CText (cap_names cf))),
          (7, CArray (map channel_item [0..<34])),
          (8, lat_profile_item (ucast (cf_in_lat cf)) (ucast (cf_out_lat cf))),
          (9, CText (str ''refdev sim '' @ wd_date (dv_world d))),
          (10, CUint (cf_boot_count cf)),
          (11, CArray [CMap [(CUint 0, CUint 0), (CUint 1, CText (str ''notes''))]]),
          (12, CUint (of_nat NPARTS)),
          (13, txn_item)] @
         (if has_rt cf then [(14, CMap (rt_items cf))] else []))"

definition identity_item :: "'s device \<Rightarrow> cbor" where
  "identity_item d = CMap (map (map_prod CUint (\<lambda>v. v)) (identity_fields d))"

lemma enc_channel: "enc_calls (channel_entry slot) = enc_item (channel_item slot)"
  by (simp add: channel_entry_def channel_item_def Let_def)

lemma enc_caps: "enc_calls (capabilities cf) = enc_item (CArray (map CText (cap_names cf)))"
  by (simp add: capabilities_def cap_names_def engine_is_fx_def)

lemma enc_identity: "enc_calls (identity_calls d) = enc_item (identity_item d)"
proof -
  have c: "concat (map enc_call (concat (map channel_entry xs))) = concat (map enc_item (map channel_item xs))" for xs
    by (induction xs) (simp_all add: enc_channel)
  show ?thesis
    by (simp add: identity_calls_def identity_item_def identity_fields_def Let_def c enc_caps named_item_def engine_item_def
        lat_profile_item_def txn_item_def rt_items_def)
qed

text \<open>Configured names that fit the client's buffers.\<close>

definition fits :: "nat \<Rightarrow> bytes \<Rightarrow> bool" where
  "fits n t \<longleftrightarrow> length t < n \<and> 0 \<notin> set t"

definition identity_ok :: "'s device \<Rightarrow> bool" where
  "identity_ok d \<longleftrightarrow>
     (let cf = dv_config d
      in fits 64 (dflt (cf_product cf) (str ''harp-refdev'')) \<and> fits 64 (cf_serial cf) \<and>
         fits 64 (dflt (cf_engine_name cf) ENGINE_ID) \<and> fits 32 (dflt (cf_engine_ver cf) ENGINE_VERSION) \<and>
         hash_ok (dv_param_map_hash d) \<and> length (wd_date (dv_world d)) < 2 ^ 32)"

lemmas reader_defs = and_then_def ret_def each_key_def each_item_def skip_key_def text_below_def

text \<open>What every map and array header needs of the bytes that follow.\<close>

lemma head_bytes_room [simp]: "k \<le> Suc n \<Longrightarrow> k \<le> length (head_bytes m v) + n"
  using head_bytes_ge1 [of m v] by simp

lemma named_item_read:
  assumes "length t < 2 ^ 64"
  shows "each_key named_field s (dec (enc_item (named_item n t) @ r)) = (Some (n, if length t < 64 then cstr t else snd s), dec r)"
  using assms by (simp add: named_item_def named_field_def reader_defs)

lemma engine_item_read:
  assumes "fits 64 n" and "fits 32 v" and "hash_ok h"
  shows "each_key engine_field i (dec (enc_item (engine_item n v h) @ r)) =
    (Some (i\<lparr>ci_engine_id := n, ci_engine_ver := v, ci_param_map_hash := h\<rparr>), dec r)"
  using assms harp_hash_read_enc [of h]
  by (simp add: engine_item_def engine_field_def reader_defs fits_def cstr_no_nul)

lemma caps_read:
  assumes "\<And>t. t \<in> set ts \<Longrightarrow> fits 32 t" and "length cs + length ts \<le> HARP_CLIENT_MAX_CAPS"
  shows "loop_dec cap_item (length ts) cs (dec (concat (map (enc_item \<circ> CText) ts) @ r)) = (Some (cs @ ts), dec r)"
  using assms
proof (induction ts arbitrary: cs)
  case (Cons t ts)
  have "fits 32 t" "length cs < HARP_CLIENT_MAX_CAPS" using Cons.prems by (auto simp: Suc_le_eq)
  then have "cap_item cs (dec (enc_item (CText t) @ x)) = (Some (cs @ [t]), dec x)" for x
    by (simp add: cap_item_def reader_defs fits_def cstr_no_nul)
  with Cons show ?case by simp
qed simp

lemma lat_read:
  "each_item lat_item [] (dec (enc_item (lat_profile_item i j) @ r)) =
    (Some [\<lparr>lp_rate = 48000, lp_in_lat = ucast i, lp_out_lat = ucast j, lp_buf_depth = 256\<rparr>], dec r)"
  by (simp add: lat_profile_item_def lat_item_def lat_field_def reader_defs HARP_CLIENT_MAX_LAT_def)

lemma txn_read:
  "each_key txn_limit_field i (dec (enc_item txn_item @ r)) =
    (Some (i\<lparr>ci_txn_max := of_nat DEV_TXN_MAX, ci_txn_events := of_nat DEV_TXN_EVENTS_MAX\<rparr>), dec r)"
  by (simp add: txn_item_def txn_limit_field_def reader_defs)

lemma rt_read:
  assumes "ci_eth_target_floor i = 0" and "ci_eth_nsamples i = 0"
  shows "each_key rt_field i (dec (enc_item (CMap (rt_items cf)) @ r)) =
    (Some (i\<lparr>ci_eth_target_floor := cf_rt_floor cf, ci_eth_nsamples := cf_rt_nsamples cf\<rparr>), dec r)"
  using assms by (simp add: rt_items_def rt_field_def reader_defs)

lemma cap_names_fit: "t \<in> set (cap_names cf) \<Longrightarrow> fits 32 t" and cap_names_few: "length (cap_names cf) \<le> 20"
proof -
  have "list_all (fits 32) (cap_names cf)"
    by (cases "cf_no_rate_lock cf"; cases "has_rt cf") (simp_all add: cap_names_def fits_def str_def)
  then show "t \<in> set (cap_names cf) \<Longrightarrow> fits 32 t" by (simp add: list_all_iff)
  show "length (cap_names cf) \<le> 20" by (simp add: cap_names_def)
qed

text \<open>A run over key-value pairs that turns the local \<open>s\<close> into \<open>s'\<close>, whatever follows.\<close>

definition reads_value :: "('s \<Rightarrow> 's reader) \<Rightarrow> cbor \<Rightarrow> 's \<Rightarrow> 's \<Rightarrow> bool" where
  "reads_value f v s s' \<longleftrightarrow> (\<forall>r. f s (dec (enc_item v @ r)) = (Some s', dec r))"

definition reads_pairs :: "(u64 \<Rightarrow> 's \<Rightarrow> 's reader) \<Rightarrow> (u64 \<times> cbor) list \<Rightarrow> 's \<Rightarrow> 's \<Rightarrow> bool" where
  "reads_pairs f kvs s s' \<longleftrightarrow>
     (\<forall>r. loop_dec (\<lambda>s. and_then harp_cdec_uint (\<lambda>key. f key s)) (length kvs) s
            (dec (concat (map (\<lambda>(k, v). enc_uint k @ enc_item v) kvs) @ r)) = (Some s', dec r))"

lemma reads_pairs_Nil: "reads_pairs f [] s s"
  by (simp add: reads_pairs_def)

lemma reads_pairs_Cons: "reads_value (f k) v s s1 \<Longrightarrow> reads_pairs f kvs s1 s' \<Longrightarrow> reads_pairs f ((k, v) # kvs) s s'"
  by (simp add: reads_pairs_def reads_value_def and_then_def)

lemma reads_pairs_eq: "reads_pairs f kvs s x \<Longrightarrow> x = s' \<Longrightarrow> reads_pairs f kvs s s'"
  by simp

lemma pairs_room: "2 * length kvs \<le> length (concat (map (\<lambda>(k, v). enc_uint k @ enc_item v) kvs))"
proof (induction kvs)
  case (Cons p kvs)
  have "Suc 0 \<le> length (enc_item (snd p))" using enc_item_pos [of "snd p"] by (rule Suc_leI)
  with Cons show ?case using head_bytes_ge1 [of 0 "fst p"] by (cases p) simp
qed simp

lemma each_key_reads:
  assumes "reads_pairs f kvs s s'" and "length kvs < 2 ^ 63"
  shows "each_key f s (dec (enc_item (CMap (map (map_prod CUint (\<lambda>v. v)) kvs)) @ r)) = (Some s', dec r)"
proof -
  have e: "concat (map (\<lambda>p. fst p @ snd p) (map (map_prod enc_item enc_item) (map (map_prod CUint (\<lambda>v. v)) kvs))) =
      concat (map (\<lambda>(k, v). enc_uint k @ enc_item v) kvs)" by (induction kvs) auto
  have "unat (of_nat (length kvs) * 2 :: u64) = 2 * length kvs" using assms(2) by (simp add: unat_word_ariths unat_of_nat)
  with assms pairs_room [of kvs] show ?thesis
    unfolding each_key_def and_then_def [of harp_cdec_map] enc_item.simps e by (simp add: reads_pairs_def)
qed

text \<open>The keys one by one.\<close>

lemma identity_field_named:
  assumes "length t < 64" and "0 \<notin> set t"
  shows "reads_value (identity_field 0) (named_item n t) i (i\<lparr>ci_vendor := t, ci_vendor_id := ucast n\<rparr>)"
    and "reads_value (identity_field 1) (named_item n t) i (i\<lparr>ci_product := t, ci_product_id := ucast n\<rparr>)"
  using assms by (simp_all add: reads_value_def identity_field_def and_then_def ret_def named_item_read cstr_no_nul)

lemma identity_field_caps:
  assumes "ci_caps i = []"
  shows "reads_value (identity_field 6) (CArray (map CText (cap_names cf))) i (i\<lparr>ci_caps := cap_names cf\<rparr>)"
proof -
  have l: "length (cap_names cf) < 2 ^ 64" "length (cap_names cf) \<le> HARP_CLIENT_MAX_CAPS"
    using cap_names_few [of cf] by (simp_all add: HARP_CLIENT_MAX_CAPS_def)
  have "length ts \<le> length (concat (map (enc_item \<circ> CText) ts) @ r)" for ts and r :: bytes
  proof (induction ts)
    case (Cons t ts)
    then show ?case using head_bytes_ge1 [of 3 "of_nat (length t)"] by simp
  qed simp
  from this [of "cap_names cf"] caps_read [of "cap_names cf" "[]"] l cap_names_fit [of _ cf]
  have "each_item cap_item [] (dec (enc_item (CArray (map CText (cap_names cf))) @ r)) = (Some (cap_names cf), dec r)" for r
    by (simp add: reader_defs o_def)
  with assms show ?thesis by (simp add: reads_value_def identity_field_def and_then_def ret_def)
qed

lemma identity_field_skip:
  assumes "k \<notin> {0, 1, 2, 3, 4, 6, 8, 10, 13, 14}" and "item_ok x (HARP_CBOR_MAX_DEPTH + 1)"
  shows "reads_value (identity_field k) x i i"
  using assms harp_cdec_span_enc_item(1) [OF assms(2)]
  by (simp add: reads_value_def identity_field_def skip_key_def and_then_def ret_def)

lemma identity_field_text:
  "fits 64 t \<Longrightarrow> reads_value (identity_field 2) (CText t) i (i\<lparr>ci_serial := t\<rparr>)"
  "fits 32 t \<Longrightarrow> reads_value (identity_field 3) (CText t) i (i\<lparr>ci_fw := t\<rparr>)"
  by (simp_all add: reads_value_def identity_field_def and_then_def ret_def text_below_def fits_def cstr_no_nul)

lemma identity_field_rest:
  "fits 64 n \<Longrightarrow> fits 32 v \<Longrightarrow> hash_ok h \<Longrightarrow>
    reads_value (identity_field 4) (engine_item n v h) i (i\<lparr>ci_engine_id := n, ci_engine_ver := v, ci_param_map_hash := h\<rparr>)"
  "ci_lat i = [] \<Longrightarrow> reads_value (identity_field 8) (lat_profile_item x y) i
    (i\<lparr>ci_lat := [\<lparr>lp_rate = 48000, lp_in_lat = ucast x, lp_out_lat = ucast y, lp_buf_depth = 256\<rparr>]\<rparr>)"
  "reads_value (identity_field 10) (CUint b) i (i\<lparr>ci_boot_count := b\<rparr>)"
  "reads_value (identity_field 13) txn_item i
    (i\<lparr>ci_txn_max := of_nat DEV_TXN_MAX, ci_txn_events := of_nat DEV_TXN_EVENTS_MAX\<rparr>)"
  "ci_eth_target_floor i = 0 \<Longrightarrow> ci_eth_nsamples i = 0 \<Longrightarrow> reads_value (identity_field 14) (CMap (rt_items cf)) i
    (i\<lparr>ci_eth_target_floor := cf_rt_floor cf, ci_eth_nsamples := cf_rt_nsamples cf\<rparr>)"
  by (simp_all add: reads_value_def identity_field_def and_then_def ret_def engine_item_read lat_read txn_read rt_read
      del: enc_item.simps) (simp add: ret_def)

lemma channel_item_ok: "item_ok (channel_item slot) (Suc (Suc k))"
  by (simp add: channel_item_def Let_def snprintf_def min_less_iff_disj)

lemmas identity_reads = identity_field_named identity_field_caps identity_field_text identity_field_rest identity_field_skip

lemma identity_read:
  assumes "identity_ok d"
  shows "parse_identity (dec (enc_item (identity_item d) @ r)) = (Some (identity_of d), dec r)"
proof -
  let ?v = "\<lambda>k. reads_value (identity_field k)"
  note ok = assms [unfolded identity_ok_def Let_def]
  have f: "fits 32 FW_VERSION" by (simp add: fits_def FW_VERSION_def str_def)
  have c: "item_ok (CArray (map channel_item [0..<34])) (HARP_CBOR_MAX_DEPTH + 1)"
    using channel_item_ok [of _ 30] by (simp add: HARP_CBOR_MAX_DEPTH_def list_all_iff)
  have rt: "reads_pairs identity_field (if has_rt (dv_config d) then [(14, CMap (rt_items (dv_config d)))] else []) i
      (i\<lparr>ci_eth_target_floor := cf_rt_floor (dv_config d), ci_eth_nsamples := cf_rt_nsamples (dv_config d)\<rparr>)"
    if "ci_eth_target_floor i = 0" "ci_eth_nsamples i = 0" for i
  proof -
    have "i\<lparr>ci_eth_target_floor := 0, ci_eth_nsamples := 0\<rparr> = i" using that by (cases i) simp
    with reads_pairs_Cons [where f = identity_field, OF identity_field_rest(5) [OF that] reads_pairs_Nil]
      reads_pairs_Nil [of identity_field i] show ?thesis by (auto simp: has_rt_def)
  qed
  have "reads_pairs identity_field (identity_fields d) identity_zero (identity_of d)"
    unfolding identity_fields_def Let_def append_Cons append_Nil
    by (rule reads_pairs_eq,
        (rule rt, simp add: identity_zero_def, simp add: identity_zero_def | rule reads_pairs_Cons,
          (rule identity_reads; use ok f c in \<open>simp add: fits_def identity_zero_def HARP_CBOR_MAX_DEPTH_def str_def\<close>))+,
        simp add: identity_of_def identity_zero_def Let_def)
  moreover have "length (identity_fields d) < 2 ^ 63" by (simp add: identity_fields_def Let_def)
  ultimately show ?thesis unfolding parse_identity_def identity_item_def by (rule each_key_reads)
qed

text \<open>The request of the client and the reply of the device.\<close>

definition hello_item :: "u64 \<Rightarrow> bytes \<Rightarrow> cbor" where
  "hello_item major agent = CMap [(CUint 0, CArray [CUint major, CUint 0]), (CUint 1, CText agent)]"

lemma enc_hello: "enc_calls (hello_calls major agent) = enc_item (hello_item major agent)"
  by (simp add: hello_calls_def hello_item_def)

lemma hello_item_read:
  assumes "length agent < 2 ^ 32" and "e_has_body e" and "e_body e = enc_item (hello_item major agent)"
  shows "body_loop hello_field 0 e = major"
proof -
  have "harp_cdec_skip (dec (enc_item (CText agent) @ [])) = (Some (), dec [])"
    by (rule harp_cdec_span_enc_item(1)) (use assms(1) in \<open>simp add: HARP_CBOR_MAX_DEPTH_def\<close>)
  with assms show ?thesis
    by (simp add: body_loop_def hello_item_def with_key_def hello_field_def rd_opt_def)
qed

definition hello_reply_calls :: "'s device \<Rightarrow> call list" where
  "hello_reply_calls d = [Map 2, U 0, Arr 2, U PROTO_MAJOR, U PROTO_MINOR, U 1] @ identity_calls d"

definition hello_reply_item :: "'s device \<Rightarrow> cbor" where
  "hello_reply_item d = CMap [(CUint 0, CArray [CUint PROTO_MAJOR, CUint PROTO_MINOR]), (CUint 1, identity_item d)]"

lemma enc_hello_reply: "enc_calls (hello_reply_calls d) = enc_item (hello_reply_item d)"
  by (simp add: hello_reply_calls_def hello_reply_item_def enc_identity)

lemma hello_reply_read:
  assumes "identity_ok d" and "e_has_body e" and "e_body e = enc_item (hello_reply_item d)"
  shows "hello_reply e = Some (identity_of d)"
proof -
  have "harp_cdec_skip (dec (enc_item (CArray [CUint PROTO_MAJOR, CUint PROTO_MINOR]) @ r)) = (Some (), dec r)" for r
    by (rule harp_cdec_span_enc_item(1)) (simp add: HARP_CBOR_MAX_DEPTH_def)
  moreover have "Suc 0 \<le> length (enc_item (identity_item d))" using enc_item_pos [of "identity_item d"] by (rule Suc_leI)
  ultimately show ?thesis
    using assms identity_read [OF assms(1), of "[]"]
    by (simp add: hello_reply_def hello_reply_item_def hello_reply_field_def with_key_def rd_opt_def)
qed

lemma identity_item_ok: "identity_ok d \<Longrightarrow> item_ok (identity_item d) HARP_CBOR_MAX_DEPTH"
proof -
  assume "identity_ok d"
  moreover have "list_all (\<lambda>x. item_ok x 30) (map channel_item [0..<34])"
    using channel_item_ok [of _ 28] by (simp add: list_all_iff)
  moreover have "length t < 2 ^ 64" if "t \<in> set (cap_names (dv_config d))" for t
    using cap_names_fit [OF that] by (simp add: fits_def)
  moreover have "length (cap_names (dv_config d)) < 2 ^ 64" using cap_names_few [of "dv_config d"] by simp
  ultimately show ?thesis
    by (simp add: identity_item_def identity_fields_def Let_def named_item_def engine_item_def lat_profile_item_def txn_item_def
        rt_items_def HARP_CBOR_MAX_DEPTH_def identity_ok_def fits_def hash_ok_def list_all_iff FW_VERSION_def)
qed

lemma harp_cbuf_reset_init: "harp_cbuf_reset (harp_cbuf_init b) = harp_cbuf_init b"
  by (simp add: harp_cbuf_reset_def harp_cbuf_init_def)

lemma hello_dispatch: "find (\<lambda>h. str ''core.hello'' = str (fst h)) CTL_HANDLERS = Some (''core.hello'', handle_hello)"
  by (simp add: CTL_HANDLERS_def str_def)

text \<open>What hello sends first, and in which state.\<close>

lemma hello_state:
  "identity_calls (reset_session ((audio_stop d)\<lparr>dv_hello_done := True\<rparr>)) = identity_calls d"
  "dv_world (reset_session ((audio_stop d)\<lparr>dv_hello_done := True\<rparr>)) = dv_world d"
  "dv_io (reset_session ((audio_stop d)\<lparr>dv_hello_done := True\<rparr>)) = dv_io d"
  "dv_sent (reset_session ((audio_stop d)\<lparr>dv_hello_done := True\<rparr>)) = dv_sent d"
proof -
  have m: "dv_config (meter_pump_stop d) = dv_config d" "dv_world (meter_pump_stop d) = dv_world d"
    "dv_io (meter_pump_stop d) = dv_io d" "dv_sent (meter_pump_stop d) = dv_sent d"
    "dv_param_map_hash (meter_pump_stop d) = dv_param_map_hash d" by (simp_all add: meter_pump_stop_def)
  define d1 where "d1 = meter_pump_stop d"
  have "dv_config (audio_stop d) = dv_config d" "dv_world (audio_stop d) = dv_world d"
    "dv_io (audio_stop d) = dv_io d" "dv_sent (audio_stop d) = dv_sent d"
    "dv_param_map_hash (audio_stop d) = dv_param_map_hash d"
    using m unfolding audio_stop_def d1_def [symmetric] by (simp_all add: log_line_def Let_def)
  then show "identity_calls (reset_session ((audio_stop d)\<lparr>dv_hello_done := True\<rparr>)) = identity_calls d"
    "dv_world (reset_session ((audio_stop d)\<lparr>dv_hello_done := True\<rparr>)) = dv_world d"
    "dv_io (reset_session ((audio_stop d)\<lparr>dv_hello_done := True\<rparr>)) = dv_io d"
    "dv_sent (reset_session ((audio_stop d)\<lparr>dv_hello_done := True\<rparr>)) = dv_sent d"
    by (simp_all add: reset_session_def identity_calls_def Let_def)
qed

lemma send_ctl_sent: "dv_io d \<noteq> None \<Longrightarrow> dv_sent (send_ctl m d) = dv_sent d @ [(HARP_STREAM_CTL, cb_buf m)]"
  by (auto simp: send_ctl_def dev_send_def split: prod.split)

lemma send_ctl_more: "\<exists>ms. dv_sent (send_ctl m d) = dv_sent d @ ms"
  by (auto simp: send_ctl_def dev_send_def split: option.split prod.split)

lemma hello_sends:
  assumes "body_loop hello_field 0 e = PROTO_MAJOR" and "dv_io d \<noteq> None"
  shows "\<exists>ms. dv_sent (handle_hello e d) = dv_sent d @
    (HARP_STREAM_CTL, cb_buf (put_calls (rsp_head (new_cbuf d) (e_rid e) (e_method e) True) (hello_reply_calls d))) # ms"
proof -
  define d1 where "d1 = reset_session ((audio_stop d)\<lparr>dv_hello_done := True\<rparr>)"
  note h = hello_state [of d, folded d1_def]
  let ?d2 = "reply e (hello_reply_calls d) d1"
  have "handle_hello e d = grant_credit ?d2"
    using assms(1) h(1) by (simp add: handle_hello_def d1_def [symmetric] hello_reply_calls_def Let_def)
  moreover obtain ms where "dv_sent (grant_credit ?d2) = dv_sent ?d2 @ ms"
    using send_ctl_more by (fastforce simp: grant_credit_def Let_def)
  moreover have "dv_sent ?d2 = dv_sent d @
      [(HARP_STREAM_CTL, cb_buf (put_calls (rsp_head (new_cbuf d) (e_rid e) (e_method e) True) (hello_reply_calls d)))]"
    unfolding reply_def using assms(2) h by (simp add: send_ctl_sent del: HARP_STREAM_CTL_def)
  ultimately show ?thesis by simp
qed

text \<open>
  C5: The handshake works.  A client of protocol 1 says hello to a device whose configured names fit the client's
  buffers.  The device takes the message for a hello and opens the session; the first message it sends is a
  response with the client's request id, and the client reads from it exactly the identity of the device: names, serial
  number, engine and parameter map, capabilities, latency and transaction limits.
\<close>

theorem handshake:
  assumes "identity_ok d" and "\<not> en_touch_pending (dv_engine d)" and "dv_io d \<noteq> None" and "length agent < 2 ^ 32"
    and "harp_client_req_head (str ''core.hello'') True out c = (m, c')"
    and "cb_view (put_calls m (hello_calls 1 agent)) = Some req"
    and "cb_view (put_calls (rsp_head (new_cbuf d) (cl_next_rid c') (str ''core.hello'') True) (hello_reply_calls d)) = Some rsp"
  shows "dv_hello_done (handle_ctl req d) \<and> (\<exists>ms. dv_sent (handle_ctl req d) = dv_sent d @ (HARP_STREAM_CTL, rsp) # ms) \<and>
    (\<exists>e. harp_env_parse rsp = Some e \<and> e_msgtype e = HARP_MSG_RESPONSE \<and> e_rid e = cl_next_rid c' \<and>
         hello_reply e = Some (identity_of d))"
proof -
  let ?m = "str ''core.hello''"
  let ?e = "\<lparr>e_msgtype = HARP_MSG_REQUEST, e_rid = cl_next_rid c', e_method = ?m, e_has_body = True, e_body = enc_item (hello_item 1 agent)\<rparr>"
  let ?r = "\<lparr>e_msgtype = HARP_MSG_RESPONSE, e_rid = cl_next_rid c', e_method = ?m, e_has_body = True, e_body = enc_item (hello_reply_item d)\<rparr>"
  have m: "m = harp_env_head (harp_cbuf_reset out) HARP_MSG_REQUEST (cl_next_rid c') ?m True"
    using assms(5) by (auto simp: harp_client_req_head_def)
  have "item_ok (hello_item 1 agent) (HARP_CBOR_MAX_DEPTH + 1)"
    using assms(4) by (simp add: hello_item_def HARP_CBOR_MAX_DEPTH_def)
  then have q: "harp_env_parse req = Some ?e"
    using assms(6) unfolding m by (intro message_parse [OF enc_hello]) (simp_all add: str_def)
  have b: "body_loop hello_field 0 ?e = PROTO_MAJOR" using hello_item_read [of agent ?e 1] assms(4) by (simp add: PROTO_MAJOR_def)
  have h: "handle_ctl req d = handle_hello ?e d"
    using q assms(2) by (simp add: handle_ctl_def take_touch_def handle_request_def hello_dispatch)
  have "item_ok (hello_reply_item d) (HARP_CBOR_MAX_DEPTH + 1)"
    using identity_item_ok [OF assms(1)] by (simp add: hello_reply_item_def HARP_CBOR_MAX_DEPTH_def)
  then have r: "harp_env_parse rsp = Some ?r"
    using assms(7) harp_cbuf_reset_init [of "wd_alloc (dv_world d)"]
    by (intro message_parse [OF enc_hello_reply, where out = "new_cbuf d"]) (simp_all add: str_def rsp_head_def)
  have "cb_buf (put_calls (rsp_head (new_cbuf d) (cl_next_rid c') ?m True) (hello_reply_calls d)) = rsp"
    using assms(7) by (simp add: cb_view_def split: if_splits)
  with hello_sends [OF b assms(3)] hello_done [OF b] hello_reply_read [OF assms(1), of ?r] r h show ?thesis by simp
qed

text \<open>A device with a parameter map and just the memory its reply takes.\<close>

definition ex_peer :: "nat \<Rightarrow> unit device" where
  "ex_peer n = ex_device\<lparr>dv_param_map_hash := ex_hash, dv_world := ex_world\<lparr>wd_alloc := ex_alloc\<lparr>cb_avail := n\<rparr>\<rparr>\<rparr>"

definition ex_peer_room :: nat where
  "ex_peer_room = grow 256 (length (env_head_bytes HARP_MSG_RESPONSE 1 (str ''core.hello'') True @ enc_calls (hello_reply_calls (ex_peer 0))))"

lemma ex_peer_fields: "dv_config (ex_peer n) = \<lparr>cf_engine_ver = None, cf_product = None, cf_engine_name = None,
       cf_serial = str ''1'', cf_boot_count = 1, cf_rt_floor = 0, cf_rt_nsamples = 0, cf_in_lat = 0, cf_out_lat = 0,
       cf_no_rate_lock = False\<rparr>"
    "dv_param_map_hash (ex_peer n) = ex_hash" "dv_io (ex_peer n) \<noteq> None" "\<not> en_touch_pending (dv_engine (ex_peer n))"
    "wd_date (dv_world (ex_peer n)) = wd_date ex_world" "new_cbuf (ex_peer n) = \<lparr>cb_buf = [], cb_cap = 0, cb_oom = False, cb_avail = n\<rparr>"
  by (simp_all add: ex_peer_def ex_device_def engine_boot_def ex_alloc_def harp_cbuf_init_def)

lemma ex_peer_reply:
  "\<exists>rsp. cb_view (put_calls (rsp_head (new_cbuf (ex_peer ex_peer_room)) 1 (str ''core.hello'') True)
     (hello_reply_calls (ex_peer ex_peer_room))) = Some rsp"
proof -
  let ?d = "ex_peer ex_peer_room" and ?h = "env_head_bytes HARP_MSG_RESPONSE 1 (str ''core.hello'') True"
  let ?b = "\<lparr>cb_buf = [], cb_cap = 0, cb_oom = False, cb_avail = ex_peer_room\<rparr>"
  have c: "hello_reply_calls ?d = hello_reply_calls (ex_peer 0)"
    by (simp only: hello_reply_calls_def identity_calls_def ex_peer_fields)
  have "cb_view (put_calls (harp_env_head ?b HARP_MSG_RESPONSE 1 (str ''core.hello'') True) (hello_reply_calls ?d)) =
      cb_view (harp_cbuf_put ?b (?h @ enc_calls (hello_reply_calls ?d)))"
    by (rule emits_view [OF emits_comp [OF emits_env_head emits_calls]]) (simp add: cbuf_wf_def)
  also have "\<dots> \<noteq> None"
    unfolding c by (simp add: harp_cbuf_put_def ensure_def cb_view_def ex_peer_room_def [symmetric, simplified])
  finally show ?thesis unfolding rsp_head_def ex_peer_fields by blast
qed

lemma handshake_witness:
  "dv_hello_done (handle_ctl (cb_buf (put_calls (fst (harp_client_req_head (str ''core.hello'') True (harp_cbuf_init ex_alloc)
      (harp_client_init (the (dv_io ex_device)) [] None False ex_alloc 0 None))) (hello_calls 1 (str ''probe'')))) (ex_peer ex_peer_room))"
proof -
  let ?c = "harp_client_init (the (dv_io ex_device)) [] None False ex_alloc 0 None" and ?d = "ex_peer ex_peer_room"
  obtain m c' where h: "harp_client_req_head (str ''core.hello'') True (harp_cbuf_init ex_alloc) ?c = (m, c')" by fastforce
  then have m: "m = harp_env_head (harp_cbuf_reset (harp_cbuf_init ex_alloc)) HARP_MSG_REQUEST 1 (str ''core.hello'') True"
    and r: "cl_next_rid c' = 1"
    by (auto simp: harp_client_req_head_def harp_client_init_def)
  have "\<not> cb_oom (put_calls (harp_env_head (harp_cbuf_reset (harp_cbuf_init ex_alloc)) HARP_MSG_REQUEST 1 (str ''core.hello'') True)
      (hello_calls 1 (str ''probe'')))" by code_simp
  then have v: "cb_view (put_calls m (hello_calls 1 (str ''probe''))) = Some (cb_buf (put_calls m (hello_calls 1 (str ''probe''))))"
    using m by (simp add: cb_view_def)
  have i: "identity_ok ?d"
    by (simp add: identity_ok_def ex_peer_fields fits_def dflt_def str_def ENGINE_ID_def ENGINE_VERSION_def hash_ok_def ex_hash_def
        ex_world_def)
  obtain rsp where p: "cb_view (put_calls (rsp_head (new_cbuf ?d) (cl_next_rid c') (str ''core.hello'') True) (hello_reply_calls ?d)) = Some rsp"
    using ex_peer_reply r by auto
  have a: "length (str ''probe'') < 2 ^ 32" by simp
  from handshake [OF i ex_peer_fields(4) ex_peer_fields(3) a h v p] h show ?thesis by simp
qed

end
