(* ===== verification/Harp_Transfer.thy ===== *)
theory Harp_Transfer
  imports Harp_Client Harp_Refset
begin

text \<open>
  The transfer operations of \<^verbatim>\<open>host/client.c\<close>: waiting for the answer to a request, fetching and pushing a closure of objects,
  and the object queue under flow control.
\<close>

section \<open>The store only grows\<close>

text \<open>Whatever a client receives, no object file of its store changes or disappears.\<close>

definition grown :: "harp_store \<Rightarrow> harp_store \<Rightarrow> bool" where
  "grown st st' \<longleftrightarrow> st' = st\<lparr>sto_fs := sto_fs st'\<rparr> \<and>
     (\<forall>h x. map_of (sto_fs st) (obj_path st h) = Some x \<longrightarrow> map_of (sto_fs st') (obj_path st h) = Some x)"

lemma grown_refl: "grown st st"
  by (simp add: grown_def)

lemma grown_path: "grown st st' \<Longrightarrow> obj_path st' h = obj_path st h" and grown_dir: "grown st st' \<Longrightarrow> dir_ok st' = dir_ok st"
  using same_dir by (metis grown_def)+

lemma grown_trans: "grown a b \<Longrightarrow> grown b c \<Longrightarrow> grown a c"
proof -
  assume g: "grown a b" "grown b c"
  then have ab: "b = a\<lparr>sto_fs := sto_fs b\<rparr>" and bc: "c = b\<lparr>sto_fs := sto_fs c\<rparr>" by (simp_all add: grown_def)
  have "c = a\<lparr>sto_fs := sto_fs c\<rparr>" by (subst bc, subst ab) simp
  with g grown_path [OF g(1)] show ?thesis by (simp add: grown_def)
qed

lemma grown_put: "dir_ok st \<Longrightarrow> grown st (snd (snd (harp_store_put st enc)))"
proof (cases "path_readable (sto_fs st) (obj_path st (harp_hash_compute enc))")
  case True
  then show ?thesis by (simp add: harp_store_put_def Let_def grown_refl)
next
  case False
  assume d: "dir_ok st"
  let ?p = "obj_path st (harp_hash_compute enc)"
  obtain ok s' where w: "write_atomic st ?p enc = (ok, s')" by (cases "write_atomic st ?p enc")
  note c = write_atomic_cases [OF w obj_path_short]
  have "map_of (sto_fs s') (obj_path st h) = Some x" if x: "map_of (sto_fs st) (obj_path st h) = Some x" for h x
  proof -
    have "obj_path st h \<noteq> ?p" using False x by (auto simp: path_readable_def)
    moreover have "obj_path st h \<noteq> tmp_path st ?p" by (rule tmp_not_obj [OF d])
    ultimately show ?thesis using c(2,3) x by (cases ok) auto
  qed
  with c(1) False w show ?thesis by (simp add: harp_store_put_def Let_def grown_def)
qed

lemma grown_have: "grown st st' \<Longrightarrow> harp_store_have st h \<Longrightarrow> harp_store_have st' h"
  using grown_path [of st st' h] by (auto simp: harp_store_have_def path_readable_def grown_def)

lemma grown_get: "grown st st' \<Longrightarrow> harp_store_have st h \<Longrightarrow> obj_path st h \<noteq> [] \<Longrightarrow> harp_store_get st' h b = harp_store_get st h b"
proof -
  assume g: "grown st st'" and "harp_store_have st h" and "obj_path st h \<noteq> []"
  then obtain x where x: "map_of (sto_fs st) (obj_path st h) = Some x" by (auto simp: harp_store_have_def path_readable_def)
  with g have "map_of (sto_fs st') (obj_path st h) = Some x" by (simp add: grown_def)
  moreover have "sto_flt st' = sto_flt st" using g unfolding grown_def by (metis harp_store.ext_inject harp_store.surjective harp_store.update_convs(2))
  ultimately show ?thesis using x grown_path [OF g] by (simp add: harp_store_get_def fopen_rb_def Let_def split: fnode.split)
qed

text \<open>Two states of a client between which only the wire, the counters and the store's contents moved.\<close>

definition kept :: "'s harp_client \<Rightarrow> 's harp_client \<Rightarrow> bool" where
  "kept c c' \<longleftrightarrow> cl_alloc c' = cl_alloc c \<and>
     (case cl_store c of None \<Rightarrow> cl_store c' = None
      | Some st \<Rightarrow> \<exists>st'. cl_store c' = Some st' \<and> (dir_ok st \<longrightarrow> grown st st'))"

lemma kept_refl: "kept c c"
  by (simp add: kept_def grown_refl split: option.split)

lemma kept_trans: "kept a b \<Longrightarrow> kept b c \<Longrightarrow> kept a c"
proof (cases "cl_store a")
  case (Some st)
  assume "kept a b" "kept b c"
  with Some obtain st1 st2 where "cl_store b = Some st1" "cl_store c = Some st2" "dir_ok st \<longrightarrow> grown st st1" "dir_ok st1 \<longrightarrow> grown st1 st2"
    "cl_alloc c = cl_alloc a" by (auto simp: kept_def)
  with Some grown_trans [of st st1 st2] grown_dir [of st st1] show ?thesis by (auto simp: kept_def)
qed (auto simp: kept_def)

lemma kept_same: "cl_alloc c' = cl_alloc c \<Longrightarrow> cl_store c' = cl_store c \<Longrightarrow> kept c c'"
  by (simp add: kept_def grown_refl split: option.split)

lemma kept_pump_obj: "kept c (pump_obj m c)"
proof -
  define c1 where "c1 = (case cl_store c of None \<Rightarrow> c
      | Some st \<Rightarrow> if harp_obj_kind m \<ge> 0 then c\<lparr>cl_store := Some (snd (snd (harp_store_put st m)))\<rparr> else c)"
  have "kept c c1" by (simp add: c1_def kept_def grown_put grown_refl split: option.split)
  moreover have "cl_store (pump_obj m c) = cl_store c1" "cl_alloc (pump_obj m c) = cl_alloc c1"
    by (simp_all add: pump_obj_def c1_def [symmetric] Let_def)
  ultimately show ?thesis using kept_trans kept_same by metis
qed

lemma kept_pump: "kept c (snd (snd (pump_one c)))"
proof (cases "cl_in c")
  case (Cons p rest)
  obtain st m where p: "p = (st, m)" by fastforce
  have "kept c (c\<lparr>cl_in := rest, cl_msg := m\<rparr>)" by (rule kept_same) simp_all
  from kept_trans [OF this kept_pump_obj [of _ m]] kept_trans [OF this kept_same] this Cons p show ?thesis
    by (simp add: pump_one_def Let_def split: option.split)
qed (simp add: pump_one_def kept_refl)

text \<open>Reading an error reply touches only the fields for it.\<close>

definition err_only :: "'s harp_client \<Rightarrow> 's harp_client \<Rightarrow> bool" where
  "err_only c c' \<longleftrightarrow> cl_alloc c' = cl_alloc c \<and> cl_store c' = cl_store c \<and> cl_in c' = cl_in c \<and> cl_next_rid c' = cl_next_rid c"

lemma err_only_loop: "(\<And>b x. err_only b (fst (snd (f b x)))) \<Longrightarrow> err_only b (fst (loop_brk f n b x))"
  using loop_brk_inv [of "err_only b" f b n x] by (simp add: err_only_def)

lemma err_only_take_error: "err_only c (take_error e c)"
proof -
  have "err_only b (fst (snd (major_field b x)))" for b :: "'a harp_client" and x
    by (auto simp: major_field_def err_only_def split: option.split prod.split)
  from err_only_loop [OF this] have "err_only b (fst (snd (error_field k b x)))" for b :: "'a harp_client" and k x
    by (auto simp: error_field_def rd_opt_def err_only_def split: option.split prod.split)
  then have "err_only c (body_loop error_field (c\<lparr>cl_err_method := snprintf 64 (e_method e), cl_err_code := str ''?''\<rparr>) e)"
    by (intro body_loop_inv [of "err_only c"]) (simp_all add: err_only_def)
  then show ?thesis by (simp add: take_error_def)
qed

lemma kept_take_error: "kept c (take_error e c)"
  using err_only_take_error [of c e] by (intro kept_same) (simp_all add: err_only_def)

section \<open>Waiting for an answer\<close>

lemma wait_dead: "\<not> fst (pump_one c) \<Longrightarrow> harp_client_wait rid rsp c = (HARP_CLIENT_EIO, None, rsp, snd (snd (pump_one c)))"
  by (subst harp_client_wait.simps) (simp add: Let_def)

lemma wait_pass:
  assumes "fst (pump_one c)" and "\<And>pe. fst (snd (pump_one c)) = Some pe \<Longrightarrow> e_rid pe \<noteq> rid"
  shows "harp_client_wait rid rsp c = harp_client_wait rid rsp (snd (snd (pump_one c)))"
  using assms by (cases "fst (snd (pump_one c))"; subst harp_client_wait.simps) (simp_all add: Let_def)

lemma wait_hit:
  assumes "fst (pump_one c)" and "fst (snd (pump_one c)) = Some pe" and "e_rid pe = rid"
  shows "harp_client_wait rid rsp c =
    (let c' = snd (snd (pump_one c))
     in if e_msgtype pe = HARP_MSG_ERROR then (HARP_CLIENT_EDEV, None, rsp, take_error pe c')
        else let rsp = harp_cbuf_put (harp_cbuf_reset rsp) (cl_msg c')
             in case harp_env_parse (cb_buf rsp) of None \<Rightarrow> (HARP_CLIENT_EIO, None, rsp, c') | Some e \<Rightarrow> (0, Some e, rsp, c'))"
  using assms by (subst harp_client_wait.simps) (simp add: Let_def)

lemma wait_induct [case_names dead pass hit]:
  assumes "\<And>c. \<not> fst (pump_one c) \<Longrightarrow> P c"
    and "\<And>c. fst (pump_one c) \<Longrightarrow> (\<And>pe. fst (snd (pump_one c)) = Some pe \<Longrightarrow> e_rid pe \<noteq> rid) \<Longrightarrow> P (snd (snd (pump_one c))) \<Longrightarrow> P c"
    and "\<And>c pe. fst (pump_one c) \<Longrightarrow> fst (snd (pump_one c)) = Some pe \<Longrightarrow> e_rid pe = rid \<Longrightarrow> P c"
  shows "P c"
proof (induction "length (cl_in c)" arbitrary: c rule: less_induct)
  case less
  then have "P (snd (snd (pump_one c)))" if "fst (pump_one c)" using pump_one_less [OF that] by simp
  with assms(1) [of c] assms(2) [of c] assms(3) [of c] show ?case by blast
qed

lemma kept_wait: "kept c (snd (snd (snd (harp_client_wait rid rsp c))))"
proof (induction c rule: wait_induct [where rid = rid])
  case (dead c)
  then show ?case by (simp add: wait_dead kept_pump)
next
  case (pass c)
  then show ?case by (simp add: wait_pass kept_trans [OF kept_pump])
next
  case (hit c pe)
  from kept_pump [of c] kept_trans [OF kept_pump [of c] kept_take_error] show ?case
    by (simp add: wait_hit [OF hit] Let_def split: option.split)
qed

lemma env_parse_nil: "harp_env_parse [] = None"
  by code_simp

lemma rsp_copy: "cb_buf (harp_cbuf_put (harp_cbuf_reset rsp) m) \<in> {[], m}"
  by (auto simp: harp_cbuf_put_def ensure_def harp_cbuf_reset_def Let_def split: if_splits)

lemma pump_one_ctl:
  assumes "fst (snd (pump_one c)) = Some e"
  obtains m rest where "cl_in c = (HARP_STREAM_CTL, m) # rest" and "cl_msg (snd (snd (pump_one c))) = m"
    and "harp_env_parse m = Some e" and "e_msgtype e \<noteq> HARP_MSG_NOTIFICATION"
proof (cases "cl_in c")
  case (Cons p rest)
  obtain st m where p: "p = (st, m)" by fastforce
  with Cons assms have st: "st = HARP_STREAM_CTL" by (simp add: pump_one_def Let_def split: if_splits)
  with Cons p assms have "harp_env_parse m = Some e \<and> e_msgtype e \<noteq> HARP_MSG_NOTIFICATION \<and> cl_msg (snd (snd (pump_one c))) = m"
    by (cases "harp_env_parse m") (auto simp: pump_one_def Let_def split: if_splits)
  with that Cons p st show ?thesis by blast
qed (use assms in \<open>simp add: pump_one_def\<close>)

text \<open>What a wait may report after it has consumed the messages \<open>used\<close>.\<close>

definition wait_outcome :: "u64 \<Rightarrow> (u8 \<times> bytes) list \<Rightarrow> int \<Rightarrow> harp_env option \<Rightarrow> bool" where
  "wait_outcome rid used rc e \<longleftrightarrow>
     rc = 0 \<and> (\<exists>m pe. e = Some pe \<and> used \<noteq> [] \<and> last used = (HARP_STREAM_CTL, m) \<and> harp_env_parse m = Some pe \<and>
       e_rid pe = rid \<and> e_msgtype pe \<noteq> HARP_MSG_ERROR \<and> e_msgtype pe \<noteq> HARP_MSG_NOTIFICATION) \<or>
     rc = HARP_CLIENT_EDEV \<and> (\<exists>m pe. used \<noteq> [] \<and> last used = (HARP_STREAM_CTL, m) \<and> harp_env_parse m = Some pe \<and>
       e_rid pe = rid \<and> e_msgtype pe = HARP_MSG_ERROR) \<or>
     rc = HARP_CLIENT_EIO \<and> e = None"

lemma wait_outcome_Cons: "wait_outcome rid used rc e \<Longrightarrow> wait_outcome rid (p # used) rc e"
  unfolding wait_outcome_def by (metis last_ConsR list.distinct(1))


section \<open>Fetching a closure\<close>

lemma kept_call: "kept c (snd (snd (client_call m body c)))"
proof -
  define c1 where "c1 = c\<lparr>cl_next_rid := cl_next_rid c + 1\<rparr>"
  obtain b where h: "harp_client_req_head m (body \<noteq> None) (cl_cbuf c) c = (b, c1)"
    by (simp add: harp_client_req_head_def c1_def)
  define req where "req = (case body of None \<Rightarrow> b | Some cs \<Rightarrow> put_calls b cs)"
  obtain ok c2 where l: "client_link_send HARP_STREAM_CTL (cb_buf req) (c1\<lparr>cl_err_code := [], cl_err_msg := []\<rparr>) = (ok, c2)" by fastforce
  have "kept c c2"
    using client_link_send_frame(6,7) [of HARP_STREAM_CTL "cb_buf req" "c1\<lparr>cl_err_code := [], cl_err_msg := []\<rparr>", unfolded l]
    by (intro kept_same) (simp_all add: c1_def)
  moreover have "snd (snd (client_call m body c)) = (if ok then snd (snd (snd (harp_client_wait (cl_next_rid c1) (cl_cbuf c1) c2))) else c2)"
    using h l by (simp add: client_call_def req_def [symmetric] harp_client_request_def harp_client_send_def HARP_CLIENT_EIO_def
        Let_def split: prod.split)
  ultimately show ?thesis by (simp add: kept_trans [OF _ kept_wait])
qed

lemma fetch_wait_kept: "kept c (snd (fetch_wait want spins c))"
proof (induction want spins c rule: fetch_wait.induct)
  case (1 want spins c)
  obtain ok ctl c' where p: "pump_one c = (ok, ctl, c')" by (metis prod_cases3)
  have k: "kept c c'" using kept_pump [of c] p by simp
  show ?case using 1 p k kept_trans [OF k] kept_refl [of c]
    by (subst fetch_wait.simps) (cases ok; simp)
qed

lemma fetch_wait_done: "fetch_wait want spins c = (True, c') \<Longrightarrow> \<exists>st. cl_store c' = Some st \<and> list_all (harp_store_have st) want"
proof (induction want spins c rule: fetch_wait.induct)
  case (1 want spins c)
  obtain ok ctl c1 where p: "pump_one c = (ok, ctl, c1)" by (metis prod_cases3)
  show ?case using 1 p by (subst (asm) (2) fetch_wait.simps) (cases ok; auto split: if_splits option.splits)
qed

lemma fetch_batch_kept: "kept c (snd (fetch_batch want c))"
proof -
  obtain rc e c1 where r: "client_call (str ''state.want'') (Some ([Map 1, U 0, Arr (of_nat (length want))] @ map B want)) c = (rc, e, c1)"
    by (metis prod_cases3)
  have "kept c c1" using kept_call [of c "str ''state.want''"] r by (metis snd_conv)
  with r kept_trans [OF _ fetch_wait_kept, of c c1 want 0] show ?thesis by (simp add: fetch_batch_def kept_refl split_beta)
qed

lemma fetch_batch_done:
  assumes "fetch_batch want c = (0, c')" and "cl_store c = Some st" and "dir_ok st"
  shows "\<exists>st'. cl_store c' = Some st' \<and> grown st st' \<and> list_all (harp_store_have st') want"
proof -
  from fetch_batch_kept [of c want] assms obtain st' where st': "cl_store c' = Some st'" "grown st st'" by (auto simp: kept_def)
  have "list_all (harp_store_have st') want"
  proof (cases "want = []")
    case False
    with assms(1) obtain c1 where "fetch_wait want 0 c1 = (True, c')"
      by (auto simp: fetch_batch_def HARP_CLIENT_EIO_def split: prod.splits if_splits)
    from fetch_wait_done [OF this] st' show ?thesis by auto
  qed simp
  with st' show ?thesis by blast
qed

text \<open>What collecting does to the list of hashes seen: it stays distinct, and nothing is lost while there is room.\<close>

definition obj_kids :: "harp_cbuf \<Rightarrow> harp_store \<Rightarrow> harp_hash \<Rightarrow> harp_hash list" where
  "obj_kids b0 st h = (if fst (harp_store_get st h b0) then snd (obj_children (cb_buf (snd (harp_store_get st h b0)))) else [])"

lemma kids_refers: "(h, c) \<in> refers b0 st \<longleftrightarrow> c \<in> set (obj_kids b0 st h)"
  by (simp add: refers_def obj_kids_def)

lemma kids_ok: "c \<in> set (obj_kids b0 st h) \<Longrightarrow> length c = 33"
  using foreach_child_fold(2) [OF list_collect_sticky] by (auto simp: obj_kids_def hash_ok_def split: if_splits)

lemma expand_kids: "snd (expand_child b0 st h l) = run_cb list_collect (obj_kids b0 st h) l"
  by (simp add: expand_child_eq obj_kids_def)

definition hash_list :: "harp_hash list \<Rightarrow> bool" where
  "hash_list l \<longleftrightarrow> distinct l \<and> (\<forall>h\<in>set l. length h = 33)"

lemma list_collect_one:
  assumes "hash_list l" and "length h = 33"
  shows "hash_list (snd (list_collect h l))" and "set (snd (list_collect h l)) \<subseteq> insert h (set l)"
    and "length l < HARP_CLIENT_MAX_CLOSURE \<Longrightarrow> set (snd (list_collect h l)) = insert h (set l)"
    and "\<exists>r. snd (list_collect h l) = l @ r"
proof -
  have "list_ex (\<lambda>x. harp_hash_eq x h) l \<longleftrightarrow> h \<in> set l"
    using assms by (auto simp: list_ex_iff harp_hash_eq_def hash_list_def)
  then show "hash_list (snd (list_collect h l))" "set (snd (list_collect h l)) \<subseteq> insert h (set l)"
    "length l < HARP_CLIENT_MAX_CLOSURE \<Longrightarrow> set (snd (list_collect h l)) = insert h (set l)"
    "\<exists>r. snd (list_collect h l) = l @ r"
    using assms by (auto simp: list_collect_def hash_list_def)
qed

lemma run_collect:
  assumes "hash_list l" and "\<forall>h\<in>set hs. length h = 33" and "finite R" and "card R < HARP_CLIENT_MAX_CLOSURE"
    and "set l \<union> set hs \<subseteq> R"
  shows "hash_list (run_cb list_collect hs l) \<and> set (run_cb list_collect hs l) = set l \<union> set hs \<and> (\<exists>r. run_cb list_collect hs l = l @ r)"
  using assms
proof (induction hs arbitrary: l)
  case (Cons h hs)
  have "card (set l) \<le> card R" by (rule card_mono) (use Cons.prems in auto)
  then have "length l < HARP_CLIENT_MAX_CLOSURE"
    using Cons.prems by (simp add: hash_list_def distinct_card)
  with list_collect_one [OF Cons.prems(1), of h] Cons.prems(2)
  have "hash_list (snd (list_collect h l))" "set (snd (list_collect h l)) = insert h (set l)" "\<exists>r. snd (list_collect h l) = l @ r" by simp_all
  with Cons.IH [of "snd (list_collect h l)"] Cons.prems show ?case by auto
qed simp

text \<open>The same for the pass over a stretch of the list; the part already there is not touched.\<close>

lemma expand_pass:
  assumes "hash_list l" and "finite R" and "card R < HARP_CLIENT_MAX_CLOSURE" and "set l \<subseteq> R"
    and "\<And>h. h \<in> R \<Longrightarrow> set (obj_kids b0 st h) \<subseteq> R" and "n \<le> length l" and "cursor \<le> n"
  shows "let l' = fold (\<lambda>i l. snd (expand_child b0 st (l ! i) l)) [cursor..<n] l
    in hash_list l' \<and> set l' \<subseteq> R \<and> (\<exists>r. l' = l @ r) \<and> (\<forall>i. cursor \<le> i \<and> i < n \<longrightarrow> set (obj_kids b0 st (l ! i)) \<subseteq> set l')"
  using assms(6,7)
proof (induction n)
  case (Suc n)
  show ?case
  proof (cases "cursor \<le> n")
    case True
    define m where "m = fold (\<lambda>i l. snd (expand_child b0 st (l ! i) l)) [cursor..<n] l"
    from Suc True have m: "hash_list m" "set m \<subseteq> R" "\<exists>r. m = l @ r"
      "\<forall>i. cursor \<le> i \<and> i < n \<longrightarrow> set (obj_kids b0 st (l ! i)) \<subseteq> set m" by (simp_all add: m_def Let_def)
    from m(3) Suc.prems have n: "m ! n = l ! n" by (auto simp: nth_append)
    have "l ! n \<in> R" using Suc.prems assms(4) by auto
    then have c: "set (obj_kids b0 st (l ! n)) \<subseteq> R" by (rule assms(5))
    have "\<forall>h\<in>set (obj_kids b0 st (l ! n)). length h = 33" using kids_ok by blast
    from run_collect [OF m(1) this assms(2,3)] m(2) c
    have "let l' = run_cb list_collect (obj_kids b0 st (l ! n)) m
      in hash_list l' \<and> set l' = set m \<union> set (obj_kids b0 st (l ! n)) \<and> (\<exists>r. l' = m @ r)" by (simp add: Let_def)
    moreover have "fold (\<lambda>i l. snd (expand_child b0 st (l ! i) l)) [cursor..<Suc n] l = run_cb list_collect (obj_kids b0 st (l ! n)) m"
      using True n expand_kids [of b0 st "m ! n" m] by (simp add: m_def)
    ultimately show ?thesis using m c by (fastforce simp: Let_def less_Suc_eq)
  qed (use Suc assms in \<open>auto simp: Let_def\<close>)
qed (use assms in \<open>simp add: Let_def\<close>)

lemma get_have: "fst (harp_store_get st h b) \<Longrightarrow> harp_store_have st h"
  by (auto simp: harp_store_get_def harp_store_have_def path_readable_def fopen_rb_def Let_def split: option.splits if_splits)

lemma kids_grown:
  assumes "grown st st'" and "dir_ok st"
  shows "harp_store_have st h \<Longrightarrow> obj_kids b0 st' h = obj_kids b0 st h" and "set (obj_kids b0 st h) \<subseteq> set (obj_kids b0 st' h)"
proof -
  have p: "obj_path st h \<noteq> []" using length_obj_path [OF assms(2), of h] by auto
  show k: "harp_store_have st h \<Longrightarrow> obj_kids b0 st' h = obj_kids b0 st h"
    using grown_get [OF assms(1) _ p] by (simp add: obj_kids_def)
  show "set (obj_kids b0 st h) \<subseteq> set (obj_kids b0 st' h)"
    using k get_have [of st h b0] by (cases "harp_store_have st h") (auto simp: obj_kids_def)
qed

lemma fetch_loop_kept: "kept c (snd (snd (fetch_loop cursor pending got c)))"
proof (induction cursor pending got c rule: fetch_loop.induct)
  case (1 cursor pending got c)
  note k = fetch_batch_kept [of c]
  show ?case
  proof (cases "cursor < length pending \<and> cl_store c \<noteq> None")
    case True
    then obtain st where st: "cursor < length pending" "cl_store c = Some st" by auto
    let ?r = "fetch_batch (fetch_want st pending cursor) c"
    from 1 [OF _ st(2) refl refl] st(1) have n: "fst ?r = 0 \<Longrightarrow> cl_store (snd ?r) = Some st1 \<Longrightarrow>
        kept (snd ?r) (snd (snd (fetch_loop (length pending) (expand_from (cl_cbuf (snd ?r)) st1 cursor pending)
          (got + length (fetch_want st pending cursor)) (snd ?r))))" for st1 by simp
    from st k kept_trans [OF k n] show ?thesis
      by (subst fetch_loop.simps) (simp add: Let_def split: option.split)
  qed (use kept_refl [of c] in \<open>subst fetch_loop.simps, auto\<close>)
qed

text \<open>The loop's invariant: everything before the cursor is in the store and has its references in the list.\<close>

definition expanded :: "harp_cbuf \<Rightarrow> harp_store \<Rightarrow> nat \<Rightarrow> harp_hash list \<Rightarrow> bool" where
  "expanded b0 st cursor l \<longleftrightarrow> cursor \<le> length l \<and>
     (\<forall>i<cursor. harp_store_have st (l ! i) \<and> set (obj_kids b0 st (l ! i)) \<subseteq> set l)"

lemma fetch_step:
  assumes "expanded b0 st cursor l" and "grown st st1" and "dir_ok st" and "list_all (harp_store_have st1) (fetch_want st l cursor)"
    and "hash_list l" and "finite R" and "card R \<le> 64" and "set l \<subseteq> R" and "\<And>h. h \<in> R \<Longrightarrow> set (obj_kids b0 st1 h) \<subseteq> R"
    and "l' = expand_from b0 st1 cursor l"
  shows "hash_list l' \<and> set l \<subseteq> set l' \<and> set l' \<subseteq> R \<and> expanded b0 st1 (length l) l'"
proof -
  have "length l \<le> 64" using card_mono [OF assms(6,8)] assms(5,7) by (simp add: hash_list_def distinct_card)
  then have "length (filter (\<lambda>h. \<not> harp_store_have st h) (drop cursor l)) \<le> 64"
    using length_filter_le [of "\<lambda>h. \<not> harp_store_have st h" "drop cursor l"] by simp
  then have want: "fetch_want st l cursor = filter (\<lambda>h. \<not> harp_store_have st h) (drop cursor l)" by (simp add: fetch_want_def)
  have have1: "harp_store_have st1 (l ! i)" if "cursor \<le> i" "i < length l" for i
  proof -
    have "l ! i \<in> set (drop cursor l)" using that by (auto simp: set_conv_nth intro!: exI [of _ "i - cursor"])
    then show ?thesis using assms(4) grown_have [OF assms(2)] unfolding want by (auto simp: list_all_iff)
  qed
  have c: "card R < HARP_CLIENT_MAX_CLOSURE" using assms(7) by (simp add: HARP_CLIENT_MAX_CLOSURE_def)
  have cur: "cursor \<le> length l" using assms(1) by (simp add: expanded_def)
  from expand_pass [OF assms(5,6) c assms(8,9) le_refl cur] assms(10)
  have e: "hash_list l'" "set l' \<subseteq> R" "\<exists>r. l' = l @ r" "\<And>i. cursor \<le> i \<Longrightarrow> i < length l \<Longrightarrow> set (obj_kids b0 st1 (l ! i)) \<subseteq> set l'"
    by (simp_all add: expand_from_def Let_def)
  then obtain r where r: "l' = l @ r" by blast
  have "harp_store_have st1 (l' ! i) \<and> set (obj_kids b0 st1 (l' ! i)) \<subseteq> set l'" if i: "i < length l" for i
  proof (cases "cursor \<le> i")
    case True
    with e(4) have1 r i show ?thesis by (simp add: nth_append)
  next
    case False
    with assms(1) have "harp_store_have st (l ! i)" "set (obj_kids b0 st (l ! i)) \<subseteq> set l" by (simp_all add: expanded_def)
    with kids_grown(1) [OF assms(2,3)] grown_have [OF assms(2)] r i show ?thesis by (auto simp: nth_append)
  qed
  with e r show ?thesis by (simp add: expanded_def)
qed

lemma fetch_loop_closed:
  assumes "fetch_loop cursor pending got c = (0, got', c')" and "cl_store c = Some st" and "dir_ok st" and "cl_store c' = Some st'"
    and "hash_list pending" and "finite R" and "card R \<le> 64" and "set pending \<subseteq> R"
    and "\<And>h. h \<in> R \<Longrightarrow> set (obj_kids (cl_cbuf c) st' h) \<subseteq> R" and "expanded (cl_cbuf c) st cursor pending"
  shows "\<exists>l. set pending \<subseteq> set l \<and> expanded (cl_cbuf c) st' (length l) l"
  using assms
proof (induction cursor pending got c arbitrary: st rule: fetch_loop.induct)
  case (1 cursor pending got c)
  show ?case
  proof (cases "cursor < length pending")
    case False
    with "1.prems"(1) have "c' = c" by (subst (asm) fetch_loop.simps) simp
    with 1(3,5,11) False show ?thesis by (intro exI [of _ pending]) (auto simp: expanded_def)
  next
    case True
    let ?w = "fetch_want st pending cursor"
    obtain rc c1 where r: "fetch_batch ?w c = (rc, c1)" by fastforce
    have rc: "rc = 0"
      using "1.prems"(1,2) True r by (subst (asm) fetch_loop.simps) (simp add: Let_def split: if_splits)
    from fetch_batch_done [OF r [unfolded rc] "1.prems"(2,3)] obtain st1 where
      st1: "cl_store c1 = Some st1" "grown st st1" "list_all (harp_store_have st1) ?w" by blast
    define l where "l = expand_from (cl_cbuf c1) st1 cursor pending"
    have nx: "fetch_loop (length pending) l (got + length ?w) c1 = (0, got', c')"
      using "1.prems"(1,2) True r rc st1(1) by (subst (asm) fetch_loop.simps) (simp add: Let_def l_def)
    have d1: "dir_ok st1" using grown_dir [OF st1(2)] "1.prems"(3) by simp
    have a: "cl_cbuf c1 = cl_cbuf c" using fetch_batch_kept [of c ?w] r by (simp add: kept_def)
    have g: "grown st1 st'"
      using fetch_loop_kept [of c1 "length pending" l "got + length ?w"] nx st1(1) d1 "1.prems"(4) by (simp add: kept_def)
    have R1: "set (obj_kids (cl_cbuf c) st1 h) \<subseteq> R" if "h \<in> R" for h
      using kids_grown(2) [OF g d1, of "cl_cbuf c" h] "1.prems"(9) [OF that] by blast
    from fetch_step [OF "1.prems"(10) st1(2) "1.prems"(3) st1(3) "1.prems"(5-8) R1 l_def [unfolded a]]
    have s: "hash_list l" "set pending \<subseteq> set l" "set l \<subseteq> R" "expanded (cl_cbuf c) st1 (length pending) l" by simp_all
    have R2: "set (obj_kids (cl_cbuf c1) st' h) \<subseteq> R" if "h \<in> R" for h using "1.prems"(9) [OF that] unfolding a .
    have "\<exists>l'. set l \<subseteq> set l' \<and> expanded (cl_cbuf c1) st' (length l') l'"
      using "1.IH" [OF _ "1.prems"(2) refl refl, of st1 st1] True r rc nx st1(1) d1 "1.prems"(4,6,7) s R2
      unfolding l_def a [symmetric] by simp
    with s(2) show ?thesis unfolding a by blast
  qed
qed

text \<open>
  C9: Fetching a closure is complete.  When \<^verbatim>\<open>harp_client_fetch_closure\<close> succeeds, the host's store has every object that can be
  reached from the root over the references of the objects it now holds, provided these are at most 64 (the size of one
  batch of \<^verbatim>\<open>state.want\<close>), and no object that was in the store before has changed.  This holds whatever the device
  sent.
\<close>

theorem fetch_complete:
  assumes "harp_client_fetch_closure root c = (0, got, c')" and "cl_store c = Some st" and "dir_ok st" and "length root = 33"
    and "cl_store c' = Some st'" and "R = (refers (cl_cbuf c) st')\<^sup>* `` {root}" and "finite R" and "card R \<le> 64"
  shows "(\<forall>h\<in>R. harp_store_have st' h) \<and> grown st st'"
proof -
  have f: "fetch_loop 0 [root] 0 c = (0, got, c')"
    using assms(1,2) by (simp add: harp_client_fetch_closure_def list_collect_def HARP_CLIENT_MAX_CLOSURE_def)
  have R: "set (obj_kids (cl_cbuf c) st' h) \<subseteq> R" if "h \<in> R" for h
  proof
    fix x
    assume "x \<in> set (obj_kids (cl_cbuf c) st' h)"
    then have "(h, x) \<in> refers (cl_cbuf c) st'" by (simp add: kids_refers)
    with that show "x \<in> R" unfolding assms(6) by (auto intro: rtrancl_into_rtrancl)
  qed
  have "root \<in> R" by (simp add: assms(6))
  then have r: "set [root] \<subseteq> R" "hash_list [root]" using assms(4) by (simp_all add: hash_list_def)
  have "expanded (cl_cbuf c) st 0 [root]" by (simp add: expanded_def)
  from fetch_loop_closed [OF f assms(2,3,5) r(2) assms(7,8) r(1) R this] obtain l where
    l: "root \<in> set l" "expanded (cl_cbuf c) st' (length l) l" by auto
  have l': "harp_store_have st' x \<and> set (obj_kids (cl_cbuf c) st' x) \<subseteq> set l" if "x \<in> set l" for x
    using l(2) that unfolding expanded_def in_set_conv_nth by blast
  then have step: "y \<in> set l" if "x \<in> set l" "(x, y) \<in> refers (cl_cbuf c) st'" for x y
    using that by (auto simp: kids_refers)
  have "h \<in> set l" if "(root, h) \<in> (refers (cl_cbuf c) st')\<^sup>*" for h
    using that by induction (use l(1) step in blast)+
  then have "\<forall>h\<in>R. harp_store_have st' h" using l' by (simp add: assms(6))
  moreover have "grown st st'"
    using fetch_loop_kept [of c 0 "[root]" 0] f assms(2,3,5) by (simp add: kept_def)
  ultimately show ?thesis by blast
qed

definition ex_client :: "unit harp_client" where
  "ex_client = harp_client_init (the (dv_io ex_device)) [] (Some ex_blob_store) False ex_alloc 0 None"

lemma fetch_complete_witness: "harp_store_have ex_blob_store ex_hash"
proof -
  let ?b = "cl_cbuf ex_client"
  have b: "?b = harp_cbuf_init ex_alloc" and s: "cl_store ex_client = Some ex_blob_store"
    by (simp_all add: ex_client_def harp_client_init_def)
  have g: "cb_buf (snd (harp_store_get ex_blob_store ex_hash (harp_cbuf_init ex_alloc))) = [0xa2, 0, 0, 1, 0x40]"
    by (simp add: harp_store_get_def ex_blob_store_def fopen_rb_def ex_store_def no_faults_def obj_path_def fread_loop.simps
        harp_cbuf_put_def ensure_def harp_cbuf_init_def ex_alloc_def grow.simps)
  have "snd (obj_children [0xa2, 0, 0, 1, 0x40]) = []" by code_simp
  with g have kids: "obj_kids (harp_cbuf_init ex_alloc) ex_blob_store ex_hash = []" by (simp add: obj_kids_def)
  have hv: "harp_store_have ex_blob_store ex_hash"
    by (simp add: harp_store_have_def path_readable_def ex_blob_store_def obj_path_def)
  have R: "(refers ?b ex_blob_store)\<^sup>* `` {ex_hash} = {ex_hash}"
  proof -
    have "h = ex_hash" if "(ex_hash, h) \<in> (refers ?b ex_blob_store)\<^sup>*" for h
      using that by induction (simp_all add: kids_refers b kids)
    then show ?thesis by auto
  qed
  have "fetch_want ex_blob_store [ex_hash] 0 = []" using hv by (simp add: fetch_want_def)
  moreover have "expand_from (harp_cbuf_init ex_alloc) ex_blob_store 0 [ex_hash] = [ex_hash]"
    using kids by (simp add: expand_from_def expand_kids)
  moreover have "fetch_loop (Suc 0) [ex_hash] 0 ex_client = (0, 0, ex_client)" by (subst fetch_loop.simps) simp
  ultimately have "fetch_loop 0 [ex_hash] 0 ex_client = (0, 0, ex_client)"
    by (subst fetch_loop.simps) (simp add: s b fetch_batch_def)
  then have f: "harp_client_fetch_closure ex_hash ex_client = (0, 0, ex_client)"
    by (simp add: harp_client_fetch_closure_def list_collect_def HARP_CLIENT_MAX_CLOSURE_def s)
  have "dir_ok ex_blob_store" "length ex_hash = 33" by (simp_all add: dir_ok_def ex_blob_store_def ex_store_def ex_hash_def)
  from fetch_complete [OF f s this s refl] R show ?thesis by simp
qed

section \<open>The object queue\<close>

definition csendq_items :: "'s harp_client \<Rightarrow> harp_hash list" where
  "csendq_items c = ring_items (cl_sendq c) (cl_sendq_head c) (cl_sendq_count c)"

definition csendq_ok :: "'s harp_client \<Rightarrow> bool" where
  "csendq_ok c \<longleftrightarrow> length (cl_sendq c) = HARP_CLIENT_SENDQ_CAP \<and> cl_sendq_head c < HARP_CLIENT_SENDQ_CAP \<and>
     cl_sendq_count c \<le> HARP_CLIENT_SENDQ_CAP \<and>
     cl_sendq_tail c = (cl_sendq_head c + cl_sendq_count c) mod HARP_CLIENT_SENDQ_CAP"

interpretation cq: bounded_fifo csendq_items csendq_ok HARP_CLIENT_SENDQ_CAP csendq_push csendq_pop
proof unfold_locales
  fix q :: "'s harp_client" and x
  assume ok: "csendq_ok q"
  show "csendq_ok (csendq_push q x)" using ok by (auto simp: csendq_ok_def csendq_push_def mod_Suc_eq)
  show "csendq_items (csendq_push q x) = csendq_items q @ [x]" if "length (csendq_items q) < HARP_CLIENT_SENDQ_CAP"
    using that ok ring_items_push [of "cl_sendq_count q" "cl_sendq q" "cl_sendq_head q" x]
    by (simp add: csendq_items_def csendq_ok_def csendq_push_def)
  show "csendq_items (csendq_push q x) = csendq_items q" if "\<not> length (csendq_items q) < HARP_CLIENT_SENDQ_CAP"
    using ok that by (simp add: csendq_items_def csendq_ok_def csendq_push_def)
  show "csendq_ok (csendq_pop q)" if "csendq_items q \<noteq> []"
    using ok that by (cases "cl_sendq_count q") (auto simp: csendq_ok_def csendq_pop_def csendq_items_def ring_items_def mod_simps)
  show "csendq_items (csendq_pop q) = tl (csendq_items q)" if "csendq_items q \<noteq> []"
    using ok ring_items_pop [of "cl_sendq q" "cl_sendq_head q" "cl_sendq_count q"] ring_items_mod [of "cl_sendq q" "Suc (cl_sendq_head q)"]
    by (simp add: csendq_items_def csendq_pop_def csendq_ok_def)
  show "length (csendq_items q) \<le> HARP_CLIENT_SENDQ_CAP" using ok by (simp add: csendq_items_def csendq_ok_def)
qed

text \<open>The credit that the messages of a stretch of input grant.\<close>

definition granted_by :: "u8 \<times> bytes \<Rightarrow> u64" where
  "granted_by p =
     (case p of (stream, m) \<Rightarrow>
        if stream = HARP_STREAM_CTL then
          (case harp_env_parse m of
             None \<Rightarrow> 0
           | Some e \<Rightarrow>
               if e_msgtype e = HARP_MSG_NOTIFICATION \<and> e_method e = str ''core.credit'' then
                 (case body_read e (and_then first_key0 (\<lambda>u. harp_cdec_uint)) of None \<Rightarrow> 0 | Some v \<Rightarrow> v)
               else 0)
        else 0)"

definition obj_sent :: "(u8 \<times> bytes) list \<Rightarrow> bytes list" where
  "obj_sent ps = map snd (filter (\<lambda>p. fst p = HARP_STREAM_OBJ) ps)"

lemma obj_sent_simps: "obj_sent (ps @ [(HARP_STREAM_OBJ, m)]) = obj_sent ps @ [m]" "obj_sent (ps @ [(HARP_STREAM_CTL, m)]) = obj_sent ps"
  by (simp_all add: obj_sent_def)

lemma client_link_send_sent: "cl_sent (snd (client_link_send st m c)) = cl_sent c @ [(st, m)]"
  by (simp add: client_link_send_def Let_def split: prod.split)

lemma client_grant_sent: "obj_sent (cl_sent (snd (client_grant c))) = obj_sent (cl_sent c)"
proof -
  define m where "m = cb_buf (put_calls (harp_env_head (cl_cbuf c) HARP_MSG_NOTIFICATION 0 (str ''core.credit'') True)
    [Map 1, U 0, U (if cl_force_credit c \<noteq> 0 then cl_force_credit c else CREDIT_GRANT)])"
  obtain rc c' where s: "client_link_send HARP_STREAM_CTL m c = (rc, c')" by fastforce
  with client_link_send_sent [of HARP_STREAM_CTL m c] have "cl_sent c' = cl_sent c @ [(HARP_STREAM_CTL, m)]" by (simp only: snd_conv)
  then show ?thesis
    unfolding client_grant_def Let_def m_def [symmetric] s by (cases rc) (simp_all add: obj_sent_simps del: HARP_STREAM_CTL_def)
qed

lemma pump_obj_sent: "obj_sent (cl_sent (pump_obj m c)) = obj_sent (cl_sent c)"
proof -
  define c1 where "c1 = (case cl_store c of None \<Rightarrow> c
      | Some st \<Rightarrow> if harp_obj_kind m \<ge> 0 then c\<lparr>cl_store := Some (snd (snd (harp_store_put st m)))\<rparr> else c)"
  have "cl_sent c1 = cl_sent c" by (simp add: c1_def split: option.split)
  then show ?thesis by (simp add: pump_obj_def c1_def [symmetric] Let_def client_grant_sent)
qed

lemma ntf_credit: "cl_peer_credit (handle_ntf e c) = cl_peer_credit c +
    (if e_method e = str ''core.credit'' then (case body_read e (and_then first_key0 (\<lambda>u. harp_cdec_uint)) of None \<Rightarrow> 0 | Some v \<Rightarrow> v) else 0)"
  by (auto simp: handle_ntf_def call_on_ntf_def body_read_def split: option.split)

lemma pump_one_credit:
  "obj_sent (cl_sent (snd (snd (pump_one c)))) = obj_sent (cl_sent c) \<and>
   (cl_in c \<noteq> [] \<longrightarrow> cl_peer_credit (snd (snd (pump_one c))) = cl_peer_credit c + granted_by (hd (cl_in c)))"
proof (cases "cl_in c")
  case (Cons p rest)
  obtain st m where p: "p = (st, m)" by fastforce
  consider "st = HARP_STREAM_OBJ" | "st = HARP_STREAM_CTL" | "st \<noteq> HARP_STREAM_OBJ" "st \<noteq> HARP_STREAM_CTL" by blast
  then show ?thesis
  proof cases
    case 2
    with Cons p show ?thesis
      by (cases "harp_env_parse m") (simp_all add: pump_one_def Let_def granted_by_def ntf_credit)
  qed (use Cons p in \<open>simp_all add: pump_one_def Let_def granted_by_def pump_obj_sent\<close>)
qed (simp add: pump_one_def)

text \<open>
  From \<open>c\<close> to \<open>c'\<close> the messages \<open>used\<close> were received and the objects \<open>outs\<close> sent, and no more than was granted.
\<close>

definition spends :: "'s harp_client \<Rightarrow> 's harp_client \<Rightarrow> bytes list \<Rightarrow> (u8 \<times> bytes) list \<Rightarrow> bool" where
  "spends c c' outs used \<longleftrightarrow> kept c c' \<and> cl_in c = used @ cl_in c' \<and> obj_sent (cl_sent c') = obj_sent (cl_sent c) @ outs \<and>
     unat (cl_peer_credit c') + sum_list (map length outs) \<le> unat (cl_peer_credit c) + sum_list (map (unat \<circ> granted_by) used)"

lemma spends_refl: "spends c c [] []"
  by (simp add: spends_def kept_refl)

lemma spends_trans: "spends a b outs used \<Longrightarrow> spends b c outs' used' \<Longrightarrow> spends a c (outs @ outs') (used @ used')"
  by (auto simp: spends_def intro: kept_trans)

lemma spends_pump: "\<exists>used. spends c (snd (snd (pump_one c))) [] used"
proof (cases "cl_in c")
  case Nil
  then show ?thesis using spends_refl [of c] by (auto simp: pump_one_def)
next
  case (Cons p rest)
  have "unat (cl_peer_credit c + granted_by p) \<le> unat (cl_peer_credit c) + unat (granted_by p)"
    by (simp add: unat_word_ariths)
  with Cons pump_one_credit [of c] kept_pump [of c] show ?thesis
    by (intro exI [of _ "[p]"]) (simp add: spends_def)
qed

lemma spends_wait:
  "\<exists>used. spends c (snd (snd (csendq_wait len spins c))) [] used \<and>
     (fst (csendq_wait len spins c) \<longrightarrow> len \<le> unat (cl_peer_credit (snd (snd (csendq_wait len spins c)))))"
proof (induction len spins c rule: csendq_wait.induct)
  case (1 len spins c)
  obtain ok ctl c1 where p: "pump_one c = (ok, ctl, c1)" by (metis prod_cases3)
  obtain u where u: "spends c c1 [] u" using spends_pump [of c] p by auto
  show ?case
  proof (cases "unat (cl_peer_credit c) < len \<and> \<not> spins + 1 > 100000 \<and> ok")
    case True
    with 1 [OF _ _ p [symmetric]] obtain u' where
      "spends c1 (snd (snd (csendq_wait len (spins + 1) c1))) [] u'"
      "fst (csendq_wait len (spins + 1) c1) \<longrightarrow> len \<le> unat (cl_peer_credit (snd (snd (csendq_wait len (spins + 1) c1))))" by auto
    moreover have "csendq_wait len spins c = csendq_wait len (spins + 1) c1"
      using True p by (subst csendq_wait.simps) simp
    ultimately show ?thesis using spends_trans [OF u] by fastforce
  next
    case False
    have e: "csendq_wait len spins c =
        (if \<not> len > unat (cl_peer_credit c) then (True, spins, c) else if spins + 1 > 100000 then (False, spins + 1, c) else (False, spins + 1, c1))"
      using False p by (subst csendq_wait.simps) auto
    show ?thesis unfolding e using spends_refl [of c] u by auto
  qed
qed

lemma spends_send:
  assumes "client_link_send HARP_STREAM_OBJ x (c\<lparr>cl_peer_credit := cl_peer_credit c - of_nat (length x)\<rparr>) = (ok, c')"
    and "length x \<le> unat (cl_peer_credit c)"
  shows "spends c c' [x] []"
proof -
  let ?c = "c\<lparr>cl_peer_credit := cl_peer_credit c - of_nat (length x)\<rparr>"
  note f = client_link_send_frame(5,6,7,8) [of HARP_STREAM_OBJ x ?c, unfolded assms(1)]
  have "cl_sent c' = cl_sent c @ [(HARP_STREAM_OBJ, x)]"
    using client_link_send_sent [of HARP_STREAM_OBJ x ?c] assms(1) by simp
  moreover have "kept c c'" using f by (intro kept_same) simp_all
  ultimately show ?thesis
    using f unat_sub_of_nat [OF assms(2)] by (simp add: spends_def obj_sent_simps del: HARP_STREAM_OBJ_def)
qed

lemma csendq_items_cong:
  "cl_sendq c = cl_sendq d \<Longrightarrow> cl_sendq_head c = cl_sendq_head d \<Longrightarrow> cl_sendq_tail c = cl_sendq_tail d \<Longrightarrow>
    cl_sendq_count c = cl_sendq_count d \<Longrightarrow> csendq_items c = csendq_items d \<and> csendq_ok c = csendq_ok d"
  by (simp add: csendq_items_def csendq_ok_def)

lemma grown_file: "grown st st' \<Longrightarrow> dir_ok st \<Longrightarrow> obj_file st h = Some x \<Longrightarrow> obj_file st' h = Some x"
proof -
  assume g: "grown st st'" and d: "dir_ok st" and x: "obj_file st h = Some x"
  have "sto_flt st' = sto_flt st" using g by (subst grown_def [THEN iffD1, OF g, THEN conjunct1]) simp
  with g x grown_path [OF g, of h] show ?thesis
    by (auto simp: obj_file_def fopen_rb_def grown_def split: if_splits option.splits fnode.splits)
qed

text \<open>What a drain of the queue has done when it stops.\<close>

definition drains :: "'s harp_client \<Rightarrow> 's harp_client \<Rightarrow> bool \<Rightarrow> bool" where
  "drains c c' ok \<longleftrightarrow>
     (\<exists>outs used. spends c c' outs used \<and> length outs \<le> length (csendq_items c) \<and>
        list_all2 (\<lambda>h x. obj_file (the (cl_store c')) h = Some x) (take (length outs) (csendq_items c)) outs \<and>
        (ok \<longrightarrow> csendq_items c' = [] \<and> length outs = length (csendq_items c)))"

lemma drains_stop: "spends c c' [] used \<Longrightarrow> drains c c' False"
  by (auto simp: drains_def)

lemma drains_step:
  assumes "spends c c1 [x] used" and "csendq_items c \<noteq> []" and "cl_store c1 = Some st1" and "dir_ok st1"
    and "obj_file st1 (hd (csendq_items c)) = Some x" and "csendq_items c1 = tl (csendq_items c)" and "drains c1 c' ok"
  shows "drains c c' ok"
proof -
  from assms(7) obtain outs u where o: "spends c1 c' outs u" "length outs \<le> length (csendq_items c1)"
    "list_all2 (\<lambda>h x. obj_file (the (cl_store c')) h = Some x) (take (length outs) (csendq_items c1)) outs"
    "ok \<longrightarrow> csendq_items c' = [] \<and> length outs = length (csendq_items c1)" by (auto simp: drains_def)
  from o(1) assms(3,4) obtain st' where st': "cl_store c' = Some st'" "grown st1 st'" by (auto simp: spends_def kept_def)
  obtain h hs where h: "csendq_items c = h # hs" using assms(2) by (cases "csendq_items c") auto
  have "spends c c' (x # outs) (used @ u)" using spends_trans [OF assms(1) o(1)] by simp
  moreover have "obj_file st' h = Some x" using grown_file [OF st'(2) assms(4)] assms(5) h by simp
  ultimately show ?thesis unfolding drains_def using o h assms(6) st'(1)
    by (intro exI [of _ "x # outs"] exI [of _ "used @ u"]) simp
qed

lemma drains_one: "spends c c' [x] used \<Longrightarrow> csendq_items c \<noteq> [] \<Longrightarrow> cl_store c' = Some st \<Longrightarrow>
    obj_file st (hd (csendq_items c)) = Some x \<Longrightarrow> drains c c' False"
  unfolding drains_def by (rule exI [of _ "[x]"]) (cases "csendq_items c"; auto)

lemma csendq_hd: "csendq_ok c \<Longrightarrow> cl_sendq_count c \<noteq> 0 \<Longrightarrow>
    csendq_items c \<noteq> [] \<and> hd (csendq_items c) = cl_sendq c ! cl_sendq_head c"
  by (cases "cl_sendq_count c") (simp_all add: csendq_items_def csendq_ok_def ring_items_def upt_conv_Cons del: upt_Suc)

lemma spends_pop: "spends c c' outs used \<Longrightarrow> spends c (csendq_pop c') outs used"
  by (cases "cl_store c") (simp_all add: spends_def csendq_pop_def kept_def)

lemma drain_drains:
  assumes "csendq_ok c" and "cl_store c = Some st" and "dir_ok st" and "csendq_drain enc spins c = (ok, c')"
  shows "drains c c' ok"
  using assms
proof (induction "cl_sendq_count c" arbitrary: enc spins c st rule: less_induct)
  case less
  show ?case
  proof (cases "cl_sendq_count c = 0")
    case True
    with less.prems(4) have "ok" "c' = c" by (subst (asm) csendq_drain.simps; simp)+
    with True spends_refl [of c] show ?thesis
      unfolding drains_def by (intro exI [of _ "[]"]) (simp add: csendq_items_def ring_items_def)
  next
    case False
    let ?h = "cl_sendq c ! cl_sendq_head c"
    obtain g enc1 where g: "harp_store_get st ?h (harp_cbuf_reset enc) = (g, enc1)" by fastforce
    let ?x = "cb_buf enc1"
    obtain w sp c1 where w: "csendq_wait (length ?x) spins c = (w, sp, c1)" by (metis prod_cases3)
    let ?c1 = "c1\<lparr>cl_peer_credit := cl_peer_credit c1 - of_nat (length ?x)\<rparr>"
    obtain s c2 where s: "client_link_send HARP_STREAM_OBJ ?x ?c1 = (s, c2)" by fastforce
    have eq: "csendq_drain enc spins c =
        (if \<not> g then (False, c) else if \<not> w then (False, c1) else if \<not> s then (False, c2) else csendq_drain enc1 sp (csendq_pop c2))"
      using False less.prems(2) g w s by (subst csendq_drain.simps) (cases g; simp add: Let_def del: HARP_STREAM_OBJ_def)
    obtain u where u: "spends c c1 [] u" "w \<Longrightarrow> length ?x \<le> unat (cl_peer_credit c1)"
      using spends_wait [of c "length ?x" spins] w by auto
    show ?thesis
    proof (cases "g \<and> w")
      case False
      then show ?thesis using eq less.prems(4) drains_stop [OF u(1)] drains_stop [OF spends_refl [of c]] by (auto split: if_splits)
    next
      case True
      have s2: "spends c c2 [?x] u" using spends_trans [OF u(1) spends_send [OF s]] u(2) True by simp
      have q: "csendq_items c2 = csendq_items c \<and> csendq_ok c2"
        using csendq_items_cong [of c2 c] less.prems(1) csendq_wait_frame [of "length ?x" spins c] w
          client_link_send_frame(1-4) [of HARP_STREAM_OBJ ?x ?c1] s by (simp del: HARP_STREAM_OBJ_def)
      from csendq_hd [OF less.prems(1) False] have ne: "csendq_items c \<noteq> []" and hd: "hd (csendq_items c) = ?h" by auto
      obtain st2 where st2: "cl_store c2 = Some st2" "grown st st2"
        using s2 less.prems(2,3) by (auto simp: spends_def kept_def)
      have "obj_file st ?h = Some ?x"
        using harp_store_get_wf(2) [OF g cbuf_wf_reset] True by (auto simp: harp_cbuf_reset_def)
      then have f: "obj_file st2 (hd (csendq_items c)) = Some ?x" using grown_file [OF st2(2) less.prems(3)] hd by simp
      show ?thesis
      proof (cases s)
        case False
        then show ?thesis using drains_one [OF s2 ne st2(1) f] eq True less.prems(4) by simp
      next
        case sent: True
        have d2: "dir_ok st2" using grown_dir [OF st2(2)] less.prems(3) by simp
        have st3: "cl_store (csendq_pop c2) = Some st2" using st2(1) by (simp add: csendq_pop_def)
        have cnt: "cl_sendq_count (csendq_pop c2) < cl_sendq_count c"
          using False csendq_wait_frame [of "length ?x" spins c] w client_link_send_frame(1) [of HARP_STREAM_OBJ ?x ?c1] s
          by (simp add: csendq_pop_def del: HARP_STREAM_OBJ_def)
        have "drains (csendq_pop c2) c' ok"
          using less.hyps [of "csendq_pop c2" st2 enc1 sp] q ne st3 d2 eq True sent less.prems False cq.pop_ok [of c2] cnt by simp
        then show ?thesis
          using drains_step [OF spends_pop [OF s2] ne st3 d2 f] q ne cq.pop_items [of c2] by simp
      qed
    qed
  qed
qed

text \<open>
  C10: Flushing the host's object queue sends whole objects in the order they were queued, each with exactly the bytes
  of its file in the store, and never more bytes than the credit the host had at the start plus what the messages it
  received meanwhile granted; the queue is empty afterwards, and the flush reports success only when every queued
  object went out.
\<close>

theorem push_in_order:
  assumes "csendq_ok c" and "cl_store c = Some st" and "dir_ok st" and "csendq_flush c = (rc, c')"
  shows "\<exists>outs used. cl_in c = used @ cl_in c' \<and> obj_sent (cl_sent c') = obj_sent (cl_sent c) @ outs \<and>
    length outs \<le> length (csendq_items c) \<and>
    list_all2 (\<lambda>h x. obj_file (the (cl_store c')) h = Some x) (take (length outs) (csendq_items c)) outs \<and>
    sum_list (map length outs) \<le> unat (cl_peer_credit c) + sum_list (map (unat \<circ> granted_by) used) \<and>
    csendq_items c' = [] \<and> (rc = 0 \<longrightarrow> length outs = length (csendq_items c))"
proof -
  obtain ok d where d: "csendq_drain (cl_cbuf c) 0 c = (ok, d)" by fastforce
  from drain_drains [OF assms(1,2,3) d] obtain outs used where o: "spends c d outs used"
    "length outs \<le> length (csendq_items c)"
    "list_all2 (\<lambda>h x. obj_file (the (cl_store d)) h = Some x) (take (length outs) (csendq_items c)) outs"
    "ok \<longrightarrow> csendq_items d = [] \<and> length outs = length (csendq_items c)" by (auto simp: drains_def)
  have "rc = (if ok then 0 else HARP_CLIENT_EIO)" "cl_in c' = cl_in d" "cl_sent c' = cl_sent d" "cl_store c' = cl_store d"
    "csendq_items c' = []"
    using assms(4) d o(4) by (cases ok; auto simp: csendq_flush_def csendq_items_def ring_items_def)+
  with o show ?thesis
    by (intro exI [of _ outs] exI [of _ used]) (auto simp: spends_def HARP_CLIENT_EIO_def)
qed

lemma push_in_order_witness:
  "sum_list (map length (obj_sent (cl_sent (snd (csendq_flush ((csendq_push ex_client ex_hash)\<lparr>cl_peer_credit := 100\<rparr>)))))) \<le> 100"
proof -
  let ?c = "(csendq_push ex_client ex_hash)\<lparr>cl_peer_credit := 100\<rparr>"
  have "csendq_ok ex_client"
    by (simp add: csendq_ok_def ex_client_def harp_client_init_def HARP_CLIENT_SENDQ_CAP_def)
  then have "csendq_ok ?c" using cq.push_ok [of ex_client ex_hash] csendq_items_cong [of ?c "csendq_push ex_client ex_hash"] by simp
  moreover have "cl_store ?c = Some ex_blob_store" "cl_in ?c = []" "cl_sent ?c = []"
    by (simp_all add: csendq_push_def ex_client_def harp_client_init_def)
  moreover have "dir_ok ex_blob_store" by (simp add: dir_ok_def ex_blob_store_def ex_store_def)
  ultimately show ?thesis
    using push_in_order [of ?c ex_blob_store "fst (csendq_flush ?c)" "snd (csendq_flush ?c)"] by (auto simp: obj_sent_def)
qed

end
