(* ===== verification/Harp_Rtp.thy ===== *)
theory Harp_Rtp
  imports Harp_Device
begin

text \<open>
  The audio plane over the network: the packet codec of \<^verbatim>\<open>host/rtp.c\<close> and \<^verbatim>\<open>host/rtp.h\<close>, the sender
  \<^verbatim>\<open>audio_rtp_emit\<close> of \<^verbatim>\<open>device/harp-deviced.c\<close> with its split of wide frames, and the receiver \<^verbatim>\<open>recvAudio\<close> of
  \<^verbatim>\<open>shell/eth_transport.h\<close> with the loss count and the reassembly.  Samples are the bit patterns of their \<^verbatim>\<open>float\<close>s, in
  little-endian byte order in memory on both sides.  The datagrams a sender gives to its socket are a list; what the
  network delivers of it is up to the theorems.
\<close>

unbundle bit_operations_syntax

section \<open>The packet codec\<close>

definition HARP_RTP_HDR_BYTES :: nat where "HARP_RTP_HDR_BYTES = 12"
definition HARP_RTP_PT_AUDIO :: u8 where "HARP_RTP_PT_AUDIO = 96"
definition HARP_RTP_PT_GROUP :: u8 where "HARP_RTP_PT_GROUP = 97"
definition HARP_RTP_MAX_GROUP_SLOTS :: nat where "HARP_RTP_MAX_GROUP_SLOTS = 8"
definition HARP_RTP_GROUP_HDR_BYTES :: nat where "HARP_RTP_GROUP_HDR_BYTES = 4"

record harp_rtp_hdr =
  rh_pt :: u8
  rh_marker :: u8
  rh_seq :: u16
  rh_timestamp :: u32
  rh_ssrc :: u32

definition rtp_put16 :: "u16 \<Rightarrow> bytes" where
  "rtp_put16 v = [ucast (drop_bit 8 v), ucast v]"

definition rtp_put32 :: "u32 \<Rightarrow> bytes" where
  "rtp_put32 v = [ucast (drop_bit 24 v), ucast (drop_bit 16 v), ucast (drop_bit 8 v), ucast v]"

definition rtp_get16 :: "bytes \<Rightarrow> nat \<Rightarrow> u16" where
  "rtp_get16 p i = push_bit 8 (ucast (p ! i)) OR ucast (p ! (i + 1))"

definition rtp_get32 :: "bytes \<Rightarrow> nat \<Rightarrow> u32" where
  "rtp_get32 p i = push_bit 24 (ucast (p ! i)) OR push_bit 16 (ucast (p ! (i + 1))) OR
     push_bit 8 (ucast (p ! (i + 2))) OR ucast (p ! (i + 3))"

definition harp_rtp_pack :: "nat \<Rightarrow> harp_rtp_hdr \<Rightarrow> bytes \<Rightarrow> bytes option" where
  "harp_rtp_pack cap h payload =
     (if cap < HARP_RTP_HDR_BYTES + length payload then None
      else Some ([0x80, (if rh_marker h \<noteq> 0 then 0x80 else 0) OR (rh_pt h AND 0x7f)] @
                 rtp_put16 (rh_seq h) @ rtp_put32 (rh_timestamp h) @ rtp_put32 (rh_ssrc h) @ payload))"

text \<open>Where the payload starts: behind the header, the CSRC list and one extension; \<open>None\<close> if the packet is too short.\<close>

definition rtp_offset :: "bytes \<Rightarrow> nat option" where
  "rtp_offset pkt =
     (if length pkt < HARP_RTP_HDR_BYTES then None
      else if drop_bit 6 (pkt ! 0) \<noteq> 2 then None
      else let off = HARP_RTP_HDR_BYTES + unat (pkt ! 0 AND 0x0f) * 4
           in if length pkt < off then None
              else if drop_bit 4 (pkt ! 0) AND 1 = 0 then Some off
              else if length pkt < off + 4 then None
              else let off = off + (4 + unat (rtp_get16 pkt (off + 2)) * 4)
                   in if length pkt < off then None else Some off)"

definition harp_rtp_unpack :: "bytes \<Rightarrow> (harp_rtp_hdr \<times> bytes) option" where
  "harp_rtp_unpack pkt =
     (case rtp_offset pkt of
        None \<Rightarrow> None
      | Some off \<Rightarrow>
          Some (\<lparr>rh_pt = pkt ! 1 AND 0x7f, rh_marker = drop_bit 7 (pkt ! 1) AND 1, rh_seq = rtp_get16 pkt 2,
                 rh_timestamp = rtp_get32 pkt 4, rh_ssrc = rtp_get32 pkt 8\<rparr>, drop off pkt))"

text \<open>\<^verbatim>\<open>int32_t delta = (int32_t)(ts32 - (uint32_t)prev64)\<close>, added with its sign.\<close>

definition harp_rtp_unwrap_ts :: "u32 \<Rightarrow> u64 \<Rightarrow> u64" where
  "harp_rtp_unwrap_ts ts32 prev64 = prev64 + scast (ts32 - ucast prev64)"

text \<open>The second component is \<^verbatim>\<open>*advance\<close>.\<close>

definition harp_rtp_loss_gap :: "u16 \<Rightarrow> u16 \<Rightarrow> u16 \<times> bool" where
  "harp_rtp_loss_gap last_seq seq =
     (let gap = seq - last_seq - 1 in if gap < 0x8000 then (gap, True) else (0, False))"

section \<open>Samples in memory\<close>

definition float_mem :: "f32 list \<Rightarrow> bytes" where
  "float_mem xs = concat (map (le_bytes 4) xs)"

fun mem_floats :: "bytes \<Rightarrow> f32 list" where
  "mem_floats (a # b # c # d # r) = le_val [a, b, c, d] # mem_floats r"
| "mem_floats r = []"

section \<open>The sender\<close>

text \<open>The static variables of \<^verbatim>\<open>audio_rtp_emit\<close>: the packet that the reorder injection holds back.\<close>

record rtp_held =
  held_h :: harp_rtp_hdr
  held_pl :: bytes
  held_countdown :: nat

definition rtp_send_one :: "harp_rtp_hdr \<Rightarrow> bytes \<Rightarrow> bytes" where
  "rtp_send_one h payload = the (harp_rtp_pack HARP_RTP_HDR_BYTES h []) @ payload"

text \<open>The test \<^verbatim>\<open>pct > 0 && (seq * 2654435761u) % 100u < (uint32_t)pct\<close> of both injections.\<close>

definition rtp_inject :: "int \<Rightarrow> u16 \<Rightarrow> bool" where
  "rtp_inject pct seq \<longleftrightarrow> pct > 0 \<and> (ucast seq * 2654435761 :: u32) mod 100 < word_of_int pct"

definition n_slots :: "audio_state \<Rightarrow> nat" where
  "n_slots a = (if au_out_slots a \<noteq> [] then length (au_out_slots a) else 2)"

text \<open>The columns \<open>off\<close> to \<open>off + cnt\<close> of the frame, sample by sample.\<close>

definition gather :: "nat \<Rightarrow> nat \<Rightarrow> nat \<Rightarrow> nat \<Rightarrow> f32 list \<Rightarrow> f32 list" where
  "gather ns S off cnt samples = concat (map (\<lambda>s. map (\<lambda>c. samples ! (s * S + off + c)) [0..<cnt]) [0..<ns])"

function emit_groups :: "int \<Rightarrow> nat \<Rightarrow> f32 list \<Rightarrow> u64 \<Rightarrow> nat \<Rightarrow> audio_state \<Rightarrow> bytes list \<times> audio_state" where
  "emit_groups drop_pct ns samples msc off a =
     (let S = n_slots a
      in if \<not> off < S then ([], a)
         else
           let cnt = (if S - off > HARP_RTP_MAX_GROUP_SLOTS then HARP_RTP_MAX_GROUP_SLOTS else S - off);
               gseq = au_rtp_seq a;
               a = a\<lparr>au_rtp_seq := gseq + 1\<rparr>;
               grp = [of_nat off, of_nat cnt, of_nat S, 0] @ float_mem (gather ns S off cnt samples);
               gh = \<lparr>rh_pt = HARP_RTP_PT_GROUP, rh_marker = 0, rh_seq = gseq, rh_timestamp = ucast msc,
                     rh_ssrc = au_rtp_ssrc a\<rparr>;
               rest = emit_groups drop_pct ns samples msc (off + HARP_RTP_MAX_GROUP_SLOTS) a
           in ((if rtp_inject drop_pct gseq then [] else [rtp_send_one gh grp]) @ fst rest, snd rest))"
  by pat_completeness auto
termination
  by (relation "measure (\<lambda>(p, ns, samples, msc, off, a). n_slots a - off)")
    (auto simp: n_slots_def HARP_RTP_MAX_GROUP_SLOTS_def)

declare emit_groups.simps [simp del]

definition emit_single :: "int \<Rightarrow> harp_rtp_hdr \<Rightarrow> f32 list \<Rightarrow> rtp_held \<Rightarrow> bytes list \<times> rtp_held" where
  "emit_single reorder_pct h samples w =
     (if held_countdown w > 0 then
        let w = w\<lparr>held_countdown := held_countdown w - 1\<rparr>
        in (rtp_send_one h (float_mem samples) #
            (if held_countdown w = 0 then [rtp_send_one (held_h w) (held_pl w)] else []), w)
      else if reorder_pct > 0 \<and> 4 * length samples \<le> 8192 \<and> rtp_inject reorder_pct (rh_seq h) then
        ([], \<lparr>held_h = h, held_pl = float_mem samples, held_countdown = 3\<rparr>)
      else ([rtp_send_one h (float_mem samples)], w))"

text \<open>One call, with the datagrams it sends and the new state; \<^verbatim>\<open>payload_bytes\<close> is the size of \<open>samples\<close>.\<close>

definition audio_rtp_emit :: "int \<Rightarrow> int \<Rightarrow> f32 list \<Rightarrow> u64 \<Rightarrow> audio_state \<Rightarrow> rtp_held
    \<Rightarrow> bytes list \<times> audio_state \<times> rtp_held" where
  "audio_rtp_emit drop_pct reorder_pct samples msc a w =
     (if au_rtp_fd a < 0 then ([], a, w)
      else if n_slots a > HARP_RTP_MAX_GROUP_SLOTS then
        let r = emit_groups drop_pct (4 * length samples div (n_slots a * 4)) samples msc 0 a in (fst r, snd r, w)
      else
        let seq = au_rtp_seq a; a = a\<lparr>au_rtp_seq := seq + 1\<rparr>
        in if rtp_inject drop_pct seq then ([], a, w)
           else let h = \<lparr>rh_pt = 96, rh_marker = 0, rh_seq = seq, rh_timestamp = ucast msc, rh_ssrc = au_rtp_ssrc a\<rparr>;
                    r = emit_single reorder_pct h samples w
                in (fst r, a, snd r))"

section \<open>The receiver\<close>

definition kReasmSlots :: nat where "kReasmSlots = 34"
definition kReasmNs :: nat where "kReasmNs = 256"

record eth_rx =
  et_lastSeq :: u16
  et_seqValid :: bool
  et_rtpLost :: u64
  et_lastArr :: u64
  et_reasm :: "f32 list"
  et_reasmTs :: u32
  et_reasmValid :: bool
  et_reasmTotal :: nat
  et_reasmNs :: nat

definition reasm_zero :: "f32 list" where
  "reasm_zero = replicate (kReasmNs * kReasmSlots) 0"

definition eth_rx_init :: eth_rx where
  "eth_rx_init = \<lparr>et_lastSeq = 0, et_seqValid = False, et_rtpLost = 0, et_lastArr = 0, et_reasm = reasm_zero,
     et_reasmTs = 0, et_reasmValid = False, et_reasmTotal = 0, et_reasmNs = 0\<rparr>"

text \<open>\<^verbatim>\<open>reasm_[s * tot + off + c] = sf[s * cnt + c]\<close> for all \<open>s < ns\<close> and \<open>c < cnt\<close>.\<close>

definition scatter :: "nat \<Rightarrow> nat \<Rightarrow> nat \<Rightarrow> nat \<Rightarrow> f32 list \<Rightarrow> f32 list \<Rightarrow> f32 list" where
  "scatter ns tot off cnt sf r =
     fold (\<lambda>s r. fold (\<lambda>c r. r[s * tot + off + c := sf ! (s * cnt + c)]) [0..<cnt] r) [0..<ns] r"

text \<open>
  The result is what was copied to \<^verbatim>\<open>out\<close> (its length is the number returned) and the value given to \<^verbatim>\<open>*dev_ts\<close>, if any.
\<close>

definition reassembleGroup :: "harp_rtp_hdr \<Rightarrow> bytes \<Rightarrow> nat \<Rightarrow> eth_rx \<Rightarrow> (f32 list \<times> u32 option) \<times> eth_rx" where
  "reassembleGroup h pl maxFloats rx =
     (if length pl < HARP_RTP_GROUP_HDR_BYTES then (([], None), rx)
      else
        let off = unat (pl ! 0); cnt = unat (pl ! 1); tot = unat (pl ! 2);
            sbytes = length pl - HARP_RTP_GROUP_HDR_BYTES
        in if cnt = 0 \<or> tot = 0 \<or> tot > kReasmSlots \<or> off + cnt > tot \<or> sbytes mod 4 \<noteq> 0 then (([], None), rx)
           else
             let ns = (sbytes div 4) div cnt
             in if ns = 0 \<or> ns > kReasmNs then (([], None), rx)
                else
                  let sf = mem_floats (drop HARP_RTP_GROUP_HDR_BYTES pl);
                      flush = et_reasmValid rx \<and> rh_timestamp h \<noteq> et_reasmTs rx;
                      out = (if flush then (take (min (et_reasmNs rx * et_reasmTotal rx) maxFloats) (et_reasm rx), Some (et_reasmTs rx))
                             else ([], None));
                      rx = (if flush then rx\<lparr>et_reasmValid := False\<rparr> else rx);
                      rx = (if \<not> et_reasmValid rx then
                              rx\<lparr>et_reasm := reasm_zero, et_reasmTs := rh_timestamp h, et_reasmTotal := tot,
                                 et_reasmNs := ns, et_reasmValid := True\<rparr>
                            else rx);
                      rx = (if tot = et_reasmTotal rx \<and> ns = et_reasmNs rx then
                              rx\<lparr>et_reasm := scatter ns tot off cnt sf (et_reasm rx)\<rparr>
                            else rx)
                  in (out, rx))"

text \<open>The count of lost packets, for every packet that could be parsed.\<close>

definition count_loss :: "u16 \<Rightarrow> eth_rx \<Rightarrow> eth_rx" where
  "count_loss seq rx =
     (if \<not> et_seqValid rx then rx\<lparr>et_lastSeq := seq, et_seqValid := True\<rparr>
      else case harp_rtp_loss_gap (et_lastSeq rx) seq of
             (lost, advance) \<Rightarrow>
               let rx = rx\<lparr>et_rtpLost := et_rtpLost rx + ucast lost\<rparr>
               in if advance then rx\<lparr>et_lastSeq := seq\<rparr> else rx)"

text \<open>\<open>None\<close> is a socket that is not readable or a failed \<^verbatim>\<open>recv\<close>; a longer datagram is cut to the buffer.\<close>

definition recvAudio :: "bytes option \<Rightarrow> u64 \<Rightarrow> nat \<Rightarrow> eth_rx \<Rightarrow> (f32 list \<times> u32 option) \<times> eth_rx" where
  "recvAudio pkt now maxFloats rx =
     (case Option.bind pkt (\<lambda>p. harp_rtp_unpack (take 65536 p)) of
        None \<Rightarrow> (([], None), rx)
      | Some (h, pl) \<Rightarrow>
          let rx = (count_loss (rh_seq h) rx)\<lparr>et_lastArr := now\<rparr>
          in if rh_pt h = HARP_RTP_PT_GROUP then reassembleGroup h pl maxFloats rx
             else if length pl mod 4 \<noteq> 0 then (([], Some (rh_timestamp h)), rx)
             else ((take (min (length pl div 4) maxFloats) (mem_floats pl), Some (rh_timestamp h)), rx))"

section \<open>Packing and unpacking\<close>

lemma rtp16_join: "push_bit 8 (ucast (ucast (drop_bit 8 v) :: u8)) OR ucast (ucast v :: u8) = v"
  for v :: u16
  by (rule bit_word_eqI) (auto simp: bit_simps)

lemma rtp32_join:
  "push_bit 24 (ucast (ucast (drop_bit 24 v) :: u8)) OR push_bit 16 (ucast (ucast (drop_bit 16 v) :: u8)) OR
   push_bit 8 (ucast (ucast (drop_bit 8 v) :: u8)) OR ucast (ucast v :: u8) = v"
  for v :: u32
  using le32_join [of v] by (simp add: ac_simps)

text \<open>The one byte that holds the marker and the type.\<close>

lemma marker_pt:
  fixes pt :: u8
  shows "((if m then 0x80 else 0) OR (pt AND 0x7f)) AND 0x7f = pt AND 0x7f"
    and "drop_bit 7 ((if m then 0x80 else 0) OR (pt AND 0x7f)) AND 1 = (if m then 1 else 0)"
proof -
  have "((if m then 0x80 else 0 :: u8) AND 0x7f) = 0" "drop_bit 7 (if m then 0x80 else 0 :: u8) = (if m then 1 else 0)"
    by (cases m; simp)+
  moreover have "drop_bit 7 (pt AND 0x7f) = 0"
    using drop_bit_take_bit [of 7 7 pt] by (simp add: take_bit_eq_mask mask_numeral)
  ultimately show "((if m then 0x80 else 0) OR (pt AND 0x7f)) AND 0x7f = pt AND 0x7f"
    and "drop_bit 7 ((if m then 0x80 else 0) OR (pt AND 0x7f)) AND 1 = (if m then 1 else 0)"
    by (simp_all add: bit.conj_disj_distrib2 drop_bit_or and.assoc)
qed

lemma unpack_pack:
  assumes "harp_rtp_pack cap h pl = Some b"
  shows "harp_rtp_unpack b = Some (h\<lparr>rh_pt := rh_pt h AND 0x7f, rh_marker := if rh_marker h \<noteq> 0 then 1 else 0\<rparr>, pl)"
proof -
  have b: "b = [0x80, (if rh_marker h \<noteq> 0 then 0x80 else 0) OR (rh_pt h AND 0x7f)] @
      rtp_put16 (rh_seq h) @ rtp_put32 (rh_timestamp h) @ rtp_put32 (rh_ssrc h) @ pl"
    using assms by (simp add: harp_rtp_pack_def split: if_splits)
  have "drop_bit 6 (0x80 :: u8) = 2" "(0x80 :: u8) AND 0x0f = 0" "drop_bit 4 (0x80 :: u8) AND 1 = 0" by simp_all
  then have "rtp_offset b = Some 12"
    by (simp add: rtp_offset_def b rtp_put16_def rtp_put32_def HARP_RTP_HDR_BYTES_def)
  then show ?thesis
    by (simp add: harp_rtp_unpack_def b rtp_put16_def rtp_put32_def rtp_get16_def rtp_get32_def rtp16_join rtp32_join marker_pt)
qed

lemma unpack_send: "harp_rtp_unpack (rtp_send_one h pl) =
    Some (h\<lparr>rh_pt := rh_pt h AND 0x7f, rh_marker := if rh_marker h \<noteq> 0 then 1 else 0\<rparr>, pl)"
  by (rule unpack_pack [of "12 + length pl"]) (simp add: rtp_send_one_def harp_rtp_pack_def HARP_RTP_HDR_BYTES_def)

lemma ucast_sub32: "(ucast (a - b) :: u32) = ucast a - ucast b"
  for a b :: u64
proof (rule unsigned_word_eqI)
  show "uint (ucast (a - b) :: u32) = uint (ucast a - ucast b :: u32)"
    by (simp add: unsigned_ucast_eq uint_word_ariths take_bit_eq_mod mod_mod_cancel mod_diff_eq)
qed

lemma scast_ucast32: "- (2 ^ 31) \<le> sint w \<Longrightarrow> sint w < 2 ^ 31 \<Longrightarrow> scast (ucast w :: u32) = w"
  for w :: u64
proof (rule signed_word_eqI)
  assume "- (2 ^ 31) \<le> sint w" "sint w < 2 ^ 31"
  then have "signed_take_bit 31 (sint w) = sint w" by (simp add: signed_take_bit_int_eq_self)
  moreover have "sint w = signed_take_bit 63 (uint w)" by (simp add: sint_uint)
  ultimately have "signed_take_bit 31 (uint w) = sint w" by (simp add: signed_take_bit_signed_take_bit)
  moreover have "sint (scast (ucast w :: u32) :: u64) = signed_take_bit (LENGTH(64) - Suc 0) (signed_take_bit (LENGTH(32) - Suc 0) (uint w))"
    by (subst signed_scast_eq) (simp only: signed_ucast_eq)
  ultimately show "sint (scast (ucast w :: u32) :: u64) = sint w"
    by (simp only: signed_take_bit_signed_take_bit) simp
qed

lemma mem_floats_mem [simp]: "mem_floats (float_mem xs) = xs"
proof (induction xs)
  case (Cons x xs)
  have "le_bytes 4 x = [ucast x, ucast (drop_bit 8 x), ucast (drop_bit 8 (drop_bit 8 x)), ucast (drop_bit 8 (drop_bit 8 (drop_bit 8 x)))]"
    by (simp add: numeral_eq_Suc)
  moreover have "le_val (le_bytes 4 x) = x" by (simp add: le_val_le_bytes take_bit_word_ge)
  ultimately show ?case using Cons by (simp add: float_mem_def)
qed (simp add: float_mem_def)

lemma length_float_mem [simp]: "length (float_mem xs) = 4 * length xs"
  by (simp add: float_mem_def length_concat comp_def sum_list_triv)

text \<open>
  A packet that \<^verbatim>\<open>harp_rtp_pack\<close> wrote is read back by \<^verbatim>\<open>harp_rtp_unpack\<close> with every field of its header and the
  payload, and the timestamp that a sender cut to 32 bits is extended by \<^verbatim>\<open>harp_rtp_unwrap_ts\<close> to the sample index it was cut
  from, across any number of wrap-arounds, as long as it is within \<open>2 ^ 31\<close> samples of the one before, earlier or later.
\<close>

theorem rtp_packet_roundtrip:
  assumes "harp_rtp_pack cap h pl = Some pkt" and "rh_pt h < 0x80" and "rh_marker h \<le> 1" and "rh_timestamp h = ucast ssi"
    and "- (2 ^ 31) \<le> sint (ssi - prev)" and "sint (ssi - prev) < 2 ^ 31"
  shows "harp_rtp_unpack pkt = Some (h, pl) \<and> harp_rtp_unwrap_ts (rh_timestamp h) prev = ssi"
proof
  have "rh_pt h AND 0x7f = rh_pt h"
    using take_bit_word_less [of "rh_pt h" 7] assms(2) by (simp add: take_bit_eq_mask mask_numeral)
  moreover have "(if rh_marker h \<noteq> 0 then 1 else 0) = rh_marker h"
    using assms(3) by (cases "rh_marker h = 0") (auto simp: word_le_less_eq word_less_1)
  ultimately show "harp_rtp_unpack pkt = Some (h, pl)" using unpack_pack [OF assms(1)] by simp
  show "harp_rtp_unwrap_ts (rh_timestamp h) prev = ssi"
    using assms(5,6) by (simp add: harp_rtp_unwrap_ts_def assms(4) ucast_sub32 [symmetric] scast_ucast32)
qed

section \<open>Gathering and scattering columns\<close>

lemma length_blocks: "length (concat (map (\<lambda>s. map (f s) [0..<cnt]) [0..<ns])) = ns * cnt"
  by (induction ns) simp_all

lemma nth_blocks: "s < ns \<Longrightarrow> c < cnt \<Longrightarrow> concat (map (\<lambda>s. map (f s) [0..<cnt]) [0..<ns]) ! (s * cnt + c) = f s c"
proof (induction ns)
  case (Suc ns)
  have l: "length (concat (map (\<lambda>s. map (f s) [0..<cnt]) [0..<ns])) = ns * cnt" by (rule length_blocks)
  show ?case
  proof (cases "s < ns")
    case True
    have "s * cnt + c < Suc s * cnt" using Suc.prems(2) by simp
    also have "\<dots> \<le> ns * cnt" using True by (intro mult_le_mono1) simp
    finally show ?thesis using Suc.IH [OF True Suc.prems(2)] l by (simp add: nth_append)
  next
    case False
    with Suc.prems have "s = ns" by simp
    with l Suc.prems show ?thesis by (simp add: nth_append)
  qed
qed simp

lemma length_gather [simp]: "length (gather ns S off cnt x) = ns * cnt"
  unfolding gather_def by (rule length_blocks)

lemma nth_gather: "s < ns \<Longrightarrow> c < cnt \<Longrightarrow> gather ns S off cnt x ! (s * cnt + c) = x ! (s * S + off + c)"
  unfolding gather_def by (rule nth_blocks)

lemma length_update_fold [simp]: "length (fold (\<lambda>c r. r[b + c := g c]) cs r) = length r"
  by (induction cs arbitrary: r) simp_all

lemma nth_update_fold: "j < length r \<Longrightarrow>
    fold (\<lambda>c r. r[b + c := g c]) [0..<cnt] r ! j = (if b \<le> j \<and> j < b + cnt then g (j - b) else r ! j)"
proof (induction cnt)
  case (Suc cnt)
  then show ?case by (cases "j = b + cnt") auto
qed auto

lemma length_scatter [simp]: "length (scatter ns tot off cnt sf r) = length r"
  unfolding scatter_def by (induction ns arbitrary: r) simp_all

lemma scatter_Suc: "scatter (Suc ns) tot off cnt sf r =
    fold (\<lambda>c r. r[(ns * tot + off) + c := sf ! (ns * cnt + c)]) [0..<cnt] (scatter ns tot off cnt sf r)"
  by (simp add: scatter_def)

text \<open>After the scatter the group's columns are those of the packet; everything else is as it was.\<close>

lemma nth_scatter:
  assumes "off + cnt \<le> tot" and "s < m" and "j < tot" and "m * tot \<le> length r"
  shows "scatter ns tot off cnt sf r ! (s * tot + j) =
    (if s < ns \<and> off \<le> j \<and> j < off + cnt then sf ! (s * cnt + (j - off)) else r ! (s * tot + j))"
proof (induction ns)
  case (Suc ns)
  have "s * tot + j < Suc s * tot" using assms(3) by simp
  also have "\<dots> \<le> m * tot" using assms(2) by (intro mult_le_mono1) simp
  finally have l: "s * tot + j < length r" using assms(4) by simp
  have iff: "ns * tot + off \<le> s * tot + j \<and> s * tot + j < ns * tot + off + cnt \<longleftrightarrow> s = ns \<and> off \<le> j \<and> j < off + cnt"
  proof
    assume a: "ns * tot + off \<le> s * tot + j \<and> s * tot + j < ns * tot + off + cnt"
    have "ns = (s * tot + j) div tot"
      using a assms(1) by (intro div_nat_eqI [symmetric]) (auto simp: mult.commute)
    then have "s = ns" using assms(3) by simp
    with a show "s = ns \<and> off \<le> j \<and> j < off + cnt" by simp
  qed auto
  show ?case unfolding scatter_Suc
    using Suc.IH l by (auto simp add: nth_update_fold iff less_Suc_eq)
qed (simp add: scatter_def)

section \<open>Wide frames\<close>

text \<open>The group of a frame that starts at slot \<open>off\<close>, as a datagram, and what a receiver reads from it.\<close>

definition group_len :: "nat \<Rightarrow> nat \<Rightarrow> nat" where
  "group_len S off = (if S - off > HARP_RTP_MAX_GROUP_SLOTS then HARP_RTP_MAX_GROUP_SLOTS else S - off)"

definition group_hdr :: "u16 \<Rightarrow> u64 \<Rightarrow> u32 \<Rightarrow> harp_rtp_hdr" where
  "group_hdr seq msc ssrc = \<lparr>rh_pt = HARP_RTP_PT_GROUP, rh_marker = 0, rh_seq = seq, rh_timestamp = ucast msc, rh_ssrc = ssrc\<rparr>"

definition group_load :: "nat \<Rightarrow> nat \<Rightarrow> f32 list \<Rightarrow> nat \<Rightarrow> bytes" where
  "group_load ns S x off =
     [of_nat off, of_nat (group_len S off), of_nat S, 0] @ float_mem (gather ns S off (group_len S off) x)"

text \<open>Without loss injection the sender emits one packet for every eight slots.\<close>

lemma emit_groups_step: "p \<le> 0 \<Longrightarrow> off < n_slots a \<Longrightarrow> fst (emit_groups p ns x msc off a) =
    rtp_send_one (group_hdr (au_rtp_seq a) msc (au_rtp_ssrc a)) (group_load ns (n_slots a) x off) #
    fst (emit_groups p ns x msc (off + 8) (a\<lparr>au_rtp_seq := au_rtp_seq a + 1\<rparr>))"
  by (subst emit_groups.simps) (simp add: Let_def rtp_inject_def group_hdr_def group_load_def group_len_def
      HARP_RTP_MAX_GROUP_SLOTS_def)

lemma emit_groups_stop: "\<not> off < n_slots a \<Longrightarrow> fst (emit_groups p ns x msc off a) = []"
  by (subst emit_groups.simps) simp

lemma n_slots_seq [simp]: "n_slots (a\<lparr>au_rtp_seq := q\<rparr>) = n_slots a"
  by (simp add: n_slots_def)

lemma emit_groups_nth:
  assumes "p \<le> 0"
  shows "k < length (fst (emit_groups p ns x msc off a)) \<longleftrightarrow> off + 8 * k < n_slots a" and
    "off + 8 * k < n_slots a \<Longrightarrow> fst (emit_groups p ns x msc off a) ! k =
       rtp_send_one (group_hdr (au_rtp_seq a + of_nat k) msc (au_rtp_ssrc a)) (group_load ns (n_slots a) x (off + 8 * k))"
proof (induction k arbitrary: off a)
  case 0
  { case 1 show ?case by (cases "off < n_slots a") (simp_all add: emit_groups_step [OF assms] emit_groups_stop) }
  { case 2 then show ?case by (simp add: emit_groups_step [OF assms]) }
next
  case (Suc k)
  { case 1 show ?case
      by (cases "off < n_slots a") (simp_all add: emit_groups_step [OF assms] emit_groups_stop Suc.IH(1) add.assoc) }
  { case 2
    then have "off < n_slots a" "off + 8 + 8 * k < n_slots (a\<lparr>au_rtp_seq := au_rtp_seq a + 1\<rparr>)" by simp_all
    from Suc.IH(2) [OF this(2)] emit_groups_step [OF assms this(1), of ns x msc] show ?case
      by (simp add: add.assoc) }
qed

text \<open>The frame being assembled: its timestamp, its size and its samples so far.\<close>

definition assembling :: "eth_rx \<Rightarrow> u32 \<Rightarrow> nat \<Rightarrow> nat \<Rightarrow> f32 list \<Rightarrow> bool" where
  "assembling rx ts S ns r \<longleftrightarrow> et_reasmValid rx \<and> et_reasmTs rx = ts \<and> et_reasmTotal rx = S \<and> et_reasmNs rx = ns \<and>
     length (et_reasm rx) = kReasmNs * kReasmSlots \<and> take (ns * S) (et_reasm rx) = r"

lemma group_len_bounds: "off < S \<Longrightarrow> 0 < group_len S off \<and> group_len S off \<le> 8 \<and> off + group_len S off \<le> S"
  by (auto simp: group_len_def HARP_RTP_MAX_GROUP_SLOTS_def)

lemma unat_of_nat_u8: "n < 256 \<Longrightarrow> unat (of_nat n :: u8) = n"
  by (simp add: unat_of_nat take_bit_nat_eq_self_iff)

lemma count_loss_frame: "\<exists>l v n. count_loss seq rx = rx\<lparr>et_lastSeq := l, et_seqValid := v, et_rtpLost := n\<rparr>"
proof -
  have "count_loss seq rx = rx\<lparr>et_lastSeq := et_lastSeq (count_loss seq rx),
      et_seqValid := et_seqValid (count_loss seq rx), et_rtpLost := et_rtpLost (count_loss seq rx)\<rparr>"
    by (simp add: count_loss_def Let_def split: prod.split)
  then show ?thesis by blast
qed

text \<open>What a receiver does with a group: the frame before, if there was one, is handed out.\<close>

lemma reassemble_load:
  assumes "off < S" and "S \<le> kReasmSlots" and "0 < ns" and "ns \<le> kReasmNs"
    and "et_reasmValid rx \<Longrightarrow> et_reasmTs rx = rh_timestamp h \<Longrightarrow> et_reasmTotal rx = S \<and> et_reasmNs rx = ns"
  shows "reassembleGroup h (group_load ns S x off) mx rx =
    (if et_reasmValid rx \<and> rh_timestamp h \<noteq> et_reasmTs rx
     then (take (min (et_reasmNs rx * et_reasmTotal rx) mx) (et_reasm rx), Some (et_reasmTs rx)) else ([], None),
     rx\<lparr>et_reasm := scatter ns S off (group_len S off) (gather ns S off (group_len S off) x)
          (if et_reasmValid rx \<and> rh_timestamp h = et_reasmTs rx then et_reasm rx else reasm_zero),
        et_reasmTs := rh_timestamp h, et_reasmValid := True, et_reasmTotal := S, et_reasmNs := ns\<rparr>)"
proof -
  let ?c = "group_len S off"
  have c: "0 < ?c" "?c \<le> 8" "off + ?c \<le> S" using group_len_bounds [OF assms(1)] by auto
  then have u: "unat (of_nat off :: u8) = off" "unat (of_nat ?c :: u8) = ?c" "unat (of_nat S :: u8) = S"
    using assms(1,2) by (simp_all add: unat_of_nat_u8 kReasmSlots_def)
  have l: "length (group_load ns S x off) = 4 + 4 * (ns * ?c)" by (simp add: group_load_def)
  have n: "group_load ns S x off ! 0 = of_nat off" "group_load ns S x off ! 1 = of_nat ?c" "group_load ns S x off ! 2 = of_nat S"
    "drop 4 (group_load ns S x off) = float_mem (gather ns S off ?c x)" by (simp_all add: group_load_def)
  show ?thesis
    unfolding reassembleGroup_def HARP_RTP_GROUP_HDR_BYTES_def n l u Let_def using c assms by simp
qed

lemma recv_group:
  assumes "off < S" and "S \<le> kReasmSlots" and "0 < ns" and "ns \<le> kReasmNs"
    and "et_reasmValid rx \<Longrightarrow> et_reasmTs rx = ucast msc \<Longrightarrow> et_reasmTotal rx = S \<and> et_reasmNs rx = ns"
    and "recvAudio (Some (rtp_send_one (group_hdr q msc ssrc) (group_load ns S x off))) now mx rx = (out, rx')"
  shows "out = (if et_reasmValid rx \<and> et_reasmTs rx \<noteq> ucast msc
      then (take (min (et_reasmNs rx * et_reasmTotal rx) mx) (et_reasm rx), Some (et_reasmTs rx)) else ([], None))"
    and "et_reasmValid rx' \<and> et_reasmTs rx' = ucast msc \<and> et_reasmTotal rx' = S \<and> et_reasmNs rx' = ns \<and>
      et_reasm rx' = scatter ns S off (group_len S off) (gather ns S off (group_len S off) x)
        (if et_reasmValid rx \<and> et_reasmTs rx = ucast msc then et_reasm rx else reasm_zero)"
proof -
  let ?p = "rtp_send_one (group_hdr q msc ssrc) (group_load ns S x off)"
  have "ns * group_len S off \<le> 256 * 8"
    using group_len_bounds [OF assms(1)] assms(4) by (intro mult_le_mono) (simp_all add: kReasmNs_def)
  then have "length ?p \<le> 65536"
    by (simp add: rtp_send_one_def harp_rtp_pack_def group_load_def HARP_RTP_HDR_BYTES_def rtp_put16_def rtp_put32_def)
  then have u: "harp_rtp_unpack (take 65536 ?p) = Some (group_hdr q msc ssrc, group_load ns S x off)"
    by (simp add: unpack_send group_hdr_def HARP_RTP_PT_GROUP_def)
  obtain l v n where "count_loss q rx = rx\<lparr>et_lastSeq := l, et_seqValid := v, et_rtpLost := n\<rparr>"
    using count_loss_frame by blast
  with u assms(6) have e: "reassembleGroup (group_hdr q msc ssrc) (group_load ns S x off) mx
      (rx\<lparr>et_lastSeq := l, et_seqValid := v, et_rtpLost := n, et_lastArr := now\<rparr>) = (out, rx')"
    by (simp add: recvAudio_def group_hdr_def)
  note r = reassemble_load [OF assms(1-4), of "rx\<lparr>et_lastSeq := l, et_seqValid := v, et_rtpLost := n, et_lastArr := now\<rparr>"
      "group_hdr q msc ssrc" x mx, unfolded e]
  show "out = (if et_reasmValid rx \<and> et_reasmTs rx \<noteq> ucast msc
      then (take (min (et_reasmNs rx * et_reasmTotal rx) mx) (et_reasm rx), Some (et_reasmTs rx)) else ([], None))"
    "et_reasmValid rx' \<and> et_reasmTs rx' = ucast msc \<and> et_reasmTotal rx' = S \<and> et_reasmNs rx' = ns \<and>
      et_reasm rx' = scatter ns S off (group_len S off) (gather ns S off (group_len S off) x)
        (if et_reasmValid rx \<and> et_reasmTs rx = ucast msc then et_reasm rx else reasm_zero)"
    using r assms(5) by (auto simp: group_hdr_def)
qed

text \<open>A frame of which only some groups were heard: the slots of the others are silent.\<close>

definition heard_by :: "nat \<Rightarrow> f32 list \<Rightarrow> (nat \<Rightarrow> bool) \<Rightarrow> f32 list" where
  "heard_by S x P = map (\<lambda>i. if P (i mod S div 8) then x ! i else 0) [0..<length x]"

lemma in_group: "j < S \<Longrightarrow> 8 * k \<le> j \<and> j < 8 * k + group_len S (8 * k) \<longleftrightarrow> j div 8 = k"
  by (auto simp: group_len_def HARP_RTP_MAX_GROUP_SLOTS_def)

lemma scatter_heard:
  assumes "length x = ns * S" and "8 * k < S" and "ns * S \<le> length r" and "take (ns * S) r = heard_by S x P"
  shows "take (ns * S) (scatter ns S (8 * k) (group_len S (8 * k)) (gather ns S (8 * k) (group_len S (8 * k)) x) r) =
    heard_by S x (\<lambda>j. j = k \<or> P j)"
proof (rule nth_equalityI)
  show "length (take (ns * S) (scatter ns S (8 * k) (group_len S (8 * k)) (gather ns S (8 * k) (group_len S (8 * k)) x) r)) =
      length (heard_by S x (\<lambda>j. j = k \<or> P j))" using assms by (simp add: heard_by_def)
next
  fix i assume "i < length (take (ns * S) (scatter ns S (8 * k) (group_len S (8 * k)) (gather ns S (8 * k) (group_len S (8 * k)) x) r))"
  then have i: "i < ns * S" by simp
  define s j where "s = i div S" and "j = i mod S"
  have sj: "i = s * S + j" "j < S" "s < ns"
    using i assms(2) by (simp_all add: s_def j_def div_less_iff_less_mult)
  have g: "8 * k \<le> j \<and> j < 8 * k + group_len S (8 * k) \<longleftrightarrow> j div 8 = k" by (rule in_group [OF sj(2)])
  have "r ! i = heard_by S x P ! i" using assms(4) i by (metis nth_take)
  then have r: "r ! i = (if P (j div 8) then x ! i else 0)" using i assms(1) by (simp add: heard_by_def j_def)
  have "scatter ns S (8 * k) (group_len S (8 * k)) (gather ns S (8 * k) (group_len S (8 * k)) x) r ! i =
      (if j div 8 = k then gather ns S (8 * k) (group_len S (8 * k)) x ! (s * group_len S (8 * k) + (j - 8 * k)) else r ! i)"
    using nth_scatter [OF _ sj(3,2) assms(3), of "8 * k" "group_len S (8 * k)"] group_len_bounds [OF assms(2)] g sj(1,3) by auto
  moreover have "gather ns S (8 * k) (group_len S (8 * k)) x ! (s * group_len S (8 * k) + (j - 8 * k)) = x ! i" if "j div 8 = k"
  proof -
    have "8 * k \<le> j" "j - 8 * k < group_len S (8 * k)" using g that by auto
    with nth_gather [OF sj(3) this(2), of S "8 * k" x] sj(1) show ?thesis by (simp add: add.assoc)
  qed
  ultimately show "take (ns * S) (scatter ns S (8 * k) (group_len S (8 * k)) (gather ns S (8 * k) (group_len S (8 * k)) x) r) ! i =
      heard_by S x (\<lambda>j. j = k \<or> P j) ! i"
    using i assms(1) r by (auto simp: heard_by_def j_def)
qed

lemma heard_none: "length x \<le> kReasmNs * kReasmSlots \<Longrightarrow> take (length x) reasm_zero = heard_by S x (\<lambda>k. False)"
  by (simp add: reasm_zero_def heard_by_def map_replicate_const)

section \<open>Receiving a stream\<close>

text \<open>The packets that arrive, each with the time, and the frames that are handed out.\<close>

fun rx_run :: "nat \<Rightarrow> (bytes \<times> u64) list \<Rightarrow> eth_rx \<Rightarrow> (f32 list \<times> u32) list \<times> eth_rx" where
  "rx_run mx [] rx = ([], rx)"
| "rx_run mx ((p, now) # ps) rx =
     (case recvAudio (Some p) now mx rx of
        ((xs, ts), rx) \<Rightarrow>
          (case rx_run mx ps rx of (os, rx) \<Rightarrow> ((case ts of None \<Rightarrow> os | Some t \<Rightarrow> (xs, t) # os), rx)))"

lemma rx_run_append: "rx_run mx (ps @ qs) rx =
    (fst (rx_run mx ps rx) @ fst (rx_run mx qs (snd (rx_run mx ps rx))), snd (rx_run mx qs (snd (rx_run mx ps rx))))"
  by (induction mx ps rx rule: rx_run.induct) (auto split: prod.splits option.splits)

definition handed_out :: "nat \<Rightarrow> eth_rx \<Rightarrow> (f32 list \<times> u32) list" where
  "handed_out mx rx = (if et_reasmValid rx
     then [(take (min (et_reasmNs rx * et_reasmTotal rx) mx) (et_reasm rx), et_reasmTs rx)] else [])"

text \<open>The packets of a frame: \<open>ns\<close> samples of \<open>S\<close> slots, one packet for each eight slots.\<close>

definition frame_packets :: "nat \<Rightarrow> nat \<Rightarrow> f32 list \<Rightarrow> u64 \<Rightarrow> bytes list \<Rightarrow> bool" where
  "frame_packets S ns x msc ps \<longleftrightarrow> 0 < S \<and> S \<le> kReasmSlots \<and> 0 < ns \<and> ns \<le> kReasmNs \<and> length x = ns * S \<and>
     (\<forall>k. k < length ps \<longleftrightarrow> 8 * k < S) \<and>
     (\<forall>k < length ps. \<exists>q ssrc. ps ! k = rtp_send_one (group_hdr q msc ssrc) (group_load ns S x (8 * k)))"

lemma frame_packets_nonempty: "frame_packets S ns x msc ps \<Longrightarrow> ps \<noteq> []"
  unfolding frame_packets_def by (metis length_greater_0_conv mult_0_right)

lemma frame_packets_size: "frame_packets S ns x msc ps \<Longrightarrow> ns * S \<le> kReasmNs * kReasmSlots"
  by (auto simp: frame_packets_def intro: mult_le_mono)

lemma frame_packets_inj:
  assumes "frame_packets S ns x msc ps" and "k < length ps" and "k' < length ps" and "ps ! k = ps ! k'"
  shows "k = k'"
proof -
  have k: "8 * k < 34" "8 * k' < 34" using assms(1-3) by (auto simp: frame_packets_def kReasmSlots_def)
  obtain q q' r r' where "rtp_send_one (group_hdr q msc r) (group_load ns S x (8 * k)) =
      rtp_send_one (group_hdr q' msc r') (group_load ns S x (8 * k'))"
    using assms unfolding frame_packets_def by metis
  then have "group_load ns S x (8 * k) = group_load ns S x (8 * k')"
    using unpack_send by (metis option.inject prod.inject)
  then have "(of_nat (8 * k) :: u8) = of_nat (8 * k')" by (simp add: group_load_def)
  then have "unat (of_nat (8 * k) :: u8) = unat (of_nat (8 * k') :: u8)" by (rule arg_cong)
  then have "8 * k = 8 * k'" using k unat_of_nat_u8 [of "8 * k"] unat_of_nat_u8 [of "8 * k'"] by linarith
  then show ?thesis by simp
qed

text \<open>One packet of the frame that is being assembled, and the first packet of a new one.\<close>

lemma recv_more:
  assumes "frame_packets S ns x msc ps" and "k < length ps" and "assembling rx (ucast msc) S ns (heard_by S x P)"
  shows "\<exists>rx'. recvAudio (Some (ps ! k)) now mx rx = (([], None), rx') \<and>
    assembling rx' (ucast msc) S ns (heard_by S x (\<lambda>j. j = k \<or> P j))"
proof -
  note f = assms(1) [unfolded frame_packets_def] and a = assms(3) [unfolded assembling_def]
  obtain q r where p: "ps ! k = rtp_send_one (group_hdr q msc r) (group_load ns S x (8 * k))" using f assms(2) by blast
  obtain out rx' where e: "recvAudio (Some (ps ! k)) now mx rx = (out, rx')" by fastforce
  have k: "8 * k < S" using f assms(2) by blast
  note g = recv_group [OF k, of ns rx msc q r x now mx out rx', folded p]
  have "out = ([], None)" using g(1) f a e by simp
  moreover have "assembling rx' (ucast msc) S ns (heard_by S x (\<lambda>j. j = k \<or> P j))"
    using g(2) f a e scatter_heard [of x ns S k "et_reasm rx" P] k frame_packets_size [OF assms(1)]
    by (simp add: assembling_def)
  ultimately show ?thesis using e by simp
qed

lemma recv_first:
  assumes "frame_packets S ns x msc ps" and "k < length ps" and "et_reasmValid rx \<Longrightarrow> et_reasmTs rx \<noteq> ucast msc"
  shows "\<exists>xs ts rx'. recvAudio (Some (ps ! k)) now mx rx = ((xs, ts), rx') \<and>
    handed_out mx rx = (case ts of None \<Rightarrow> [] | Some t \<Rightarrow> [(xs, t)]) \<and>
    assembling rx' (ucast msc) S ns (heard_by S x (\<lambda>j. j = k))"
proof -
  note f = assms(1) [unfolded frame_packets_def]
  obtain q r where p: "ps ! k = rtp_send_one (group_hdr q msc r) (group_load ns S x (8 * k))" using f assms(2) by blast
  obtain xs ts rx' where e: "recvAudio (Some (ps ! k)) now mx rx = ((xs, ts), rx')" by (metis prod.exhaust)
  have k: "8 * k < S" using f assms(2) by blast
  have v: "\<not> (et_reasmValid rx \<and> et_reasmTs rx = ucast msc)" using assms(3) by blast
  note g = recv_group [OF k, of ns rx msc q r x now mx "(xs, ts)" rx', folded p]
  have "handed_out mx rx = (case ts of None \<Rightarrow> [] | Some t \<Rightarrow> [(xs, t)])"
    using g(1) f v e by (auto simp: handed_out_def)
  moreover have "assembling rx' (ucast msc) S ns (heard_by S x (\<lambda>j. j = k))"
    using g(2) f v e scatter_heard [of x ns S k reasm_zero "\<lambda>k. False"] k frame_packets_size [OF assms(1)] heard_none [of x S]
    by (simp add: assembling_def) (simp add: reasm_zero_def)
  ultimately show ?thesis using e by blast
qed

text \<open>What is heard of a frame when the packets \<open>d\<close> of its packets \<open>ps\<close> arrived.\<close>

definition heard :: "nat \<Rightarrow> f32 list \<Rightarrow> bytes list \<Rightarrow> (bytes \<times> u64) list \<Rightarrow> f32 list" where
  "heard S x ps d = map (\<lambda>i. if ps ! (i mod S div 8) \<in> fst ` set d then x ! i else 0) [0..<length x]"

lemma heard_alt: "heard S x ps d = heard_by S x (\<lambda>k. ps ! k \<in> fst ` set d)"
  by (simp add: heard_def heard_by_def)

lemma heard_by_cong: "frame_packets S ns x msc ps \<Longrightarrow> (\<And>k. k < length ps \<Longrightarrow> P k = Q k) \<Longrightarrow> heard_by S x P = heard_by S x Q"
proof -
  assume f: "frame_packets S ns x msc ps" and e: "\<And>k. k < length ps \<Longrightarrow> P k = Q k"
  have "i mod S div 8 < length ps" for i
  proof -
    have "i mod S < S" using f by (simp add: frame_packets_def)
    moreover have "8 * (i mod S div 8) \<le> i mod S" by simp
    ultimately have "8 * (i mod S div 8) < S" by linarith
    with f show ?thesis by (simp add: frame_packets_def)
  qed
  with e show ?thesis by (simp add: heard_by_def)
qed

lemma recv_rest:
  assumes "frame_packets S ns x msc ps" and "assembling rx (ucast msc) S ns (heard_by S x P)" and "fst ` set d \<subseteq> set ps"
  shows "\<exists>rx'. rx_run mx d rx = ([], rx') \<and> assembling rx' (ucast msc) S ns (heard_by S x (\<lambda>k. P k \<or> ps ! k \<in> fst ` set d))"
  using assms(2,3)
proof (induction d arbitrary: rx P)
  case (Cons p d)
  obtain b now where p: "p = (b, now)" by fastforce
  with Cons.prems(2) obtain k where k: "k < length ps" "ps ! k = b" by (auto simp: in_set_conv_nth)
  from recv_more [OF assms(1) k(1) Cons.prems(1), of now mx] k(2) obtain rx1 where
    r: "recvAudio (Some b) now mx rx = (([], None), rx1)" "assembling rx1 (ucast msc) S ns (heard_by S x (\<lambda>j. j = k \<or> P j))" by blast
  from Cons.IH [OF r(2)] Cons.prems(2) obtain rx' where i: "rx_run mx d rx1 = ([], rx')"
    "assembling rx' (ucast msc) S ns (heard_by S x (\<lambda>j. (j = k \<or> P j) \<or> ps ! j \<in> fst ` set d))" by auto
  have "heard_by S x (\<lambda>j. (j = k \<or> P j) \<or> ps ! j \<in> fst ` set d) = heard_by S x (\<lambda>j. P j \<or> ps ! j \<in> fst ` set (p # d))"
    by (rule heard_by_cong [OF assms(1)]) (use frame_packets_inj [OF assms(1)] k p in auto)
  with i show ?case by (simp add: p r(1))
qed simp

lemma recv_whole_frame:
  assumes "frame_packets S ns x msc ps" and "d \<noteq> []" and "fst ` set d \<subseteq> set ps" and "et_reasmValid rx \<Longrightarrow> et_reasmTs rx \<noteq> ucast msc"
  shows "\<exists>rx'. rx_run mx d rx = (handed_out mx rx, rx') \<and> assembling rx' (ucast msc) S ns (heard S x ps d)"
proof -
  obtain b now d' where d: "d = (b, now) # d'" using assms(2) by (cases d) auto
  with assms(3) obtain k where k: "k < length ps" "ps ! k = b" by (auto simp: in_set_conv_nth)
  from recv_first [OF assms(1) k(1) assms(4), of now mx] k(2) obtain xs ts rx1 where
    r: "recvAudio (Some b) now mx rx = ((xs, ts), rx1)" "handed_out mx rx = (case ts of None \<Rightarrow> [] | Some t \<Rightarrow> [(xs, t)])"
    "assembling rx1 (ucast msc) S ns (heard_by S x (\<lambda>j. j = k))" by blast
  from recv_rest [OF assms(1) r(3), of d' mx] assms(3) d obtain rx' where i: "rx_run mx d' rx1 = ([], rx')"
    "assembling rx' (ucast msc) S ns (heard_by S x (\<lambda>j. j = k \<or> ps ! j \<in> fst ` set d'))" by auto
  have "heard_by S x (\<lambda>j. j = k \<or> ps ! j \<in> fst ` set d') = heard S x ps d"
    unfolding heard_alt by (rule heard_by_cong [OF assms(1)]) (use frame_packets_inj [OF assms(1)] k d in auto)
  with i r show ?thesis by (simp add: d split: option.split)
qed

lemma handed_assembling: "assembling rx ts S ns r \<Longrightarrow> ns * S \<le> mx \<Longrightarrow> handed_out mx rx = [(r, ts)]"
  by (auto simp: assembling_def handed_out_def min_def)

text \<open>The frames of a stream with their packets and with those of them that arrive.\<close>

lemma recv_frames:
  assumes "list_all (\<lambda>((x, msc), ps, d). (\<exists>ns. frame_packets S ns x msc ps) \<and> d \<noteq> [] \<and> fst ` set d \<subseteq> set ps) tr"
    and "successively (\<lambda>t u. (ucast (snd (fst t)) :: u32) \<noteq> ucast (snd (fst u))) tr" and "tr \<noteq> []" and "kReasmNs * kReasmSlots \<le> mx"
    and "et_reasmValid rx \<Longrightarrow> et_reasmTs rx \<noteq> ucast (snd (fst (List.hd tr)))"
  shows "fst (rx_run mx (concat (map (snd \<circ> snd) tr)) rx) =
    handed_out mx rx @ map (\<lambda>((x, msc), ps, d). (heard S x ps d, ucast msc)) (butlast tr)"
  using assms(1,2,3,5)
proof (induction tr arbitrary: rx)
  case (Cons t tr)
  obtain x msc ps d where t: "t = ((x, msc), ps, d)" by (metis prod.exhaust)
  with Cons.prems(1) obtain ns where f: "frame_packets S ns x msc ps" "d \<noteq> []" "fst ` set d \<subseteq> set ps" by auto
  have v: "et_reasmValid rx \<Longrightarrow> et_reasmTs rx \<noteq> ucast msc" using Cons.prems(4) t by simp
  from recv_whole_frame [OF f v, of mx] obtain rx1 where r: "rx_run mx d rx = (handed_out mx rx, rx1)"
    "assembling rx1 (ucast msc) S ns (heard S x ps d)" by auto
  have fl: "handed_out mx rx1 = [(heard S x ps d, ucast msc)]"
    using handed_assembling [OF r(2)] frame_packets_size [OF f(1)] assms(4) by simp
  show ?case
  proof (cases tr)
    case Nil
    then show ?thesis using r t by simp
  next
    case (Cons u us)
    have "et_reasmTs rx1 \<noteq> ucast (snd (fst (List.hd tr)))"
      using Cons.prems(2) r(2) Cons t by (simp add: assembling_def)
    moreover have "list_all (\<lambda>((x, msc), ps, d). (\<exists>ns. frame_packets S ns x msc ps) \<and> d \<noteq> [] \<and> fst ` set d \<subseteq> set ps) tr"
      "successively (\<lambda>t u. (ucast (snd (fst t)) :: u32) \<noteq> ucast (snd (fst u))) tr" "tr \<noteq> []"
      using Cons.prems(1,2) Cons by simp_all
    ultimately have "fst (rx_run mx (concat (map (snd \<circ> snd) tr)) rx1) =
        handed_out mx rx1 @ map (\<lambda>((x, msc), ps, d). (heard S x ps d, ucast msc)) (butlast tr)"
      by (intro Cons.IH)
    with \<open>tr \<noteq> []\<close> show ?thesis using r(1) fl t rx_run_append [of mx d "concat (map (snd \<circ> snd) tr)" rx] by (simp add: comp_def)
  qed
qed simp

section \<open>From the sender to the receiver\<close>

text \<open>The packets of each frame of a stream, in order.\<close>

fun emit_all :: "int \<Rightarrow> int \<Rightarrow> (f32 list \<times> u64) list \<Rightarrow> audio_state \<Rightarrow> rtp_held \<Rightarrow> bytes list list" where
  "emit_all dp rp [] a w = []"
| "emit_all dp rp ((x, msc) # fs) a w =
     (case audio_rtp_emit dp rp x msc a w of (ps, a, w) \<Rightarrow> ps # emit_all dp rp fs a w)"

lemma emit_groups_frame: "n_slots (snd (emit_groups p ns x msc off a)) = n_slots a \<and>
    au_rtp_fd (snd (emit_groups p ns x msc off a)) = au_rtp_fd a"
proof (induction p ns x msc off a rule: emit_groups.induct)
  case (1 p ns x msc off a)
  then show ?case by (subst (1 2) emit_groups.simps) (auto simp: Let_def)
qed

lemma emit_wide:
  assumes "dp \<le> 0" and "\<not> au_rtp_fd a < 0" and "8 < n_slots a" and "n_slots a \<le> kReasmSlots"
    and "length x = ns * n_slots a" and "0 < ns" and "ns \<le> kReasmNs" and "audio_rtp_emit dp rp x msc a w = (ps, a', w')"
  shows "frame_packets (n_slots a) ns x msc ps" and "n_slots a' = n_slots a" and "au_rtp_fd a' = au_rtp_fd a"
proof -
  have "4 * length x div (n_slots a * 4) = ns" using assms(3,5) by (simp add: mult.commute)
  then have e: "ps = fst (emit_groups dp ns x msc 0 a)" "a' = snd (emit_groups dp ns x msc 0 a)"
    using assms(2,3,8) by (auto simp: audio_rtp_emit_def Let_def HARP_RTP_MAX_GROUP_SLOTS_def)
  show "frame_packets (n_slots a) ns x msc ps"
    using assms(3-7) emit_groups_nth [OF assms(1), where off = 0 and a = a and ns = ns and x = x and msc = msc]
    by (auto simp: frame_packets_def e)
  show "n_slots a' = n_slots a" "au_rtp_fd a' = au_rtp_fd a" using emit_groups_frame by (simp_all add: e)
qed

lemma emit_all_packets:
  assumes "dp \<le> 0" and "\<not> au_rtp_fd a < 0" and "8 < n_slots a" and "n_slots a \<le> kReasmSlots" and "S = n_slots a"
    and "list_all (\<lambda>(x, msc). \<exists>ns. length x = ns * S \<and> 0 < ns \<and> ns \<le> kReasmNs) fs"
  shows "list_all2 (\<lambda>(x, msc) ps. \<exists>ns. frame_packets S ns x msc ps) fs (emit_all dp rp fs a w)"
  using assms(2-6)
proof (induction fs arbitrary: a w)
  case (Cons f fs)
  obtain x msc where f: "f = (x, msc)" by fastforce
  obtain ps a' w' where e: "audio_rtp_emit dp rp x msc a w = (ps, a', w')" by (metis prod_cases3)
  from Cons.prems f obtain ns where n: "length x = ns * n_slots a" "0 < ns" "ns \<le> kReasmNs" by auto
  note s = emit_wide [OF assms(1) Cons.prems(1-3) n e]
  have "list_all2 (\<lambda>(x, msc) ps. \<exists>ns. frame_packets S ns x msc ps) fs (emit_all dp rp fs a' w')"
    using Cons.prems s by (intro Cons.IH) simp_all
  with s(1) show ?case using Cons.prems(4) f e by auto
qed simp

lemma heard_whole:
  assumes "frame_packets S ns x msc ps" and "set ps \<subseteq> fst ` set d"
  shows "heard S x ps d = x"
proof -
  have "heard S x ps d = heard_by S x (\<lambda>k. True)"
    unfolding heard_alt by (rule heard_by_cong [OF assms(1)]) (use assms(2) nth_mem in blast)
  then show ?thesis by (simp add: heard_by_def map_nth)
qed

text \<open>
  C11: Wide audio frames survive the network.  The device splits each frame of more than eight slots into packets; of these some
  are lost, some arrive twice, and those of one frame may arrive in any order.  The host then hands out the frames in order,
  each with the timestamp of the device: the slots whose packet arrived carry exactly the samples that were sent, the others
  are silent, and a frame of which all packets arrived is the frame that was sent.  (A frame is handed out when a packet
  of the next one arrives.)
\<close>

theorem wide_frames_survive:
  assumes "\<not> au_rtp_fd a < 0" and "8 < n_slots a" and "n_slots a \<le> kReasmSlots" and "S = n_slots a" and "drop_pct \<le> 0"
    and "list_all (\<lambda>(x, msc). \<exists>ns. length x = ns * S \<and> 0 < ns \<and> ns \<le> kReasmNs) fs"
    and "successively (\<lambda>f g. (ucast (snd f) :: u32) \<noteq> ucast (snd g)) fs"
    and "pss = emit_all drop_pct reorder_pct fs a w"
    and "list_all2 (\<lambda>ps d. d \<noteq> [] \<and> fst ` set d \<subseteq> set ps) pss ds"
    and "kReasmNs * kReasmSlots \<le> mx" and "n = length fs - 1" and "outs = fst (rx_run mx (concat ds) eth_rx_init)"
  shows "outs = map (\<lambda>i. (heard S (fst (fs ! i)) (pss ! i) (ds ! i), ucast (snd (fs ! i)))) [0..<n] \<and>
    (\<forall>i<n. set (pss ! i) \<subseteq> fst ` set (ds ! i) \<longrightarrow> fst (outs ! i) = fst (fs ! i))"
proof -
  define tr where "tr = zip fs (zip pss ds)"
  have p: "list_all2 (\<lambda>(x, msc) ps. \<exists>ns. frame_packets S ns x msc ps) fs pss"
    using emit_all_packets [OF assms(5,1,2,3,4,6), of reorder_pct w] assms(8) by simp
  then have l: "length pss = length fs" "length ds = length fs" "length tr = length fs"
    using assms(9) by (simp_all add: list_all2_lengthD tr_def)
  have nth: "tr ! i = (fs ! i, pss ! i, ds ! i)" if "i < length fs" for i using that l by (simp add: tr_def)
  have fp: "\<exists>ns. frame_packets S ns (fst (fs ! i)) (snd (fs ! i)) (pss ! i)" if "i < length fs" for i
    using list_all2_nthD [OF p that] by (simp add: split_beta)
  have o: "outs = map (\<lambda>((x, msc), ps, d). (heard S x ps d, ucast msc)) (butlast tr)"
  proof (cases "fs = []")
    case True
    with l assms(12) show ?thesis by (simp add: tr_def)
  next
    case False
    have "fst (rx_run mx (concat (map (snd \<circ> snd) tr)) eth_rx_init) =
        handed_out mx eth_rx_init @ map (\<lambda>((x, msc), ps, d). (heard S x ps d, ucast msc)) (butlast tr)"
    proof (rule recv_frames)
      show "list_all (\<lambda>((x, msc), ps, d). (\<exists>ns. frame_packets S ns x msc ps) \<and> d \<noteq> [] \<and> fst ` set d \<subseteq> set ps) tr"
        unfolding list_all_length using nth fp l list_all2_nthD [OF assms(9)] by (simp add: split_beta)
      show "successively (\<lambda>t u. (ucast (snd (fst t)) :: u32) \<noteq> ucast (snd (fst u))) tr"
        using assms(7) l nth by (simp add: successively_conv_nth)
      show "tr \<noteq> []" using False l by (cases tr) auto
    qed (simp_all add: assms(10) eth_rx_init_def)
    moreover have "map (snd \<circ> snd) tr = ds" using l by (intro nth_equalityI) (simp_all add: nth)
    moreover have "handed_out mx eth_rx_init = []" by (simp add: handed_out_def eth_rx_init_def)
    ultimately show ?thesis using assms(12) by simp
  qed
  also have "\<dots> = map (\<lambda>i. (heard S (fst (fs ! i)) (pss ! i) (ds ! i), ucast (snd (fs ! i)))) [0..<n]"
    using l assms(11) by (intro nth_equalityI) (simp_all add: nth_butlast nth split_beta)
  finally have e: "outs = map (\<lambda>i. (heard S (fst (fs ! i)) (pss ! i) (ds ! i), ucast (snd (fs ! i)))) [0..<n]" .
  moreover have "fst (outs ! i) = fst (fs ! i)" if "i < n" "set (pss ! i) \<subseteq> fst ` set (ds ! i)" for i
  proof -
    have "i < length fs" using that(1) assms(11) by simp
    from fp [OF this] obtain ns where "frame_packets S ns (fst (fs ! i)) (snd (fs ! i)) (pss ! i)" by blast
    from heard_whole [OF this that(2)] that(1) show ?thesis by (simp add: e)
  qed
  ultimately show ?thesis by simp
qed

definition ex_wide_audio :: audio_state where
  "ex_wide_audio = (dv_audio ex_device)\<lparr>au_rtp_fd := 5, au_out_slots := replicate 9 0\<rparr>"

definition ex_held :: rtp_held where
  "ex_held = \<lparr>held_h = group_hdr 0 0 0, held_pl = [], held_countdown = 0\<rparr>"

lemma wide_frames_survive_witness:
  "map fst (fst (rx_run 10000 (concat (map (map (\<lambda>p. (p, 0))) (emit_all 0 0 [(replicate 9 1, 7), (replicate 18 2, 8)] ex_wide_audio ex_held)))
      eth_rx_init)) = [replicate 9 1]"
proof -
  let ?fs = "[(replicate 9 1, 7), (replicate 18 2, 8)] :: (f32 list \<times> u64) list"
  define pss where "pss = emit_all 0 0 ?fs ex_wide_audio ex_held"
  have a: "\<not> au_rtp_fd ex_wide_audio < 0" "n_slots ex_wide_audio = 9" by (simp_all add: ex_wide_audio_def n_slots_def)
  have f: "list_all (\<lambda>(x, msc). \<exists>ns. length x = ns * 9 \<and> 0 < ns \<and> ns \<le> kReasmNs) ?fs"
    by (simp add: kReasmNs_def exI [of _ 1] exI [of _ 2])
  have p: "list_all2 (\<lambda>(x, msc) ps. \<exists>ns. frame_packets 9 ns x msc ps) ?fs pss"
    unfolding pss_def by (rule emit_all_packets [OF _ a(1) _ _ _ f]) (simp_all add: a kReasmSlots_def)
  have ne: "ps \<noteq> []" if "ps \<in> set pss" for ps
    using p that by (auto simp: list_all2_Cons1 dest: frame_packets_nonempty)
  define ds where "ds = map (map (\<lambda>p. (p, 0 :: u64))) pss"
  define outs where "outs = fst (rx_run 10000 (concat ds) eth_rx_init)"
  have l: "length pss = 2" "length ds = 2" using p by (auto simp: ds_def dest: list_all2_lengthD)
  have d: "list_all2 (\<lambda>ps d. d \<noteq> [] \<and> fst ` set d \<subseteq> set ps) pss ds"
    using ne by (auto simp: list_all2_conv_all_nth ds_def)
  have "outs = map (\<lambda>i. (heard 9 (fst (?fs ! i)) (pss ! i) (ds ! i), ucast (snd (?fs ! i)))) [0..<1] \<and>
      (\<forall>i<1. set (pss ! i) \<subseteq> fst ` set (ds ! i) \<longrightarrow> fst (outs ! i) = fst (?fs ! i))"
    by (rule wide_frames_survive [OF a(1) _ _ _ _ f _ pss_def d _ _ outs_def]) (simp_all add: a kReasmSlots_def kReasmNs_def)
  moreover have "set (pss ! 0) \<subseteq> fst ` set (ds ! 0)" using l by (simp add: ds_def image_image)
  ultimately have "outs = [outs ! 0]" "fst (outs ! 0) = replicate 9 1" by auto
  then have "map fst outs = [replicate 9 1]" by (metis list.map(1,2))
  then show ?thesis unfolding outs_def ds_def pss_def .
qed

section \<open>Counting lost packets\<close>

text \<open>
  The packets of a stream are numbered from the first; the sequence number is the number modulo \<open>2 ^ 16\<close>.  Each packet is
  within \<open>2 ^ 15\<close> of the highest so far, and a packet is in order if it is the highest so far.
\<close>

fun in_window :: "nat \<Rightarrow> nat list \<Rightarrow> bool" where
  "in_window m [] \<longleftrightarrow> True"
| "in_window m (k # ks) \<longleftrightarrow> k \<le> m + 2 ^ 15 \<and> m < k + 2 ^ 15 \<and> in_window (max m k) ks"

fun in_order :: "nat \<Rightarrow> nat list \<Rightarrow> nat list" where
  "in_order m [] = []"
| "in_order m (k # ks) = (if m < k then k # in_order k ks else in_order m ks)"

lemma fold_max_ge: "m \<le> fold max ks m"
  for m :: nat
  by (induction ks arbitrary: m) (auto intro: order.trans [OF max.cobounded2])

lemma in_order_above: "set (in_order m ks) \<subseteq> {m<..fold max ks m}"
proof (induction ks arbitrary: m)
  case (Cons k ks)
  have "max k m = (if m < k then k else m)" by (simp add: max_def)
  with Cons.IH [of k] Cons.IH [of m] fold_max_ge [of k ks] show ?case by auto
qed simp

lemma unat_of_nat_u16: "n < 2 ^ 16 \<Longrightarrow> unat (of_nat n :: u16) = n"
  by (simp add: unat_of_nat take_bit_nat_eq_self_iff)

lemma ucast_of_nat_u16: "n < 2 ^ 16 \<Longrightarrow> (ucast (of_nat n :: u16) :: u64) = of_nat n"
proof -
  assume "n < 2 ^ 16"
  then have "of_nat (unat (of_nat n :: u16)) = (of_nat n :: u64)" by (simp only: unat_of_nat_u16)
  then show ?thesis by simp
qed

lemma gap_forward: "m < k \<Longrightarrow> k \<le> m + 2 ^ 15 \<Longrightarrow> harp_rtp_loss_gap (of_nat m) (of_nat k) = (of_nat (k - m - 1), True)"
proof -
  assume a: "m < k" "k \<le> m + 2 ^ 15"
  have e: "(of_nat k - of_nat m - 1 :: u16) = of_nat (k - m - 1)" using a(1) by (simp add: of_nat_diff)
  have "unat (of_nat (k - m - 1) :: u16) = k - m - 1" using a by (intro unat_of_nat_u16) simp
  then have "(of_nat (k - m - 1) :: u16) < 0x8000" using a by (simp add: word_less_nat_alt)
  with e show ?thesis by (simp add: harp_rtp_loss_gap_def Let_def)
qed

lemma gap_backward: "k \<le> m \<Longrightarrow> m < k + 2 ^ 15 \<Longrightarrow> harp_rtp_loss_gap (of_nat m) (of_nat k) = (0, False)"
proof -
  assume a: "k \<le> m" "m < k + 2 ^ 15"
  let ?n = "k + 2 ^ 16 - m - 1"
  have e: "(of_nat k - of_nat m - 1 :: u16) = of_nat ?n"
  proof -
    have "(of_nat (k + 2 ^ 16 - (m + 1)) :: u16) = of_nat (k + 2 ^ 16) - of_nat (m + 1)" using a by (intro of_nat_diff) simp
    also have "(of_nat (k + 2 ^ 16) :: u16) = of_nat k" by (simp add: word_of_nat_eq_iff take_bit_eq_mod)
    finally show ?thesis by (simp add: algebra_simps)
  qed
  have "unat (of_nat ?n :: u16) = ?n" using a by (intro unat_of_nat_u16) simp
  then have "\<not> (of_nat ?n :: u16) < 0x8000" using a unfolding word_less_nat_alt by simp
  then show ?thesis unfolding harp_rtp_loss_gap_def Let_def e by simp
qed

lemma count_losses:
  assumes "in_window m ks" and "et_seqValid rx" and "et_lastSeq rx = of_nat m"
  shows "et_lastSeq (fold count_loss (map of_nat ks) rx) = of_nat (fold max ks m) \<and>
    et_rtpLost (fold count_loss (map of_nat ks) rx) = et_rtpLost rx + of_nat (card ({m<..fold max ks m} - set (in_order m ks)))"
  using assms
proof (induction ks arbitrary: m rx)
  case (Cons k ks)
  show ?case
  proof (cases "m < k")
    case True
    let ?M = "fold max ks k" and ?R = "set (in_order k ks)"
    define n where "n = k - m - 1"
    have mx: "max k m = k" "max m k = k" using True by simp_all
    have g: "harp_rtp_loss_gap (of_nat m) (of_nat k) = (of_nat n, True)"
      unfolding n_def using True Cons.prems(1) by (intro gap_forward) simp_all
    have "(ucast (of_nat n :: u16) :: u64) = of_nat n"
      using Cons.prems(1) True by (intro ucast_of_nat_u16) (auto simp: n_def)
    with g have c: "count_loss (of_nat k) rx = rx\<lparr>et_rtpLost := et_rtpLost rx + of_nat n, et_lastSeq := of_nat k\<rparr>"
      using Cons.prems(2,3) by (simp add: count_loss_def Let_def)
    have "{m<..?M} - insert k ?R = {m<..<k} \<union> ({k<..?M} - ?R)"
      using in_order_above [of k ks] fold_max_ge [of k ks] True by auto
    then have d: "card ({m<..?M} - insert k ?R) = n + card ({k<..?M} - ?R)"
      by (simp add: card_Un_disjoint disjoint_iff n_def)
    have w: "in_window k ks" using Cons.prems(1) mx by simp
    from Cons.IH [OF w, of "count_loss (of_nat k) rx"] Cons.prems(2) True show ?thesis by (simp add: mx c d add.assoc)
  next
    case False
    have mx: "max k m = m" "max m k = m" using False by simp_all
    have "harp_rtp_loss_gap (of_nat m) (of_nat k) = (0, False)" using False Cons.prems(1) by (intro gap_backward) simp_all
    then have "count_loss (of_nat k) rx = rx" using Cons.prems(2,3) by (simp add: count_loss_def Let_def)
    with Cons.IH [of m rx] Cons.prems False show ?thesis by (simp add: mx)
  qed
qed simp

text \<open>
  C13: The host counts exactly the lost packets.  After any stream in which each packet is within \<open>2 ^ 15\<close> of the highest so far
  (so duplicates and late packets are allowed), the counter is the number of packets between the first and the highest
  one that did not arrive in order, whatever wrapped in the 16-bit sequence numbers; a late packet never moves the
  mark back.
\<close>

theorem loss_count_exact:
  assumes "in_window k0 ks" and "rx = fold count_loss (map of_nat (k0 # ks)) eth_rx_init" and "M = fold max ks k0"
  shows "et_rtpLost rx = of_nat (card ({k0..M} - set (k0 # in_order k0 ks))) \<and> et_lastSeq rx = of_nat M"
proof -
  let ?r = "eth_rx_init\<lparr>et_lastSeq := of_nat k0, et_seqValid := True\<rparr>"
  have "count_loss (of_nat k0) eth_rx_init = ?r" by (simp add: count_loss_def eth_rx_init_def)
  with count_losses [of k0 ks ?r] assms have "et_lastSeq rx = of_nat M"
    "et_rtpLost rx = of_nat (card ({k0<..M} - set (in_order k0 ks)))" by (simp_all add: eth_rx_init_def)
  moreover have "{k0..M} - set (k0 # in_order k0 ks) = {k0<..M} - set (in_order k0 ks)" using in_order_above [of k0 ks] by auto
  ultimately show ?thesis by simp
qed

lemma loss_count_exact_witness:
  "et_rtpLost (fold count_loss (map of_nat [65534, 65535, 65538, 65537 :: nat]) eth_rx_init) = 2"
proof -
  have "in_window 65534 [65535, 65538, 65537]" by simp
  from loss_count_exact [OF this refl refl] have
    "et_rtpLost (fold count_loss (map of_nat [65534, 65535, 65538, 65537 :: nat]) eth_rx_init) =
      of_nat (card ({65534..65538} - {65534, 65535, 65538 :: nat}))" by simp
  moreover have "{65534..65538} - {65534, 65535, 65538 :: nat} = {65536, 65537}" by auto
  ultimately show ?thesis by simp
qed

lemma rtp_packet_roundtrip_witness:
  "harp_rtp_unwrap_ts 3 0xfffffffe = 0x100000003 \<and>
   map_option snd (Option.bind (harp_rtp_pack 20 \<lparr>rh_pt = 96, rh_marker = 1, rh_seq = 9, rh_timestamp = 3, rh_ssrc = 5\<rparr> [1, 2]) harp_rtp_unpack) =
     Some [1, 2]"
proof -
  let ?h = "\<lparr>rh_pt = 96, rh_marker = 1, rh_seq = 9, rh_timestamp = 3, rh_ssrc = 5\<rparr>"
  obtain b where b: "harp_rtp_pack 20 ?h [1, 2] = Some b" by (simp add: harp_rtp_pack_def HARP_RTP_HDR_BYTES_def)
  have "harp_rtp_unpack b = Some (?h, [1, 2]) \<and> harp_rtp_unwrap_ts (rh_timestamp ?h) 0xfffffffe = 0x100000003"
    by (rule rtp_packet_roundtrip [OF b]) simp_all
  with b show ?thesis by simp
qed

end
