(* ===== verification/Harp_Freerun.thy ===== *)
theory Harp_Freerun
  imports Harp_Rtp
begin

text \<open>
  The free-running receiver: \<^verbatim>\<open>host/freerun.c\<close> (elastic buffer and clock recovery) and \<^verbatim>\<open>host/rtp_udp.c\<close> (the UDP
  front end).  The ring holds frames, a frame being one sample per channel.  The two monotone indices are natural numbers: they are
  64-bit and count frames, which at audio rates takes more than a million years to wrap.  Producer and consumer are
  different threads; the value that an atomic load of the other thread's index returns is an argument.  The resampler is
  libsamplerate and a parameter: a function that may run the input callback on the state and returns the frames it made.
  \<^verbatim>\<open>double\<close> arithmetic is IEEE 754 on bit patterns, rounded to nearest, ties to even, one operation at a time.
\<close>

unbundle bit_operations_syntax

section \<open>Double precision arithmetic\<close>

text \<open>The nearest \<^verbatim>\<open>double\<close> to \<open>mag * 2 ^ ex\<close> with sign \<open>s\<close>; \<open>e\<close> is the weight of its last place.\<close>

definition f64_pack :: "nat \<Rightarrow> nat \<Rightarrow> int \<Rightarrow> f64" where
  "f64_pack s mag ex =
     (if mag = 0 then f64_make s 0 0
      else
        let e = max (int (ilog2 mag) + ex - 52) (- 1074);
            q = (if e \<le> ex then mag * 2 ^ nat (ex - e) else rne mag (nat (e - ex)))
        in f64_make s 0 (min (2047 * 2 ^ 52) (nat (e + 1074) * 2 ^ 52 + q)))"

text \<open>A finite \<^verbatim>\<open>double\<close> is an integer multiple of \<open>2 ^ - 1074\<close>.\<close>

definition f64_mag :: "f64 \<Rightarrow> nat" where
  "f64_mag x = (if f64_exp x = 0 then f64_man x else (2 ^ 52 + f64_man x) * 2 ^ (f64_exp x - 1))"

definition f64_int :: "f64 \<Rightarrow> int" where
  "f64_int x = (if f64_sign x = 0 then int (f64_mag x) else - int (f64_mag x))"

definition f64_isinf :: "f64 \<Rightarrow> bool" where
  "f64_isinf x \<longleftrightarrow> f64_exp x = 2047 \<and> f64_man x = 0"

definition f64_qnan :: f64 where "f64_qnan = 0x7ff8000000000000"

definition f64_minus :: "f64 \<Rightarrow> f64" where
  "f64_minus x = x XOR push_bit 63 1"

definition f64_add :: "f64 \<Rightarrow> f64 \<Rightarrow> f64" where
  "f64_add a b =
     (if f64_isnan a \<or> f64_isnan b then f64_qnan
      else if f64_isinf a then (if f64_isinf b \<and> f64_sign a \<noteq> f64_sign b then f64_qnan else a)
      else if f64_isinf b then b
      else
        let d = f64_int a + f64_int b
        in if d = 0 then f64_make (if f64_sign a = 1 \<and> f64_sign b = 1 then 1 else 0) 0 0
           else f64_pack (if d < 0 then 1 else 0) (nat \<bar>d\<bar>) (- 1074))"

definition f64_sub :: "f64 \<Rightarrow> f64 \<Rightarrow> f64" where
  "f64_sub a b = f64_add a (f64_minus b)"

definition f64_mul :: "f64 \<Rightarrow> f64 \<Rightarrow> f64" where
  "f64_mul a b =
     (let s = (f64_sign a + f64_sign b) mod 2
      in if f64_isnan a \<or> f64_isnan b then f64_qnan
         else if f64_isinf a \<or> f64_isinf b then
           if f64_mag a = 0 \<or> f64_mag b = 0 then f64_qnan else f64_make s 2047 0
         else f64_pack s (f64_mag a * f64_mag b) (- 2148))"

text \<open>The quotient to more than 55 bits with a sticky last bit rounds like the exact quotient.\<close>

definition f64_div :: "f64 \<Rightarrow> f64 \<Rightarrow> f64" where
  "f64_div a b =
     (let s = (f64_sign a + f64_sign b) mod 2
      in if f64_isnan a \<or> f64_isnan b then f64_qnan
         else if f64_isinf a then (if f64_isinf b then f64_qnan else f64_make s 2047 0)
         else if f64_isinf b then f64_make s 0 0
         else if f64_mag b = 0 then (if f64_mag a = 0 then f64_qnan else f64_make s 2047 0)
         else
           let k = 60 + ilog2 (f64_mag b); n = f64_mag a * 2 ^ k; q = n div f64_mag b
           in f64_pack s (2 * q + (if n mod f64_mag b \<noteq> 0 then 1 else 0)) (- int k - 1))"

fun isqrt :: "nat \<Rightarrow> nat" where
  "isqrt n = (if n = 0 then 0 else let r = 2 * isqrt (n div 4) in if (r + 1) * (r + 1) \<le> n then r + 1 else r)"

declare isqrt.simps [simp del]

definition f64_sqrt :: "f64 \<Rightarrow> f64" where
  "f64_sqrt x =
     (if f64_isnan x then f64_qnan
      else if \<not> f64_isinf x \<and> f64_mag x = 0 then x
      else if f64_sign x = 1 then f64_qnan
      else if f64_isinf x then x
      else
        let n = f64_mag x * 2 ^ 120; r = isqrt n
        in f64_pack 0 (2 * r + (if r * r \<noteq> n then 1 else 0)) (- 598))"

definition f64_of_u64 :: "u64 \<Rightarrow> f64" where
  "f64_of_u64 v = f64_pack 0 (unat v) 0"

definition f64_le :: "f64 \<Rightarrow> f64 \<Rightarrow> bool" where
  "f64_le a b \<longleftrightarrow> f64_lt a b \<or> f64_eq a b"

text \<open>The \<^verbatim>\<open>double\<close> literals.\<close>

definition FR_SMOOTH :: f64 where "FR_SMOOTH = 0x3f60624dd2f1a9fc"
definition FR_MAXADJ :: f64 where "FR_MAXADJ = 0x3fa999999999999a"
definition FR_FORGET :: f64 where "FR_FORGET = 0x3feff7ced916872b"
definition FR_SHIFT_S :: f64 where "FR_SHIFT_S = 0x4020000000000000"
definition f64_1e9 :: f64 where "f64_1e9 = 0x41cdcd6500000000"
definition f64_1e6 :: f64 where "f64_1e6 = 0x412e848000000000"
definition f64_two :: f64 where "f64_two = 0x4000000000000000"

section \<open>The receiver's state\<close>

record harp_freerun_cfg =
  fc_channels :: nat
  fc_host_rate_hz :: f64
  fc_dev_rate_hz :: f64
  fc_target_frames :: nat
  fc_capacity_frames :: nat

record 's harp_freerun =
  fr_src :: 's
  fr_ch :: nat
  fr_host_rate :: f64
  fr_dev_rate :: f64
  fr_nominal :: f64
  fr_cap :: nat
  fr_target :: nat
  fr_ring :: "f32 list list"
  fr_head :: nat
  fr_tail :: nat
  fr_warm :: bool
  fr_ratio_target :: f64
  fr_ratio :: f64
  fr_obs_primed :: bool
  fr_ts0 :: u64
  fr_host0 :: u64
  fr_Sw :: f64
  fr_Sx :: f64
  fr_Sy :: f64
  fr_Sxx :: f64
  fr_Sxy :: f64
  fr_Syy :: f64
  fr_jitter :: f64
  fr_underflow :: u32
  fr_overflow :: u32
  fr_reanchors :: u32
  fr_starving :: bool

text \<open>
  \<open>ring\<close> is the memory that \<^verbatim>\<open>malloc\<close> returned, with whatever it holds, and \<open>src\<close> the resampler that
  \<^verbatim>\<open>src_callback_new\<close> returned; \<open>None\<close> is a failure.
\<close>

definition harp_freerun_new :: "harp_freerun_cfg \<Rightarrow> f32 list list option \<Rightarrow> 's option \<Rightarrow> 's harp_freerun option" where
  "harp_freerun_new c ring src =
     (if fc_channels c < 1 \<or> f64_le (fc_host_rate_hz c) f64_zero \<or> f64_le (fc_dev_rate_hz c) f64_zero \<or>
         fc_capacity_frames c < 2 \<or> fc_target_frames c \<ge> fc_capacity_frames c then None
      else
        let nominal = f64_div (fc_host_rate_hz c) (fc_dev_rate_hz c)
        in case (src, ring) of
             (Some s, Some r) \<Rightarrow>
               Some \<lparr>fr_src = s, fr_ch = fc_channels c, fr_host_rate = fc_host_rate_hz c, fr_dev_rate = fc_dev_rate_hz c,
                  fr_nominal = nominal, fr_cap = fc_capacity_frames c, fr_target = fc_target_frames c, fr_ring = r,
                  fr_head = 0, fr_tail = 0, fr_warm = False, fr_ratio_target = nominal, fr_ratio = nominal,
                  fr_obs_primed = False, fr_ts0 = 0, fr_host0 = 0, fr_Sw = 0, fr_Sx = 0, fr_Sy = 0, fr_Sxx = 0, fr_Sxy = 0,
                  fr_Syy = 0, fr_jitter = 0, fr_underflow = 0, fr_overflow = 0, fr_reanchors = 0, fr_starving = False\<rparr>
           | _ \<Rightarrow> None)"

section \<open>Clock recovery\<close>

text \<open>Moving the origin of the regression to the point \<open>(dx, dy)\<close>.\<close>

definition fr_shift :: "f64 \<Rightarrow> f64 \<Rightarrow> 's harp_freerun \<Rightarrow> 's harp_freerun" where
  "fr_shift dx dy fr =
     (let Sw = fr_Sw fr; Sx = fr_Sx fr; Sy = fr_Sy fr
      in fr\<lparr>fr_Sxx := f64_add (fr_Sxx fr) (f64_add (f64_mul (f64_mul (f64_minus f64_two) dx) Sx) (f64_mul (f64_mul Sw dx) dx)),
            fr_Sxy := f64_add (fr_Sxy fr) (f64_add (f64_sub (f64_mul (f64_minus dx) Sy) (f64_mul dy Sx)) (f64_mul (f64_mul Sw dx) dy)),
            fr_Syy := f64_add (fr_Syy fr) (f64_add (f64_mul (f64_mul (f64_minus f64_two) dy) Sy) (f64_mul (f64_mul Sw dy) dy)),
            fr_Sx := f64_sub Sx (f64_mul Sw dx),
            fr_Sy := f64_sub Sy (f64_mul Sw dy)\<rparr>)"

definition fr_accumulate :: "f64 \<Rightarrow> f64 \<Rightarrow> 's harp_freerun \<Rightarrow> 's harp_freerun" where
  "fr_accumulate x y fr =
     fr\<lparr>fr_Sw := f64_add (f64_mul FR_FORGET (fr_Sw fr)) f64_one,
        fr_Sx := f64_add (f64_mul FR_FORGET (fr_Sx fr)) x,
        fr_Sy := f64_add (f64_mul FR_FORGET (fr_Sy fr)) y,
        fr_Sxx := f64_add (f64_mul FR_FORGET (fr_Sxx fr)) (f64_mul x x),
        fr_Sxy := f64_add (f64_mul FR_FORGET (fr_Sxy fr)) (f64_mul x y),
        fr_Syy := f64_add (f64_mul FR_FORGET (fr_Syy fr)) (f64_mul y y)\<rparr>"

definition fr_measure_jitter :: "f64 \<Rightarrow> 's harp_freerun \<Rightarrow> 's harp_freerun" where
  "fr_measure_jitter slope fr =
     (if \<not> f64_lt f64_two (fr_Sw fr) then fr
      else
        let icpt = f64_div (f64_sub (fr_Sy fr) (f64_mul slope (fr_Sx fr))) (fr_Sw fr);
            sse = f64_sub (f64_sub (fr_Syy fr) (f64_mul icpt (fr_Sy fr))) (f64_mul slope (fr_Sxy fr));
            sse = (if f64_lt sse f64_zero then f64_zero else sse)
        in fr\<lparr>fr_jitter := f64_mul (f64_div (f64_sqrt (f64_div sse (fr_Sw fr))) slope) f64_1e6\<rparr>)"

text \<open>The ratio that is published for a slope, held within five per cent of the nominal one.\<close>

definition fr_clamp :: "'s harp_freerun \<Rightarrow> f64 \<Rightarrow> f64" where
  "fr_clamp fr slope =
     (let t = f64_div (fr_host_rate fr) slope;
          lo = f64_mul (fr_nominal fr) (f64_sub f64_one FR_MAXADJ);
          hi = f64_mul (fr_nominal fr) (f64_add f64_one FR_MAXADJ)
      in if f64_lt t lo then lo else if f64_lt hi t then hi else t)"

definition fr_fit :: "'s harp_freerun \<Rightarrow> 's harp_freerun" where
  "fr_fit fr =
     (let denom = f64_sub (f64_mul (fr_Sw fr) (fr_Sxx fr)) (f64_mul (fr_Sx fr) (fr_Sx fr))
      in if f64_le denom f64_zero then fr
         else
           let slope = f64_div (f64_sub (f64_mul (fr_Sw fr) (fr_Sxy fr)) (f64_mul (fr_Sx fr) (fr_Sy fr))) denom
           in if f64_le slope f64_zero then fr
              else let fr = fr_measure_jitter slope fr in fr\<lparr>fr_ratio_target := fr_clamp fr slope\<rparr>)"

definition harp_freerun_observe :: "u64 \<Rightarrow> u64 \<Rightarrow> 's harp_freerun \<Rightarrow> 's harp_freerun" where
  "harp_freerun_observe dev_ts host_ns fr =
     (if \<not> fr_obs_primed fr then fr\<lparr>fr_obs_primed := True, fr_ts0 := dev_ts, fr_host0 := host_ns\<rparr>
      else
        let x = f64_div (f64_of_u64 (host_ns - fr_host0 fr)) f64_1e9;
            y = f64_of_u64 (dev_ts - fr_ts0 fr)
        in if f64_lt FR_SHIFT_S x
           then fr_fit (fr_accumulate f64_zero f64_zero ((fr_shift x y fr)\<lparr>fr_ts0 := dev_ts, fr_host0 := host_ns\<rparr>))
           else fr_fit (fr_accumulate x y fr))"

section \<open>The elastic buffer\<close>

text \<open>\<^verbatim>\<open>memcpy\<close> of frames into the ring from position \<open>p\<close> on.\<close>

definition overwrite :: "nat \<Rightarrow> 'a list \<Rightarrow> 'a list \<Rightarrow> 'a list" where
  "overwrite p xs r = take p r @ xs @ drop (p + length xs) r"

text \<open>The producer; \<open>tail\<close> is what its load of the consumer's index returned.\<close>

definition harp_freerun_push :: "nat \<Rightarrow> f32 list list \<Rightarrow> 's harp_freerun \<Rightarrow> nat \<times> 's harp_freerun" where
  "harp_freerun_push tail inp fr =
     (let n = length inp;
          head = fr_head fr;
          space = fr_cap fr - (head - tail);
          tk = (if n < space then n else space);
          fr = (if n > tk then fr\<lparr>fr_overflow := fr_overflow fr + of_nat (n - tk)\<rparr> else fr);
          pos = head mod fr_cap fr;
          first = (if fr_cap fr - pos > tk then tk else fr_cap fr - pos);
          ring = overwrite pos (take first inp) (fr_ring fr);
          ring = (if tk > first then overwrite 0 (take (tk - first) (drop first inp)) ring else ring);
          fr = fr\<lparr>fr_ring := ring, fr_head := head + tk\<rparr>;
          fr = (if \<not> fr_warm fr \<and> head + tk - tail \<ge> fr_target fr then fr\<lparr>fr_warm := True\<rparr> else fr)
      in (tk, fr))"

text \<open>
  The consumer's input callback; \<open>head\<close> is what its load of the producer's index returned.  The result is the position and
  the length of the span that is handed to the resampler as a pointer into the ring.
\<close>

definition fr_input_cb :: "nat \<Rightarrow> 's harp_freerun \<Rightarrow> (nat \<times> nat) \<times> 's harp_freerun" where
  "fr_input_cb head fr =
     (let tail = fr_tail fr; avail = head - tail
      in if avail = 0 then ((0, 0), fr)
         else
           let pos = tail mod fr_cap fr;
               contig = (if fr_cap fr - pos > avail then avail else fr_cap fr - pos)
           in ((pos, contig), fr\<lparr>fr_tail := tail + contig\<rparr>))"

text \<open>The frames behind a pointer, at the moment they are read.\<close>

definition span_frames :: "'s harp_freerun \<Rightarrow> nat \<times> nat \<Rightarrow> f32 list list" where
  "span_frames fr sp = take (snd sp) (drop (fst sp) (fr_ring fr))"

text \<open>
  \<open>src_read\<close> is \<^verbatim>\<open>src_callback_read\<close>: the number it returns, which may be negative, and the frames it wrote.
\<close>

definition harp_freerun_pull :: "(f64 \<Rightarrow> nat \<Rightarrow> 's harp_freerun \<Rightarrow> int \<times> f32 list list \<times> 's harp_freerun)
    \<Rightarrow> nat \<Rightarrow> 's harp_freerun \<Rightarrow> nat \<times> f32 list list \<times> 's harp_freerun" where
  "harp_freerun_pull src_read n fr =
     (let silence = replicate (fr_ch fr) 0
      in if \<not> fr_warm fr then (0, replicate n silence, fr)
         else
           let fr = fr\<lparr>fr_ratio := f64_add (fr_ratio fr) (f64_mul FR_SMOOTH (f64_sub (fr_ratio_target fr) (fr_ratio fr)))\<rparr>;
               r = src_read (fr_ratio fr) n fr;
               made = (if fst r < 0 then 0 else nat (fst r));
               fr = snd (snd r);
               out = take made (fst (snd r))
           in if made < n then
                let fr = fr\<lparr>fr_underflow := fr_underflow fr + of_nat (n - made)\<rparr>;
                    fr = (if \<not> fr_starving fr then fr\<lparr>fr_starving := True, fr_reanchors := fr_reanchors fr + 1\<rparr> else fr)
                in (made, out @ replicate (n - made) silence, fr)
              else (made, out, fr\<lparr>fr_starving := False\<rparr>))"

definition harp_freerun_warm :: "'s harp_freerun \<Rightarrow> bool" where
  "harp_freerun_warm fr = fr_warm fr"

record harp_freerun_stats =
  fs_ratio :: f64
  fs_est_ppm :: f64
  fs_fill_frames :: nat
  fs_underflow_frames :: u32
  fs_overflow_frames :: u32
  fs_reanchors :: u32
  fs_jitter_us :: f64

definition harp_freerun_get_stats :: "'s harp_freerun \<Rightarrow> harp_freerun_stats" where
  "harp_freerun_get_stats fr =
     \<lparr>fs_ratio = fr_ratio_target fr,
      fs_est_ppm = f64_mul (f64_sub (f64_div (fr_nominal fr) (fr_ratio_target fr)) f64_one) f64_1e6,
      fs_fill_frames = fr_head fr - fr_tail fr, fs_underflow_frames = fr_underflow fr,
      fs_overflow_frames = fr_overflow fr, fs_reanchors = fr_reanchors fr, fs_jitter_us = fr_jitter fr\<rparr>"

section \<open>The UDP front end\<close>

definition RX_BUF :: nat where "RX_BUF = 16384"

record 's harp_rtp_rx =
  rx_ch :: nat
  rx_fr :: "'s harp_freerun"
  rx_ts64 :: u64
  rx_have_ts :: bool
  rx_have_seq :: bool
  rx_last_seq :: u16
  rx_c_ok :: u64
  rx_c_lost :: u64
  rx_c_bad :: u64
  rx_last_arr_ns :: u64

text \<open>
  What the socket does: \<^verbatim>\<open>poll\<close> fails, finds nothing, or a datagram is there, which \<^verbatim>\<open>recvmsg\<close> fails to read or
  returns; with it come the monotonic clock, the kernel's time stamp if there is one and the consumer's index that the
  push will see.
\<close>

datatype rx_event =
    Poll_Failed
  | Poll_Empty
  | Recv_Failed
  | Datagram bytes u64 "u64 option" nat

text \<open>The payload as frames of \<open>ch\<close> samples.\<close>

fun chunks :: "nat \<Rightarrow> nat \<Rightarrow> 'a list \<Rightarrow> 'a list list" where
  "chunks ch 0 xs = []"
| "chunks ch (Suc n) xs = take ch xs # chunks ch n (drop ch xs)"

definition frame_mem :: "f32 list list \<Rightarrow> bytes" where
  "frame_mem fs = float_mem (concat fs)"

definition mem_frames :: "nat \<Rightarrow> bytes \<Rightarrow> f32 list list" where
  "mem_frames ch pl = chunks ch (length pl div (ch * 4)) (mem_floats pl)"

definition rx_packet :: "bytes \<Rightarrow> u64 \<Rightarrow> u64 option \<Rightarrow> nat \<Rightarrow> 's harp_rtp_rx \<Rightarrow> bool \<times> 's harp_rtp_rx" where
  "rx_packet pkt now stamp tail rx =
     (let rx = rx\<lparr>rx_last_arr_ns := now\<rparr>;
          arr = (case stamp of None \<Rightarrow> now | Some t \<Rightarrow> if t = 0 then now else t)
      in case harp_rtp_unpack (take RX_BUF pkt) of
           None \<Rightarrow> (False, rx\<lparr>rx_c_bad := rx_c_bad rx + 1\<rparr>)
         | Some (h, pl) \<Rightarrow>
             if length pl mod (rx_ch rx * 4) \<noteq> 0 then (False, rx\<lparr>rx_c_bad := rx_c_bad rx + 1\<rparr>)
             else
               let rx = (if rx_have_seq rx then
                           (case harp_rtp_loss_gap (rx_last_seq rx) (rh_seq h) of
                              (lost, advance) \<Rightarrow>
                                let rx = rx\<lparr>rx_c_lost := rx_c_lost rx + ucast lost\<rparr>
                                in if advance then rx\<lparr>rx_last_seq := rh_seq h\<rparr> else rx)
                         else rx\<lparr>rx_last_seq := rh_seq h\<rparr>);
                   rx = rx\<lparr>rx_have_seq := True\<rparr>;
                   rx = rx\<lparr>rx_ts64 := if rx_have_ts rx then harp_rtp_unwrap_ts (rh_timestamp h) (rx_ts64 rx)
                                      else ucast (rh_timestamp h), rx_have_ts := True\<rparr>;
                   fr = harp_freerun_observe (rx_ts64 rx) arr (rx_fr rx);
                   fr = snd (harp_freerun_push tail (mem_frames (rx_ch rx) pl) fr)
               in (True, rx\<lparr>rx_fr := fr, rx_c_ok := rx_c_ok rx + 1\<rparr>))"

text \<open>The loop: \<^verbatim>\<open>None\<close> is the result -1.  The events that the loop did not reach are returned too.\<close>

fun harp_rtp_rx_poll :: "nat \<Rightarrow> rx_event list \<Rightarrow> 's harp_rtp_rx \<Rightarrow> nat option \<times> 's harp_rtp_rx \<times> rx_event list" where
  "harp_rtp_rx_poll processed [] rx = (Some processed, rx, [])"
| "harp_rtp_rx_poll processed (Poll_Failed # es) rx = (None, rx, es)"
| "harp_rtp_rx_poll processed (Poll_Empty # es) rx = (Some processed, rx, es)"
| "harp_rtp_rx_poll processed (Recv_Failed # es) rx = (None, rx, es)"
| "harp_rtp_rx_poll processed (Datagram pkt now stamp tail # es) rx =
     (case rx_packet pkt now stamp tail rx of (ok, rx) \<Rightarrow> harp_rtp_rx_poll (if ok then processed + 1 else processed) es rx)"

definition harp_rtp_rx_silent_ms :: "u64 \<Rightarrow> 's harp_rtp_rx \<Rightarrow> u32" where
  "harp_rtp_rx_silent_ms now rx =
     (if rx_last_arr_ns rx = 0 then 0xffffffff
      else if now > rx_last_arr_ns rx then ucast ((now - rx_last_arr_ns rx) div 1000000) else 0)"

record harp_rtp_tx =
  tx_ch :: nat
  tx_ssrc :: u32
  tx_seq :: u16

text \<open>The datagram that is sent, if the packet fits the buffer.\<close>

definition harp_rtp_tx_send :: "u32 \<Rightarrow> f32 list list \<Rightarrow> harp_rtp_tx \<Rightarrow> bytes option \<times> harp_rtp_tx" where
  "harp_rtp_tx_send ts frames tx =
     (let h = \<lparr>rh_pt = 96, rh_marker = 0, rh_seq = tx_seq tx, rh_timestamp = ts, rh_ssrc = tx_ssrc tx\<rparr>
      in (harp_rtp_pack RX_BUF h (frame_mem frames), tx\<lparr>tx_seq := tx_seq tx + 1\<rparr>))"

section \<open>Writing a ring\<close>

lemma length_overwrite [simp]: "p + length xs \<le> length r \<Longrightarrow> length (overwrite p xs r) = length r"
  by (simp add: overwrite_def)

lemma nth_overwrite: "p + length xs \<le> length r \<Longrightarrow> j < length r \<Longrightarrow>
    overwrite p xs r ! j = (if p \<le> j \<and> j < p + length xs then xs ! (j - p) else r ! j)"
  by (auto simp: overwrite_def nth_append)

text \<open>The two copies of a push: up to the end of the ring, and the rest from its start.\<close>

definition ring_write :: "nat \<Rightarrow> 'a list \<Rightarrow> 'a list \<Rightarrow> 'a list" where
  "ring_write h xs r =
     (let pos = h mod length r; first = min (length xs) (length r - pos);
          r' = overwrite pos (take first xs) r
      in if length xs > first then overwrite 0 (drop first xs) r' else r')"

lemma ring_slot: "i < c \<Longrightarrow> (h + i) mod c = (if h mod c + i < c then h mod c + i else h mod c + i - c)"
  for c :: nat
proof -
  assume i: "i < c"
  have "(h + i) mod c = (h mod c + i) mod c" by (simp add: mod_simps)
  moreover have "h mod c < c" using i by simp
  ultimately show ?thesis using i by (cases "h mod c + i < c") (simp_all add: le_mod_geq)
qed

lemma ring_write_spec:
  assumes "length xs \<le> length r" and "0 < length r"
  shows "length (ring_write h xs r) = length r"
    and "i < length xs \<Longrightarrow> ring_write h xs r ! ((h + i) mod length r) = xs ! i"
    and "s < length r \<Longrightarrow> (\<And>i. i < length xs \<Longrightarrow> (h + i) mod length r \<noteq> s) \<Longrightarrow> ring_write h xs r ! s = r ! s"
proof -
  let ?c = "length r" and ?n = "length xs"
  define pos first r' where "pos = h mod ?c" and "first = min ?n (?c - pos)" and "r' = overwrite pos (take first xs) r"
  have w: "ring_write h xs r = (if first < ?n then overwrite 0 (drop first xs) r' else r')"
    by (simp add: ring_write_def Let_def pos_def first_def r'_def)
  have p: "pos < ?c" using assms by (simp add: pos_def)
  have f: "pos + first \<le> ?c" "first \<le> ?n" "first < ?n \<Longrightarrow> first = ?c - pos" "?n - first \<le> ?c" using p assms by (auto simp: first_def)
  then have l': "length r' = ?c" by (simp add: r'_def)
  then show "length (ring_write h xs r) = ?c" using f by (simp add: w)
  have r': "r' ! j = (if pos \<le> j \<and> j < pos + first then xs ! (j - pos) else r ! j)" if "j < ?c" for j
    using that f by (auto simp: r'_def nth_overwrite)
  have nth: "ring_write h xs r ! j = (if pos \<le> j \<and> j < pos + first then xs ! (j - pos)
      else if first < ?n \<and> j < ?n - first then xs ! (first + j) else r ! j)" if "j < ?c" for j
  proof (cases "first < ?n")
    case True
    have le: "?n - first \<le> pos" using True f(3) assms p by linarith
    have "ring_write h xs r ! j = (if j < ?n - first then xs ! (first + j) else r' ! j)"
      using True that f(4) l' by (simp add: w nth_overwrite)
    with le True r' [OF that] show ?thesis by auto
  qed (simp add: w r' that)
  have slot: "(h + i) mod ?c = (if i < first then pos + i else i - first)" if "i < ?n" for i
  proof -
    have "i < ?c" using that assms by simp
    from ring_slot [OF this, of h] have "(h + i) mod ?c = (if pos + i < ?c then pos + i else pos + i - ?c)" by (simp add: pos_def)
    moreover have "i < first \<longleftrightarrow> pos + i < ?c" using that p by (auto simp: first_def)
    moreover have "\<not> i < first \<Longrightarrow> pos + i - ?c = i - first" using that f(3) p by auto
    ultimately show ?thesis by simp
  qed
  show "ring_write h xs r ! ((h + i) mod ?c) = xs ! i" if "i < ?n"
  proof -
    have "(h + i) mod ?c < ?c" using that assms by (cases r) simp_all
    from nth [OF this] show ?thesis
    proof (cases "i < first")
      case False
      then have "first < ?n" "i - first < ?n - first" using that by auto
      moreover have "?n - first \<le> pos" using \<open>first < ?n\<close> f(3) assms p by linarith
      ultimately show ?thesis using nth [OF \<open>(h + i) mod ?c < ?c\<close>] slot [OF that] False by simp
    qed (simp add: slot [OF that])
  qed
  show "ring_write h xs r ! s = r ! s" if s: "s < ?c" and other: "\<And>i. i < ?n \<Longrightarrow> (h + i) mod ?c \<noteq> s"
  proof -
    have "\<not> (pos \<le> s \<and> s < pos + first)"
    proof
      assume a: "pos \<le> s \<and> s < pos + first"
      then have "s - pos < ?n" "s - pos < first" using f by auto
      with other [of "s - pos"] slot [of "s - pos"] a show False by simp
    qed
    moreover have "\<not> (first < ?n \<and> s < ?n - first)"
    proof
      assume "first < ?n \<and> s < ?n - first"
      then have "first + s < ?n" by linarith
      from other [OF this] slot [OF this] show False by simp
    qed
    ultimately show ?thesis using nth [OF s] by auto
  qed
qed

text \<open>The ring holds the last frames of a history of all that was written.\<close>

definition holds_last :: "'a list \<Rightarrow> 'a list \<Rightarrow> bool" where
  "holds_last r hist \<longleftrightarrow> (\<forall>t. t < length hist \<longrightarrow> length hist \<le> t + length r \<longrightarrow> r ! (t mod length r) = hist ! t)"

lemma holds_last_write:
  assumes "holds_last r hist" and "length xs \<le> length r" and "0 < length r"
  shows "holds_last (ring_write (length hist) xs r) (hist @ xs)"
  unfolding holds_last_def
proof (intro allI impI)
  fix t
  let ?h = "length hist" and ?c = "length r"
  assume t: "t < length (hist @ xs)" "length (hist @ xs) \<le> t + length (ring_write ?h xs r)"
  note w = ring_write_spec [OF assms(2,3), where h = ?h]
  show "ring_write ?h xs r ! (t mod length (ring_write ?h xs r)) = (hist @ xs) ! t"
  proof (cases "t < ?h")
    case True
    have "(?h + i) mod ?c \<noteq> t mod ?c" if "i < length xs" for i
    proof
      assume "(?h + i) mod ?c = t mod ?c"
      then have "?c dvd (?h + i) - t" using True by (metis mod_eq_dvd_iff_nat trans_less_add1 less_imp_le)
      moreover have "0 < (?h + i) - t" "(?h + i) - t < ?c" using True that t w(1) by auto
      ultimately show False by (simp add: nat_dvd_not_less)
    qed
    moreover have "t mod ?c < ?c" using t True w(1) by (cases r) simp_all
    ultimately show ?thesis using w(3) [of "t mod ?c"] w(1) assms(1) True t by (simp add: holds_last_def nth_append)
  next
    case False
    with w(2) [of "t - ?h"] w(1) t show ?thesis by (simp add: nth_append)
  qed
qed

section \<open>The buffer under all interleavings\<close>

text \<open>
  What producer and consumer can do to the buffer in any order.  \<open>hist\<close> is the list of all frames that were accepted, \<open>outs\<close> of
  all that were handed to the resampler, \<open>lost\<close> the number of those refused; \<open>tv\<close> and \<open>hv\<close> are the indices of the
  other side that producer and consumer saw last.  A load returns a value that the other side has stored, and none older than the one seen before.
\<close>

inductive fr_reach :: "'s harp_freerun \<Rightarrow> f32 list list \<Rightarrow> f32 list list \<Rightarrow> nat \<Rightarrow> nat \<Rightarrow> nat \<Rightarrow> 's harp_freerun \<Rightarrow> bool"
  for fr0 where
  start: "fr_reach fr0 [] [] 0 0 0 fr0"
| push: "fr_reach fr0 hist outs lost tv hv fr \<Longrightarrow> tv \<le> t \<Longrightarrow> t \<le> fr_tail fr \<Longrightarrow> harp_freerun_push t inp fr = (n, fr') \<Longrightarrow>
    fr_reach fr0 (hist @ take n inp) outs (lost + (length inp - n)) t hv fr'"
| observe: "fr_reach fr0 hist outs lost tv hv fr \<Longrightarrow> fr_reach fr0 hist outs lost tv hv (harp_freerun_observe ts ns fr)"
| input: "fr_reach fr0 hist outs lost tv hv fr \<Longrightarrow> hv \<le> h \<Longrightarrow> h \<le> fr_head fr \<Longrightarrow> fr_input_cb h fr = (sp, fr') \<Longrightarrow>
    fr_reach fr0 hist (outs @ span_frames fr' sp) lost tv h fr'"

definition fr_inv :: "f32 list list \<Rightarrow> f32 list list \<Rightarrow> nat \<Rightarrow> nat \<Rightarrow> nat \<Rightarrow> 's harp_freerun \<Rightarrow> bool" where
  "fr_inv hist outs lost tv hv fr \<longleftrightarrow>
     0 < fr_cap fr \<and> length (fr_ring fr) = fr_cap fr \<and> fr_head fr = length hist \<and>
     tv \<le> fr_tail fr \<and> fr_tail fr \<le> hv \<and> hv \<le> fr_head fr \<and> fr_head fr \<le> tv + fr_cap fr \<and>
     outs = take (fr_tail fr) hist \<and> fr_overflow fr = of_nat lost \<and> holds_last (fr_ring fr) hist"

lemma push_eq:
  assumes "fr_inv hist outs lost tv hv fr" and "t \<le> fr_tail fr" and "tv \<le> t" and "harp_freerun_push t inp fr = (n, fr')"
  shows "n \<le> length inp" and "n \<le> fr_cap fr" and "length hist + n \<le> t + fr_cap fr"
    and "fr' = fr\<lparr>fr_overflow := fr_overflow fr + of_nat (length inp - n), fr_ring := ring_write (fr_head fr) (take n inp) (fr_ring fr),
      fr_head := fr_head fr + n, fr_warm := fr_warm fr \<or> fr_target fr \<le> fr_head fr + n - t\<rparr>"
proof -
  note i = assms(1) [unfolded fr_inv_def]
  let ?space = "fr_cap fr - (fr_head fr - t)"
  have n: "n = min (length inp) ?space" using assms(4) by (auto simp: harp_freerun_push_def Let_def)
  show le: "n \<le> length inp" "n \<le> fr_cap fr" "length hist + n \<le> t + fr_cap fr" using i assms(2,3) by (auto simp: n)
  have tk: "(if length inp < ?space then length inp else ?space) = n" by (simp add: n min_def)
  define pos where "pos = fr_head fr mod fr_cap fr"
  have f: "(if n < fr_cap fr - pos then n else fr_cap fr - pos) = min n (fr_cap fr - pos)" by auto
  define first where "first = min n (fr_cap fr - pos)"
  define fr1 where "fr1 = (if length inp > n then fr\<lparr>fr_overflow := fr_overflow fr + of_nat (length inp - n)\<rparr> else fr)"
  have f1: "fr1 = fr\<lparr>fr_overflow := fr_overflow fr + of_nat (length inp - n)\<rparr>" using le(1) by (simp add: fr1_def)
  have c1: "fr_cap fr1 = fr_cap fr" "fr_ring fr1 = fr_ring fr" by (simp_all add: f1)
  define ring where "ring = (if n > first then overwrite 0 (take (n - first) (drop first inp)) (overwrite pos (take first inp) (fr_ring fr))
      else overwrite pos (take first inp) (fr_ring fr))"
  have r: "ring = ring_write (fr_head fr) (take n inp) (fr_ring fr)"
    using le i by (simp add: ring_write_def Let_def pos_def drop_take ring_def first_def)
  have "fr' = (let g = fr1\<lparr>fr_ring := ring, fr_head := fr_head fr + n\<rparr>
      in if \<not> fr_warm g \<and> fr_head fr + n - t \<ge> fr_target g then g\<lparr>fr_warm := True\<rparr> else g)"
    using assms(4) unfolding harp_freerun_push_def Let_def tk fr1_def [symmetric] c1 pos_def [symmetric] f first_def [symmetric] ring_def [symmetric]
    by simp
  then show "fr' = fr\<lparr>fr_overflow := fr_overflow fr + of_nat (length inp - n), fr_ring := ring_write (fr_head fr) (take n inp) (fr_ring fr),
      fr_head := fr_head fr + n, fr_warm := fr_warm fr \<or> fr_target fr \<le> fr_head fr + n - t\<rparr>"
    unfolding Let_def f1 r by (cases "\<not> fr_warm fr \<and> fr_head fr + n - t \<ge> fr_target fr") auto
qed

text \<open>Clock recovery does not touch the buffer.\<close>

definition fr_buffer :: "'s harp_freerun \<Rightarrow> nat \<times> nat \<times> f32 list list \<times> nat \<times> nat \<times> u32" where
  "fr_buffer fr = (fr_ch fr, fr_cap fr, fr_ring fr, fr_head fr, fr_tail fr, fr_overflow fr)"

lemma fr_buffer_steps [simp]:
  "fr_buffer (fr_shift dx dy fr) = fr_buffer fr" "fr_buffer (fr_accumulate x y fr) = fr_buffer fr"
  "fr_buffer (fr_measure_jitter sl fr) = fr_buffer fr" "fr_buffer (fr\<lparr>fr_ratio_target := v\<rparr>) = fr_buffer fr"
  "fr_buffer (fr\<lparr>fr_obs_primed := p\<rparr>) = fr_buffer fr"
  "fr_buffer (fr\<lparr>fr_ts0 := a\<rparr>) = fr_buffer fr" "fr_buffer (fr\<lparr>fr_host0 := b\<rparr>) = fr_buffer fr"
  by (simp_all add: fr_buffer_def fr_shift_def fr_accumulate_def fr_measure_jitter_def Let_def)

lemma fr_buffer_fit [simp]: "fr_buffer (fr_fit fr) = fr_buffer fr"
  by (simp add: fr_fit_def Let_def)

lemma observe_buffer: "fr_buffer (harp_freerun_observe ts ns fr) = fr_buffer fr"
  by (simp add: harp_freerun_observe_def Let_def)

lemma fr_inv_buffer: "fr_buffer g = fr_buffer fr \<Longrightarrow> fr_inv hist outs lost tv hv fr \<Longrightarrow> fr_inv hist outs lost tv hv g"
  by (simp add: fr_buffer_def fr_inv_def)

lemma fr_inv_push:
  assumes "fr_inv hist outs lost tv hv fr" and "tv \<le> t" and "t \<le> fr_tail fr" and "harp_freerun_push t inp fr = (n, fr')"
  shows "fr_inv (hist @ take n inp) outs (lost + (length inp - n)) t hv fr'"
proof -
  note p = push_eq [OF assms(1,3,2,4)] and i = assms(1) [unfolded fr_inv_def]
  have l: "length (take n inp) \<le> length (fr_ring fr)" "0 < length (fr_ring fr)" "length (take n inp) = n" using p(1,2) i by simp_all
  have "holds_last (ring_write (fr_head fr) (take n inp) (fr_ring fr)) (hist @ take n inp)"
    using holds_last_write [of "fr_ring fr" hist "take n inp"] l i by simp
  moreover have "length (ring_write (fr_head fr) (take n inp) (fr_ring fr)) = fr_cap fr"
    using ring_write_spec(1) [OF l(1,2)] i by simp
  ultimately show ?thesis using i p(3) l(3) assms(3) by (simp add: fr_inv_def p(4))
qed

text \<open>The span that the callback hands out holds the oldest frames that were not handed out before.\<close>

lemma fr_inv_input:
  assumes "fr_inv hist outs lost tv hv fr" and "hv \<le> h" and "h \<le> fr_head fr" and "fr_input_cb h fr = (sp, fr')"
  shows "fr_inv hist (outs @ span_frames fr' sp) lost tv h fr'"
proof (cases "h = fr_tail fr")
  case True
  then have "sp = (0, 0)" "fr' = fr" using assms(4) by (simp_all add: fr_input_cb_def)
  with assms(1-3) True show ?thesis by (simp add: fr_inv_def span_frames_def)
next
  case False
  note i = assms(1) [unfolded fr_inv_def]
  define T c pos where "T = fr_tail fr" and "c = fr_cap fr" and "pos = T mod c"
  define k where "k = min (h - T) (c - pos)"
  have T: "T < h" using False i assms(2) by (simp add: T_def)
  have e: "sp = (pos, k)" "fr' = fr\<lparr>fr_tail := T + k\<rparr>"
    using assms(4) T by (auto simp: fr_input_cb_def Let_def T_def c_def pos_def k_def min_def split: if_splits)
  have pos: "pos < c" using i by (simp add: pos_def c_def)
  have k: "T + k \<le> h" "pos + k \<le> c" using T pos by (auto simp: k_def)
  have l: "length (fr_ring fr) = c" "T + k \<le> length hist" "length hist \<le> T + c" using i k assms(3) by (auto simp: T_def c_def)
  have hl: "holds_last (fr_ring fr) hist" using i by simp
  have "span_frames fr' sp = take k (drop T hist)"
  proof (rule nth_equalityI)
    show "length (span_frames fr' sp) = length (take k (drop T hist))" using e k l by (simp add: span_frames_def)
    fix j assume "j < length (span_frames fr' sp)"
    then have j: "j < k" by (simp add: span_frames_def e)
    then have "(T + j) mod c = pos + j" using ring_slot [of j c T] k pos by (simp add: pos_def)
    moreover have "fr_ring fr ! ((T + j) mod c) = hist ! (T + j)"
      using i l j k hl [unfolded holds_last_def, rule_format, of "T + j"] by simp
    ultimately show "span_frames fr' sp ! j = take k (drop T hist) ! j" using j k l by (simp add: span_frames_def e)
  qed
  moreover have "take T hist @ take k (drop T hist) = take (T + k) hist" by (simp add: take_add)
  ultimately show ?thesis using i k assms(2,3) e by (auto simp: fr_inv_def T_def)
qed

lemma fr_reach_inv:
  assumes "fr_reach fr0 hist outs lost tv hv fr" and "fr_inv [] [] 0 0 0 fr0"
  shows "fr_inv hist outs lost tv hv fr"
  using assms
proof (induction rule: fr_reach.induct)
  case (push hist outs lost tv hv fr t inp n fr')
  then show ?case by (intro fr_inv_push) simp_all
next
  case (observe hist outs lost tv hv fr ts ns)
  then show ?case by (intro fr_inv_buffer [OF observe_buffer]) simp
next
  case (input hist outs lost tv hv fr h sp fr')
  then show ?case by (intro fr_inv_input) simp_all
qed

lemma fr_new_inv: "harp_freerun_new cfg (Some ring) src = Some fr0 \<Longrightarrow> length ring = fc_capacity_frames cfg \<Longrightarrow> fr_inv [] [] 0 0 0 fr0"
  by (auto simp: harp_freerun_new_def Let_def fr_inv_def holds_last_def split: if_splits option.splits)


definition ex_fr_cfg :: harp_freerun_cfg where
  "ex_fr_cfg = \<lparr>fc_channels = 1, fc_host_rate_hz = f64_1e6, fc_dev_rate_hz = f64_1e6, fc_target_frames = 1, fc_capacity_frames = 2\<rparr>"


section \<open>The resampler's side\<close>

text \<open>
  A block that is pulled always has the length asked for; what the resampler did not make is silent and counted, and
  a re-anchor is counted when starvation begins.
\<close>

lemma pull_fills:
  assumes "\<And>r n g made out g'. src_read r n g = (made, out, g') \<Longrightarrow> made \<le> int n \<and> int (length out) = max made 0"
    and "harp_freerun_pull src_read n fr = (made, out, fr')"
  shows "length out = n \<and> made \<le> n \<and> drop made out = replicate (n - made) (replicate (fr_ch fr) 0)"
proof (cases "fr_warm fr")
  case False
  with assms(2) show ?thesis by (auto simp: harp_freerun_pull_def Let_def)
next
  case True
  define g where "g = fr\<lparr>fr_ratio := f64_add (fr_ratio fr) (f64_mul FR_SMOOTH (f64_sub (fr_ratio_target fr) (fr_ratio fr)))\<rparr>"
  obtain m o' h where s: "src_read (fr_ratio g) n g = (m, o', h)" by (metis prod_cases3)
  from assms(1) [OF s] have l: "nat m \<le> n" "length o' = nat m" by auto
  have "made = nat m" "out = o' @ replicate (n - nat m) (replicate (fr_ch fr) 0)"
    using assms(2) True s l unfolding harp_freerun_pull_def Let_def g_def [symmetric] by (auto split: if_splits)
  with l show ?thesis by simp
qed

section \<open>The clock\<close>

lemma isqrt_correct: "isqrt n * isqrt n \<le> n \<and> n < (isqrt n + 1) * (isqrt n + 1)"
proof (induction n rule: isqrt.induct)
  case (1 n)
  show ?case
  proof (cases "n = 0")
    case True
    then show ?thesis by (simp add: isqrt.simps)
  next
    case False
    define q where "q = isqrt (n div 4)"
    have q: "q * q \<le> n div 4" "n div 4 < (q + 1) * (q + 1)" using 1 [OF False] by (simp_all add: q_def)
    have "4 * (q * q) \<le> n" "n < 4 * ((q + 1) * (q + 1))" using q by linarith+
    moreover have "isqrt n = (if (2 * q + 1) * (2 * q + 1) \<le> n then 2 * q + 1 else 2 * q)"
      using False by (subst isqrt.simps) (simp add: Let_def q_def)
    ultimately show ?thesis by (simp add: algebra_simps)
  qed
qed

lemma fr_clamp_bounds:
  assumes "\<not> f64_lt (f64_mul (fr_nominal fr) (f64_add f64_one FR_MAXADJ)) (f64_mul (fr_nominal fr) (f64_sub f64_one FR_MAXADJ))"
  shows "\<not> f64_lt (fr_clamp fr s) (f64_mul (fr_nominal fr) (f64_sub f64_one FR_MAXADJ)) \<and>
    \<not> f64_lt (f64_mul (fr_nominal fr) (f64_add f64_one FR_MAXADJ)) (fr_clamp fr s)"
  using assms by (auto simp: fr_clamp_def Let_def f64_lt_def)

lemma fr_nominal_steps [simp]:
  "fr_nominal (fr_shift dx dy fr) = fr_nominal fr" "fr_nominal (fr_accumulate x y fr) = fr_nominal fr"
  "fr_nominal (fr_measure_jitter sl fr) = fr_nominal fr"
  "fr_ratio_target (fr_shift dx dy fr) = fr_ratio_target fr" "fr_ratio_target (fr_accumulate x y fr) = fr_ratio_target fr"
  "fr_ratio_target (fr_measure_jitter sl fr) = fr_ratio_target fr"
  by (simp_all add: fr_shift_def fr_accumulate_def fr_measure_jitter_def Let_def)

lemma fr_fit_target: "fr_nominal (fr_fit fr) = fr_nominal fr \<and>
    (fr_ratio_target (fr_fit fr) = fr_ratio_target fr \<or> (\<exists>g s. fr_ratio_target (fr_fit fr) = fr_clamp (g :: 's harp_freerun) s \<and> fr_nominal g = fr_nominal fr))"
  for fr :: "'s harp_freerun"
proof -
  define d s where "d = f64_sub (f64_mul (fr_Sw fr) (fr_Sxx fr)) (f64_mul (fr_Sx fr) (fr_Sx fr))"
    and "s = f64_div (f64_sub (f64_mul (fr_Sw fr) (fr_Sxy fr)) (f64_mul (fr_Sx fr) (fr_Sy fr))) d"
  let ?g = "fr_measure_jitter s fr"
  have e: "fr_fit fr = (if f64_le d f64_zero \<or> f64_le s f64_zero then fr else ?g\<lparr>fr_ratio_target := fr_clamp ?g s\<rparr>)"
    by (simp add: fr_fit_def Let_def d_def s_def)
  show ?thesis
  proof (cases "f64_le d f64_zero \<or> f64_le s f64_zero")
    case False
    then show ?thesis unfolding e by (intro conjI disjI2 exI [of _ ?g] exI [of _ s]) simp_all
  qed (simp add: e)
qed

text \<open>
  Whatever the arrival times and timestamps are, the ratio that clock recovery publishes is never a number outside five per cent of
  the nominal ratio: after every observation it is the one published before, or it is neither below the lower nor above the
  upper limit.
\<close>

theorem ratio_bounded:
  fixes fr :: "'s harp_freerun"
  assumes "lo = f64_mul (fr_nominal fr) (f64_sub f64_one FR_MAXADJ)" and "hi = f64_mul (fr_nominal fr) (f64_add f64_one FR_MAXADJ)"
    and "\<not> f64_lt hi lo" and "g = harp_freerun_observe ts ns fr"
  shows "fr_ratio_target g = fr_ratio_target fr \<or> \<not> f64_lt (fr_ratio_target g) lo \<and> \<not> f64_lt hi (fr_ratio_target g)"
proof -
  have "fr_ratio_target g = fr_ratio_target fr \<or> (\<exists>h s. fr_ratio_target g = fr_clamp (h :: 's harp_freerun) s \<and> fr_nominal h = fr_nominal fr)"
  proof (cases "fr_obs_primed fr")
    case True
    obtain h where "g = fr_fit h" "fr_ratio_target h = fr_ratio_target fr" "fr_nominal h = fr_nominal fr"
      using True assms(4) by (simp add: harp_freerun_observe_def Let_def split: if_splits)
    then show ?thesis using fr_fit_target [of h] by auto
  qed (simp add: assms(4) harp_freerun_observe_def)
  then show ?thesis using fr_clamp_bounds assms(1-3) by metis
qed

section \<open>From the sender to the buffer\<close>

lemma ucast_add32: "(ucast (a + b) :: u32) = ucast a + ucast b"
  for a b :: u64
proof (rule unsigned_word_eqI)
  show "uint (ucast (a + b) :: u32) = uint (ucast a + ucast b :: u32)"
    by (simp add: unsigned_ucast_eq uint_word_ariths take_bit_eq_mod mod_mod_cancel mod_add_eq)
qed

lemma ucast_scast32: "(ucast (scast x :: u64) :: u32) = x"
  for x :: u32
  by (rule bit_word_eqI) (auto simp: bit_simps)

lemma chunks_concat: "\<forall>f\<in>set fs. length f = ch \<Longrightarrow> chunks ch (length fs) (concat fs) = fs"
  by (induction fs) auto

lemma mem_frames_mem: "0 < ch \<Longrightarrow> \<forall>f\<in>set fs. length f = ch \<Longrightarrow> mem_frames ch (frame_mem fs) = fs"
proof -
  assume ch: "0 < ch" and l: "\<forall>f\<in>set fs. length f = ch"
  have "length (concat fs) = length fs * ch" using l by (induction fs) auto
  with ch chunks_concat [OF l] show ?thesis by (simp add: mem_frames_def frame_mem_def mult.assoc [symmetric])
qed

text \<open>
  Frames that \<^verbatim>\<open>harp_rtp_tx_send\<close> sends and that arrive are pushed into the buffer of the receiver unchanged: the packet
  is accepted and counted, and the buffer is the one after the observation of its timestamp and a push of exactly
  these frames.
\<close>

theorem udp_frames_arrive:
  assumes "harp_rtp_tx_send ts frames tx = (Some d, tx')" and "\<forall>f\<in>set frames. length f = tx_ch tx" and "0 < tx_ch tx"
    and "rx_ch rx = tx_ch tx" and "rx_packet d now stamp tail rx = (ok, rx')"
  shows "ok \<and> rx_c_ok rx' = rx_c_ok rx + 1 \<and> rx_c_bad rx' = rx_c_bad rx \<and>
    (\<exists>arr. rx_fr rx' = snd (harp_freerun_push tail frames (harp_freerun_observe (rx_ts64 rx') arr (rx_fr rx)))) \<and>
    (ucast (rx_ts64 rx') :: u32) = ts"
proof -
  let ?h = "\<lparr>rh_pt = 96, rh_marker = 0, rh_seq = tx_seq tx, rh_timestamp = ts, rh_ssrc = tx_ssrc tx\<rparr>"
  have p: "harp_rtp_pack RX_BUF ?h (frame_mem frames) = Some d" using assms(1) by (simp add: harp_rtp_tx_send_def Let_def)
  have u: "harp_rtp_unpack d = Some (?h, frame_mem frames)" using unpack_pack [OF p] by simp
  have l: "take RX_BUF d = d" using p by (auto simp: harp_rtp_pack_def HARP_RTP_HDR_BYTES_def rtp_put16_def rtp_put32_def split: if_splits)
  have f: "mem_frames (tx_ch tx) (frame_mem frames) = frames" by (rule mem_frames_mem [OF assms(3,2)])
  have "length (concat frames) = length frames * tx_ch tx" using assms(2) by (induction frames) auto
  then have m: "length (frame_mem frames) mod (tx_ch tx * 4) = 0" by (simp add: frame_mem_def mult.assoc [symmetric])
  have c: "(ucast (harp_rtp_unwrap_ts ts t) :: u32) = ts" for t
    by (simp add: harp_rtp_unwrap_ts_def ucast_add32 ucast_scast32)
  show ?thesis
    using assms(5) by (cases "rx_have_seq rx"; cases "harp_rtp_loss_gap (rx_last_seq rx) (tx_seq tx)")
      (auto simp: rx_packet_def Let_def l u m f assms(4) c)
qed

lemma udp_frames_arrive_witness:
  "\<exists>d tx'. harp_rtp_tx_send 5 [[1, 2]] \<lparr>tx_ch = 2, tx_ssrc = 7, tx_seq = 0\<rparr> = (Some d, tx') \<and>
     fst (rx_packet d 9 None 0 \<lparr>rx_ch = 2, rx_fr = the (harp_freerun_new ex_fr_cfg (Some [[0], [0]]) (Some ())), rx_ts64 = 0,
       rx_have_ts = False, rx_have_seq = False, rx_last_seq = 0, rx_c_ok = 0, rx_c_lost = 0, rx_c_bad = 0, rx_last_arr_ns = 0\<rparr>)"
proof -
  let ?tx = "\<lparr>tx_ch = 2, tx_ssrc = 7, tx_seq = 0\<rparr>"
  let ?rx = "\<lparr>rx_ch = 2, rx_fr = the (harp_freerun_new ex_fr_cfg (Some [[0], [0]]) (Some ())), rx_ts64 = 0,
       rx_have_ts = False, rx_have_seq = False, rx_last_seq = 0, rx_c_ok = 0, rx_c_lost = 0, rx_c_bad = 0, rx_last_arr_ns = 0\<rparr>"
  obtain d tx' where d: "harp_rtp_tx_send 5 [[1, 2]] ?tx = (Some d, tx')"
    by (simp add: harp_rtp_tx_send_def Let_def harp_rtp_pack_def RX_BUF_def HARP_RTP_HDR_BYTES_def frame_mem_def)
  obtain ok rx' where r: "rx_packet d 9 None 0 ?rx = (ok, rx')" by fastforce
  from udp_frames_arrive [OF d _ _ _ r] have ok by simp
  with d r show ?thesis by simp
qed

end
