(* ===== verification/Harp_Panel.thy ===== *)
theory Harp_Panel
  imports Harp_Recall Harp_Refset Harp_Freerun
begin

text \<open>
  The front panel (\<^verbatim>\<open>device/panel.c\<close>): a line protocol over a local socket.  First the conversions of the C library that the
  panel uses, then the JSON replies, the patch load, the dispatch of one line, the line splitter of a connection and
  one round of the \<^verbatim>\<open>poll\<close> loop.  \<^verbatim>\<open>sscanf\<close> follows the C standard: an input item that is only the beginning of a number
  does not match.  A connection is the kernel script of \<^verbatim>\<open>Harp_Io\<close>.
\<close>

unbundle bit_operations_syntax

section \<open>Number conversions\<close>

definition is_space :: "u8 \<Rightarrow> bool" where "is_space c \<longleftrightarrow> c = 32 \<or> 9 \<le> c \<and> c \<le> 13"
definition is_digit :: "u8 \<Rightarrow> bool" where "is_digit c \<longleftrightarrow> 48 \<le> c \<and> c \<le> 57"
definition to_lower :: "u8 \<Rightarrow> u8" where "to_lower c = (if 65 \<le> c \<and> c \<le> 90 then c + 32 else c)"

definition is_xdigit :: "u8 \<Rightarrow> bool" where
  "is_xdigit c \<longleftrightarrow> is_digit c \<or> 97 \<le> to_lower c \<and> to_lower c \<le> 102"

definition xdigit_val :: "u8 \<Rightarrow> nat" where
  "xdigit_val c = (if is_digit c then unat c - 48 else unat (to_lower c) - 87)"

definition digits_val :: "nat \<Rightarrow> bytes \<Rightarrow> nat" where
  "digits_val base ds = foldl (\<lambda>n c. n * base + xdigit_val c) 0 ds"

definition skip_space :: "bytes \<Rightarrow> bytes" where "skip_space = dropWhile is_space"

text \<open>An optional sign; 1 is minus.\<close>

fun scan_sign :: "bytes \<Rightarrow> nat \<times> bytes" where
  "scan_sign (c # xs) = (if c = 45 then (1, xs) else if c = 43 then (0, xs) else (0, c # xs))"
| "scan_sign [] = (0, [])"

text \<open>
  \<^verbatim>\<open>atoi\<close>, and the value of a matching \<^verbatim>\<open>%d\<close>: \<^verbatim>\<open>strtol\<close> clamps to a 64-bit \<^verbatim>\<open>long\<close>, of which the low 32 bits are kept.
\<close>

definition atoi :: "bytes \<Rightarrow> int" where
  "atoi xs =
     (case scan_sign (skip_space xs) of
        (s, xs) \<Rightarrow>
          let n = int (digits_val 10 (takeWhile is_digit xs));
              l = (if s = 1 then max (- (2 ^ 63)) (- n) else min (2 ^ 63 - 1) n)
          in sint (word_of_int l :: u32))"

text \<open>The nearest \<^verbatim>\<open>double\<close> to \<open>n / m\<close>; the quotient has more than 55 bits and a sticky last one, as in \<open>f64_div\<close>.\<close>

definition f64_ratio :: "nat \<Rightarrow> nat \<Rightarrow> nat \<Rightarrow> f64" where
  "f64_ratio s n m =
     (let k = 60 + ilog2 m; q = n * 2 ^ k div m
      in f64_pack s (2 * q + (if n * 2 ^ k mod m \<noteq> 0 then 1 else 0)) (- int k - 1))"

definition f64_scaled :: "nat \<Rightarrow> nat \<Rightarrow> nat \<Rightarrow> int \<Rightarrow> f64" where
  "f64_scaled s n base e = (if e \<ge> 0 then f64_ratio s (n * base ^ nat e) 1 else f64_ratio s n (base ^ nat (- e)))"

definition scan_mantissa :: "(u8 \<Rightarrow> bool) \<Rightarrow> bytes \<Rightarrow> bytes \<times> bytes \<times> bytes" where
  "scan_mantissa isdig xs =
     (case dropWhile isdig xs of
        c # r \<Rightarrow> if c = 46 then (takeWhile isdig xs, takeWhile isdig r, dropWhile isdig r)
                 else (takeWhile isdig xs, [], c # r)
      | [] \<Rightarrow> (takeWhile isdig xs, [], []))"

text \<open>An optional exponent after the letter \<open>e\<close>; \<open>None\<close> if the letter is there and the digits are not.\<close>

definition scan_exponent :: "u8 \<Rightarrow> bytes \<Rightarrow> (int \<times> bytes) option" where
  "scan_exponent e xs =
     (case xs of
        [] \<Rightarrow> Some (0, [])
      | c # r \<Rightarrow>
          if to_lower c \<noteq> e then Some (0, xs)
          else case scan_sign r of
                 (s, r) \<Rightarrow>
                   let ds = takeWhile is_digit r; n = int (digits_val 10 ds)
                   in if ds = [] then None else Some (if s = 1 then - n else n, dropWhile is_digit r))"

definition scan_number :: "nat \<Rightarrow> (u8 \<Rightarrow> bool) \<Rightarrow> nat \<Rightarrow> u8 \<Rightarrow> nat \<Rightarrow> bytes \<Rightarrow> (f64 \<times> bytes) option" where
  "scan_number s isdig base e scale xs =
     (case scan_mantissa isdig xs of
        (ds, fs, r) \<Rightarrow>
          if ds @ fs = [] then None
          else case scan_exponent e r of
                 None \<Rightarrow> None
               | Some (x, r) \<Rightarrow>
                   let n = digits_val base (ds @ fs)
                   in Some (f64_scaled s n scale (x - int (length fs) * (if base = 16 then 4 else 1)), r))"

text \<open>\<open>xs\<close> after the word \<open>w\<close> in any case.\<close>

definition strip_word :: "bytes \<Rightarrow> bytes \<Rightarrow> bytes option" where
  "strip_word w xs = (if map to_lower (take (length w) xs) = w then Some (drop (length w) xs) else None)"

definition scan_inf :: "nat \<Rightarrow> bytes \<Rightarrow> (f64 \<times> bytes) option" where
  "scan_inf s r =
     (if map to_lower (take 1 r) = str ''i''
      then map_option (Pair (f64_make s 2047 0)) (strip_word (str ''inity'') r)
      else Some (f64_make s 2047 0, r))"

definition scan_nan :: "bytes \<Rightarrow> (f64 \<times> bytes) option" where
  "scan_nan r =
     (if take 1 r \<noteq> [40] then Some (f64_qnan, r)
      else
        let r = dropWhile (\<lambda>c. is_digit c \<or> 97 \<le> to_lower c \<and> to_lower c \<le> 122 \<or> c = 95) (drop 1 r)
        in if take 1 r = [41] then Some (f64_qnan, drop 1 r) else None)"

text \<open>\<^verbatim>\<open>%lf\<close>.\<close>

definition scan_lf :: "bytes \<Rightarrow> (f64 \<times> bytes) option" where
  "scan_lf xs =
     (case scan_sign (skip_space xs) of
        (s, xs) \<Rightarrow>
          (case strip_word (str ''inf'') xs of
             Some r \<Rightarrow> scan_inf s r
           | None \<Rightarrow>
               (case strip_word (str ''nan'') xs of
                  Some r \<Rightarrow> scan_nan r
                | None \<Rightarrow>
                    (case strip_word (str ''0x'') xs of
                       Some r \<Rightarrow> scan_number s is_xdigit 16 112 2 r
                     | None \<Rightarrow> scan_number s is_digit 10 101 10 xs))))"

text \<open>\<^verbatim>\<open>sscanf(s, "%lf %lf %lf", ...)\<close>: the numbers up to the first that does not match.\<close>

fun scan_lfs :: "nat \<Rightarrow> bytes \<Rightarrow> f64 list" where
  "scan_lfs 0 xs = []"
| "scan_lfs (Suc k) xs = (case scan_lf xs of None \<Rightarrow> [] | Some (v, r) \<Rightarrow> v # scan_lfs k r)"

text \<open>\<^verbatim>\<open>%15s\<close>.\<close>

definition scan_word15 :: "bytes \<Rightarrow> (bytes \<times> bytes) option" where
  "scan_word15 xs =
     (let xs = skip_space xs; w = take 15 (takeWhile (\<lambda>c. \<not> is_space c) xs)
      in if w = [] then None else Some (w, drop (length w) xs))"

text \<open>\<^verbatim>\<open>%.4f\<close>: the exact value rounded to four places, ties to even.\<close>

definition print4 :: "f64 \<Rightarrow> bytes" where
  "print4 x =
     (if f64_sign x = 1 then str ''-'' else []) @
     (if f64_isnan x then str ''nan''
      else if f64_isinf x then str ''inf''
      else
        let n = rne (f64_mag x * 10000) 1074; fr = n mod 10000
        in decimal (n div 10000) @ str ''.'' @
           map (\<lambda>k. 48 + of_nat (fr div k mod 10)) [1000, 100, 10, 1])"


section \<open>Replies\<close>

definition PANEL_BODY :: nat where "PANEL_BODY = 4096"
definition INT_MAX :: nat where "INT_MAX = 2147483647"

definition json_bool :: "bool \<Rightarrow> bytes" where
  "json_bool b = (if b then str ''true'' else str ''false'')"

definition json_int :: "int \<Rightarrow> bytes" where
  "json_int n = (if n < 0 then str ''-'' else []) @ decimal (nat \<bar>n\<bar>)"

abbreviation json_u64 :: "u64 \<Rightarrow> bytes" where "json_u64 v \<equiv> decimal (unat v)"

text \<open>
  \<^verbatim>\<open>off += snprintf(body + off, sz - off, ...)\<close>.  The state is the string in the body and \<^verbatim>\<open>off\<close>, which counts what would have
  been written.  Once \<^verbatim>\<open>off\<close> is past \<^verbatim>\<open>sz\<close> the difference wraps and the call writes outside of the buffer: \<open>None\<close>.
\<close>

definition body_appendf :: "nat \<Rightarrow> bytes \<Rightarrow> (bytes \<times> nat) option \<Rightarrow> (bytes \<times> nat) option" where
  "body_appendf sz t st =
     (case st of
        None \<Rightarrow> None
      | Some (body, off) \<Rightarrow> if off > sz then None else Some (body @ snprintf (sz - off) t, off + length t))"

definition live_dirty :: "'s device \<Rightarrow> bool" where
  "live_dirty d =
     (if dv_live_cache_valid d then rf_dirty (dv_live_cache d)
      else case harp_store_ref_read (dv_store d) LIVE_REF of None \<Rightarrow> False | Some r \<Rightarrow> rf_dirty r)"

definition panel_params_head :: "'s device \<Rightarrow> int \<Rightarrow> bytes" where
  "panel_params_head d part =
     str ''{\"product\":\"'' @ (case cf_product (dv_config d) of None \<Rightarrow> str ''harp-refdev'' | Some p \<Rightarrow> p) @
     str ''\",\"serial\":\"'' @ cf_serial (dv_config d) @ str ''\",\"part\":'' @ json_int part @
     str '',\"dirty\":'' @ json_bool (live_dirty d) @ str '',\"params\":[''"

definition panel_param_json :: "'s device \<Rightarrow> int \<Rightarrow> nat \<Rightarrow> bytes" where
  "panel_param_json d part i =
     (if i \<noteq> 0 then str '','' else []) @ str ''{\"id\":'' @ decimal (unat (dp_id (g_params ! i))) @
     str '',\"name\":\"'' @ dp_name (g_params ! i) @ str ''\",\"value\":'' @
     print4 (f64_of_f32 (engine_part_param_get (en_parts (dv_engine d)) part (dp_id (g_params ! i)))) @ str ''}''"

definition panel_json_params :: "'s device \<Rightarrow> int \<Rightarrow> nat \<Rightarrow> bytes option" where
  "panel_json_params d part sz =
     (let part = (if part < 0 \<or> part \<ge> int NPARTS then 0 else part);
          st = body_appendf sz (panel_params_head d part) (Some ([], 0));
          st = foldl (\<lambda>st i. body_appendf sz (panel_param_json d part i) st) st [0..<NPARAMS]
      in map_option fst (body_appendf sz (str '']}'') st))"

text \<open>
  The growable reply.  \<open>rj_buf\<close> is the string written so far, so that its length is \<^verbatim>\<open>off\<close>; \<open>alloc\<close> says whether
  \<^verbatim>\<open>realloc\<close> succeeds for a size.
\<close>

record refs_json =
  rj_buf :: bytes
  rj_cap :: nat
  rj_n :: nat
  rj_oom :: bool

function grow_cap :: "nat \<Rightarrow> nat \<Rightarrow> nat" where
  "grow_cap ncap want = (if 0 < ncap \<and> ncap < want then grow_cap (ncap * 2) want else ncap)"
  by pat_completeness auto
termination
  by (relation "measure (\<lambda>(ncap, want). want - ncap)") auto

declare grow_cap.simps [simp del]

lemma grow_cap_enough: "0 < ncap \<Longrightarrow> want \<le> grow_cap ncap want"
  by (induction ncap want rule: grow_cap.induct) (subst grow_cap.simps, simp)

function refs_appendf :: "(nat \<Rightarrow> bool) \<Rightarrow> bytes \<Rightarrow> refs_json \<Rightarrow> refs_json" where
  "refs_appendf alloc t j =
     (if rj_oom j then j
      else if length t > INT_MAX then j\<lparr>rj_oom := True\<rparr>
      else if length t < rj_cap j - length (rj_buf j) then j\<lparr>rj_buf := rj_buf j @ t\<rparr>
      else
        let want = length (rj_buf j) + length t + 1;
            ncap = grow_cap (if rj_cap j \<noteq> 0 then rj_cap j else 1024) want
        in if \<not> alloc ncap then j\<lparr>rj_oom := True\<rparr> else refs_appendf alloc t (j\<lparr>rj_cap := ncap\<rparr>))"
  by pat_completeness auto
termination
proof (relation "measure (\<lambda>(alloc, t, j). length (rj_buf j) + length t + 1 - rj_cap j)")
  fix alloc :: "nat \<Rightarrow> bool" and t :: bytes and j :: refs_json and want ncap
  assume "\<not> length t < rj_cap j - length (rj_buf j)" and "want = length (rj_buf j) + length t + 1"
    and "ncap = grow_cap (if rj_cap j \<noteq> 0 then rj_cap j else 1024) want"
  moreover from this grow_cap_enough [of "if rj_cap j \<noteq> 0 then rj_cap j else 1024" want] have "want \<le> ncap"
    by simp
  ultimately show "((alloc, t, j\<lparr>rj_cap := ncap\<rparr>), alloc, t, j)
      \<in> measure (\<lambda>(alloc, t, j). length (rj_buf j) + length t + 1 - rj_cap j)" by simp
qed simp

declare refs_appendf.simps [simp del]

definition panel_ref_json :: "'s device \<Rightarrow> harp_ref \<Rightarrow> bytes" where
  "panel_ref_json d r =
     (let shown = (if dv_live_cache_valid d \<and> rf_name r = LIVE_REF then dv_live_cache d else r);
          hex = (if rf_unborn shown then [] else take 12 (harp_hash_hex (rf_hash shown)))
      in str ''{\"name\":\"'' @ rf_name shown @ str ''\",\"hash\":\"'' @ hex @ str ''\",\"gen\":'' @
         json_u64 (rf_generation shown) @ str '',\"dirty\":'' @ json_bool (rf_dirty shown) @ str ''}'')"

definition panel_refs_cb :: "(nat \<Rightarrow> bool) \<Rightarrow> 's device \<Rightarrow> harp_ref \<Rightarrow> refs_json \<Rightarrow> refs_json" where
  "panel_refs_cb alloc d r j =
     refs_appendf alloc ((if rj_n j \<noteq> 0 then str '','' else []) @ panel_ref_json d r) (j\<lparr>rj_n := Suc (rj_n j)\<rparr>)"

definition panel_json_refs :: "(nat \<Rightarrow> bool) \<Rightarrow> 's device \<Rightarrow> bytes option" where
  "panel_json_refs alloc d =
     (let j = refs_appendf alloc (str ''{\"refs\":['') \<lparr>rj_buf = [], rj_cap = 0, rj_n = 0, rj_oom = False\<rparr>;
          j = snd (harp_store_ref_list (dv_store d) (panel_refs_cb alloc d) j);
          j = refs_appendf alloc (str '']}'') j
      in if rj_oom j then None else Some (rj_buf j))"

definition panel_json_counters :: "'s device \<Rightarrow> nat \<Rightarrow> bytes" where
  "panel_json_counters d sz =
     (let c = dv_ctr d; g = dv_engine d
      in snprintf sz
           (str ''{\"frame_errors\":'' @ json_u64 (ct_frame_errors c) @
            str '',\"session_resets\":'' @ json_u64 (ct_session_resets c) @
            str '',\"audio_overruns\":'' @ json_u64 (ct_audio_overruns c) @
            str '',\"snapshots\":'' @ json_u64 (ct_snapshots_taken c) @
            str '',\"evq_drops\":'' @ json_u64 (en_evq_drops g) @
            str '',\"evt_late\":'' @ json_u64 (en_evt_late g) @
            str '',\"ramp_late\":'' @ json_u64 (en_ramp_late g) @
            str '',\"fence_waits\":'' @ json_u64 (en_fence_waits g) @
            str '',\"fence_timeouts\":'' @ json_u64 (en_fence_timeouts g) @
            str '',\"boot\":'' @ json_u64 (cf_boot_count (dv_config d)) @
            str '',\"session\":'' @ json_bool (dv_hello_done d) @
            str '',\"streaming\":'' @ json_bool (au_thread_live (dv_audio d)) @ str ''}''))"

section \<open>Loading a patch\<close>

text \<open>The part of \<^verbatim>\<open>panel_revert\<close> from the load on.  The result of the second read of the live ref is not checked; a read that fails leaves it unborn.\<close>

definition revert_live :: "harp_hash \<Rightarrow> harp_ref \<Rightarrow> harp_ref" where
  "revert_live h live =
     live\<lparr>rf_unborn := False, rf_hash := h, rf_generation := rf_generation live + 1, rf_dirty := False\<rparr>"

definition echo_part0 :: "'s device \<Rightarrow> 's device" where
  "echo_part0 d =
     foldl (\<lambda>d i. evt_echo_param (dp_id (g_params ! i))
                    (engine_part_param_get (en_parts (dv_engine d)) 0 (dp_id (g_params ! i))) 0 d) d [0..<NPARAMS]"

definition revert_load :: "harp_hash \<Rightarrow> 's device \<Rightarrow> bool \<times> 's device" where
  "revert_load h d =
     (case engine_load_snapshot h d of
        (False, d) \<Rightarrow> (False, d)
      | (True, d) \<Rightarrow>
          let d = live_cache_flush d;
              live = (case harp_store_ref_read (dv_store d) LIVE_REF of None \<Rightarrow> ref_zero\<lparr>rf_name := LIVE_REF\<rparr> | Some r \<Rightarrow> r);
              live = revert_live h live
          in case harp_store_ref_write (wd_alloc (dv_world d)) (dv_store d) live of
               (False, st) \<Rightarrow> (False, d\<lparr>dv_store := st\<rparr>)
             | (True, st) \<Rightarrow> (True, echo_part0 (ntf_state_changed live (d\<lparr>dv_store := st\<rparr>))))"

definition panel_revert :: "bytes \<Rightarrow> 's device \<Rightarrow> bool \<times> 's device" where
  "panel_revert refname d =
     (case harp_store_ref_read (dv_store d) refname of
        None \<Rightarrow> (False, d)
      | Some src \<Rightarrow>
          if rf_unborn src then (False, d)
          else
            let d = live_cache_flush d
            in case harp_store_ref_read (dv_store d) LIVE_REF of
                 None \<Rightarrow> (False, d)
               | Some live \<Rightarrow>
                   if rf_dirty live then
                     (case do_snapshot (Some (str ''pre-revert'')) d of
                        (None, d) \<Rightarrow> (False, d)
                      | (Some snap, d) \<Rightarrow> revert_load (rf_hash src) d)
                   else revert_load (rf_hash src) d)"


section \<open>The commands\<close>

definition reconcile_read :: "reconcile \<Rightarrow> bool \<times> bytes \<times> bytes \<times> bool \<times> int" where
  "reconcile_read r = (rc_pending r, snprintf 16 (rc_expect r), snprintf 16 (rc_live r), rc_dirty r, rc_choice r)"

text \<open>
  What the panel thread gets from its surroundings: which sizes \<^verbatim>\<open>realloc\<close> can serve, and what the machine makes of a
  \<^verbatim>\<open>double\<close> that is out of the range of the integer type it is converted to, which C leaves undefined.
\<close>

record panel_env =
  pe_alloc :: "nat \<Rightarrow> bool"
  pe_int :: "f64 \<Rightarrow> int"
  pe_u32 :: "f64 \<Rightarrow> u32"

definition f64_finite :: "f64 \<Rightarrow> bool" where
  "f64_finite v \<longleftrightarrow> \<not> f64_isnan v \<and> \<not> f64_isinf v"

definition cast_int :: "panel_env \<Rightarrow> f64 \<Rightarrow> int" where
  "cast_int pe v =
     (if f64_finite v \<and> - (2 ^ 31) \<le> f64_to_int v \<and> f64_to_int v < 2 ^ 31 then f64_to_int v else pe_int pe v)"

definition cast_u32 :: "panel_env \<Rightarrow> f64 \<Rightarrow> u32" where
  "cast_u32 pe v =
     (if f64_finite v \<and> 0 \<le> f64_to_int v \<and> f64_to_int v < 2 ^ 32 then word_of_int (f64_to_int v) else pe_u32 pe v)"

definition in_unit :: "f64 \<Rightarrow> bool" where
  "in_unit v \<longleftrightarrow> f64_le f64_zero v \<and> f64_le v f64_one"

definition panel_knob :: "panel_env \<Rightarrow> bytes \<Rightarrow> 's device \<Rightarrow> bool \<times> 's device" where
  "panel_knob pe args d =
     (case scan_lfs 3 args of
        [a, b, c] \<Rightarrow> if in_unit c then front_panel_set_part (cast_int pe a) (cast_u32 pe b) c d else (False, d)
      | [a, b] \<Rightarrow> if in_unit b then front_panel_set (cast_u32 pe a) b d else (False, d)
      | _ \<Rightarrow> (False, d))"

definition panel_offer :: "bytes \<Rightarrow> 's device \<Rightarrow> bool \<times> 's device" where
  "panel_offer args d =
     (case scan_word15 args of
        None \<Rightarrow> (False, d)
      | Some (e, r) \<Rightarrow>
          (case scan_word15 r of
             None \<Rightarrow> (False, d)
           | Some (l, r) \<Rightarrow> (True, d\<lparr>dv_reconcile := reconcile_post_offer e l (atoi r \<noteq> 0) (dv_reconcile d)\<rparr>)))"

definition json_ok :: bytes where "json_ok = str ''{\"ok\":true}''"

definition json_fail :: "bytes \<Rightarrow> bytes" where
  "json_fail e = str ''{\"ok\":false,\"error\":\"'' @ e @ str ''\"}''"

definition panel_reconcile_json :: "reconcile \<Rightarrow> bytes" where
  "panel_reconcile_json r =
     (case reconcile_read r of
        (p, ex, lv, dty, ch) \<Rightarrow>
          str ''{\"pending\":'' @ json_bool p @ str '',\"expect\":\"'' @ ex @ str ''\",\"live\":\"'' @ lv @
          str ''\",\"dirty\":'' @ json_bool dty @ str '',\"choice\":'' @ json_int ch @ str ''}'')"

definition panel_snapshot :: "'s device \<Rightarrow> bytes \<times> 's device" where
  "panel_snapshot d =
     (case do_snapshot (Some (str ''front panel'')) d of
        (Some (snap, gen), d) \<Rightarrow>
          (str ''{\"ok\":true,\"hash\":\"'' @ take 12 (harp_hash_hex snap) @ str ''\",\"gen\":'' @ json_u64 gen @ str ''}'', d)
      | (None, d) \<Rightarrow> (json_fail (str ''storage''), d))"

definition panel_choose :: "bytes \<Rightarrow> 's device \<Rightarrow> bytes \<times> 's device" where
  "panel_choose args d =
     (let n = atoi args
      in case reconcile_set_choice n (dv_reconcile d) of
           (True, r) \<Rightarrow> (str ''{\"ok\":true,\"choice\":'' @ json_int n @ str ''}'', d\<lparr>dv_reconcile := r\<rparr>)
         | (False, r) \<Rightarrow> (json_fail (str ''reconcile-choose <0..3>''), d))"

text \<open>The answer of a command that says whether it worked.\<close>

definition panel_ok :: "bytes \<Rightarrow> bool \<times> 's device \<Rightarrow> bytes \<times> 's device" where
  "panel_ok e r = (if fst r then json_ok else json_fail e, snd r)"

text \<open>
  The dispatch.  The commands whose reply is printed into the body answer here; \<open>panel_handle_line\<close> adds the two whose reply
  is built in steps.  \<open>None\<close> is a reply that overran its buffer.
\<close>

definition panel_command :: "panel_env \<Rightarrow> bytes \<Rightarrow> 's device \<Rightarrow> bytes \<times> 's device" where
  "panel_command pe line d =
     (if line = str ''parts'' then (str ''{\"parts\":'' @ decimal NPARTS @ str ''}'', d)
      else if line = str ''counters'' then (panel_json_counters d PANEL_BODY, d)
      else if line = str ''snapshot'' then panel_snapshot d
      else if line = str ''panic'' then
        (json_ok, d\<lparr>dv_engine := (dv_engine d)\<lparr>en_parts := engine_all_notes_off (en_parts (dv_engine d))\<rparr>\<rparr>)
      else if take 7 line = str ''revert '' then
        panel_ok (str ''unknown ref or load failed'') (panel_revert (drop 7 line) d)
      else if take 5 line = str ''knob '' then
        panel_ok (str ''knob [part] <id 1..8> <value 0..1>'') (panel_knob pe (drop 5 line) d)
      else if take 16 line = str ''reconcile-offer '' then
        panel_ok (str ''reconcile-offer <expect> <live> <dirty>'') (panel_offer (drop 16 line) d)
      else if line = str ''reconcile-get'' then (panel_reconcile_json (dv_reconcile d), d)
      else if take 17 line = str ''reconcile-choose '' then panel_choose (drop 17 line) d
      else (str ''{\"error\":\"unknown command\"}'', d))"

definition panel_handle_line :: "panel_env \<Rightarrow> bytes \<Rightarrow> 's device \<Rightarrow> bytes option \<times> 's device" where
  "panel_handle_line pe line d =
     (if line = str ''params'' then (panel_json_params d 0 PANEL_BODY, d)
      else if take 7 line = str ''params '' then (panel_json_params d (atoi (drop 7 line)) PANEL_BODY, d)
      else if line = str ''refs'' then
        (Some (case panel_json_refs (pe_alloc pe) d of
                 Some s \<Rightarrow> s | None \<Rightarrow> snprintf PANEL_BODY (str ''{\"error\":\"out of memory\"}'')), d)
      else case panel_command pe line d of (body, d) \<Rightarrow> (Some (snprintf PANEL_BODY body), d))"

section \<open>Connections\<close>

definition PANEL_MAX_CLIENTS :: nat where "PANEL_MAX_CLIENTS = 8"
definition PANEL_BUF :: nat where "PANEL_BUF = 512"

text \<open>\<open>pc_buf\<close> is the first \<^verbatim>\<open>len\<close> bytes of the buffer.\<close>

record panel_client =
  pc_fd :: os
  pc_buf :: bytes

text \<open>
  The handling of the first complete line of the buffer.  A device whose reply overran its buffer is halted.
\<close>

definition panel_line :: "panel_env \<Rightarrow> 's device \<Rightarrow> panel_client \<Rightarrow> bool \<times> 's device \<times> panel_client" where
  "panel_line pe d c =
     (case panel_handle_line pe (cstr (takeWhile (\<lambda>b. b \<noteq> 10) (pc_buf c))) d of
        (None, d) \<Rightarrow> (False, d\<lparr>dv_halted := True\<rparr>, c)
      | (Some resp, d) \<Rightarrow>
          (case fd_write_all (cstr resp) (pc_fd c) of
             (False, fd) \<Rightarrow> (False, d, c\<lparr>pc_fd := fd\<rparr>)
           | (True, fd) \<Rightarrow>
               (case fd_write_all [10] fd of
                  (False, fd) \<Rightarrow> (False, d, c\<lparr>pc_fd := fd\<rparr>)
                | (True, fd) \<Rightarrow> (True, d, \<lparr>pc_fd = fd, pc_buf = drop 1 (dropWhile (\<lambda>b. b \<noteq> 10) (pc_buf c))\<rparr>))))"

lemma line_shorter: "10 \<in> set b \<Longrightarrow> length (drop 1 (dropWhile (\<lambda>x. x \<noteq> (10 :: u8)) b)) < length b"
proof -
  assume "10 \<in> set b"
  then have "b \<noteq> []" by auto
  with length_dropWhile_le [of "\<lambda>x. x \<noteq> 10" b] show ?thesis by (cases b) simp_all
qed

lemma panel_line_buf:
  "panel_line pe d c = (True, d', c') \<Longrightarrow> pc_buf c' = drop 1 (dropWhile (\<lambda>b. b \<noteq> 10) (pc_buf c))"
  by (auto simp: panel_line_def split: prod.splits option.splits bool.splits)

function panel_lines :: "panel_env \<Rightarrow> 's device \<Rightarrow> panel_client \<Rightarrow> bool \<times> 's device \<times> panel_client" where
  "panel_lines pe d c =
     (if 10 \<notin> set (pc_buf c) then (True, d, c)
      else case panel_line pe d c of
             (False, d, c) \<Rightarrow> (False, d, c)
           | (True, d, c) \<Rightarrow> panel_lines pe d c)"
  by pat_completeness auto
termination
  by (relation "measure (\<lambda>(pe, d, c). length (pc_buf c))")
    (auto dest!: panel_line_buf [OF sym] line_shorter)

declare panel_lines.simps [simp del]

definition panel_client_pump :: "panel_env \<Rightarrow> 's device \<Rightarrow> panel_client \<Rightarrow> bool \<times> 's device \<times> panel_client" where
  "panel_client_pump pe d c =
     (case io_read (PANEL_BUF - 1 - length (pc_buf c)) (os_rd (pc_fd c)) of
        (Inl e, rd) \<Rightarrow> (False, d, c\<lparr>pc_fd := (pc_fd c)\<lparr>os_rd := rd\<rparr>\<rparr>)
      | (Inr r, rd) \<Rightarrow>
          let c = c\<lparr>pc_fd := (pc_fd c)\<lparr>os_rd := rd\<rparr>\<rparr>
          in if r = [] then (False, d, c)
             else case panel_lines pe d (c\<lparr>pc_buf := pc_buf c @ r\<rparr>) of
                    (False, d, c) \<Rightarrow> (False, d, c)
                  | (True, d, c) \<Rightarrow> (length (pc_buf c) < PANEL_BUF - 1, d, c))"

text \<open>
  One turn of \<^verbatim>\<open>panel_main\<close>.  A slot with \<^verbatim>\<open>fd\<close> -1 is \<open>None\<close>; \<open>ready\<close> says for which slots \<^verbatim>\<open>poll\<close> reported an
  event, and \<open>acc\<close> is the connection that \<^verbatim>\<open>accept\<close> returned, if any.
\<close>

type_synonym panel_slots = "panel_client option list"

definition panel_serve_slot :: "panel_env \<Rightarrow> bool list \<Rightarrow> 's device \<times> panel_slots \<Rightarrow> nat \<Rightarrow> 's device \<times> panel_slots" where
  "panel_serve_slot pe ready st i =
     (case st of
        (d, cl) \<Rightarrow>
          (case cl ! i of
             None \<Rightarrow> (d, cl)
           | Some c \<Rightarrow>
               if \<not> ready ! i then (d, cl)
               else case panel_client_pump pe d c of
                      (ok, d, c) \<Rightarrow> (d, cl[i := if ok then Some c else None])))"

definition panel_accept :: "os option \<Rightarrow> panel_slots \<Rightarrow> panel_slots" where
  "panel_accept acc cl =
     (case acc of
        None \<Rightarrow> cl
      | Some cfd \<Rightarrow>
          (case find (\<lambda>i. cl ! i = None) [0..<PANEL_MAX_CLIENTS] of
             None \<Rightarrow> cl
           | Some slot \<Rightarrow> cl[slot := Some \<lparr>pc_fd = cfd, pc_buf = []\<rparr>]))"

definition panel_turn :: "panel_env \<Rightarrow> bool list \<Rightarrow> os option \<Rightarrow> 's device \<times> panel_slots \<Rightarrow> 's device \<times> panel_slots" where
  "panel_turn pe ready acc st =
     (case foldl (panel_serve_slot pe ready) st [0..<PANEL_MAX_CLIENTS] of (d, cl) \<Rightarrow> (d, panel_accept acc cl))"

lemma panel_line_rd: "panel_line pe d c = (ok, d', c') \<Longrightarrow> os_rd (pc_fd c') = os_rd (pc_fd c)"
proof -
  have w: "fd_write_all p fd = (ok, fd') \<Longrightarrow> os_rd fd' = os_rd fd" for p fd ok fd'
    by (auto simp: fd_write_all_def split: prod.splits)
  show "panel_line pe d c = (ok, d', c') \<Longrightarrow> ?thesis"
    by (auto simp: panel_line_def split: prod.splits option.splits bool.splits dest!: w)
qed

lemma lines_rd: "panel_lines pe d c = (ok, d', c') \<Longrightarrow> os_rd (pc_fd c') = os_rd (pc_fd c)"
proof (induction pe d c rule: panel_lines.induct)
  case (1 pe d c)
  from 1(2) 1(1) show ?case
    by (subst (asm) panel_lines.simps) (auto split: if_splits prod.splits bool.splits dest: panel_line_rd)
qed

lemma pump_reads:
  "panel_client_pump pe d c = (True, d', c') \<Longrightarrow> rd_size (os_rd (pc_fd c')) < rd_size (os_rd (pc_fd c))"
proof -
  assume p: "panel_client_pump pe d c = (True, d', c')"
  then obtain r rd where r: "io_read (PANEL_BUF - 1 - length (pc_buf c)) (os_rd (pc_fd c)) = (Inr r, rd)" "r \<noteq> []"
    and l: "panel_lines pe d (c\<lparr>pc_fd := (pc_fd c)\<lparr>os_rd := rd\<rparr>, pc_buf := pc_buf c @ r\<rparr>) = (True, d', c')"
    by (auto simp: panel_client_pump_def Let_def split: prod.splits sum.splits if_splits bool.splits)
  from r have "0 < PANEL_BUF - 1 - length (pc_buf c)"
    by (cases "os_rd (pc_fd c)") (auto elim!: io_read.elims split: if_splits)
  with r(1) have "rd_size rd < rd_size (os_rd (pc_fd c))" by (rule io_read_decreases)
  with lines_rd [OF l] show ?thesis by simp
qed

text \<open>A frontend's connection from its first byte to its close, served whenever it has something to read.\<close>

function panel_session :: "panel_env \<Rightarrow> 's device \<Rightarrow> panel_client \<Rightarrow> 's device \<times> panel_client" where
  "panel_session pe d c =
     (case panel_client_pump pe d c of
        (False, d, c) \<Rightarrow> (d, c)
      | (True, d, c) \<Rightarrow> panel_session pe d c)"
  by pat_completeness auto
termination
  by (relation "measure (\<lambda>(pe, d, c). rd_size (os_rd (pc_fd c)))") (auto dest: pump_reads [OF sym])

declare panel_session.simps [simp del]


section \<open>Splitting into lines\<close>

text \<open>The complete lines of an input, where \<open>acc\<close> is the line begun before it, and the line that it leaves begun.\<close>

fun split_lines :: "bytes \<Rightarrow> bytes \<Rightarrow> bytes list" where
  "split_lines acc [] = []"
| "split_lines acc (x # xs) = (if x = 10 then acc # split_lines [] xs else split_lines (acc @ [x]) xs)"

fun begun_line :: "bytes \<Rightarrow> bytes \<Rightarrow> bytes" where
  "begun_line acc [] = acc"
| "begun_line acc (x # xs) = begun_line (if x = 10 then [] else acc @ [x]) xs"

definition lines_fit :: "bytes \<Rightarrow> bytes \<Rightarrow> bool" where
  "lines_fit acc xs \<longleftrightarrow> (\<forall>l \<in> set (begun_line acc xs # split_lines acc xs). length l < PANEL_BUF - 1)"

lemma split_lines_append: "split_lines acc (xs @ ys) = split_lines acc xs @ split_lines (begun_line acc xs) ys"
  by (induction acc xs rule: split_lines.induct) simp_all

lemma begun_line_append: "begun_line acc (xs @ ys) = begun_line (begun_line acc xs) ys"
  by (induction acc xs rule: begun_line.induct) simp_all

lemma no_newline: "10 \<notin> set xs \<Longrightarrow> split_lines acc xs = [] \<and> begun_line acc xs = acc @ xs"
  by (induction acc xs rule: begun_line.induct) auto

lemma begun_no_newline: "10 \<notin> set acc \<Longrightarrow> 10 \<notin> set (begun_line acc xs)"
  by (induction acc xs rule: begun_line.induct) simp_all

lemma begun_first: "10 \<notin> set acc \<Longrightarrow> split_lines [] (acc @ xs) = split_lines acc xs \<and> begun_line [] (acc @ xs) = begun_line acc xs"
  using no_newline [of acc "[]"] by (simp add: split_lines_append begun_line_append)

lemma first_line:
  assumes "10 \<in> set b"
  shows "split_lines [] b = takeWhile (\<lambda>x. x \<noteq> 10) b # split_lines [] (drop 1 (dropWhile (\<lambda>x. x \<noteq> 10) b))"
    and "begun_line [] b = begun_line [] (drop 1 (dropWhile (\<lambda>x. x \<noteq> 10) b))"
proof -
  let ?l = "takeWhile (\<lambda>x. x \<noteq> 10) b" and ?r = "dropWhile (\<lambda>x. x \<noteq> 10) b"
  from assms have "?r \<noteq> []" by (auto simp: dropWhile_eq_Nil_conv)
  then have "hd ?r = 10" using hd_dropWhile [of "\<lambda>x. x \<noteq> 10" b] by simp
  with \<open>?r \<noteq> []\<close> obtain r where r: "?r = 10 # r" by (cases ?r) auto
  have b: "b = ?l @ 10 # r" using takeWhile_dropWhile_id [of "\<lambda>x. x \<noteq> 10" b] r by simp
  have n: "10 \<notin> set ?l" by (auto dest: set_takeWhileD)
  from no_newline [OF n, of "[]"] show "split_lines [] b = ?l # split_lines [] (drop 1 ?r)"
    "begun_line [] b = begun_line [] (drop 1 ?r)"
    by (subst (1) b, simp add: split_lines_append begun_line_append r)+
qed

lemma fit_begun: "lines_fit acc xs \<Longrightarrow> length acc < PANEL_BUF - 1"
  by (induction acc xs rule: split_lines.induct) (auto simp: lines_fit_def split: if_splits)

lemma fit_append: "lines_fit acc (xs @ ys) \<Longrightarrow> lines_fit (begun_line acc xs) ys"
  by (simp add: lines_fit_def split_lines_append begun_line_append)

text \<open>
  What a connection should do: answer the lines one after the other, as though each had come alone.
\<close>

fun serve_lines :: "panel_env \<Rightarrow> bytes list \<Rightarrow> 's device \<Rightarrow> os \<Rightarrow> bool \<times> 's device \<times> os" where
  "serve_lines pe [] d fd = (True, d, fd)"
| "serve_lines pe (l # ls) d fd =
     (case panel_line pe d \<lparr>pc_fd = fd, pc_buf = l @ [10]\<rparr> of
        (False, d, c) \<Rightarrow> (False, d, pc_fd c)
      | (True, d, c) \<Rightarrow> serve_lines pe ls d (pc_fd c))"

abbreviation no_input :: "os \<Rightarrow> os" where "no_input fd \<equiv> fd\<lparr>os_rd := []\<rparr>"

lemma write_no_input:
  "fd_write_all p (no_input fd) = (ok, fd') \<longleftrightarrow> (\<exists>fd1. fd_write_all p fd = (ok, fd1) \<and> fd' = no_input fd1)"
  by (auto simp: fd_write_all_def split: prod.splits)

lemma serve_lines_append:
  "serve_lines pe (ls @ ms) d fd =
     (case serve_lines pe ls d fd of (False, d, fd) \<Rightarrow> (False, d, fd) | (True, d, fd) \<Rightarrow> serve_lines pe ms d fd)"
  by (induction pe ls d fd rule: serve_lines.induct) (simp_all split: prod.split bool.split)

lemma line_alone:
  assumes "10 \<in> set (pc_buf c)" and "panel_line pe d c = (ok, d', c')"
  shows "\<exists>c1. panel_line pe d \<lparr>pc_fd = no_input (pc_fd c), pc_buf = takeWhile (\<lambda>x. x \<noteq> 10) (pc_buf c) @ [10]\<rparr> = (ok, d', c1)
    \<and> pc_fd c1 = no_input (pc_fd c')"
proof -
  let ?l = "takeWhile (\<lambda>x. x \<noteq> 10) (pc_buf c)"
  have "takeWhile (\<lambda>x. x \<noteq> 10) (?l @ [10]) = ?l" by (simp add: takeWhile_append)
  with assms(2) show ?thesis
    by (fastforce simp: panel_line_def write_no_input split: prod.splits option.splits bool.splits)
qed

lemma lines_serve:
  "panel_lines pe d c = (ok, d', c') \<Longrightarrow>
     serve_lines pe (split_lines [] (pc_buf c)) d (no_input (pc_fd c)) = (ok, d', no_input (pc_fd c')) \<and>
     (ok \<longrightarrow> pc_buf c' = begun_line [] (pc_buf c))"
proof (induction pe d c rule: panel_lines.induct)
  case (1 pe d c)
  show ?case
  proof (cases "10 \<in> set (pc_buf c)")
    case False
    with 1(2) no_newline [OF False, of "[]"] show ?thesis by (subst (asm) panel_lines.simps) simp
  next
    case True
    obtain ok1 d1 c1 where l: "panel_line pe d c = (ok1, d1, c1)" by (cases "panel_line pe d c") auto
    from line_alone [OF True l] first_line [OF True] obtain c2 where
      "panel_line pe d \<lparr>pc_fd = no_input (pc_fd c), pc_buf = takeWhile (\<lambda>x. x \<noteq> 10) (pc_buf c) @ [10]\<rparr> = (ok1, d1, c2)"
      "pc_fd c2 = no_input (pc_fd c1)" by blast
    note l2 = this
    show ?thesis
    proof (cases ok1)
      case False
      with 1(2) True l l2 first_line [OF True] show ?thesis by (subst (asm) panel_lines.simps) simp
    next
      case ok: True
      with 1(2) True l have "panel_lines pe d1 c1 = (ok, d', c')" by (subst (asm) panel_lines.simps) simp
      from 1(1) [OF _ l [symmetric] _ refl this] True ok l2 panel_line_buf [OF l [unfolded ok [THEN eqTrueI]]]
      show ?thesis by (simp add: first_line [OF True])
    qed
  qed
qed


text \<open>The bytes that a script without errors delivers.\<close>

fun rd_bytes :: "rd_event list \<Rightarrow> bytes" where
  "rd_bytes [] = []"
| "rd_bytes (RdData bs # sc) = bs @ rd_bytes sc"
| "rd_bytes (RdErr e # sc) = rd_bytes sc"

fun rd_plain :: "rd_event list \<Rightarrow> bool" where
  "rd_plain [] = True"
| "rd_plain (RdData bs # sc) = (bs \<noteq> [] \<and> rd_plain sc)"
| "rd_plain (RdErr e # sc) = False"

lemma read_plain:
  assumes "rd_plain sc" and "0 < n"
  shows "sc = [] \<and> io_read n sc = (Inl ESHUTDOWN, []) \<or>
    (\<exists>r sc'. io_read n sc = (Inr r, sc') \<and> r \<noteq> [] \<and> rd_plain sc' \<and> rd_bytes sc = r @ rd_bytes sc')"
  using assms by (cases "(n, sc)" rule: io_read.cases) auto

lemma session_serves:
  "\<lbrakk>rd_plain (os_rd (pc_fd c)); 10 \<notin> set (pc_buf c); lines_fit (pc_buf c) (rd_bytes (os_rd (pc_fd c)));
    panel_session pe d c = (d', c')\<rbrakk> \<Longrightarrow>
   \<exists>ok. serve_lines pe (split_lines (pc_buf c) (rd_bytes (os_rd (pc_fd c)))) d (no_input (pc_fd c)) =
     (ok, d', no_input (pc_fd c'))"
proof (induction pe d c rule: panel_session.induct)
  case (1 pe d c)
  let ?n = "PANEL_BUF - 1 - length (pc_buf c)" and ?rd = "os_rd (pc_fd c)"
  from fit_begun [OF 1(4)] have "0 < ?n" by simp
  with read_plain [OF 1(2)] consider "?rd = []" "io_read ?n ?rd = (Inl ESHUTDOWN, [])"
    | r sc where "io_read ?n ?rd = (Inr r, sc)" "r \<noteq> []" "rd_plain sc" "rd_bytes ?rd = r @ rd_bytes sc"
    by blast
  then show ?case
  proof cases
    case 1
    with \<open>panel_session pe d c = (d', c')\<close> show ?thesis
      by (subst (asm) panel_session.simps) (auto simp: panel_client_pump_def)
  next
    case (2 r sc)
    let ?c = "c\<lparr>pc_fd := (pc_fd c)\<lparr>os_rd := sc\<rparr>, pc_buf := pc_buf c @ r\<rparr>"
    obtain ok d1 c1 where l: "panel_lines pe d ?c = (ok, d1, c1)" by (cases "panel_lines pe d ?c") auto
    note b = begun_first [OF 1(3), of r]
    from lines_serve [OF l] b
    have s: "serve_lines pe (split_lines (pc_buf c) r) d (no_input (pc_fd c)) = (ok, d1, no_input (pc_fd c1))"
      and e: "ok \<longrightarrow> pc_buf c1 = begun_line (pc_buf c) r" by simp_all
    show ?thesis
    proof (cases ok)
      case False
      with 1(5) 2 l have "d' = d1 \<and> c' = c1"
        by (subst (asm) panel_session.simps) (simp add: panel_client_pump_def)
      with s False 2(4) show ?thesis by (auto simp: split_lines_append serve_lines_append)
    next
      case True
      with e have c1: "pc_buf c1 = begun_line (pc_buf c) r" by simp
      from fit_append [of "pc_buf c" r "rd_bytes sc"] 1(4) 2(4) c1 have f: "lines_fit (pc_buf c1) (rd_bytes sc)" by simp
      have p: "panel_client_pump pe d c = (True, d1, c1)"
        using 2 l True fit_begun [OF f] by (simp add: panel_client_pump_def)
      have r1: "os_rd (pc_fd c1) = sc" using lines_rd [OF l] by simp
      have "panel_session pe d1 c1 = (d', c')" using 1(5) p by (subst (asm) panel_session.simps) simp
      from 1(1) [OF p [symmetric] _ refl _ _ _ this] r1 2(3) f begun_no_newline [OF 1(3)] c1
      obtain ok2 where "serve_lines pe (split_lines (begun_line (pc_buf c) r) (rd_bytes sc)) d1 (no_input (pc_fd c1)) =
        (ok2, d', no_input (pc_fd c'))" by auto
      with s True 2(4) show ?thesis by (simp add: split_lines_append serve_lines_append)
    qed
  qed
qed

text \<open>
  C16: The answers of the front panel do not depend on how the kernel cuts the requests into reads.  Serving a connection
  whose lines fit into the buffer changes the device and writes to the socket exactly what handling each complete line by
  itself does, up to the first failed write.
\<close>

theorem panel_chunking:
  assumes "rd_plain (os_rd fd)" and "lines_fit [] (rd_bytes (os_rd fd))"
  shows "map_prod id (no_input \<circ> pc_fd) (panel_session pe d \<lparr>pc_fd = fd, pc_buf = []\<rparr>) =
    snd (serve_lines pe (split_lines [] (rd_bytes (os_rd fd))) d (no_input fd))"
proof -
  obtain d' c' where s: "panel_session pe d \<lparr>pc_fd = fd, pc_buf = []\<rparr> = (d', c')"
    by (cases "panel_session pe d \<lparr>pc_fd = fd, pc_buf = []\<rparr>")
  from session_serves [OF _ _ _ s] assms obtain ok where
    "serve_lines pe (split_lines [] (rd_bytes (os_rd fd))) d (no_input fd) = (ok, d', no_input (pc_fd c'))" by auto
  with s show ?thesis by simp
qed

section \<open>The invariant\<close>

definition slot_wf :: "panel_client option \<Rightarrow> bool" where
  "slot_wf s = (case s of None \<Rightarrow> True | Some c \<Rightarrow> length (pc_buf c) < PANEL_BUF - 1 \<and> 10 \<notin> set (pc_buf c))"

definition panel_wf :: "'s device \<times> panel_slots \<Rightarrow> bool" where
  "panel_wf st \<longleftrightarrow> device_wf (fst st) \<and> length (snd st) = PANEL_MAX_CLIENTS \<and> list_all slot_wf (snd st)"

lemma wf_echo [wf_intros]: "device_wf (echo_part0 d) = device_wf d"
proof -
  have "device_wf (foldl (\<lambda>d i. evt_echo_param (f i) (g i d) 0 d) d is) = device_wf d"
    for f g "is" and d :: "'s device"
    by (induction "is" arbitrary: d) simp_all
  then show ?thesis unfolding echo_part0_def .
qed

lemma wf_revert_load: "device_wf d \<Longrightarrow> device_wf (snd (revert_load h d))"
  using wf_load [of d h]
  by (auto simp: revert_load_def Let_def wf_echo split: prod.split bool.split)

lemma wf_revert: "device_wf d \<Longrightarrow> device_wf (snd (panel_revert n d))"
proof -
  assume d: "device_wf d"
  have "device_wf d1" if "do_snapshot m (live_cache_flush d) = (r, d1)" for m r d1
    using do_snapshot_frame(1) [of m "live_cache_flush d"] that d by (simp add: device_wf_core)
  with d show ?thesis
    by (auto simp: panel_revert_def Let_def wf_revert_load split: prod.split option.split)
qed

lemma wf_panel_part: "device_wf d \<Longrightarrow> device_wf (snd (front_panel_set_part pt i v d))"
  by (simp add: front_panel_set_part_def Let_def wf_update wf_parts engine_wf_param_put)

lemma wf_command: "device_wf d \<Longrightarrow> device_wf (snd (panel_command pe line d))"
proof -
  assume d: "device_wf d"
  have "device_wf d1" if "do_snapshot m d = (r, d1)" for m r d1
    using do_snapshot_frame(1) [of m d] that d by (simp add: device_wf_core)
  then have s: "device_wf (snd (panel_snapshot d))" by (auto simp: panel_snapshot_def split: prod.split option.split)
  have k: "device_wf (snd (panel_knob pe a d))" for a
    using d by (auto simp: panel_knob_def wf_panel wf_panel_part split: list.split)
  have o: "device_wf (snd (panel_offer a d))" for a
    using d by (auto simp: panel_offer_def reconcile_post_offer_def reconcile_wf_def snprintf_def
        intro!: wf_update split: option.split prod.split)
  have c: "device_wf (snd (panel_choose a d))" for a
    using d wf_parts(6) [OF d]
    by (auto simp: panel_choose_def reconcile_set_choice_def Let_def reconcile_wf_def intro!: wf_update)
  have p: "device_wf (d\<lparr>dv_engine := (dv_engine d)\<lparr>en_parts := engine_all_notes_off (en_parts (dv_engine d))\<rparr>\<rparr>)"
    using d by (intro wf_update engine_step_wf [OF step_all_off]) (simp_all add: wf_parts)
  show ?thesis using d s k o c p wf_revert [OF d] by (simp add: panel_command_def panel_ok_def)
qed

lemma wf_handle_line: "device_wf d \<Longrightarrow> panel_handle_line pe line d = (r, d') \<Longrightarrow> device_wf d'"
  using wf_command [of d pe line] by (auto simp: panel_handle_line_def split: if_splits prod.splits)

lemma wf_line: "device_wf d \<Longrightarrow> panel_line pe d c = (ok, d', c') \<Longrightarrow> device_wf d'"
  by (auto simp: panel_line_def split: prod.splits option.splits bool.splits dest: wf_handle_line)

lemma wf_lines: "device_wf d \<Longrightarrow> panel_lines pe d c = (ok, d', c') \<Longrightarrow> device_wf d' \<and> (ok \<longrightarrow> 10 \<notin> set (pc_buf c'))"
proof (induction pe d c rule: panel_lines.induct)
  case (1 pe d c)
  from 1(3) 1(1,2) show ?case
    by (subst (asm) panel_lines.simps) (auto split: if_splits prod.splits bool.splits dest: wf_line)
qed

lemma wf_pump:
  assumes "device_wf d" and "panel_client_pump pe d c = (ok, d', c')"
  shows "device_wf d'" and "slot_wf (if ok then Some c' else None)"
  using assms
  by (auto simp: panel_client_pump_def slot_wf_def Let_def dest: wf_lines split: prod.splits sum.splits if_splits bool.splits)

lemma wf_slots_update: "list_all slot_wf cl \<Longrightarrow> slot_wf s \<Longrightarrow> list_all slot_wf (cl[i := s])"
  using set_update_subset_insert [of cl i s] by (auto simp: list_all_iff)

lemma wf_serve_slot:
  assumes "panel_wf (d, cl)"
  shows "panel_wf (panel_serve_slot pe ready (d, cl) i)"
proof (cases "cl ! i")
  case (Some c)
  obtain ok d' c' where p: "panel_client_pump pe d c = (ok, d', c')" by (cases "panel_client_pump pe d c") auto
  from assms have "device_wf d" and "list_all slot_wf cl" and "length cl = PANEL_MAX_CLIENTS" by (simp_all add: panel_wf_def)
  with wf_pump [OF _ p] show ?thesis
    by (simp add: panel_serve_slot_def Some p panel_wf_def wf_slots_update del: if_split)
qed (use assms in \<open>simp add: panel_serve_slot_def\<close>)

lemma wf_accept: "panel_wf (d, cl) \<Longrightarrow> panel_wf (d, panel_accept acc cl)"
  by (auto simp: panel_accept_def panel_wf_def PANEL_BUF_def slot_wf_def intro!: wf_slots_update split: option.split)

lemma wf_turn_panel: "panel_wf (st :: 's device \<times> panel_slots) \<Longrightarrow> panel_wf (panel_turn pe ready acc st)"
proof -
  have "panel_wf st \<Longrightarrow> panel_wf (panel_serve_slot pe ready st i)" for i and st :: "'s device \<times> panel_slots"
    by (cases st) (simp add: wf_serve_slot)
  then have "panel_wf st \<Longrightarrow> panel_wf (foldl (panel_serve_slot pe ready) st is)" for "is" and st :: "'s device \<times> panel_slots"
    by (induction "is" arbitrary: st) simp_all
  moreover obtain d cl where "foldl (panel_serve_slot pe ready) st [0..<PANEL_MAX_CLIENTS] = (d, cl)"
    by (cases "foldl (panel_serve_slot pe ready) st [0..<PANEL_MAX_CLIENTS]")
  ultimately show "panel_wf st \<Longrightarrow> ?thesis" by (metis (no_types, lifting) panel_turn_def prod.case wf_accept)
qed



section \<open>Replies are complete\<close>

lemma appendf_fits:
  "\<not> rj_oom j \<Longrightarrow> length t \<le> INT_MAX \<Longrightarrow> alloc = (\<lambda>n. True) \<Longrightarrow>
     \<exists>cap. refs_appendf alloc t j = j\<lparr>rj_buf := rj_buf j @ t, rj_cap := cap\<rparr>"
proof (induction alloc t j rule: refs_appendf.induct)
  case (1 alloc t j)
  show ?case
  proof (cases "length t < rj_cap j - length (rj_buf j)")
    case True
    with 1 have "refs_appendf alloc t j = j\<lparr>rj_buf := rj_buf j @ t, rj_cap := rj_cap j\<rparr>"
      by (subst refs_appendf.simps) simp
    then show ?thesis by blast
  next
    case False
    define ncap where "ncap = grow_cap (if rj_cap j \<noteq> 0 then rj_cap j else 1024) (length (rj_buf j) + length t + 1)"
    from False 1(2-) have "refs_appendf alloc t j = refs_appendf alloc t (j\<lparr>rj_cap := ncap\<rparr>)"
      by (subst refs_appendf.simps) (simp add: ncap_def Let_def)
    moreover have "\<exists>cap. refs_appendf alloc t (j\<lparr>rj_cap := ncap\<rparr>) =
        (j\<lparr>rj_cap := ncap\<rparr>)\<lparr>rj_buf := rj_buf (j\<lparr>rj_cap := ncap\<rparr>) @ t, rj_cap := cap\<rparr>"
      by (rule 1(1) [OF _ _ False refl ncap_def]) (use 1 in simp_all)
    ultimately show ?thesis by simp
  qed
qed

text \<open>The elements of a JSON array.\<close>

fun json_array :: "bytes list \<Rightarrow> bytes" where
  "json_array [] = []"
| "json_array (x # xs) = x @ concat (map ((@) (str '','')) xs)"

lemma refs_fold:
  assumes "\<forall>r \<in> set rs. length (panel_ref_json d r) < INT_MAX" and "\<not> rj_oom j"
  shows "\<exists>j'. fold (panel_refs_cb (\<lambda>n. True) d) rs j = j' \<and> \<not> rj_oom j' \<and>
    rj_buf j' = rj_buf j @ (if rj_n j = 0 then json_array (map (panel_ref_json d) rs)
                            else concat (map (\<lambda>r. str '','' @ panel_ref_json d r) rs))"
  using assms
proof (induction rs arbitrary: j)
  case (Cons r rs)
  let ?t = "(if rj_n j \<noteq> 0 then str '','' else []) @ panel_ref_json d r"
  have "length ?t \<le> INT_MAX" using Cons.prems(1) by (auto simp: str_def)
  from appendf_fits [of "j\<lparr>rj_n := Suc (rj_n j)\<rparr>" ?t] this Cons.prems obtain cap where
    a: "panel_refs_cb (\<lambda>n. True) d r j = j\<lparr>rj_n := Suc (rj_n j), rj_buf := rj_buf j @ ?t, rj_cap := cap\<rparr>"
    by (auto simp: panel_refs_cb_def)
  from Cons.IH [of "panel_refs_cb (\<lambda>n. True) d r j"] Cons.prems show ?case
    by (auto simp: a comp_def)
qed simp



lemma length_decimal: "n < 10 ^ k \<Longrightarrow> 0 < k \<Longrightarrow> length (decimal n) \<le> k"
proof (induction n arbitrary: k rule: decimal.induct)
  case (1 n)
  show ?case
  proof (cases "n < 10")
    case False
    from 1(3) obtain k' where k: "k = Suc k'" by (cases k) auto
    with 1(2) False have k': "0 < k'" by (cases k') simp_all
    from 1(2) k have "n div 10 < 10 ^ k'" by (simp add: less_mult_imp_div_less mult.commute)
    with 1(1) False k k' show ?thesis by (simp add: decimal.simps [of n])
  qed (use 1 in \<open>simp add: decimal.simps [of n]\<close>)
qed

lemma widened_exp:
  assumes "\<not> f64_isnan (f64_of_f32 x)" and "\<not> f64_isinf (f64_of_f32 x)"
  shows "f64_exp (f64_of_f32 x) \<le> 1150"
proof -
  have m: "f32_man x * 2 ^ 29 < 2 ^ 52" using f32_bounds(3) [of x] by simp
  then have "(if f32_man x = 0 then 0 else quiet (2 ^ 51) (f32_man x * 2 ^ 29)) < 2 ^ 52" by (simp add: quiet_def)
  then have e: "f32_exp x \<noteq> 255" using assms by (auto simp: f64_isnan_def f64_isinf_def f64_of_f32_def Let_def)
  show ?thesis
  proof (cases "f32_exp x = 0 \<and> f32_man x \<noteq> 0")
    case True
    with sub_norm [OF _ f32_bounds(3), of x] show ?thesis by (simp add: f64_of_f32_def Let_def)
  next
    case False
    have "f32_exp x \<le> 254" using e f32_bounds(2) [of x] by linarith
    with False e m show ?thesis by (auto simp: f64_of_f32_def Let_def)
  qed
qed

lemma widened_mag:
  assumes "\<not> f64_isnan (f64_of_f32 x)" and "\<not> f64_isinf (f64_of_f32 x)"
  shows "f64_mag (f64_of_f32 x) < 2 ^ 128 * 2 ^ 1074"
proof -
  let ?y = "f64_of_f32 x"
  have m: "f64_man ?y < 2 ^ 52" by (rule f64_bounds)
  show ?thesis
  proof (cases "f64_exp ?y = 0")
    case True
    from m have "f64_man ?y < 2 ^ 128 * 2 ^ 1074" by (rule less_le_trans) simp
    with True show ?thesis by (simp add: f64_mag_def)
  next
    case False
    have "(2 ^ 52 + f64_man ?y) * 2 ^ (f64_exp ?y - 1) < 2 ^ 53 * (2::nat) ^ (f64_exp ?y - 1)" using m by simp
    also have "\<dots> \<le> 2 ^ 53 * 2 ^ 1149" using widened_exp [OF assms] by (intro mult_le_mono power_increasing) simp_all
    also have "\<dots> = (2::nat) ^ 128 * 2 ^ 1074" by (simp only: flip: power_add) simp
    finally show ?thesis using False by (simp add: f64_mag_def)
  qed
qed

lemma length_print4: "length (print4 (f64_of_f32 x)) \<le> 45"
proof (cases "f64_isnan (f64_of_f32 x) \<or> f64_isinf (f64_of_f32 x)")
  case False
  let ?m = "f64_mag (f64_of_f32 x)"
  from widened_mag False have "?m * 10000 < 2 ^ 128 * 2 ^ 1074 * 10000" by (intro mult_strict_right_mono) simp_all
  then have "?m * 10000 < (2 ^ 128 * 10000) * 2 ^ 1074" by (simp only: ac_simps)
  then have "?m * 10000 div 2 ^ 1074 < 2 ^ 128 * 10000" by (rule less_mult_imp_div_less)
  then have "rne (?m * 10000) 1074 \<le> 2 ^ 128 * 10000" by (simp add: rne_def)
  then have "rne (?m * 10000) 1074 div 10000 \<le> 2 ^ 128" by (metis div_le_mono nonzero_mult_div_cancel_right zero_neq_numeral)
  then have "rne (?m * 10000) 1074 div 10000 < 10 ^ 39" by (rule le_less_trans) simp
  from length_decimal [OF this] False show ?thesis by (simp add: print4_def Let_def str_def)
qed (auto simp: print4_def str_def)


lemma appendf_room:
  "length body + length t < sz \<Longrightarrow>
     body_appendf sz t (Some (body, length body)) = Some (body @ t, length (body @ t))"
  by (simp add: body_appendf_def snprintf_def)

lemma appendf_overrun: "foldl (\<lambda>st i. body_appendf sz (f i) st) None is = None"
  by (induction "is") (simp_all add: body_appendf_def)

lemma appendfs_room:
  "length body + length (concat (map f is)) < sz \<Longrightarrow>
     foldl (\<lambda>st i. body_appendf sz (f i) st) (Some (body, length body)) is =
       Some (body @ concat (map f is), length (body @ concat (map f is)))"
proof (induction "is" arbitrary: body)
  case (Cons i "is")
  from Cons.prems Cons.IH [of "body @ f i"] show ?case by (simp add: appendf_room)
qed simp

definition shown_part :: "int \<Rightarrow> int" where
  "shown_part part = (if part < 0 \<or> part \<ge> int NPARTS then 0 else part)"

definition shown_product :: "'s device \<Rightarrow> bytes" where
  "shown_product d = (case cf_product (dv_config d) of None \<Rightarrow> str ''harp-refdev'' | Some p \<Rightarrow> p)"

lemma length_params_head:
  "length (panel_params_head d (shown_part part)) \<le> length (shown_product d) + length (cf_serial (dv_config d)) + 80"
proof -
  have "0 \<le> shown_part part \<and> shown_part part < 16" by (auto simp: shown_part_def NPARTS_def)
  then have "nat \<bar>shown_part part\<bar> < 10 ^ 2" and "\<not> shown_part part < 0" by auto
  from length_decimal [OF this(1)] this(2) show ?thesis
    by (simp add: panel_params_head_def shown_product_def json_int_def json_bool_def str_def)
qed

lemma length_param_json: "i < NPARAMS \<Longrightarrow> length (panel_param_json d part i) \<le> 120"
proof -
  have "list_all (\<lambda>p. length (dp_name p) + length (decimal (unat (dp_id p))) \<le> 40) g_params" by code_simp
  moreover have "length g_params = NPARAMS" by code_simp
  moreover assume "i < NPARAMS"
  ultimately have "length (dp_name (g_params ! i)) + length (decimal (unat (dp_id (g_params ! i)))) \<le> 40"
    by (simp add: list_all_length)
  with length_print4 [of "engine_part_param_get (en_parts (dv_engine d)) part (dp_id (g_params ! i))"] show ?thesis
    by (auto simp: panel_param_json_def str_def)
qed

text \<open>
  C19: The reply to \<^verbatim>\<open>params\<close> fits its 4096 bytes for every value the parameters can have.  With a product name of at most
  2000 bytes and the serial number's 63, the reply is the whole JSON text: no step of it is cut off or written past the end.
\<close>

theorem panel_params_fit:
  assumes "length (shown_product d) \<le> 2000" and "length (cf_serial (dv_config d)) \<le> 63"
  shows "panel_json_params d part PANEL_BODY =
    Some (panel_params_head d (shown_part part) @ concat (map (panel_param_json d (shown_part part)) [0..<NPARAMS]) @ str '']}'')"
proof -
  let ?p = "shown_part part"
  have h: "length (panel_params_head d ?p) \<le> 2143" using length_params_head [of d part] assms by simp
  have "length (concat (map (panel_param_json d ?p) [0..<NPARAMS])) \<le> 120 * length [0..<NPARAMS]"
    by (rule length_concat_map_le) (simp add: length_param_json)
  then have b: "length (concat (map (panel_param_json d ?p) [0..<NPARAMS])) \<le> 1440" by (simp add: NPARAMS_def)
  show ?thesis
    using h b appendf_room [of "[]" "panel_params_head d ?p" PANEL_BODY]
      appendfs_room [of "panel_params_head d ?p" "panel_param_json d ?p" "[0..<NPARAMS]" PANEL_BODY]
      appendf_room [of "panel_params_head d ?p @ concat (map (panel_param_json d ?p) [0..<NPARAMS])" "str '']}''" PANEL_BODY]
    by (simp add: panel_json_params_def Let_def shown_part_def [symmetric] PANEL_BODY_def str_def)
qed

text \<open>A product name of 4096 bytes makes the reply write past the end of its buffer.\<close>

lemma panel_params_overrun:
  assumes "4096 \<le> length (shown_product d)"
  shows "panel_json_params d part PANEL_BODY = None"
proof -
  let ?p = "shown_part part"
  have "4096 < length (panel_params_head d ?p)"
    using assms by (simp add: panel_params_head_def shown_product_def str_def)
  moreover have "[0..<NPARAMS] = 0 # [1..<NPARAMS]" by (simp add: NPARAMS_def upt_conv_Cons)
  ultimately have "foldl (\<lambda>st i. body_appendf PANEL_BODY (panel_param_json d ?p i) st)
      (body_appendf PANEL_BODY (panel_params_head d ?p) (Some ([], 0))) [0..<NPARAMS] = None"
    by (simp add: body_appendf_def PANEL_BODY_def) (rule appendf_overrun [unfolded body_appendf_def])
  then show ?thesis by (simp add: panel_json_params_def Let_def shown_part_def [symmetric] body_appendf_def)
qed


section \<open>Loading a patch from the panel\<close>

lemma echo_keeps: "dv_store (echo_part0 d) = dv_store d" "dv_engine (echo_part0 d) = dv_engine d"
proof -
  have "dv_store (evt_echo_param i v c d) = dv_store d \<and> dv_engine (evt_echo_param i v c d) = dv_engine d"
    for i v c and d :: "'a device"
    by (simp add: evt_echo_param_def dev_send_def Let_def split: option.split prod.split)
  then have "dv_store (foldl (\<lambda>d i. evt_echo_param (f i) (g i d) 0 d) d is) = dv_store d \<and>
      dv_engine (foldl (\<lambda>d i. evt_echo_param (f i) (g i d) 0 d) d is) = dv_engine d" for f g "is" and d :: "'a device"
    by (induction "is" arbitrary: d) simp_all
  note e = this
  show "dv_store (echo_part0 d) = dv_store d" unfolding echo_part0_def by (rule e [THEN conjunct1])
  show "dv_engine (echo_part0 d) = dv_engine d" unfolding echo_part0_def by (rule e [THEN conjunct2])
qed

lemma ntf_keeps: "dv_store (ntf_state_changed r d) = dv_store d" "dv_engine (ntf_state_changed r d) = dv_engine d"
  "dv_live_cache_valid (ntf_state_changed r d) = dv_live_cache_valid d"
  by (simp_all add: ntf_state_changed_def send_ctl_def dev_send_def split: option.split prod.split)

lemma snapshot_uncached: "\<not> dv_live_cache_valid (snd (do_snapshot m d))"
proof -
  have f: "\<not> dv_live_cache_valid (live_cache_flush d)" by (simp add: live_cache_flush_def)
  have "dv_live_cache_valid (snd (engine_snapshot_objects p m d)) = dv_live_cache_valid d" for p m and d :: "'a device"
    by (simp add: engine_snapshot_objects_def Let_def split: prod.split bool.split)
  with f have "engine_snapshot_objects p m (live_cache_flush d) = (r, d1) \<Longrightarrow> \<not> dv_live_cache_valid d1" for p m r d1
    by (metis snd_conv)
  with f show ?thesis
    by (auto simp: do_snapshot_def Let_def ntf_keeps split: option.split prod.split bool.split)
qed

text \<open>The state in which \<^verbatim>\<open>panel_revert\<close> loads: the live ref is on disk, and a dirty patch has become a snapshot.\<close>

definition revert_base :: "'s device \<Rightarrow> 's device" where
  "revert_base d =
     (let d = live_cache_flush d
      in if map_option rf_dirty (harp_store_ref_read (dv_store d) LIVE_REF) = Some True
         then snd (do_snapshot (Some (str ''pre-revert'')) d) else d)"

lemma revert_unfolded:
  assumes "panel_revert n d = (True, d')" and "harp_store_ref_read (dv_store d) n = Some src"
  shows "\<not> rf_unborn src" and "revert_load (rf_hash src) (revert_base d) = (True, d')"
    and "\<not> dv_live_cache_valid (revert_base d)"
proof -
  show "\<not> rf_unborn src" "revert_load (rf_hash src) (revert_base d) = (True, d')"
    using assms by (auto simp: panel_revert_def revert_base_def Let_def split: option.splits prod.splits if_splits)
  show "\<not> dv_live_cache_valid (revert_base d)"
    by (simp add: revert_base_def Let_def snapshot_uncached) (simp add: live_cache_flush_def)
qed

lemma revert_load_done:
  assumes "revert_load h d = (True, d')" and "\<not> dv_live_cache_valid d"
    and "harp_store_ref_read (dv_store d) LIVE_REF = Some live"
  obtains st where "harp_store_ref_write (wd_alloc (dv_world d)) (dv_store d) (revert_live h live) = (True, st)"
    and "dv_store d' = st" and "engine_load_snapshot h d = (True, d\<lparr>dv_engine := dv_engine d'\<rparr>)"
proof -
  obtain d1 where l: "engine_load_snapshot h d = (True, d1)"
    using assms(1) by (auto simp: revert_load_def split: prod.splits bool.splits)
  note d1 = load_snapshot_engine [OF l]
  have k: "dv_store d1 = dv_store d" "dv_world d1 = dv_world d" "dv_live_cache_valid d1 = dv_live_cache_valid d"
    by (subst d1, simp)+
  with assms(2) have "live_cache_flush d1 = d1" by (simp add: live_cache_flush_def)
  with assms(1,3) l k obtain st where "harp_store_ref_write (wd_alloc (dv_world d)) (dv_store d) (revert_live h live) = (True, st)"
    and d': "d' = echo_part0 (ntf_state_changed (revert_live h live) (d1\<lparr>dv_store := st\<rparr>))"
    by (auto simp: revert_load_def Let_def split: prod.splits bool.splits)
  moreover from d' have "dv_store d' = st" "dv_engine d' = dv_engine d1" by (simp_all add: echo_keeps ntf_keeps)
  ultimately show thesis using that l d1 by metis
qed



section \<open>Examples\<close>

text \<open>
  A machine that saturates, a frontend that asks for the number of parts in two reads, and a device whose store holds a
  snapshot of an empty tree under the ref \<open>a\<close>.
\<close>

definition ex_panel_env :: panel_env where
  "ex_panel_env = \<lparr>pe_alloc = (\<lambda>n. True), pe_int = (\<lambda>v. 0), pe_u32 = (\<lambda>v. 0)\<rparr>"

definition ex_frontend :: os where
  "ex_frontend = \<lparr>os_rd = [RdData (str ''par''), RdData (str ''ts'' @ [10])], os_wr = [], os_out = []\<rparr>"

definition ex_snap_hash :: harp_hash where
  "ex_snap_hash = HARP_HASH_ALG_SHA256 # replicate 32 1"

definition ex_patch_ref :: harp_ref where
  "ex_patch_ref = \<lparr>rf_name = str ''a'', rf_unborn = False, rf_hash = ex_snap_hash, rf_generation = 1, rf_dirty = False\<rparr>"

definition ex_patch_store :: harp_store where
  "ex_patch_store = ex_store\<lparr>sto_fs :=
     [(obj_path ex_store ex_snap_hash, File ([0xa2, 0, 3, 1, 0x58, 33] @ ex_hash)),
      (obj_path ex_store ex_hash, File [0xa2, 0, 2, 1, 0xa0]),
      (str ''d/refs/a'', File (ref_bytes ex_patch_ref))] @ sto_fs ex_store\<rparr>"

definition ex_patch_device :: "unit device" where
  "ex_patch_device = ex_device\<lparr>dv_store := ex_patch_store, dv_world := ex_world\<lparr>wd_alloc := ex_alloc\<rparr>\<rparr>"

lemma ex_patch_fields: "dv_store ex_patch_device = ex_patch_store" "wd_alloc (dv_world ex_patch_device) = ex_alloc"
  "dv_live_cache_valid ex_patch_device = False" "dv_hello_done ex_patch_device = False"
  by (simp_all add: ex_patch_device_def ex_device_def)

lemma panel_chunking_witness:
  "os_out (pc_fd (snd (panel_session ex_panel_env ex_device \<lparr>pc_fd = ex_frontend, pc_buf = []\<rparr>))) =
     str ''{\"parts\":16}'' @ [10]"
proof -
  have p: "rd_plain (os_rd ex_frontend)" "lines_fit [] (rd_bytes (os_rd ex_frontend))" by code_simp+
  have l: "split_lines [] (rd_bytes (os_rd ex_frontend)) = [str ''parts'']" by code_simp
  have c: "panel_handle_line ex_panel_env (str ''parts'') d = (Some (str ''{\"parts\":16}''), d)" for d :: "unit device"
    by (simp add: panel_handle_line_def panel_command_def str_def NPARTS_def decimal.simps snprintf_def PANEL_BODY_def)
  have n: "cstr (takeWhile (\<lambda>b. b \<noteq> 10) (str ''parts'' @ [10])) = str ''parts''" by code_simp
  have w: "fd_write_all (cstr (str ''{\"parts\":16}'')) (no_input ex_frontend) =
      (True, \<lparr>os_rd = [], os_wr = [], os_out = str ''{\"parts\":16}''\<rparr>)"
    "fd_write_all [10] \<lparr>os_rd = [], os_wr = [], os_out = str ''{\"parts\":16}''\<rparr> =
      (True, \<lparr>os_rd = [], os_wr = [], os_out = str ''{\"parts\":16}'' @ [10]\<rparr>)" by code_simp+
  from panel_chunking [OF p, of ex_panel_env ex_device]
  have "no_input (pc_fd (snd (panel_session ex_panel_env ex_device \<lparr>pc_fd = ex_frontend, pc_buf = []\<rparr>))) =
      \<lparr>os_rd = [], os_wr = [], os_out = str ''{\"parts\":16}'' @ [10]\<rparr>"
    by (simp add: l panel_line_def n c w map_prod_def split: prod.splits)
  from arg_cong [OF this, of os_out] show ?thesis by simp
qed


lemma panel_params_fit_witness: "panel_json_params ex_device 3 PANEL_BODY \<noteq> None"
  using panel_params_fit [of ex_device 3] by (simp add: shown_product_def ex_device_def str_def)

lemma ex_patch_objects: "obj_file ex_patch_store ex_hash = Some [0xa2, 0, 2, 1, 0xa0]"
  "obj_file ex_patch_store ex_snap_hash = Some ([0xa2, 0, 3, 1, 0x58, 33] @ ex_hash)" by code_simp+

lemma ex_tree_walk: "harp_obj_tree_foreach [0xa2, 0, 2, 1, 0xa0] cb ctx = (True, ctx)"
proof -
  have "obj_enc (tree_item []) = [0xa2, 0, 2, 1, 0xa0]" by code_simp
  moreover have "tree_ok []" by (simp add: tree_ok_def)
  ultimately show ?thesis using tree_foreach_enc [of "[]" cb ctx] by simp
qed

lemma ex_patch_get:
  assumes "obj_file ex_patch_store h = Some x" and "length x \<le> 100"
  shows "\<exists>b. harp_store_get ex_patch_store h (harp_cbuf_init ex_alloc) = (True, b) \<and> cb_buf b = x"
proof -
  have f: "flt_ferror (sto_flt ex_patch_store) p = False" for p by (simp add: ex_patch_store_def ex_store_def no_faults_def)
  have "cb_buf (fread_loop (harp_cbuf_init ex_alloc) x) = x" "\<not> cb_oom (fread_loop (harp_cbuf_init ex_alloc) x)"
    using emits_fits(1,2) [OF emits_fread_loop [of x], of "harp_cbuf_init ex_alloc" 100] assms
    by (auto simp: harp_cbuf_init_def ex_alloc_def cbuf_wf_def)
  with assms(1) f show ?thesis by (auto simp: harp_store_get_def obj_file_def Let_def)
qed

lemma ex_patch_loads: "\<exists>g. engine_load_snapshot ex_snap_hash ex_patch_device = (True, ex_patch_device\<lparr>dv_engine := g\<rparr>)"
proof -
  have p: "harp_obj_parse_snapshot_root ([0xa2, 0, 3, 1, 0x58, 33] @ ex_hash) = Some ex_hash" by code_simp
  have l: "length ([0xa2, 0, 3, 1, 0x58, 33] @ ex_hash) \<le> 100" "length [0xa2, 0, 2, 1, 0xa0 :: u8] \<le> 100"
    by (simp_all add: ex_hash_def)
  from ex_patch_get [OF ex_patch_objects(2) l(1)] ex_patch_get [OF ex_patch_objects(1) l(2)] show ?thesis
    by (auto simp: engine_load_snapshot_def ex_patch_fields p [simplified] ex_tree_walk)
qed



end
