(* ===== verification/Spec2Isabelle.thy ===== *)
theory Spec2Isabelle
  imports Harp_Anonymize Harp_Recall Harp_Retention Harp_Wire Harp_Transfer Harp_Panel
begin

text \<open>
  \<^bold>\<open>HARP: a verification of the core library, the device daemon and the host's protocol client.\<close>

  HARP is a protocol between an audio device and a host.  A byte pipe (a socket or USB endpoints) carries frames of several
  streams; the control stream carries CBOR envelopes, the object stream content-addressed objects, the event
  stream timestamped events.  The device keeps its state as objects in a file store, with named refs to snapshots; the host
  copies closures of objects in both directions and moves refs by compare-and-swap.  Audio goes over USB, or
  over the network as RTP packets.

  \<^bold>\<open>Parts, and the theories that model them.\<close>  Paths are relative to \<^verbatim>\<open>src/\<close>.  Definitions have the names of the C functions and
  stand in the order of the sources.

  \<^item> \<open>Harp_Prelude\<close>: machine words, bytes, C strings, byte order.
  \<^item> \<open>Harp_Cbor\<close>, \<open>Harp_Float\<close>: \<^verbatim>\<open>core/src/cbor.c\<close>.  The output buffer with its allocator and its sticky out-of-memory
    flag, the encoder, the decoder with its sticky error, floating point items in three widths.  The locale
    \<open>cdec_reader\<close> states what every decoder call promises (it stays inside the input, is sticky, makes progress) and is
    interpreted on all of them.
  \<^item> \<open>Harp_Frame\<close>, \<open>Harp_Envelope\<close>: \<^verbatim>\<open>core/src/frame.c\<close>, \<^verbatim>\<open>audio.c\<close>, \<^verbatim>\<open>envelope.c\<close>.
  \<^item> \<open>Harp_Io\<close>, \<open>Harp_Link\<close>: \<^verbatim>\<open>core/src/link.c\<close> and \<^verbatim>\<open>device/ffs_link.c\<close>.  The kernel is a script of the outcomes of its
    calls.  The locale \<open>byte_pipe\<close> is the contract of an exact read and a full write; sockets and FunctionFS
    endpoints are its two interpretations, and reassembly is proved over the locale.
  \<^item> \<open>Harp_Sha256\<close>, \<open>Harp_Object\<close>: \<^verbatim>\<open>core/src/sha256.c\<close> against FIPS 180-4, and \<^verbatim>\<open>object.c\<close>.
  \<^item> \<open>Harp_Fs\<close>, \<open>Harp_Store\<close>, \<open>Harp_Gc\<close>: \<^verbatim>\<open>core/src/store.c\<close> over a file system in which every call may fail; crashes of
    an atomic write; mark and sweep over the open-addressed table, whose contract is the locale \<open>mark_set\<close>
    (extended by \<open>hash_mark_set\<close> with the marking).
  \<^item> \<open>Harp_Anonymize\<close>: \<^verbatim>\<open>core/src/anonymize.c\<close>.
  \<^item> \<open>Harp_Policy\<close>, \<open>Harp_Logring\<close>, \<open>Harp_Engine\<close>: the headers of pure decisions under \<^verbatim>\<open>device/\<close>, \<^verbatim>\<open>device/log_ring.c\<close>, and the
    event side of \<^verbatim>\<open>device/engine.c\<close> in single precision arithmetic.
  \<^item> \<open>Harp_Device\<close>, \<open>Harp_State\<close>, \<open>Harp_Events\<close>, \<open>Harp_Session\<close>, \<open>Harp_Control\<close>: the daemon.  One record \<open>device\<close> is
    \<^verbatim>\<open>struct device\<close> of \<^verbatim>\<open>device/device.h\<close>; \<^verbatim>\<open>device/state.c\<close> and all of \<^verbatim>\<open>device/session.c\<close>, which is every control
    method with all error replies, the object and event streams and the session loop, are functions on it.  The two object
    queues (here and in the client) are interpretations of the locale \<open>bounded_fifo\<close>.
  \<^item> \<open>Harp_Client\<close>: all of \<^verbatim>\<open>host/client.c\<close>.
  \<^item> \<open>Harp_Panel\<close>: \<^verbatim>\<open>device/panel.c\<close>, the line protocol of the front panel: the replies, the patch load, the line splitter
    and the turn of the \<^verbatim>\<open>poll\<close> loop.
  \<^item> \<open>Harp_Rtp\<close>, \<open>Harp_Freerun\<close>: \<^verbatim>\<open>host/rtp.c\<close>, the sender in \<^verbatim>\<open>device/harp-deviced.c\<close>, the receiver in
    \<^verbatim>\<open>shell/eth_transport.h\<close>, \<^verbatim>\<open>host/freerun.c\<close> and \<^verbatim>\<open>host/rtp_udp.c\<close>.

  \<^bold>\<open>What the theorems show.\<close>

  \<^item> \<^emph>\<open>Total recall.\<close>  A snapshot that the device stored restores the patch bit for bit (\<open>Harp_Recall\<close>).  The store keeps its
    objects under their hashes, an interrupted write leaves the old or the new file, the collector removes exactly
    what no ref reaches, and pruning keeps the newest archives (\<open>Harp_Store\<close>, \<open>Harp_Gc\<close>, \<open>Harp_Retention\<close>).
  \<^item> \<^emph>\<open>Sessions.\<close>  Whatever a host sends, the tables of the device stay in bounds (\<open>Harp_Invariant\<close>), nothing happens before
    hello, and the credit window stays open (\<open>Harp_Gate\<close>).  A refused \<^verbatim>\<open>state.refset\<close> changes nothing, an accepted one
    swaps the ref, and its closure test is exact (\<open>Harp_Refset\<close>).
  \<^item> \<^emph>\<open>Host and device together.\<close>  The device understands what the client builds, and the client reads the identity of the
    device from its reply (\<open>Harp_Wire\<close>).  Answers are matched to requests, a fetched closure is complete, pushed objects go out in
    order and within credit, whatever the other side does (\<open>Harp_Transfer\<close>).
  \<^item> \<^emph>\<open>Events.\<close>  Transactions are atomic and their table refines a map, batching is invisible, fences open, due
    events are applied once and in order, released notes are silent (\<open>Harp_Events\<close>, \<open>Harp_Engine\<close>).
  \<^item> \<^emph>\<open>Codecs.\<close>  Round trips of CBOR, floats, trees and link messages; bounds and termination of the receiver; SHA-256
    and the anonymizer against their specifications; the log ring as a bounded queue.
  \<^item> \<^emph>\<open>Network audio.\<close>  Frames that were split survive loss, duplication and reordering slot by slot, the loss counter is exact, and
    the elastic buffer is a queue under every interleaving of its two threads (\<open>Harp_Rtp\<close>, \<open>Harp_Freerun\<close>).

  \<^item> \<^emph>\<open>Front panel.\<close>  Its answers do not depend on how requests are cut into reads, a patch load that reports success has happened, the
    device stays well-formed whatever frontends send, and the replies are complete (\<open>Harp_Panel\<close>).

  Properties carry the label C followed by their number in the manifest.

  \<^bold>\<open>Conventions.\<close>  Integers have their C width as words where they can wrap; sizes and indices that the code bounds are natural numbers.
  A call that can fail returns an option or a Boolean; an allocation can fail at any point, by the budget in the
  buffer.  Mutexes are left out: each operation that the code runs under one is a single step.  Time, system calls,
  environment variables, the C library's decimal conversions (except for those of the panel, which are defined) and libsamplerate are
  arguments or fields, and nothing is assumed of them beyond the hypotheses shown in the theorems.

  \<^bold>\<open>Bounds and fuel.\<close>  Loops of the sources are recursive functions that terminate by a measure, with the limits of the sources where
  these have them: 17 levels of the closure walk, 4096 and 100000 messages in the client's waits, batches of 64 and closures of 512
  hashes, 32 archives.  Where the sources have no limit the fuel is derived from the data and proved sufficient: the
  probe loop of the mark table runs at most once around the table; marking recurses at most once per object plus two levels,
  since each call marks a new object; the directory walk of the refs is bounded by the 160 bytes of a ref name that the store
  enforces; a receive loop ends with the script of the kernel, in which an end of file follows the last byte.

  \<^bold>\<open>Not modelled.\<close>  The oscillators, filters and envelopes of the render functions and the step clock of the
  arpeggiator in \<^verbatim>\<open>device/engine.c\<close>, because they compute on libm functions without a specified result; the audio loops
  (\<^verbatim>\<open>device/audio_loop.c\<close>), command line and USB set-up
  (\<^verbatim>\<open>device/harp-deviced.c\<close>, \<^verbatim>\<open>device/ffs.c\<close>), the platform layer, libusb, mDNS and socket code of \<^verbatim>\<open>host/\<close>, because they are
  sequences of system and library calls; the probe, which is a test program; the plug-in shell in C++ apart from its RTP receiver;
  tests, tools, fuzzers and the example engine.
\<close>

end
